(* ===== verification/Harc_Prelude.thy ===== *)
theory Harc_Prelude
  imports Main "HOL-Library.Word" "HOL-Library.Monad_Syntax" "HOL-Library.Signed_Division"
begin

text \<open>
  Shared vocabulary of the development: names for Rust's machine integers, the result type of
  fallible code, indexed writes that can panic, decimal rendering of numbers, and the generic
  facts on lists, options and words that the component theories use.

  Rust's \<^verbatim>\<open>u32\<close>, \<^verbatim>\<open>u64\<close> and \<^verbatim>\<open>u128\<close> values that are computed with are words; widths, indices
  and lengths that the code only compares, adds and stores are naturals.
\<close>

unbundle bit_operations_syntax

type_synonym u32 = "32 word"
type_synonym u64 = "64 word"
type_synonym u128 = "128 word"

text \<open>Rust's \<^verbatim>\<open>Result<T, E>\<close>: the error is on the left.\<close>

type_synonym ('e, 'a) result = "'e + 'a"

abbreviation (input) Err :: "'e \<Rightarrow> ('e, 'a) result" where
  "Err \<equiv> Inl"

abbreviation (input) Ok :: "'a \<Rightarrow> ('e, 'a) result" where
  "Ok \<equiv> Inr"

text \<open>The \<^verbatim>\<open>?\<close> operator: an error is returned at once, a value is passed on.\<close>

definition try_bind :: "('e, 'a) result \<Rightarrow> ('a \<Rightarrow> ('e, 'b) result) \<Rightarrow> ('e, 'b) result" where
  "try_bind r k = (case r of Inl e \<Rightarrow> Inl e | Inr x \<Rightarrow> k x)"

named_theorems result_simps \<open>rewriting of the error monad\<close>

lemma try_Inl [simp, result_simps]: "try_bind (Inl e) k = Inl e"
  by (simp add: try_bind_def)

lemma try_Inr [simp, result_simps]: "try_bind (Inr x) k = k x"
  by (simp add: try_bind_def)

lemma try_eq_Inr_iff [result_simps]: "try_bind r k = Inr y \<longleftrightarrow> (\<exists>x. r = Inr x \<and> k x = Inr y)"
  by (cases r) auto

lemma try_eq_Inl_iff [result_simps]:
  "try_bind r k = Inl e \<longleftrightarrow> r = Inl e \<or> (\<exists>x. r = Inr x \<and> k x = Inl e)"
  by (cases r) auto

lemma try_cong [fundef_cong]:
  "r = r' \<Longrightarrow> (\<And>x. r' = Inr x \<Longrightarrow> k x = k' x) \<Longrightarrow> try_bind r k = try_bind r' k'"
  by (cases r') auto

text \<open>A loop that collects results and returns at the first error.\<close>

fun try_map :: "('a \<Rightarrow> ('e, 'b) result) \<Rightarrow> 'a list \<Rightarrow> ('e, 'b list) result" where
  "try_map f [] = Ok []"
| "try_map f (x # xs) = try_bind (f x) (\<lambda>y. try_bind (try_map f xs) (\<lambda>ys. Ok (y # ys)))"

lemma try_map_cong [fundef_cong]:
  "xs = ys \<Longrightarrow> (\<And>x. x \<in> set ys \<Longrightarrow> f x = g x) \<Longrightarrow> try_map f xs = try_map g ys"
  by (induction ys arbitrary: xs) auto

lemma try_map_Inr_iff: "try_map f xs = Inr ys \<longleftrightarrow> list_all2 (\<lambda>x y. f x = Inr y) xs ys"
  by (induction xs arbitrary: ys) (auto simp: result_simps list_all2_Cons1)

text \<open>An indexed write \<^verbatim>\<open>xs[i] = v\<close>: \<open>None\<close> is the out-of-range panic.\<close>

definition set_at :: "'a list \<Rightarrow> nat \<Rightarrow> 'a \<Rightarrow> 'a list option" where
  "set_at xs i v = (if i < length xs then Some (xs[i := v]) else None)"

lemma set_at_Some_iff [simp]: "set_at xs i v = Some ys \<longleftrightarrow> i < length xs \<and> ys = xs[i := v]"
  by (auto simp: set_at_def)

section \<open>Decimal rendering\<close>

definition digit_char :: "nat \<Rightarrow> char" where
  "digit_char n = char_of (48 + n)"

fun show_nat :: "nat \<Rightarrow> string" where
  "show_nat n = (if n < 10 then [digit_char n] else show_nat (n div 10) @ [digit_char (n mod 10)])"

declare show_nat.simps [simp del]

definition char_digit :: "char \<Rightarrow> nat" where
  "char_digit c = of_char c - 48"

definition is_ascii_digit :: "char \<Rightarrow> bool" where
  "is_ascii_digit c \<longleftrightarrow> 48 \<le> (of_char c :: nat) \<and> (of_char c :: nat) \<le> 57"

text \<open>The value of a digit string, most significant digit first.\<close>

definition read_nat :: "string \<Rightarrow> nat" where
  "read_nat s = foldl (\<lambda>acc c. 10 * acc + char_digit c) 0 s"

lemma read_nat_snoc [simp]: "read_nat (s @ [c]) = 10 * read_nat s + char_digit c"
  by (simp add: read_nat_def)

lemma read_nat_Nil [simp]: "read_nat [] = 0"
  by (simp add: read_nat_def)

lemma of_char_digit_char: "n < 10 \<Longrightarrow> of_char (digit_char n) = 48 + n"
  by (simp add: digit_char_def of_char_of)

lemma char_digit_digit_char [simp]: "n < 10 \<Longrightarrow> char_digit (digit_char n) = n"
  by (simp add: char_digit_def of_char_digit_char)

lemma is_ascii_digit_digit_char [simp]: "n < 10 \<Longrightarrow> is_ascii_digit (digit_char n)"
  by (simp add: is_ascii_digit_def of_char_digit_char)

lemma read_show_nat [simp]: "read_nat (show_nat n) = n"
proof (induction n rule: show_nat.induct)
  case (1 n)
  show ?case
  proof (cases "n < 10")
    case True
    then have "show_nat n = [] @ [digit_char n]" by (simp add: show_nat.simps [of n])
    then show ?thesis using True by (simp only: read_nat_snoc) simp
  next
    case False
    with 1 show ?thesis by (simp add: show_nat.simps [of n])
  qed
qed

lemma show_nat_digits: "c \<in> set (show_nat n) \<Longrightarrow> is_ascii_digit c"
proof (induction n rule: show_nat.induct)
  case (1 n)
  then show ?case
    by (cases "n < 10") (auto simp: show_nat.simps [of n])
qed

lemma show_nat_not_Nil [simp]: "show_nat n \<noteq> []"
  by (subst show_nat.simps) simp

lemma show_nat_inject [simp]: "show_nat m = show_nat n \<longleftrightarrow> m = n"
  by (metis read_show_nat)

text \<open>
  Rust's \<^verbatim>\<open>{:0k}\<close> format of a number, and the digits of the \<open>k\<close> lowest decimal places, with which
  padded chunks are put together.
\<close>

definition zero_pad :: "nat \<Rightarrow> nat \<Rightarrow> string" where
  "zero_pad k n = replicate (k - length (show_nat n)) (CHR ''0'') @ show_nat n"

fun low_digits :: "nat \<Rightarrow> nat \<Rightarrow> string" where
  "low_digits 0 n = []"
| "low_digits (Suc k) n = low_digits k (n div 10) @ [digit_char (n mod 10)]"

lemma digit_char_0 [simp]: "digit_char 0 = CHR ''0''"
  by code_simp

lemma low_digits_0: "low_digits k 0 = replicate k (CHR ''0'')"
  by (induction k) (simp_all add: replicate_append_same)

lemma zero_pad_low_digits: "0 < k \<Longrightarrow> n < 10 ^ k \<Longrightarrow> zero_pad k n = low_digits k n"
proof (induction k arbitrary: n)
  case (Suc k)
  show ?case
  proof (cases "n < 10")
    case True
    then show ?thesis by (simp add: zero_pad_def show_nat.simps [of n] low_digits_0)
  next
    case False
    with Suc.prems have k: "0 < k" by (cases k) simp_all
    from Suc.prems have "n div 10 < 10 ^ k" by (simp add: div_less_iff_less_mult mult.commute)
    then have "zero_pad k (n div 10) = low_digits k (n div 10)" using k by (intro Suc.IH)
    with False show ?thesis by (simp add: zero_pad_def show_nat.simps [of n])
  qed
qed simp

lemma show_nat_chunk: "0 < q \<Longrightarrow> r < 10 ^ k \<Longrightarrow> show_nat (10 ^ k * q + r) = show_nat q @ low_digits k r"
proof (induction k arbitrary: r)
  case (Suc k)
  let ?n = "10 ^ Suc k * q + r"
  have "10 * 1 \<le> 10 ^ Suc k * q" using Suc.prems(1) by (intro mult_le_mono) simp_all
  then have "\<not> ?n < 10" by linarith
  moreover have "?n div 10 = 10 ^ k * q + r div 10" "?n mod 10 = r mod 10"
    using div_mult_self2 [of 10 r "10 ^ k * q"] mod_mult_self2 [of r 10 "10 ^ k * q"]
    by (simp_all add: algebra_simps)
  ultimately have "show_nat ?n = show_nat (10 ^ k * q + r div 10) @ [digit_char (r mod 10)]"
    by (subst show_nat.simps) simp
  moreover have "r div 10 < 10 ^ k" using Suc.prems(2) by (simp add: div_less_iff_less_mult mult.commute)
  ultimately show ?case using Suc.IH [of "r div 10"] Suc.prems(1) by simp
qed simp

text \<open>A signed decimal numeral.\<close>

definition show_int :: "int \<Rightarrow> string" where
  "show_int i = (if i < 0 then ''-'' @ show_nat (nat (- i)) else show_nat (nat i))"

text \<open>Rust's \<^verbatim>\<open>parts.join(sep)\<close>.\<close>

fun join :: "string \<Rightarrow> string list \<Rightarrow> string" where
  "join sep [] = []"
| "join sep [x] = x"
| "join sep (x # y # xs) = x @ sep @ join sep (y # xs)"

lemma join_Cons: "join sep (x # xs) = x @ (if xs = [] then [] else sep @ join sep xs)"
  by (cases xs) simp_all

section \<open>Bit lengths\<close>

text \<open>Floor division and the complement.\<close>

lemma div_complement:
  fixes x d :: int
  assumes "0 < d"
  shows "(- 1 - x) div d = - (x div d) - 1"
proof (rule int_div_pos_eq)
  show "- 1 - x = d * (- (x div d) - 1) + (d - 1 - x mod d)"
    by (simp add: algebra_simps mult_div_mod_eq [symmetric])
qed (use assms pos_mod_bound [OF assms, of x] pos_mod_sign [OF assms, of x] in linarith)+


text \<open>
  The number of significant bits of a natural, \<^verbatim>\<open>BITS - leading_zeros\<close> of a machine integer that
  holds it.
\<close>

fun bit_len :: "nat \<Rightarrow> nat" where
  "bit_len n = (if n = 0 then 0 else Suc (bit_len (n div 2)))"

declare bit_len.simps [simp del]

lemma bit_len_0 [simp]: "bit_len 0 = 0"
  by (simp add: bit_len.simps)

lemma bit_len_pos: "0 < n \<Longrightarrow> bit_len n = Suc (bit_len (n div 2))"
  by (simp add: bit_len.simps [of n])

lemma bit_len_eq_0_iff [simp]: "bit_len n = 0 \<longleftrightarrow> n = 0"
  by (cases "n = 0") (simp_all add: bit_len_pos)

lemma bit_len_le_iff: "bit_len n \<le> k \<longleftrightarrow> n < 2 ^ k"
proof (induction k arbitrary: n)
  case 0
  then show ?case by simp
next
  case (Suc k)
  show ?case
  proof (cases "n = 0")
    case False
    then have "bit_len n \<le> Suc k \<longleftrightarrow> n div 2 < 2 ^ k"
      using Suc.IH by (simp add: bit_len_pos)
    also have "\<dots> \<longleftrightarrow> n < 2 ^ Suc k"
      by (simp add: div_less_iff_less_mult mult.commute)
    finally show ?thesis .
  qed simp
qed

lemma less_pow_bit_len: "n < 2 ^ bit_len n"
  using bit_len_le_iff by blast

lemma pow_bit_len_le:
  assumes "0 < n"
  shows "2 ^ (bit_len n - 1) \<le> n"
proof (rule ccontr)
  assume "\<not> 2 ^ (bit_len n - 1) \<le> n"
  then have "bit_len n \<le> bit_len n - 1" by (simp add: bit_len_le_iff)
  moreover from assms have "0 < bit_len n" by (cases "bit_len n") simp_all
  ultimately show False by linarith
qed

lemma bit_len_unique: "2 ^ k \<le> n \<Longrightarrow> n < 2 ^ Suc k \<Longrightarrow> bit_len n = Suc k"
  by (metis bit_len_le_iff le_SucE not_less)

lemma bit_len_mono: "m \<le> n \<Longrightarrow> bit_len m \<le> bit_len n"
  using bit_len_le_iff le_less_trans less_pow_bit_len by blast

lemma sdiv_nonneg: "0 \<le> x \<Longrightarrow> 0 \<le> y \<Longrightarrow> x sdiv y = x div (y::int)"
  by (cases "x = 0"; cases "y = 0") (simp_all add: signed_divide_int_def)

lemma smod_nonneg: "0 \<le> x \<Longrightarrow> 0 \<le> y \<Longrightarrow> x smod y = x mod (y::int)"
  by (cases "x = 0") (simp_all add: signed_modulo_int_def)

end
