(* ===== verification/Numeric_Semantics.thy ===== *)
theory Numeric_Semantics
  imports Harc_Prelude
begin

text \<open>
  \<^verbatim>\<open>src/src/numeric_semantics.rs\<close>: the operator enum of the language, the signedness policy the
  two native solver renderers share, and the 64-bit constant kernel \<^verbatim>\<open>fold_binary\<close>.

  A \<open>Scalar\<close> carries a 64-bit pattern and two provenance flags.  The correctness statements read
  patterns as mathematical integers (\<open>mathematical\<close>, the reading the repository's own proof
  harness uses) and compare every arm of the kernel with the exact integer operation.
\<close>

section \<open>Operators and the signedness policy\<close>

datatype BinaryOp =
    Add | AddWrap | Sub | SubWrap | Mul | MulWrap | Div | Mod
  | Eq | Ne | Lt | Le | Gt | Ge
  | AndAnd | OrOr | AndKw | OrKw
  | BitAnd | BitOr | BitXor | Shl | Shr
  | PipeImplies | PipeImpliesNext | Throughout | Within | Intersect
  | In | Inside

datatype ConstraintOperandSignedness = Signed | Unsigned | UntypedLiteral

definition unwrap_or :: "'a option \<Rightarrow> 'a \<Rightarrow> 'a" where
  "unwrap_or x d = (case x of None \<Rightarrow> d | Some v \<Rightarrow> v)"

lemma unwrap_or_simps [simp]: "unwrap_or None d = d" "unwrap_or (Some v) d = v"
  by (simp_all add: unwrap_or_def)

text \<open>\<^verbatim>\<open>u32::MAX\<close> is the all-ones word \<open>- 1\<close>.\<close>

definition solver_binary_is_signed ::
  "ConstraintOperandSignedness \<Rightarrow> ConstraintOperandSignedness \<Rightarrow> u32 option \<Rightarrow> u32 option \<Rightarrow> bool"
where
  "solver_binary_is_signed left right left_width right_width =
     (if left = Unsigned \<or> right = Unsigned then
        (case (left, right) of
           (Signed, Unsigned) \<Rightarrow>
             (let signed_width = unwrap_or left_width 0;
                  unsigned_width = unwrap_or right_width (- 1)
              in (signed_width < 32 \<and> unsigned_width < 32) \<or> signed_width > unsigned_width)
         | (Unsigned, Signed) \<Rightarrow>
             (let signed_width = unwrap_or right_width 0;
                  unsigned_width = unwrap_or left_width (- 1)
              in (signed_width < 32 \<and> unsigned_width < 32) \<or> signed_width > unsigned_width)
         | _ \<Rightarrow> False)
      else left = Signed \<or> right = Signed)"

section \<open>The 64-bit constant kernel\<close>

record Scalar =
  sc_bits :: u64
  sc_signed :: bool
  sc_boolean :: bool

datatype NumericError =
    ZeroDivisor | SignedDivisionOverflow | NegativeShift | ShiftOutOfRange
  | InvalidWrapWidth | Unsupported

definition arith :: "bool \<Rightarrow> u64 \<Rightarrow> Scalar" where
  "arith sg b = \<lparr>sc_bits = b, sc_signed = sg, sc_boolean = False\<rparr>"

definition boolean_scalar :: "bool \<Rightarrow> Scalar" where
  "boolean_scalar v = \<lparr>sc_bits = of_bool v, sc_signed = True, sc_boolean = True\<rparr>"

definition fold_wrap :: "u64 \<Rightarrow> u32 option \<Rightarrow> (NumericError, Scalar) result" where
  "fold_wrap raw wrap_width =
     (case wrap_width of
        None \<Rightarrow> Err InvalidWrapWidth
      | Some width \<Rightarrow>
          if width > 64 then Err InvalidWrapWidth
          else Ok \<lparr>sc_bits = (if width = 64 then raw
                               else raw AND (push_bit (unat width) 1 - 1)),
                   sc_signed = False, sc_boolean = False\<rparr>)"

definition fold_divmod :: "bool \<Rightarrow> Scalar \<Rightarrow> Scalar \<Rightarrow> (NumericError, Scalar) result" where
  "fold_divmod is_div a b =
     (let sg = sc_signed a \<and> sc_signed b in
      if sc_bits b = 0 then Err ZeroDivisor
      else if sg then
        (let x = sint (sc_bits a); y = sint (sc_bits b) in
         if x = - (2 ^ 63) \<and> y = - 1 then Err SignedDivisionOverflow
         else Ok (arith sg (word_of_int (if is_div then x sdiv y else x smod y))))
      else Ok (arith sg (if is_div then sc_bits a div sc_bits b else sc_bits a mod sc_bits b)))"

definition fold_shift :: "bool \<Rightarrow> Scalar \<Rightarrow> Scalar \<Rightarrow> (NumericError, Scalar) result" where
  "fold_shift is_shl a b =
     (if sc_signed b \<and> sint (sc_bits b) < 0 then Err NegativeShift
      else if sc_bits b \<ge> 64 then Err ShiftOutOfRange
      else Ok (arith (sc_signed a)
        (if is_shl then push_bit (unat (sc_bits b)) (sc_bits a)
         else if sc_signed a then signed_drop_bit (unat (sc_bits b)) (sc_bits a)
         else drop_bit (unat (sc_bits b)) (sc_bits a))))"

definition fold_bitwise :: "Scalar \<Rightarrow> Scalar \<Rightarrow> u64 \<Rightarrow> Scalar" where
  "fold_bitwise a b bits =
     (let boolean = sc_boolean a \<and> sc_boolean b in
      \<lparr>sc_bits = bits,
       sc_signed = (if boolean then True else sc_signed a \<and> sc_signed b),
       sc_boolean = boolean\<rparr>)"

definition fold_compare :: "(int \<Rightarrow> int \<Rightarrow> bool) \<Rightarrow> Scalar \<Rightarrow> Scalar \<Rightarrow> Scalar" where
  "fold_compare cmp a b =
     boolean_scalar (if sc_signed a \<and> sc_signed b then cmp (sint (sc_bits a)) (sint (sc_bits b))
                     else cmp (uint (sc_bits a)) (uint (sc_bits b)))"

fun fold_binary ::
  "BinaryOp \<Rightarrow> Scalar \<Rightarrow> Scalar \<Rightarrow> u32 option \<Rightarrow> (NumericError, Scalar) result"
where
  "fold_binary Add a b _ = Ok (arith (sc_signed a \<and> sc_signed b) (sc_bits a + sc_bits b))"
| "fold_binary Sub a b _ = Ok (arith (sc_signed a \<and> sc_signed b) (sc_bits a - sc_bits b))"
| "fold_binary Mul a b _ = Ok (arith (sc_signed a \<and> sc_signed b) (sc_bits a * sc_bits b))"
| "fold_binary AddWrap a b w = fold_wrap (sc_bits a + sc_bits b) w"
| "fold_binary SubWrap a b w = fold_wrap (sc_bits a - sc_bits b) w"
| "fold_binary MulWrap a b w = fold_wrap (sc_bits a * sc_bits b) w"
| "fold_binary Div a b _ = fold_divmod True a b"
| "fold_binary Mod a b _ = fold_divmod False a b"
| "fold_binary Shl a b _ = fold_shift True a b"
| "fold_binary Shr a b _ = fold_shift False a b"
| "fold_binary BitAnd a b _ = Ok (fold_bitwise a b (sc_bits a AND sc_bits b))"
| "fold_binary BitOr a b _ = Ok (fold_bitwise a b (sc_bits a OR sc_bits b))"
| "fold_binary BitXor a b _ = Ok (fold_bitwise a b (sc_bits a XOR sc_bits b))"
| "fold_binary Eq a b _ = Ok (boolean_scalar (sc_bits a = sc_bits b))"
| "fold_binary Ne a b _ = Ok (boolean_scalar (sc_bits a \<noteq> sc_bits b))"
| "fold_binary Lt a b _ = Ok (fold_compare (<) a b)"
| "fold_binary Le a b _ = Ok (fold_compare (\<le>) a b)"
| "fold_binary Gt a b _ = Ok (fold_compare (>) a b)"
| "fold_binary Ge a b _ = Ok (fold_compare (\<ge>) a b)"
| "fold_binary AndAnd a b _ = Ok (boolean_scalar (sc_bits a \<noteq> 0 \<and> sc_bits b \<noteq> 0))"
| "fold_binary AndKw a b _ = Ok (boolean_scalar (sc_bits a \<noteq> 0 \<and> sc_bits b \<noteq> 0))"
| "fold_binary OrOr a b _ = Ok (boolean_scalar (sc_bits a \<noteq> 0 \<or> sc_bits b \<noteq> 0))"
| "fold_binary OrKw a b _ = Ok (boolean_scalar (sc_bits a \<noteq> 0 \<or> sc_bits b \<noteq> 0))"
| "fold_binary _ a b _ = Err Unsupported"

lemmas fold_defs = arith_def boolean_scalar_def fold_wrap_def fold_divmod_def fold_shift_def
  fold_bitwise_def fold_compare_def Let_def

section \<open>The exact integer reading\<close>

definition mathematical :: "bool \<Rightarrow> Scalar \<Rightarrow> int" where
  "mathematical sg s = (if sg then sint (sc_bits s) else uint (sc_bits s))"

definition both_signed :: "Scalar \<Rightarrow> Scalar \<Rightarrow> bool" where
  "both_signed a b \<longleftrightarrow> sc_signed a \<and> sc_signed b"

text \<open>
  The exact result of an operator over the integers its operands denote.  Arithmetic and
  comparison read both operands signed when both are signed and unsigned otherwise; a shift reads
  its left operand by its own sign; a wrapping operator reduces modulo its width.
\<close>

fun exact_binary :: "BinaryOp \<Rightarrow> Scalar \<Rightarrow> Scalar \<Rightarrow> u32 option \<Rightarrow> int" where
  "exact_binary op a b w =
     (let x = mathematical (both_signed a b) a; y = mathematical (both_signed a b) b;
          m = 2 ^ unat (unwrap_or w 0) in
      case op of
        Add \<Rightarrow> x + y | Sub \<Rightarrow> x - y | Mul \<Rightarrow> x * y
      | AddWrap \<Rightarrow> (x + y) mod m | SubWrap \<Rightarrow> (x - y) mod m | MulWrap \<Rightarrow> (x * y) mod m
      | Div \<Rightarrow> x sdiv y | Mod \<Rightarrow> x smod y
      | Shl \<Rightarrow> mathematical (sc_signed a) a * 2 ^ nat (mathematical (sc_signed b) b)
      | Shr \<Rightarrow> mathematical (sc_signed a) a div 2 ^ nat (mathematical (sc_signed b) b)
      | BitAnd \<Rightarrow> x AND y | BitOr \<Rightarrow> x OR y | BitXor \<Rightarrow> x XOR y
      | Eq \<Rightarrow> of_bool (x = y) | Ne \<Rightarrow> of_bool (x \<noteq> y)
      | Lt \<Rightarrow> of_bool (x < y) | Le \<Rightarrow> of_bool (x \<le> y)
      | Gt \<Rightarrow> of_bool (x > y) | Ge \<Rightarrow> of_bool (x \<ge> y)
      | AndAnd \<Rightarrow> of_bool (x \<noteq> 0 \<and> y \<noteq> 0) | AndKw \<Rightarrow> of_bool (x \<noteq> 0 \<and> y \<noteq> 0)
      | OrOr \<Rightarrow> of_bool (x \<noteq> 0 \<or> y \<noteq> 0) | OrKw \<Rightarrow> of_bool (x \<noteq> 0 \<or> y \<noteq> 0)
      | _ \<Rightarrow> 0)"

text \<open>When the exact operation is defined at 64 bits.\<close>

fun defined_binary :: "BinaryOp \<Rightarrow> Scalar \<Rightarrow> Scalar \<Rightarrow> u32 option \<Rightarrow> bool" where
  "defined_binary op a b w =
     (let x = mathematical (both_signed a b) a; y = mathematical (both_signed a b) b;
          k = mathematical (sc_signed b) b in
      if op \<in> {AddWrap, SubWrap, MulWrap} then (\<exists>n. w = Some n \<and> n \<le> 64)
      else if op \<in> {Div, Mod} then y \<noteq> 0 \<and> (both_signed a b \<longrightarrow> x sdiv y < 2 ^ 63)
      else if op \<in> {Shl, Shr} then 0 \<le> k \<and> k < 64
      else op \<notin> {PipeImplies, PipeImpliesNext, Throughout, Within, Intersect, In, Inside})"


section \<open>Agreement of the kernel with the exact operation\<close>

lemma word_of_int_mathematical [simp]: "word_of_int (mathematical sg s) = sc_bits s"
  by (simp add: mathematical_def)

lemma mathematical_inject [simp]:
  "mathematical sg a = mathematical sg b \<longleftrightarrow> sc_bits a = sc_bits b"
  by (metis mathematical_def word_of_int_mathematical)

lemma mathematical_eq_0_iff [simp]: "mathematical sg a = 0 \<longleftrightarrow> sc_bits a = 0"
  by (metis mathematical_def of_int_0 signed_0 unsigned_0 word_of_int_mathematical)

lemma mask_word_eq_take_bit: "(x :: 'a::len word) AND (2 ^ n - 1) = take_bit n x"
  by (simp add: take_bit_eq_mask mask_eq_exp_minus_1)

lemma fold_wrap_Ok:
  assumes "fold_wrap raw w = Ok r"
  shows "\<exists>n. w = Some n \<and> n \<le> 64 \<and> r = arith False (take_bit (unat n) raw)"
proof -
  from assms obtain n where n: "w = Some n" "n \<le> 64"
    and r: "r = \<lparr>sc_bits = (if n = 64 then raw else raw AND (push_bit (unat n) 1 - 1)),
                 sc_signed = False, sc_boolean = False\<rparr>"
    by (auto simp: fold_wrap_def not_less split: option.splits if_splits)
  have "(if n = 64 then raw else raw AND (push_bit (unat n) 1 - 1)) = take_bit (unat n) raw"
  proof (cases "n = 64")
    case True
    then show ?thesis by (simp add: take_bit_length_eq [where 'a = 64, simplified])
  next
    case False
    with n have "unat n < 64" by (simp add: word_le_nat_alt unat_arith_simps)
    with False show ?thesis by (simp add: mask_word_eq_take_bit)
  qed
  with n r show ?thesis by (simp add: arith_def)
qed

lemma fold_wrap_defined: "(\<exists>r. fold_wrap k w = Ok r) \<longleftrightarrow> (\<exists>n. w = Some n \<and> n \<le> 64)"
  by (auto simp: fold_wrap_def not_less split: option.splits)

lemma take_bit_word_of_int_mod:
  "n \<le> 64 \<Longrightarrow> take_bit n (word_of_int k :: u64) = word_of_int (k mod 2 ^ n)"
  by (rule bit_word_eqI) (auto simp: bit_simps take_bit_eq_mod [symmetric])

lemma uint_take_bit_word_of_int:
  assumes "n \<le> 64"
  shows "uint (take_bit n (word_of_int k :: u64)) = k mod 2 ^ n"
proof -
  have "k mod 2 ^ n < (2 ^ n :: int)" by simp
  also have "(2 ^ n :: int) \<le> 2 ^ 64" by (rule power_increasing) (use assms in auto)
  finally show ?thesis
    using assms by (simp add: take_bit_word_of_int_mod uint_word_of_int)
qed

lemma fold_divmod_exact:
  assumes "fold_divmod d a b = Ok r"
  shows "sc_bits r = word_of_int (let x = mathematical (both_signed a b) a;
            y = mathematical (both_signed a b) b in if d then x sdiv y else x smod y)"
  using assms
  by (auto simp: fold_divmod_def arith_def mathematical_def both_signed_def Let_def
      sdiv_nonneg smod_nonneg uint_div_distrib [symmetric] uint_mod_distrib [symmetric] split: if_splits)

lemma sint_nonneg_eq_uint:
  fixes w :: "'a::len word"
  assumes "0 \<le> sint w"
  shows "sint w = uint w"
proof -
  have "sint w < 2 ^ (LENGTH('a) - Suc 0)" by (rule sint_lt [simplified])
  also have "(2::int) ^ (LENGTH('a) - Suc 0) \<le> 2 ^ LENGTH('a)" by (rule power_increasing) auto
  finally have "take_bit LENGTH('a) (sint w) = sint w"
    using assms by (simp add: take_bit_int_eq_self)
  moreover have "uint w = uint (word_of_int (sint w) :: 'a word)" by simp
  moreover have "\<dots> = take_bit LENGTH('a) (sint w)" by (rule unsigned_of_int [where 'a = int, simplified])
  ultimately show ?thesis by simp
qed

lemma fold_shift_exact:
  assumes "fold_shift l a b = Ok r"
  shows "sc_bits r = word_of_int (let x = mathematical (sc_signed a) a;
            n = nat (mathematical (sc_signed b) b) in if l then x * 2 ^ n else x div 2 ^ n)"
proof -
  let ?n = "unat (sc_bits b)"
  from assms have nonneg: "\<not> (sc_signed b \<and> sint (sc_bits b) < 0)"
    and r: "r = arith (sc_signed a) (if l then push_bit ?n (sc_bits a)
         else if sc_signed a then signed_drop_bit ?n (sc_bits a) else drop_bit ?n (sc_bits a))"
    by (auto simp: fold_shift_def split: if_splits)
  have n: "nat (mathematical (sc_signed b) b) = ?n"
    using nonneg by (auto simp: mathematical_def not_less sint_nonneg_eq_uint)
  have "word_of_int (sint (sc_bits a) div 2 ^ ?n) = signed_drop_bit ?n (sc_bits a)"
    by (simp flip: drop_bit_eq_div sint_signed_drop_bit_eq)
  moreover have "word_of_int (uint (sc_bits a) div 2 ^ ?n) = drop_bit ?n (sc_bits a)"
    by (rule bit_word_eqI) (auto simp: bit_simps simp flip: drop_bit_eq_div)
  ultimately show ?thesis
    unfolding Let_def n by (simp add: r arith_def mathematical_def push_bit_eq_mult)
qed

lemma word_of_int_bitwise:
  "word_of_int (k AND l) = (word_of_int k AND word_of_int l :: 'a::len word)"
  "word_of_int (k OR l) = (word_of_int k OR word_of_int l :: 'a::len word)"
  "word_of_int (k XOR l) = (word_of_int k XOR word_of_int l :: 'a::len word)"
  by (rule bit_word_eqI; auto simp: bit_simps)+

lemma fold_compare_exact:
  "sc_bits (fold_compare cmp a b) =
     of_bool (cmp (mathematical (both_signed a b) a) (mathematical (both_signed a b) b))"
  by (simp add: fold_compare_def boolean_scalar_def mathematical_def both_signed_def)

lemma fold_wrap_exact:
  assumes "fold_wrap (word_of_int k) w = Ok r"
  shows "sc_bits r = word_of_int (k mod 2 ^ unat (unwrap_or w 0))"
proof -
  from fold_wrap_Ok [OF assms] obtain n where n: "w = Some n" "n \<le> 64"
    and r: "r = arith False (take_bit (unat n) (word_of_int k))" by blast
  from n have "unat n \<le> 64" by (simp add: word_le_nat_alt)
  with n r show ?thesis by (simp add: arith_def take_bit_word_of_int_mod)
qed

lemma exact_word_of_int:
  "sc_bits a + sc_bits b = word_of_int (mathematical sg a + mathematical sg b)"
  "sc_bits a - sc_bits b = word_of_int (mathematical sg a - mathematical sg b)"
  "sc_bits a * sc_bits b = word_of_int (mathematical sg a * mathematical sg b)"
  by simp_all

text \<open>
  C10: whatever operator and operands, when the constant kernel folds a binary node the 64-bit
  pattern it returns is the exact integer result of that operator, reduced modulo \<open>2 ^ 64\<close>: sums,
  differences, products, wrapping forms at their width, truncated quotients and remainders,
  arithmetic and logical shifts, bitwise operations, comparisons and logical connectives.
\<close>

theorem fold_binary_exact:
  assumes "fold_binary op a b w = Ok r"
  shows "sc_bits r = word_of_int (exact_binary op a b w)"
proof (cases op)
  case AddWrap
  with assms show ?thesis
    by (simp add: exact_word_of_int [of a b "both_signed a b"] fold_wrap_exact del: of_int_add)
next
  case SubWrap
  with assms show ?thesis
    by (simp add: exact_word_of_int [of a b "both_signed a b"] fold_wrap_exact del: of_int_diff)
next
  case MulWrap
  with assms show ?thesis
    by (simp add: exact_word_of_int [of a b "both_signed a b"] fold_wrap_exact del: of_int_mult)
next
  case Div
  with assms fold_divmod_exact [of True a b r] show ?thesis by (simp add: Let_def)
next
  case Mod
  with assms fold_divmod_exact [of False a b r] show ?thesis by (simp add: Let_def)
next
  case Shl
  with assms fold_shift_exact [of True a b r] show ?thesis by (simp add: Let_def)
next
  case Shr
  with assms fold_shift_exact [of False a b r] show ?thesis by (simp add: Let_def)
qed (use assms in \<open>auto simp: arith_def fold_bitwise_def Let_def word_of_int_bitwise
       fold_compare_exact boolean_scalar_def\<close>)

theorem fold_binary_exact_witness:
  "fold_binary Div (arith True (- 7)) (arith True 2) None = Ok (arith True (- 3)) \<and>
   sc_bits (arith True (- 3)) = word_of_int (exact_binary Div (arith True (- 7)) (arith True 2) None)"
proof -
  have h: "fold_binary Div (arith True (- 7)) (arith True 2) None = Ok (arith True (- 3))"
    by (simp add: fold_divmod_def arith_def Let_def signed_divide_int_def)
  show ?thesis using h fold_binary_exact [OF h] by blast
qed

lemma sdiv_fits_i64:
  fixes x y :: int
  assumes "- (2 ^ 63) \<le> x" "x < 2 ^ 63" "y \<noteq> 0"
  shows "x sdiv y < 2 ^ 63 \<longleftrightarrow> \<not> (x = - (2 ^ 63) \<and> y = - 1)"
proof (cases "y = - 1")
  case True
  with assms show ?thesis by (auto simp: signed_divide_int_def sgn_if abs_if)
next
  case False
  have "\<bar>x sdiv y\<bar> \<le> \<bar>x\<bar> div \<bar>y\<bar>"
    by (simp add: signed_divide_int_def abs_mult abs_sgn_eq pos_imp_zdiv_nonneg_iff)
  moreover have "\<bar>x\<bar> div \<bar>y\<bar> < 2 ^ 63 \<or> y = 1"
  proof (cases "y = 1")
    case False
    with \<open>y \<noteq> - 1\<close> \<open>y \<noteq> 0\<close> have "2 \<le> \<bar>y\<bar>" by auto
    then have "\<bar>x\<bar> div \<bar>y\<bar> \<le> \<bar>x\<bar> div 2" by (simp add: zdiv_mono2)
    with assms show ?thesis by auto
  qed simp
  ultimately show ?thesis using assms False by auto
qed

text \<open>
  C11: the kernel folds exactly the applications whose exact result is defined at 64 bits, in terms
  of the integers the operands denote: a wrapping form needs a width of at most 64, a division a
  non-zero divisor and (signed) a quotient below \<open>2 ^ 63\<close>, a shift an amount in \<open>0 .. 63\<close>; temporal
  and membership operators are never folded.
\<close>

theorem fold_binary_defined:
  "(\<exists>r. fold_binary op a b w = Ok r) \<longleftrightarrow> defined_binary op a b w"
proof -
  have div: "(\<exists>r. fold_divmod d a b = Ok r) \<longleftrightarrow> defined_binary Div a b w" for d
    using sdiv_fits_i64 [of "sint (sc_bits a)" "sint (sc_bits b)"]
      sint_ge [of "sc_bits a"] sint_lt [of "sc_bits a"]
    by (auto simp: fold_divmod_def Let_def both_signed_def mathematical_def signed_eq_0_iff uint_0_iff)
  have shift: "(\<exists>r. fold_shift l a b = Ok r) \<longleftrightarrow> defined_binary Shl a b w" for l
    using uint_ge_0 [of "sc_bits b"]
    by (auto simp: fold_shift_def Let_def mathematical_def not_less word_le_def word_less_def
        sint_nonneg_eq_uint)
  show ?thesis
    using div shift fold_wrap_defined by (cases op) (simp_all add: Let_def)
qed

text \<open>
  Wrapping addition is undone by wrapping subtraction at the same width (at most 64): the
  result is the first operand's pattern reduced to that width, and neither fold fails.
\<close>

theorem fold_wrap_roundtrip:
  assumes "n \<le> 64"
  shows "\<exists>s r. fold_binary AddWrap a b (Some n) = Ok s \<and> fold_binary SubWrap s b (Some n) = Ok r \<and>
           uint (sc_bits r) = uint (sc_bits a) mod 2 ^ unat n"
proof -
  obtain s where s: "fold_binary AddWrap a b (Some n) = Ok s"
    using fold_wrap_defined [of "sc_bits a + sc_bits b" "Some n"] assms by auto
  obtain r where r: "fold_binary SubWrap s b (Some n) = Ok r"
    using fold_wrap_defined [of "sc_bits s - sc_bits b" "Some n"] assms by auto
  have n: "unat n \<le> 64" using assms by (simp add: word_le_nat_alt)
  have "sc_bits s = take_bit (unat n) (word_of_int (uint (sc_bits a) + uint (sc_bits b)))"
    using fold_wrap_Ok s by (fastforce simp: arith_def)
  then have us: "uint (sc_bits s) = (uint (sc_bits a) + uint (sc_bits b)) mod 2 ^ unat n"
    using n by (simp only: uint_take_bit_word_of_int)
  have "sc_bits r = take_bit (unat n) (word_of_int (uint (sc_bits s) - uint (sc_bits b)))"
    using fold_wrap_Ok r by (fastforce simp: arith_def)
  then have "uint (sc_bits r) = (uint (sc_bits s) - uint (sc_bits b)) mod 2 ^ unat n"
    using n by (simp only: uint_take_bit_word_of_int)
  then have "uint (sc_bits r) = uint (sc_bits a) mod 2 ^ unat n"
    by (simp add: us mod_diff_left_eq)
  with s r show ?thesis by blast
qed

theorem fold_wrap_roundtrip_witness:
  "(8::u32) \<le> 64 \<and>
   (\<exists>s r. fold_binary AddWrap (arith False 200) (arith False 100) (Some 8) = Ok s \<and>
      fold_binary SubWrap s (arith False 100) (Some 8) = Ok r \<and>
      uint (sc_bits r) = uint (sc_bits (arith False 200)) mod 2 ^ unat (8::u32))"
proof -
  have h: "(8::u32) \<le> 64" by simp
  show ?thesis using h fold_wrap_roundtrip [OF h, of "arith False 200" "arith False 100"] by blast
qed

section \<open>The signedness policy is integer promotion\<close>

text \<open>
  C++ integer promotion of a declared width: narrower than 32 bits becomes a signed 32-bit
  integer, anything wider keeps its own signedness and width.
\<close>

definition promoted :: "bool \<Rightarrow> u32 \<Rightarrow> bool \<times> u32" where
  "promoted is_signed w = (if w < 32 then (True, 32) else (is_signed, w))"

definition common_signed :: "bool \<times> u32 \<Rightarrow> bool \<times> u32 \<Rightarrow> bool" where
  "common_signed l r = (if fst l = fst r then fst l else if fst l then snd l > snd r else snd r > snd l)"

lemma promotion_mixed:
  "common_signed (promoted True sw) (promoted False uw) \<longleftrightarrow> (sw < 32 \<and> uw < 32) \<or> sw > uw"
  "common_signed (promoted False uw) (promoted True sw) \<longleftrightarrow> (sw < 32 \<and> uw < 32) \<or> sw > uw"
  by (auto simp: common_signed_def promoted_def not_less split: if_splits)

text \<open>
  with known widths, two typed operands are compared signed exactly when C++ integer promotion
  makes their common type signed; an untyped literal takes the signedness of the other operand;
  and the policy does not depend on operand order, known widths or not.
\<close>

theorem solver_signedness_is_promotion:
  "solver_binary_is_signed l r lw rw = solver_binary_is_signed r l rw lw \<and>
   solver_binary_is_signed UntypedLiteral r lw rw = (r = Signed) \<and>
   solver_binary_is_signed Signed Signed lw rw \<and>
   \<not> solver_binary_is_signed Unsigned Unsigned lw rw \<and>
   solver_binary_is_signed Signed Unsigned (Some sw) (Some uw) =
     common_signed (promoted True sw) (promoted False uw)"
  by (cases l; cases r)
     (simp_all add: solver_binary_is_signed_def promotion_mixed Let_def)

end
