(* ===== verification/Exact_Mag.thy ===== *)
theory Exact_Mag
  imports Harc_Prelude
begin

text \<open>
  The magnitude layer of \<^verbatim>\<open>src/src/exact_int.rs\<close> (\<^verbatim>\<open>trim\<close> and the \<^verbatim>\<open>mag_*\<close> functions): natural
  numbers as vectors of 32-bit limbs, least significant first, with no trailing zero limb.  The
  limb algorithms are modelled on \<open>u32\<close> words with the source's \<open>u64\<close> intermediates; an indexed
  write out of range and a failed \<^verbatim>\<open>assert!\<close> are the value \<open>None\<close>.  Bit counts, which are \<^verbatim>\<open>u32\<close> in
  the source, come twice: \<open>mag_bit_len\<close> and \<open>mag_divrem\<close> count in the naturals, \<open>mag_bit_len32\<close> and \<open>mag_divrem32\<close>
  in checked \<^verbatim>\<open>u32\<close> arithmetic, where an overflow is \<open>None\<close>; the two agree for a number of less than \<open>2\<^sup>3\<^sup>2\<close> bits,
  and beyond that the second overflows.

  \<open>mag_val\<close> reads a limb vector.  Each function is shown to compute the corresponding operation
  on naturals, to keep vectors normalized, and not to panic; the interface \<open>magnitude\<close> collects
  what the signed layer relies on and is interpreted here.
\<close>

section \<open>Magnitudes: vectors of 32-bit limbs\<close>

datatype Ordering = Less | Equal | Greater

definition ord_cmp :: "'a::linorder \<Rightarrow> 'a \<Rightarrow> Ordering" where
  "ord_cmp x y = (if x < y then Less else if x = y then Equal else Greater)"

fun trim :: "u32 list \<Rightarrow> u32 list" where
  "trim m = (if m \<noteq> [] \<and> last m = 0 then trim (butlast m) else m)"

declare trim.simps [simp del]

fun mag_cmp_loop :: "(u32 \<times> u32) list \<Rightarrow> Ordering" where
  "mag_cmp_loop [] = Equal"
| "mag_cmp_loop ((x, y) # ps) = (if x \<noteq> y then ord_cmp x y else mag_cmp_loop ps)"

definition mag_cmp :: "u32 list \<Rightarrow> u32 list \<Rightarrow> Ordering" where
  "mag_cmp a b =
     (if length a \<noteq> length b then ord_cmp (length a) (length b)
      else mag_cmp_loop (zip (rev a) (rev b)))"

text \<open>\<^verbatim>\<open>*a.get(i).unwrap_or(&0)\<close>\<close>

definition limb :: "u32 list \<Rightarrow> nat \<Rightarrow> u32" where
  "limb a i = (if i < length a then a ! i else 0)"

fun mag_add_loop :: "(u32 \<times> u32) list \<Rightarrow> u64 \<Rightarrow> u32 list" where
  "mag_add_loop [] carry = (if carry \<noteq> 0 then [ucast carry] else [])"
| "mag_add_loop ((x, y) # ps) carry =
     (let s = ucast x + ucast y + carry in ucast s # mag_add_loop ps (drop_bit 32 s))"

definition mag_add :: "u32 list \<Rightarrow> u32 list \<Rightarrow> u32 list" where
  "mag_add a b =
     trim (mag_add_loop (map (\<lambda>i. (limb a i, limb b i)) [0..<max (length a) (length b)]) 0)"

text \<open>The second component is the final borrow, which the source asserts to be zero in debug builds.\<close>

fun mag_sub_loop :: "(u32 \<times> u32) list \<Rightarrow> int \<Rightarrow> u32 list \<times> int" where
  "mag_sub_loop [] borrow = ([], borrow)"
| "mag_sub_loop ((x, y) # ps) borrow =
     (let d = uint x - uint y - borrow;
          (d', borrow') = (if d < 0 then (d + 2 ^ 32, 1) else (d, 0));
          (out, final) = mag_sub_loop ps borrow'
      in (word_of_int d' # out, final))"

text \<open>
  The minuend is the larger magnitude at every call, so that no borrow is left (\<^verbatim>\<open>mag_sub\<close> has a debug assertion for it,
  which is not a branch here).
\<close>

definition mag_sub :: "u32 list \<Rightarrow> u32 list \<Rightarrow> u32 list" where
  "mag_sub a b = trim (fst (mag_sub_loop (map (\<lambda>i. (a ! i, limb b i)) [0..<length a]) 0))"

fun mag_mul_row :: "u32 \<Rightarrow> u32 list \<Rightarrow> nat \<Rightarrow> u64 \<Rightarrow> u32 list \<Rightarrow> (u32 list \<times> u64) option" where
  "mag_mul_row x [] p carry out = Some (out, carry)"
| "mag_mul_row x (y # ys) p carry out =
     (if p < length out then
        let t = ucast (out ! p) + ucast x * ucast y + carry
        in mag_mul_row x ys (p + 1) (drop_bit 32 t) (out[p := ucast t])
      else None)"

function mag_mul_carry :: "nat \<Rightarrow> u64 \<Rightarrow> u32 list \<Rightarrow> u32 list option" where
  "mag_mul_carry k carry out =
     (if carry = 0 then Some out
      else if k < length out then
        let t = ucast (out ! k) + carry
        in mag_mul_carry (k + 1) (drop_bit 32 t) (out[k := ucast t])
      else None)"
  by pat_completeness auto
termination
  by (relation "measure (\<lambda>(k, carry, out). length out - k)") auto

declare mag_mul_carry.simps [simp del]

fun mag_mul_rows :: "u32 list \<Rightarrow> u32 list \<Rightarrow> nat \<Rightarrow> u32 list \<Rightarrow> u32 list option" where
  "mag_mul_rows [] b i out = Some out"
| "mag_mul_rows (x # xs) b i out =
     do { (out, carry) \<leftarrow> mag_mul_row x b i 0 out;
          out \<leftarrow> mag_mul_carry (i + length b) carry out;
          mag_mul_rows xs b (i + 1) out }"

definition mag_mul :: "u32 list \<Rightarrow> u32 list \<Rightarrow> u32 list option" where
  "mag_mul a b =
     (if a = [] \<or> b = [] then Some []
      else map_option trim (mag_mul_rows a b 0 (replicate (length a + length b) 0)))"

text \<open>\<open>32 - leading_zeros\<close> of the top limb is the bit length of its value.\<close>

definition mag_bit_len :: "u32 list \<Rightarrow> nat" where
  "mag_bit_len a = (if a = [] then 0 else (length a - 1) * 32 + bit_len (unat (last a)))"

definition mag_bit :: "u32 list \<Rightarrow> nat \<Rightarrow> bool" where
  "mag_bit a i \<longleftrightarrow> i div 32 < length a \<and> drop_bit (i mod 32) (a ! (i div 32)) AND 1 = 1"

fun mag_shl_loop :: "nat \<Rightarrow> u32 list \<Rightarrow> u32 \<Rightarrow> u32 list" where
  "mag_shl_loop bits [] carry = (if carry \<noteq> 0 then [carry] else [])"
| "mag_shl_loop bits (x # xs) carry =
     (if bits = 0 then x # mag_shl_loop bits xs carry
      else (push_bit bits x OR carry) # mag_shl_loop bits xs (drop_bit (32 - bits) x))"

definition mag_shl :: "u32 list \<Rightarrow> nat \<Rightarrow> u32 list" where
  "mag_shl a n =
     (if a = [] then []
      else trim (replicate (n div 32) 0 @ mag_shl_loop (n mod 32) a 0))"

definition mag_shr :: "u32 list \<Rightarrow> nat \<Rightarrow> u32 list" where
  "mag_shr a n =
     (let words = n div 32; bits = n mod 32 in
      if words \<ge> length a then []
      else let src = drop words a in
        trim (map (\<lambda>i. drop_bit bits (src ! i) OR
                 (if bits = 0 then 0
                  else if i + 1 < length src then push_bit (32 - bits) (src ! (i + 1)) else 0))
              [0..<length src]))"

definition mag_low_bits :: "u32 list \<Rightarrow> nat \<Rightarrow> u32 list" where
  "mag_low_bits a w =
     (let words = (w + 31) div 32; out = take words a in
      trim (if length out = words \<and> w mod 32 \<noteq> 0
            then butlast out @ [last out AND (push_bit (w mod 32) 1 - 1)] else out))"

fun mag_divrem_loop ::
  "u32 list \<Rightarrow> u32 list \<Rightarrow> nat list \<Rightarrow> u32 list \<Rightarrow> u32 list \<Rightarrow> (u32 list \<times> u32 list) option"
where
  "mag_divrem_loop a b [] q r = Some (trim q, r)"
| "mag_divrem_loop a b (i # is) q r =
     (let r1 = mag_shl r 1;
          r2 = (if mag_bit a i then (case r1 of [] \<Rightarrow> [1] | x # xs \<Rightarrow> (x OR 1) # xs) else r1)
      in if mag_cmp r2 b \<noteq> Less then
           do { q' \<leftarrow> set_at q (i div 32) (limb q (i div 32) OR push_bit (i mod 32) 1);
                mag_divrem_loop a b is q' (mag_sub r2 b) }
         else mag_divrem_loop a b is q r2)"

definition mag_divrem :: "u32 list \<Rightarrow> u32 list \<Rightarrow> (u32 list \<times> u32 list) option" where
  "mag_divrem a b =
     (if b = [] then None
      else if mag_cmp a b = Less then Some ([], a)
      else mag_divrem_loop a b (rev [0..<mag_bit_len a]) (replicate (length a) 0) [])"

text \<open>Checked \<^verbatim>\<open>u32\<close> arithmetic; \<^const>\<open>None\<close> is the overflow, which panics in a debug build and wraps in a release build.\<close>

definition checked_add32 :: "u32 \<Rightarrow> u32 \<Rightarrow> u32 option" where
  "checked_add32 x y = (if unat x + unat y < 2 ^ 32 then Some (x + y) else None)"

definition checked_mul32 :: "u32 \<Rightarrow> u32 \<Rightarrow> u32 option" where
  "checked_mul32 x y = (if unat x * unat y < 2 ^ 32 then Some (x * y) else None)"

definition checked_sub32 :: "u32 \<Rightarrow> u32 \<Rightarrow> u32 option" where
  "checked_sub32 x y = (if y \<le> x then Some (x - y) else None)"

definition mag_bit_len32 :: "u32 list \<Rightarrow> u32 option" where
  "mag_bit_len32 a =
     (if a = [] then Some 0
      else do { n \<leftarrow> checked_sub32 (of_nat (length a)) 1;
                m \<leftarrow> checked_mul32 n 32;
                checked_add32 m (of_nat (bit_len (unat (last a)))) })"

definition mag_divrem32 :: "u32 list \<Rightarrow> u32 list \<Rightarrow> (u32 list \<times> u32 list) option" where
  "mag_divrem32 a b =
     (if b = [] then None
      else if mag_cmp a b = Less then Some ([], a)
      else do { n \<leftarrow> mag_bit_len32 a; mag_divrem_loop a b (rev [0..<unat n]) (replicate (length a) 0) [] })"

section \<open>The value of a limb vector\<close>

fun mag_val :: "u32 list \<Rightarrow> nat" where
  "mag_val [] = 0"
| "mag_val (x # xs) = unat x + 2 ^ 32 * mag_val xs"

definition normalized :: "u32 list \<Rightarrow> bool" where
  "normalized m \<longleftrightarrow> m = [] \<or> last m \<noteq> 0"

lemma normalized_Nil [simp]: "normalized []"
  by (simp add: normalized_def)

lemma unat_u32_less: "unat (x :: u32) < 2 ^ 32"
  using unsigned_less [of x] by simp

lemma mag_val_append [simp]: "mag_val (xs @ ys) = mag_val xs + 2 ^ (32 * length xs) * mag_val ys"
  by (induction xs) (simp_all add: algebra_simps power_add)

lemma mag_val_replicate_0 [simp]: "mag_val (replicate n 0) = 0"
  by (induction n) simp_all

lemma mag_val_less: "mag_val xs < 2 ^ (32 * length xs)"
proof (induction xs)
  case (Cons x xs)
  have "unat x < 2 ^ 32" by (rule unat_u32_less)
  moreover have "2 ^ 32 * mag_val xs + 2 ^ 32 \<le> 2 ^ 32 * 2 ^ (32 * length xs)"
    using Cons by (metis Suc_leI mult_Suc_right mult_le_mono2 add.commute)
  ultimately show ?case by (simp add: power_add)
qed simp

lemma mag_val_eq_0_iff: "mag_val xs = 0 \<longleftrightarrow> (\<forall>x \<in> set xs. x = 0)"
  by (induction xs) (auto simp: unat_eq_0)

lemma trim_butlast: "m \<noteq> [] \<Longrightarrow> last m = 0 \<Longrightarrow> trim m = trim (butlast m)"
  by (simp add: trim.simps [of m])

lemma trim_id: "normalized m \<Longrightarrow> trim m = m"
  by (auto simp: trim.simps [of m] normalized_def)

lemma trim_Nil [simp]: "trim [] = []"
  by (simp add: trim_id)

lemma normalized_trim [simp]: "normalized (trim m)"
proof (induction m rule: trim.induct)
  case (1 m)
  then show ?case by (cases "m \<noteq> [] \<and> last m = 0") (auto simp: trim.simps [of m] normalized_def)
qed

lemma mag_val_trim [simp]: "mag_val (trim m) = mag_val m"
proof (induction m rule: trim.induct)
  case (1 m)
  show ?case
  proof (cases "m \<noteq> [] \<and> last m = 0")
    case True
    then have "mag_val m = mag_val (butlast m @ [0])" by (metis append_butlast_last_id)
    with True 1 show ?thesis by (simp add: trim_butlast)
  next
    case False
    then show ?thesis by (simp add: trim_id normalized_def)
  qed
qed

lemma length_trim_le: "length (trim m) \<le> length m"
proof (induction m rule: trim.induct)
  case (1 m)
  then show ?case
    by (cases "m \<noteq> [] \<and> last m = 0") (auto simp: trim.simps [of m])
qed

lemma normalized_ge:
  assumes "normalized m" "m \<noteq> []"
  shows "2 ^ (32 * (length m - 1)) \<le> mag_val m"
proof -
  from assms have "0 < unat (last m)" by (simp add: normalized_def unat_gt_0)
  moreover have "mag_val m = mag_val (butlast m @ [last m])" using assms by simp
  ultimately show ?thesis by (cases "unat (last m)") simp_all
qed

lemma normalized_mag_val_0 [simp]:
  assumes "normalized m"
  shows "mag_val m = 0 \<longleftrightarrow> m = []"
proof
  assume "mag_val m = 0"
  then show "m = []" using normalized_ge [OF assms] by (metis le_zero_eq power_not_zero zero_neq_numeral)
qed simp

lemma normalized_pos [simp]: "normalized m \<Longrightarrow> 0 < mag_val m \<longleftrightarrow> m \<noteq> []"
  by (simp only: zero_less_iff_neq_zero normalized_mag_val_0)

lemma normalized_length_less:
  assumes "normalized b" "length a < length b"
  shows "mag_val a < mag_val b"
proof -
  have "mag_val a < 2 ^ (32 * length a)" by (rule mag_val_less)
  also have "(2::nat) ^ (32 * length a) \<le> 2 ^ (32 * (length b - 1))"
    using assms by (intro power_increasing) auto
  also have "\<dots> \<le> mag_val b" using assms by (intro normalized_ge) auto
  finally show ?thesis .
qed

lemma ord_cmp_iff [simp]:
  "ord_cmp x y = Less \<longleftrightarrow> x < y" "ord_cmp x y = Equal \<longleftrightarrow> x = y" "ord_cmp x y = Greater \<longleftrightarrow> x > y"
  by (auto simp: ord_cmp_def)

lemma ord_cmp_lift: "(x < y \<longleftrightarrow> x' < y') \<Longrightarrow> (x = y \<longleftrightarrow> x' = y') \<Longrightarrow> ord_cmp x y = ord_cmp x' y'"
  by (simp add: ord_cmp_def)

lemma mag_cmp_loop_val:
  "length a = length b \<Longrightarrow> mag_cmp_loop (zip (rev a) (rev b)) = ord_cmp (mag_val a) (mag_val b)"
proof (induction a arbitrary: b rule: rev_induct)
  case Nil
  then show ?case by (simp add: ord_cmp_def)
next
  case (snoc x a)
  then obtain y b' where b: "b = b' @ [y]" "length a = length b'"
    by (metis append_butlast_last_id length_0_conv length_append_singleton length_butlast diff_Suc_1 nat.distinct(1))
  have lt: "mag_val a < 2 ^ (32 * length b')" "mag_val b' < 2 ^ (32 * length b')"
    using mag_val_less [of a] mag_val_less [of b'] b by auto
  have "ord_cmp (mag_val a + 2 ^ (32 * length b') * unat x) (mag_val b' + 2 ^ (32 * length b') * unat y)
      = (if x \<noteq> y then ord_cmp x y else ord_cmp (mag_val a) (mag_val b'))"
  proof (cases "x = y")
    case False
    consider "unat x < unat y" | "unat y < unat x" using False by (metis linorder_neqE_nat word_unat_eq_iff)
    then show ?thesis
    proof cases
      case 1
      then have "2 ^ (32 * length b') * (unat x + 1) \<le> (2 ^ (32 * length b') * unat y :: nat)"
        by (intro mult_le_mono2) simp
      with lt 1 False show ?thesis by (simp add: ord_cmp_def word_less_nat_alt)
    next
      case 2
      then have "2 ^ (32 * length b') * (unat y + 1) \<le> (2 ^ (32 * length b') * unat x :: nat)"
        by (intro mult_le_mono2) simp
      with lt 2 False show ?thesis by (simp add: ord_cmp_def word_less_nat_alt)
    qed
  qed (simp add: ord_cmp_def)
  with snoc.IH [of b'] b show ?case by simp
qed

lemma mag_cmp_val:
  assumes "normalized a" "normalized b"
  shows "mag_cmp a b = ord_cmp (mag_val a) (mag_val b)"
  using normalized_length_less [OF assms(1), of b] normalized_length_less [OF assms(2), of a]
  by (cases "length a = length b")
     (auto simp: mag_cmp_def mag_cmp_loop_val ord_cmp_def)

lemma mag_val_cons_eq:
  assumes "x < k" "y < k" "x + k * a = y + k * (b::nat)"
  shows "x = y \<and> a = b"
  using assms by (metis add_right_cancel div_mult_self2 div_less mod_less mod_mult_self2
      add_0 less_nat_zero_code)

lemma normalized_inject:
  assumes "normalized a" "normalized b" "mag_val a = mag_val b"
  shows "a = b"
proof -
  have len: "length a = length b"
    using normalized_length_less [of a b] normalized_length_less [of b a] assms by fastforce
  have "\<And>b. length a = length b \<Longrightarrow> mag_val a = mag_val b \<Longrightarrow> a = b"
  proof (induction a)
    case (Cons x a)
    then obtain y b' where b: "b = y # b'" by (metis length_Suc_conv)
    have "unat x < 2 ^ 32" "unat y < 2 ^ 32" by (rule unat_u32_less)+
    moreover have "unat x + 2 ^ 32 * mag_val a = unat y + 2 ^ 32 * mag_val b'"
      using Cons.prems(2) b by (simp only: mag_val.simps)
    ultimately have "unat x = unat y \<and> mag_val a = mag_val b'" by (rule mag_val_cons_eq)
    with Cons b show ?case by (simp add: word_unat_eq_iff)
  qed simp
  with len assms show ?thesis by blast
qed

section \<open>Addition and subtraction\<close>

lemma unat_ucast_u32 [simp]: "unat (ucast (x :: u32) :: u64) = unat x"
  using unat_u32_less [of x] by (simp add: unsigned_ucast_eq take_bit_nat_eq_self)

lemma unat_drop_bit: "unat (drop_bit n (w :: 'a::len word)) = unat w div 2 ^ n"
  by (subst unat_drop_bit_eq) (rule drop_bit_eq_div)

lemma split_u64: "unat (ucast s :: u32) + 2 ^ 32 * unat (drop_bit 32 s) = unat (s :: u64)"
  by (simp add: unsigned_ucast_eq take_bit_eq_mod unat_drop_bit)

lemma limbs_val:
  "length a \<le> n \<Longrightarrow> mag_val (map (limb a) [0..<n]) = mag_val a"
proof -
  assume le: "length a \<le> n"
  have "map (limb a) [0..<n] = a @ replicate (n - length a) 0"
    by (rule nth_equalityI) (use le in \<open>auto simp: limb_def nth_append\<close>)
  then show ?thesis by simp
qed

lemma mag_add_loop_val:
  "unat c < 2 \<Longrightarrow>
   mag_val (mag_add_loop ps c) = mag_val (map fst ps) + mag_val (map snd ps) + unat c"
proof (induction ps c rule: mag_add_loop.induct)
  case (1 c)
  then show ?case by (auto simp: unsigned_ucast_eq take_bit_nat_eq_self unat_eq_0)
next
  case (2 x y ps c)
  define s where "s = (ucast x + ucast y + c :: u64)"
  have xy: "unat x < 2 ^ 32" "unat y < 2 ^ 32" by (rule unat_u32_less)+
  have s: "unat s = unat x + unat y + unat c"
    using xy 2(2) by (simp add: s_def unat_word_ariths)
  have "unat (drop_bit 32 s) < 2"
    using xy 2(2) s by (simp add: unat_drop_bit)
  with 2(1) [OF s_def] have
    "mag_val (mag_add_loop ps (drop_bit 32 s)) =
     mag_val (map fst ps) + mag_val (map snd ps) + unat (drop_bit 32 s)" by blast
  then show ?case
    using s split_u64 [of s] by (simp add: s_def [symmetric] Let_def)
qed

lemma mag_val_add [simp]: "mag_val (mag_add a b) = mag_val a + mag_val b"
  by (simp add: mag_add_def mag_add_loop_val comp_def limbs_val)

lemma normalized_add [simp]: "normalized (mag_add a b)"
  by (simp add: mag_add_def)

lemma mag_sub_loop_val:
  assumes "0 \<le> bw" "bw \<le> 1" "mag_sub_loop ps bw = (out, final)"
  shows "int (mag_val out) = int (mag_val (map fst ps)) - int (mag_val (map snd ps)) - bw
           + 2 ^ (32 * length ps) * final \<and> 0 \<le> final \<and> final \<le> 1"
  using assms
proof (induction ps arbitrary: bw out final)
  case (Cons p ps)
  obtain x y where p: "p = (x, y)" by force
  define d where "d = uint x - uint y - bw"
  define d' where "d' = (if d < 0 then d + 2 ^ 32 else d)"
  define b' where "b' = (if d < 0 then 1 else 0 :: int)"
  obtain out' where rec: "mag_sub_loop ps b' = (out', final)" and out: "out = word_of_int d' # out'"
    using Cons.prems(3) p by (auto simp: Let_def d_def d'_def b'_def split: if_splits prod.splits)
  have IH: "int (mag_val out') = int (mag_val (map fst ps)) - int (mag_val (map snd ps)) - b'
           + 2 ^ (32 * length ps) * final \<and> 0 \<le> final \<and> final \<le> 1"
    by (rule Cons.IH [OF _ _ rec]) (simp_all add: b'_def)
  have "0 \<le> uint x" "uint x < 2 ^ 32" "0 \<le> uint y" "uint y < 2 ^ 32"
    using uint_lt2p [of x] uint_lt2p [of y] by simp_all
  then have "0 \<le> d'" "d' < 2 ^ 32" using Cons.prems(1,2)
    by (cases "d < 0"; unfold d'_def d_def; simp only: if_True if_False; linarith)+
  then have "int (mag_val out) = d' + 2 ^ 32 * int (mag_val out')"
    by (simp add: out uint_word_of_int)
  moreover have "int (mag_val (map fst (p # ps))) = uint x + 2 ^ 32 * int (mag_val (map fst ps))"
    "int (mag_val (map snd (p # ps))) = uint y + 2 ^ 32 * int (mag_val (map snd ps))"
    by (simp_all add: p)
  moreover have "d' = uint x - uint y - bw + 2 ^ 32 * b'" by (simp add: d'_def b'_def d_def)
  moreover have "(2::int) ^ (32 * length (p # ps)) = 2 ^ 32 * 2 ^ (32 * length ps)"
    by (simp add: power_add)
  ultimately show ?case
    by (simp only: IH [THEN conjunct1]) (simp add: IH [THEN conjunct2] algebra_simps)
qed simp

lemma length_mag_sub_loop: "length (fst (mag_sub_loop ps bw)) = length ps"
  by (induction ps bw rule: mag_sub_loop.induct) (auto simp: Let_def split: prod.splits)

lemma mag_sub_no_borrow:
  assumes "mag_val b \<le> mag_val a" "length b \<le> length a"
    and "mag_sub_loop (map (\<lambda>i. (a ! i, limb b i)) [0..<length a]) 0 = (out, final)"
  shows "final = 0 \<and> mag_val out = mag_val a - mag_val b"
proof -
  have fst: "map fst (map (\<lambda>i. (a ! i, limb b i)) [0..<length a]) = a"
    by (rule nth_equalityI) auto
  have snd: "mag_val (map snd (map (\<lambda>i. (a ! i, limb b i)) [0..<length a])) = mag_val b"
    using assms(2) by (simp add: comp_def limbs_val)
  have eq: "int (mag_val out) = int (mag_val a) - int (mag_val b) + 2 ^ (32 * length a) * final
      \<and> 0 \<le> final \<and> final \<le> 1"
    using mag_sub_loop_val [OF _ _ assms(3)] fst snd by simp
  have "length out = length a"
    using length_mag_sub_loop [of "map (\<lambda>i. (a ! i, limb b i)) [0..<length a]" 0] assms(3) by simp
  then have "int (mag_val out) < 2 ^ (32 * length a)"
    using mag_val_less [of out] by (simp flip: of_nat_power_less_of_nat_cancel_iff)
  then have "final = 0" using eq assms(1) by (cases "final = 1") auto
  with eq assms(1) show ?thesis by simp
qed

lemma mag_val_sub:
  assumes "mag_val b \<le> mag_val a" "normalized b"
  shows "mag_val (mag_sub a b) = mag_val a - mag_val b"
proof -
  have "length b \<le> length a"
    using normalized_length_less [of b a] assms by (auto simp: not_less [symmetric])
  moreover obtain out final where
    "mag_sub_loop (map (\<lambda>i. (a ! i, limb b i)) [0..<length a]) 0 = (out, final)" by force
  ultimately show ?thesis
    using mag_sub_no_borrow [OF assms(1)] by (simp add: mag_sub_def)
qed

lemma normalized_sub [simp]: "normalized (mag_sub a b)"
  by (simp add: mag_sub_def)

section \<open>Multiplication\<close>

text \<open>
  One limb product with both carries fits \<open>u64\<close>: \<open>(2^32-1) + (2^32-1)^2 + (2^32-1) = 2^64-1\<close>.
\<close>

lemma limb_product_no_overflow:
  fixes z x y :: u32 and c :: u64
  assumes "unat c < 2 ^ 32"
  defines "t \<equiv> ucast z + ucast x * ucast y + c"
  shows "unat t = unat z + unat x * unat y + unat c" and "unat (drop_bit 32 t) < 2 ^ 32"
proof -
  have z: "unat z \<le> 2 ^ 32 - 1" and x: "unat x \<le> 2 ^ 32 - 1" and y: "unat y \<le> 2 ^ 32 - 1"
    using unat_u32_less [of z] unat_u32_less [of x] unat_u32_less [of y] by simp_all
  have "unat x * unat y \<le> (2 ^ 32 - 1) * (2 ^ 32 - 1)" by (rule mult_le_mono [OF x y])
  then have "unat z + unat x * unat y + unat c < 2 ^ 64" using z assms(1) by simp
  then show "unat t = unat z + unat x * unat y + unat c"
    by (simp add: t_def unat_word_ariths)
  show "unat (drop_bit 32 t) < 2 ^ 32"
    using unsigned_less [of t, where ?'a = nat] by (simp add: unat_drop_bit less_mult_imp_div_less)
qed

lemma mag_val_update:
  "p < length out \<Longrightarrow>
   mag_val (out[p := v]) + 2 ^ (32 * p) * unat (out ! p) = mag_val out + 2 ^ (32 * p) * unat v"
proof (induction out arbitrary: p)
  case (Cons x out)
  show ?case
  proof (cases p)
    case (Suc q)
    with Cons have "mag_val (out[q := v]) + 2 ^ (32 * q) * unat (out ! q) =
        mag_val out + 2 ^ (32 * q) * unat v" by simp
    then have "2 ^ 32 * (mag_val (out[q := v]) + 2 ^ (32 * q) * unat (out ! q)) =
        2 ^ 32 * (mag_val out + 2 ^ (32 * q) * unat v)" by simp
    with Suc show ?thesis by (simp add: algebra_simps power_add)
  qed simp
qed simp


text \<open>
  One row adds \<open>x * ys\<close>, shifted to position \<open>p\<close>, to the limbs from \<open>p\<close> on; what does not fit
  below position \<open>p + length ys\<close> is the returned carry.
\<close>

lemma mag_mul_row_val:
  assumes "p + length ys \<le> length out" "unat c < 2 ^ 32"
  shows "\<exists>out' c'. mag_mul_row x ys p c out = Some (out', c') \<and> length out' = length out \<and>
    unat c' < 2 ^ 32 \<and>
    mag_val out' + 2 ^ (32 * (p + length ys)) * unat c' =
      mag_val out + 2 ^ (32 * p) * (unat x * mag_val ys + unat c) \<and>
    (\<forall>k \<ge> p + length ys. k < length out \<longrightarrow> out' ! k = out ! k)"
  using assms
proof (induction ys arbitrary: p c out)
  case (Cons y ys)
  define t where "t = (ucast (out ! p) + ucast x * ucast y + c :: u64)"
  define out1 where "out1 = out[p := ucast t]"
  have t: "unat t = unat (out ! p) + unat x * unat y + unat c" and dt: "unat (drop_bit 32 t) < 2 ^ 32"
    using limb_product_no_overflow [OF Cons.prems(2), of "out ! p" x y] by (simp_all add: t_def)
  have p: "p < length out" using Cons.prems(1) by simp
  have "(p + 1) + length ys \<le> length out1" using Cons.prems(1) by (simp add: out1_def)
  from Cons.IH [OF this dt] obtain out' c' where
    run: "mag_mul_row x ys (p + 1) (drop_bit 32 t) out1 = Some (out', c')"
    and len: "length out' = length out1" and c': "unat c' < 2 ^ 32"
    and val: "mag_val out' + 2 ^ (32 * (p + 1 + length ys)) * unat c' =
      mag_val out1 + 2 ^ (32 * (p + 1)) * (unat x * mag_val ys + unat (drop_bit 32 t))"
    and frame: "\<forall>k \<ge> p + 1 + length ys. k < length out1 \<longrightarrow> out' ! k = out1 ! k" by blast
  have upd: "mag_val out1 + 2 ^ (32 * p) * unat (out ! p) =
      mag_val out + 2 ^ (32 * p) * unat (ucast t :: u32)"
    unfolding out1_def by (rule mag_val_update [OF p])
  have "mag_val out1 + 2 ^ (32 * (p + 1)) * unat (drop_bit 32 t) + 2 ^ (32 * p) * unat (out ! p) =
      mag_val out + 2 ^ (32 * p) * unat t"
    using upd by (simp only: split_u64 [of t, symmetric]) (simp add: algebra_simps power_add)
  then have "mag_val out1 + 2 ^ (32 * (p + 1)) * unat (drop_bit 32 t) =
      mag_val out + 2 ^ (32 * p) * (unat x * unat y + unat c)"
    by (simp add: t algebra_simps)
  then have "mag_val out' + 2 ^ (32 * (p + length (y # ys))) * unat c' =
      mag_val out + 2 ^ (32 * p) * (unat x * mag_val (y # ys) + unat c)"
    using val by (simp add: algebra_simps power_add)
  moreover have "mag_mul_row x (y # ys) p c out = Some (out', c')"
    using run p by (simp add: t_def [symmetric] out1_def [symmetric] Let_def)
  moreover have "\<forall>k \<ge> p + length (y # ys). k < length out \<longrightarrow> out' ! k = out ! k"
    using frame by (simp add: out1_def)
  moreover have "length out' = length out" using len by (simp add: out1_def)
  ultimately show ?case using c' by blast
qed auto

lemma mag_mul_carry_one:
  assumes "k < length out" "out ! k = 0" "unat c < 2 ^ 32"
  shows "\<exists>out'. mag_mul_carry k c out = Some out' \<and> length out' = length out \<and>
    mag_val out' = mag_val out + 2 ^ (32 * k) * unat c \<and> (\<forall>j > k. j < length out \<longrightarrow> out' ! j = out ! j)"
proof (cases "c = 0")
  case True
  then show ?thesis by (simp add: mag_mul_carry.simps)
next
  case False
  have "drop_bit 32 c = 0" using assms(3) by (simp add: word_unat_eq_iff unat_drop_bit)
  then have "mag_mul_carry k c out = Some (out[k := ucast c])"
    using False assms by (simp add: mag_mul_carry.simps [of k c out] mag_mul_carry.simps [of "Suc k"] Let_def)
  moreover have "unat (ucast c :: u32) = unat c"
    using assms(3) by (simp add: unsigned_ucast_eq take_bit_nat_eq_self)
  moreover have "mag_val (out[k := ucast c]) = mag_val out + 2 ^ (32 * k) * unat c"
    using mag_val_update [OF assms(1), of "ucast c"] assms(2) \<open>unat (ucast c :: u32) = unat c\<close> by simp
  ultimately show ?thesis by simp
qed

lemma mag_mul_rows_val:
  assumes "i + length xs + length b \<le> length out" "b \<noteq> []"
    and "\<forall>k \<ge> i + length b. k < length out \<longrightarrow> out ! k = 0"
  shows "\<exists>out'. mag_mul_rows xs b i out = Some out' \<and>
    mag_val out' = mag_val out + 2 ^ (32 * i) * (mag_val xs * mag_val b)"
  using assms
proof (induction xs arbitrary: i out)
  case (Cons x xs)
  have "i + length b \<le> length out" using Cons.prems(1) by simp
  from mag_mul_row_val [OF this, of 0 x] obtain out1 c where
    row: "mag_mul_row x b i 0 out = Some (out1, c)" and len1: "length out1 = length out"
    and c: "unat c < 2 ^ 32"
    and val1: "mag_val out1 + 2 ^ (32 * (i + length b)) * unat c =
      mag_val out + 2 ^ (32 * i) * (unat x * mag_val b)"
    and frame1: "\<forall>k \<ge> i + length b. k < length out \<longrightarrow> out1 ! k = out ! k" by auto
  have k: "i + length b < length out1" "out1 ! (i + length b) = 0"
    using Cons.prems(1,3) len1 frame1 by simp_all
  from mag_mul_carry_one [OF k c] obtain out2 where
    carry: "mag_mul_carry (i + length b) c out1 = Some out2" and len2: "length out2 = length out1"
    and val2: "mag_val out2 = mag_val out1 + 2 ^ (32 * (i + length b)) * unat c"
    and frame2: "\<forall>j > i + length b. j < length out1 \<longrightarrow> out2 ! j = out1 ! j" by blast
  have "\<forall>k \<ge> Suc i + length b. k < length out2 \<longrightarrow> out2 ! k = 0"
    using Cons.prems(3) frame1 frame2 len1 len2 by simp
  with Cons.IH [of "Suc i" out2] Cons.prems(1,2) len1 len2 obtain out' where
    rest: "mag_mul_rows xs b (Suc i) out2 = Some out'"
    and val: "mag_val out' = mag_val out2 + 2 ^ (32 * Suc i) * (mag_val xs * mag_val b)" by auto
  have "mag_val out' = mag_val out + 2 ^ (32 * i) * (mag_val (x # xs) * mag_val b)"
    using val val1 val2 by (simp add: algebra_simps power_add)
  with row carry rest show ?case by simp
qed simp

lemma mag_mul_val: "\<exists>m. mag_mul a b = Some m \<and> normalized m \<and> mag_val m = mag_val a * mag_val b"
proof (cases "a = [] \<or> b = []")
  case False
  with mag_mul_rows_val [of 0 a b "replicate (length a + length b) 0"] show ?thesis
    by (auto simp: mag_mul_def)
qed (auto simp: mag_mul_def)

section \<open>Bits and shifts\<close>

lemma mag_val_last:
  "a \<noteq> [] \<Longrightarrow> mag_val a = mag_val (butlast a) + 2 ^ (32 * (length a - 1)) * unat (last a)"
  using mag_val_append [of "butlast a" "[last a]"] by simp

lemma mag_val_less_pow_bit_len: "mag_val a < 2 ^ mag_bit_len a"
proof (cases "a = []")
  case False
  let ?n = "32 * (length a - 1)"
  have "mag_val (butlast a) < 2 ^ ?n" using mag_val_less [of "butlast a"] by simp
  moreover have "2 ^ ?n * (unat (last a) + 1) \<le> 2 ^ ?n * 2 ^ bit_len (unat (last a))"
    using less_pow_bit_len [of "unat (last a)"] by (intro mult_le_mono2) simp
  ultimately show ?thesis using False mag_val_last [OF False]
    by (simp add: mag_bit_len_def power_add mult.commute [of _ 32])
qed (simp add: mag_bit_len_def)

lemma mag_bit_len_val:
  assumes "normalized a"
  shows "mag_bit_len a = bit_len (mag_val a)"
proof (cases "a = []")
  case False
  let ?n = "32 * (length a - 1)" and ?h = "bit_len (unat (last a))"
  have pos: "0 < unat (last a)" using assms False by (simp add: normalized_def unat_gt_0)
  then have h: "0 < ?h" by (cases ?h) simp_all
  then have len: "mag_bit_len a = Suc (?n + (?h - 1))" using False by (simp add: mag_bit_len_def)
  have "2 ^ (?n + (?h - 1)) \<le> 2 ^ ?n * unat (last a)"
    using pow_bit_len_le [OF pos] by (simp add: power_add)
  then have "2 ^ (?n + (?h - 1)) \<le> mag_val a" using mag_val_last [OF False] by linarith
  moreover have "mag_val a < 2 ^ Suc (?n + (?h - 1))"
    using mag_val_less_pow_bit_len [of a] by (simp only: len)
  ultimately show ?thesis using len by (simp only: bit_len_unique)
qed (simp add: mag_bit_len_def)

lemma bit_limb_cons:
  "bit (unat (x :: u32) + 2 ^ 32 * v) i = (if i < 32 then bit (unat x) i else bit v (i - 32))"
proof (cases "i < 32")
  case True
  have "(unat x + 2 ^ 32 * v) div 2 ^ i = (unat x + 2 ^ i * (2 ^ (32 - i) * v)) div 2 ^ i"
    using True by (simp add: mult.assoc [symmetric] power_add [symmetric])
  also have "\<dots> = unat x div 2 ^ i + 2 ^ (32 - i) * v" by simp
  finally show ?thesis using True by (simp add: bit_iff_odd)
next
  case False
  have "(unat x + 2 ^ 32 * v) div 2 ^ i = (unat x + 2 ^ 32 * v) div 2 ^ 32 div 2 ^ (i - 32)"
    using False by (simp only: div_mult2_eq [symmetric] power_add [symmetric]) simp
  also have "(unat x + 2 ^ 32 * v) div 2 ^ 32 = v" using unat_u32_less [of x] by simp
  finally show ?thesis using False by (simp add: bit_iff_odd)
qed

lemma bit_mag_val: "bit (mag_val a) i \<longleftrightarrow> i div 32 < length a \<and> bit (a ! (i div 32)) (i mod 32)"
proof (induction a arbitrary: i)
  case (Cons x a)
  have eq: "bit (mag_val (x # a)) i = (if i < 32 then bit (unat x) i else bit (mag_val a) (i - 32))"
    by (simp only: mag_val.simps bit_limb_cons)
  show ?case
  proof (cases "i < 32")
    case True
    then show ?thesis by (simp add: eq bit_unsigned_iff del: mag_val.simps)
  next
    case False
    then have "i div 32 = Suc ((i - 32) div 32)" "i mod 32 = (i - 32) mod 32"
      by (simp_all add: div_if [of 32 i] le_mod_geq)
    with False Cons show ?thesis by (simp add: eq del: mag_val.simps)
  qed
qed simp

lemma mag_bit_val: "mag_bit a i \<longleftrightarrow> bit (mag_val a) i"
proof -
  have "drop_bit n w AND 1 = 1 \<longleftrightarrow> bit w n" for n and w :: u32
    by (simp add: and_one_eq bit_iff_odd_drop_bit odd_iff_mod_2_eq_one)
  then show ?thesis by (simp add: mag_bit_def bit_mag_val)
qed

lemma unat_shl_or:
  fixes x c :: u32
  assumes "b < 32" "unat c < 2 ^ b"
  shows "unat (push_bit b x OR c) + 2 ^ 32 * unat (drop_bit (32 - b) x) = 2 ^ b * unat x + unat c"
proof -
  have disj: "push_bit b x OR c = push_bit b x + c"
  proof (rule disjunctive_add [symmetric])
    fix n
    have "take_bit b (unat c) = unat c" using assms(2) by (rule take_bit_nat_eq_self)
    then have "bit (unat c) n \<Longrightarrow> n < b" by (metis bit_take_bit_iff)
    then have "bit c n \<Longrightarrow> n < b" by (simp add: bit_unsigned_iff)
    then show "\<not> bit (push_bit b x) n \<or> \<not> bit c n" by (auto simp: bit_simps)
  qed
  have "unat (push_bit b x) = 2 ^ b * unat x mod 2 ^ 32"
    by (subst unsigned_push_bit_eq) (simp add: take_bit_eq_mod push_bit_eq_mult mult.commute)
  also have "\<dots> = 2 ^ b * (unat x mod 2 ^ (32 - b))"
    using assms(1) by (metis mult_mod_right le_add_diff_inverse less_imp_le power_add)
  finally have ps: "unat (push_bit b x) = 2 ^ b * (unat x mod 2 ^ (32 - b))" .
  have p32: "2 ^ 32 = 2 ^ b * (2::nat) ^ (32 - b)" using assms(1) by (simp add: power_add [symmetric])
  have "unat x mod 2 ^ (32 - b) + 1 \<le> 2 ^ (32 - b)" by (simp add: Suc_leI)
  then have "2 ^ b * (unat x mod 2 ^ (32 - b) + 1) \<le> 2 ^ b * 2 ^ (32 - b)" by (rule mult_le_mono2)
  then have "unat (push_bit b x) + unat c < 2 ^ 32" using ps assms(2) p32 by simp
  then have "unat (push_bit b x OR c) = 2 ^ b * (unat x mod 2 ^ (32 - b)) + unat c"
    using disj ps by (simp add: unat_word_ariths)
  moreover have "2 ^ b * (unat x mod 2 ^ (32 - b)) + 2 ^ 32 * (unat x div 2 ^ (32 - b)) = 2 ^ b * unat x"
    by (simp only: p32 mult.assoc distrib_left [symmetric]) simp
  ultimately show ?thesis by (simp only: unat_drop_bit)
qed

lemma mag_shl_loop_val:
  "b < 32 \<Longrightarrow> unat c < 2 ^ b \<Longrightarrow> mag_val (mag_shl_loop b xs c) = 2 ^ b * mag_val xs + unat c"
proof (induction b xs c rule: mag_shl_loop.induct)
  case (2 b x xs c)
  show ?case
  proof (cases "b = 0")
    case True
    with 2 show ?thesis by simp
  next
    case False
    have "unat (drop_bit (32 - b) x) < 2 ^ b"
      using unat_u32_less [of x] 2(3)
      by (simp add: unat_drop_bit less_mult_imp_div_less power_add [symmetric])
    with False 2 have IH: "mag_val (mag_shl_loop b xs (drop_bit (32 - b) x)) =
        2 ^ b * mag_val xs + unat (drop_bit (32 - b) x)" by blast
    have "mag_val (mag_shl_loop b (x # xs) c) =
        unat (push_bit b x OR c) + 2 ^ 32 * (2 ^ b * mag_val xs + unat (drop_bit (32 - b) x))"
      using False IH by simp
    also have "\<dots> = 2 ^ b * mag_val (x # xs) + unat c"
      using unat_shl_or [OF 2(3,4), of x] by (simp add: algebra_simps)
    finally show ?thesis .
  qed
qed auto

lemma mag_val_shl [simp]: "mag_val (mag_shl a n) = mag_val a * 2 ^ n"
proof -
  have "(2::nat) ^ n = 2 ^ (32 * (n div 32)) * 2 ^ (n mod 32)"
    by (simp add: power_add [symmetric])
  then show ?thesis by (simp add: mag_shl_def mag_shl_loop_val algebra_simps)
qed

lemma normalized_shl [simp]: "normalized (mag_shl a n)"
  by (simp add: mag_shl_def)

lemma div_mod_unique: "r < d \<Longrightarrow> n = d * q + r \<Longrightarrow> n div d = q \<and> n mod d = (r::nat)"
  by simp

lemma shr_position:
  fixes i :: nat
  assumes "b < 32"
  shows "(32 * w + b + i) div 32 = w + i div 32 + (if i mod 32 + b < 32 then 0 else 1)"
    and "(32 * w + b + i) mod 32 = (if i mod 32 + b < 32 then i mod 32 + b else i mod 32 + b - 32)"
proof -
  obtain k r where k: "i div 32 = k" "i mod 32 = r" "r < 32" "i = 32 * k + r"
    by (metis div_mult_mod_eq mod_less_divisor mult.commute zero_less_numeral)
  have "(32 * w + b + i) div 32 = w + k + (if r + b < 32 then 0 else 1) \<and>
      (32 * w + b + i) mod 32 = (if r + b < 32 then r + b else r + b - 32)"
    by (rule div_mod_unique) (use k(3,4) assms in \<open>auto split: if_splits\<close>)
  then show "(32 * w + b + i) div 32 = w + i div 32 + (if i mod 32 + b < 32 then 0 else 1)"
    and "(32 * w + b + i) mod 32 = (if i mod 32 + b < 32 then i mod 32 + b else i mod 32 + b - 32)"
    by (simp_all only: k(1,2))
qed

lemma word_position:
  fixes i w :: nat
  shows "(w + 31) div 32 = w div 32 + (if w mod 32 = 0 then 0 else 1)"
    and "i < w \<longleftrightarrow> i div 32 < w div 32 \<or> (i div 32 = w div 32 \<and> i mod 32 < w mod 32)"
proof -
  obtain k r where k: "i div 32 = k" "i mod 32 = r" "r < 32" "i = 32 * k + r"
    by (metis div_mult_mod_eq mod_less_divisor mult.commute zero_less_numeral)
  obtain l t where l: "w div 32 = l" "w mod 32 = t" "t < 32" "w = 32 * l + t"
    by (metis div_mult_mod_eq mod_less_divisor mult.commute zero_less_numeral)
  have "(w + 31) div 32 = l + (if t = 0 then 0 else 1) \<and> (w + 31) mod 32 = (if t = 0 then 31 else t - 1)"
    by (rule div_mod_unique) (use l(3,4) in \<open>auto split: if_splits\<close>)
  then show "(w + 31) div 32 = w div 32 + (if w mod 32 = 0 then 0 else 1)"
    by (simp only: l(1,2))
  have "32 * k + r < 32 * l + t \<longleftrightarrow> k < l \<or> (k = l \<and> r < t)"
    using k(3) l(3) by (cases "k < l"; cases "k = l") auto
  then show "i < w \<longleftrightarrow> i div 32 < w div 32 \<or> (i div 32 = w div 32 \<and> i mod 32 < w mod 32)"
    by (simp only: k(1,2) l(1,2)) (simp only: k(4) l(4))
qed

lemma bit_shr_limb:
  fixes x y :: u32
  assumes "b < 32" "r < 32"
  shows "bit (drop_bit b x OR (if b = 0 then 0 else push_bit (32 - b) y)) r \<longleftrightarrow>
    (if r + b < 32 then bit x (r + b) else bit y (r + b - 32))"
proof (cases "r + b < 32")
  case True
  with assms show ?thesis by (auto simp: bit_simps add.commute)
next
  case False
  then have "\<not> bit x (b + r)" using bit_imp_le_length [of x "b + r"] by auto
  with False assms show ?thesis by (auto simp: bit_simps add.commute)
qed

lemma mag_val_shr [simp]: "mag_val (mag_shr a n) = mag_val a div 2 ^ n"
proof -
  define w b where "w = n div 32" and "b = n mod 32"
  have n: "n = 32 * w + b" and b: "b < 32" by (simp_all add: w_def b_def)
  define src where "src = drop w a"
  define out where "out = map (\<lambda>i. drop_bit b (src ! i) OR (if b = 0 then 0
      else if i + 1 < length src then push_bit (32 - b) (src ! (i + 1)) else 0)) [0..<length src]"
  have "drop_bit n (mag_val a) = mag_val (if w \<ge> length a then [] else out)"
  proof (rule bit_eqI)
    fix i :: nat
    let ?k = "i div 32" and ?r = "i mod 32"
    have lhs: "bit (drop_bit n (mag_val a)) i \<longleftrightarrow>
        w + ?k + (if ?r + b < 32 then 0 else 1) < length a \<and>
        bit (a ! (w + ?k + (if ?r + b < 32 then 0 else 1)))
          (if ?r + b < 32 then ?r + b else ?r + b - 32)"
      by (simp only: bit_drop_bit_eq comp_def bit_mag_val n shr_position [OF b])
    show "bit (drop_bit n (mag_val a)) i = bit (mag_val (if w \<ge> length a then [] else out)) i"
    proof (cases "?k < length src")
      case True
      have "out ! ?k = drop_bit b (src ! ?k) OR (if b = 0 then 0 else
          push_bit (32 - b) (if ?k + 1 < length src then src ! (?k + 1) else 0))"
        using True by (simp add: out_def)
      with True lhs show ?thesis
        by (auto simp: bit_mag_val out_def src_def bit_shr_limb [OF b] less_diff_conv add.commute)
    next
      case False
      with lhs show ?thesis by (auto simp: bit_mag_val out_def src_def)
    qed
  qed
  then show ?thesis
    by (simp add: mag_shr_def w_def [symmetric] b_def [symmetric] Let_def src_def [symmetric]
        out_def [symmetric] drop_bit_eq_div [where 'a = nat] split: if_splits)
qed

lemma normalized_shr [simp]: "normalized (mag_shr a n)"
  by (simp add: mag_shr_def Let_def)

lemma mag_val_low_bits [simp]: "mag_val (mag_low_bits a w) = mag_val a mod 2 ^ w"
proof -
  define words where "words = (w + 31) div 32"
  define out where "out = take words a"
  define m where "m = (if length out = words \<and> w mod 32 \<noteq> 0
      then butlast out @ [last out AND (push_bit (w mod 32) 1 - 1)] else out)"
  have "mag_val m = take_bit w (mag_val a)"
  proof (rule bit_eqI)
    fix i :: nat
    have pos: "i < w \<longleftrightarrow> i div 32 < words \<and> (i div 32 = words - 1 \<and> w mod 32 \<noteq> 0 \<longrightarrow> i mod 32 < w mod 32)"
      unfolding words_def word_position(1) word_position(2) [of i w] by auto
    show "bit (mag_val m) i = bit (take_bit w (mag_val a)) i"
    proof (cases "length out = words \<and> w mod 32 \<noteq> 0")
      case True
      then have pw: "0 < words" by (cases w) (simp_all add: words_def)
      with True have ne: "out \<noteq> []" by auto
      have len: "length m = words" using True ne pw by (simp add: m_def)
      have nth: "m ! k = (if k = words - 1 then out ! k AND mask (w mod 32) else out ! k)" if "k < words" for k
        using that True ne pw
        by (auto simp: m_def nth_append nth_butlast last_conv_nth mask_eq_exp_minus_1)
      show ?thesis
        using True by (auto simp: bit_mag_val len nth bit_take_bit_iff pos out_def bit_simps split: if_splits)
    next
      case False
      then have "m = out" by (simp only: m_def if_False)
      moreover have "w mod 32 \<noteq> 0 \<Longrightarrow> length a < words" using False by (auto simp: out_def min_def split: if_splits)
      ultimately show ?thesis by (auto simp: bit_mag_val bit_take_bit_iff pos out_def)
    qed
  qed
  moreover have "mag_low_bits a w = trim m"
    by (simp only: mag_low_bits_def Let_def words_def out_def m_def)
  ultimately show ?thesis by (simp add: take_bit_eq_mod)
qed

lemma normalized_low_bits [simp]: "normalized (mag_low_bits a w)"
  by (simp add: mag_low_bits_def Let_def)

section \<open>Division\<close>

text \<open>
  Shift-subtract division: after the bits above \<open>i\<close> have been consumed, \<open>q\<close> and \<open>r\<close> are quotient
  and remainder of the leading part of the dividend, with \<open>q\<close>'s bits below \<open>i\<close> still clear.
\<close>

definition push_one :: "u32 list \<Rightarrow> u32 list" where
  "push_one m = (case m of [] \<Rightarrow> [1] | x # xs \<Rightarrow> (x OR 1) # xs)"

lemma unat_or_one: "even (unat (x :: u32)) \<Longrightarrow> unat (x OR 1) = unat x + 1"
proof -
  assume "even (unat x)"
  moreover have "unat (x OR 1) = unat x OR 1" by (subst unsigned_or_eq) simp
  ultimately show ?thesis by (simp only: or_one_eq) simp
qed

lemma unat_pow2_u32: "n < 32 \<Longrightarrow> unat ((2 :: u32) ^ n) = 2 ^ n"
proof -
  assume "n < 32"
  then have "(2::nat) ^ n < 2 ^ 32" by (rule power_strict_increasing) simp
  then have "take_bit 32 ((2::nat) ^ n) = 2 ^ n" by (simp only: take_bit_nat_eq_self)
  moreover have "(2::u32) ^ n = of_nat (2 ^ n)" by simp
  ultimately show ?thesis by (simp only: unsigned_of_nat) simp
qed

lemma mag_val_push_one: "even (mag_val m) \<Longrightarrow> mag_val (push_one m) = mag_val m + 1"
  by (cases m) (simp_all add: push_one_def unat_or_one)

lemma normalized_push_one: "normalized m \<Longrightarrow> normalized (push_one m)"
  by (cases m) (auto simp: push_one_def normalized_def or_eq_0_iff)

lemma mag_divrem_loop_step:
  "mag_divrem_loop a b (i # is) q r =
     (let r2 = (if mag_bit a i then push_one (mag_shl r 1) else mag_shl r 1)
      in if mag_cmp r2 b \<noteq> Less then
           do { q' \<leftarrow> set_at q (i div 32) (limb q (i div 32) OR push_bit (i mod 32) 1);
                mag_divrem_loop a b is q' (mag_sub r2 b) }
         else mag_divrem_loop a b is q r2)"
  by (simp only: mag_divrem_loop.simps push_one_def Let_def)

lemma div_step:
  fixes v d :: nat
  assumes "v div d = q" "v mod d = r" "0 < d" "b \<le> 1"
  shows "(2 * v + b) div d = 2 * q + (if 2 * r + b \<ge> d then 1 else 0)"
    and "(2 * v + b) mod d = (if 2 * r + b \<ge> d then 2 * r + b - d else 2 * r + b)"
proof -
  have v: "v = d * q + r" and r: "r < d" using assms by auto
  have "(2 * v + b) div d = 2 * q + (if 2 * r + b \<ge> d then 1 else 0) \<and>
      (2 * v + b) mod d = (if 2 * r + b \<ge> d then 2 * r + b - d else 2 * r + b)"
    by (rule div_mod_unique) (use v r assms(4) in \<open>auto simp: algebra_simps split: if_splits\<close>)
  then show "(2 * v + b) div d = 2 * q + (if 2 * r + b \<ge> d then 1 else 0)"
    and "(2 * v + b) mod d = (if 2 * r + b \<ge> d then 2 * r + b - d else 2 * r + b)" by auto
qed

lemma mag_val_set_bit:
  assumes "i div 32 < length q" "\<not> bit (mag_val q) i"
  shows "mag_val (q[i div 32 := limb q (i div 32) OR push_bit (i mod 32) 1]) = mag_val q + 2 ^ i"
proof -
  let ?k = "i div 32" and ?r = "i mod 32"
  have clear: "\<not> bit (q ! ?k) ?r" using assms by (simp add: bit_mag_val)
  have "q ! ?k OR push_bit ?r 1 = q ! ?k + 2 ^ ?r"
    using clear by (subst disjunctive_add [symmetric]) (auto simp: bit_simps)
  moreover have "unat (q ! ?k) + 2 ^ ?r < 2 ^ 32"
  proof -
    have "unat (q ! ?k OR push_bit ?r 1) < 2 ^ 32" by (rule unat_u32_less)
    also have "unat (q ! ?k OR push_bit ?r 1) = unat (q ! ?k) OR push_bit ?r 1"
      by (simp add: unsigned_or_eq unat_pow2_u32)
    also have "\<dots> = unat (q ! ?k) + 2 ^ ?r"
      using clear by (subst disjunctive_add [symmetric]) (auto simp: bit_simps)
    finally show ?thesis .
  qed
  ultimately have "unat (q ! ?k OR push_bit ?r 1) = unat (q ! ?k) + 2 ^ ?r"
    by (simp add: unat_word_ariths unat_pow2_u32)
  moreover have "(2::nat) ^ i = 2 ^ (32 * ?k) * 2 ^ ?r" by (simp add: power_add [symmetric])
  ultimately show ?thesis
    using mag_val_update [OF assms(1), of "q ! ?k OR push_bit ?r 1"] assms(1)
    by (simp add: limb_def algebra_simps)
qed

lemma mag_divrem_loop_val:
  assumes "normalized b" "b \<noteq> []" "normalized r" "i \<le> 32 * length q"
    and "mag_val r = mag_val a div 2 ^ i mod mag_val b"
    and "mag_val q = mag_val a div 2 ^ i div mag_val b * 2 ^ i"
  shows "\<exists>q' r'. mag_divrem_loop a b (rev [0..<i]) q r = Some (q', r') \<and> normalized q' \<and> normalized r' \<and>
    mag_val q' = mag_val a div mag_val b \<and> mag_val r' = mag_val a mod mag_val b"
  using assms(3-)
proof (induction i arbitrary: q r)
  case (Suc i)
  let ?d = "mag_val b" and ?v = "mag_val a div 2 ^ Suc i"
  have d: "0 < ?d" using assms(1,2) by (simp add: zero_less_iff_neq_zero)
  define r2 where "r2 = (if mag_bit a i then push_one (mag_shl r 1) else mag_shl r 1)"
  define bi where "bi = (of_bool (bit (mag_val a) i) :: nat)"
  have n2: "normalized r2" by (simp add: r2_def normalized_push_one)
  have v2: "mag_val r2 = 2 * mag_val r + bi"
    by (simp add: r2_def bi_def mag_bit_val mag_val_push_one)
  have va: "mag_val a div 2 ^ i = 2 * ?v + bi"
  proof -
    have "?v = mag_val a div 2 ^ i div 2" by (simp add: div_mult2_eq mult.commute [of 2])
    moreover have "bi = mag_val a div 2 ^ i mod 2" by (simp add: bi_def bit_iff_odd mod_2_eq_odd)
    ultimately show ?thesis by simp
  qed
  note step = div_step [of ?v ?d "?v div ?d" "mag_val r" bi]
  have ge: "mag_cmp r2 b \<noteq> Less \<longleftrightarrow> 2 * mag_val r + bi \<ge> ?d"
    by (simp add: mag_cmp_val [OF n2 assms(1)] v2 not_less)
  have lt: "i < 32 * length q" using Suc.prems(2) by simp
  have clear: "\<not> bit (mag_val q) i"
    by (simp add: Suc.prems(4) bit_iff_odd mult.assoc [symmetric])
  show ?case
  proof (cases "2 * mag_val r + bi \<ge> ?d")
    case True
    define q1 where "q1 = q[i div 32 := limb q (i div 32) OR push_bit (i mod 32) 1]"
    have k: "i div 32 < length q" using lt by (simp add: less_mult_imp_div_less mult.commute)
    have "mag_val q1 = mag_val q + 2 ^ i" unfolding q1_def by (rule mag_val_set_bit [OF k clear])
    also have "\<dots> = mag_val a div 2 ^ i div ?d * 2 ^ i"
      using step(1) True d Suc.prems(3,4) by (simp add: va bi_def algebra_simps)
    finally have q1: "mag_val q1 = mag_val a div 2 ^ i div ?d * 2 ^ i" .
    have "mag_val (mag_sub r2 b) = mag_val a div 2 ^ i mod ?d"
      using step(2) True d Suc.prems(3) v2 by (simp add: va bi_def mag_val_sub assms(1))
    then obtain q' r' where "mag_divrem_loop a b (rev [0..<i]) q1 (mag_sub r2 b) = Some (q', r')"
      and rest: "normalized q'" "normalized r'" "mag_val q' = mag_val a div ?d" "mag_val r' = mag_val a mod ?d"
      using Suc.IH [of "mag_sub r2 b" q1] q1 lt by (auto simp: q1_def)
    then have "mag_divrem_loop a b (rev [0..<Suc i]) q r = Some (q', r')"
      using True ge k
      by (simp add: mag_divrem_loop_step r2_def [symmetric, simplified] set_at_def q1_def
          del: mag_divrem_loop.simps)
    with rest show ?thesis by blast
  next
    case False
    have "mag_val q = mag_val a div 2 ^ i div ?d * 2 ^ i"
      using step(1) False d Suc.prems(3,4) by (simp add: va bi_def algebra_simps)
    moreover have "mag_val r2 = mag_val a div 2 ^ i mod ?d"
      using step(2) False d Suc.prems(3) v2 by (simp add: va bi_def)
    ultimately show ?thesis
      using Suc.IH [of r2 q] n2 lt False ge
      by (simp add: mag_divrem_loop_step r2_def [symmetric, simplified] del: mag_divrem_loop.simps)
  qed
qed (simp add: assms)

theorem mag_divrem_val:
  assumes "normalized a" "normalized b" "b \<noteq> []"
  shows "\<exists>q r. mag_divrem a b = Some (q, r) \<and> normalized q \<and> normalized r \<and>
    mag_val q = mag_val a div mag_val b \<and> mag_val r = mag_val a mod mag_val b"
proof (cases "mag_cmp a b = Less")
  case True
  then show ?thesis using assms by (simp add: mag_divrem_def mag_cmp_val)
next
  case False
  let ?n = "mag_bit_len a"
  have "?n \<le> 32 * length a"
    using mag_val_less [of a] by (simp add: mag_bit_len_val [OF assms(1)] bit_len_le_iff)
  moreover have "mag_val a div 2 ^ ?n = 0" by (simp add: mag_val_less_pow_bit_len assms(1))
  ultimately show ?thesis
    using False assms mag_divrem_loop_val [OF assms(2,3), of "[]" ?n "replicate (length a) 0" a]
    by (simp add: mag_divrem_def)
qed

section \<open>The interface of the magnitude layer\<close>

text \<open>
  What the signed layer relies on.  The facts below combine a sign with a magnitude and are the
  arithmetic of sign-and-magnitude numbers, proved from the laws alone.
\<close>

locale magnitude =
  fixes val :: "'m \<Rightarrow> nat" and norm :: "'m \<Rightarrow> bool"
    and add :: "'m \<Rightarrow> 'm \<Rightarrow> 'm" and sub :: "'m \<Rightarrow> 'm \<Rightarrow> 'm"
    and mul :: "'m \<Rightarrow> 'm \<Rightarrow> 'm option" and divrem :: "'m \<Rightarrow> 'm \<Rightarrow> ('m \<times> 'm) option"
    and cmp :: "'m \<Rightarrow> 'm \<Rightarrow> Ordering"
    and shl :: "'m \<Rightarrow> nat \<Rightarrow> 'm" and shr :: "'m \<Rightarrow> nat \<Rightarrow> 'm"
    and low :: "'m \<Rightarrow> nat \<Rightarrow> 'm"
  assumes val_inj: "norm a \<Longrightarrow> norm b \<Longrightarrow> val a = val b \<Longrightarrow> a = b"
    and val_add: "val (add a b) = val a + val b"
    and val_sub: "norm a \<Longrightarrow> norm b \<Longrightarrow> val b \<le> val a \<Longrightarrow> val (sub a b) = val a - val b"
    and val_mul: "\<exists>m. mul a b = Some m \<and> norm m \<and> val m = val a * val b"
    and val_divrem: "norm a \<Longrightarrow> norm b \<Longrightarrow> val b \<noteq> 0 \<Longrightarrow>
      \<exists>q r. divrem a b = Some (q, r) \<and> norm q \<and> norm r \<and> val q = val a div val b \<and> val r = val a mod val b"
    and cmp_val: "norm a \<Longrightarrow> norm b \<Longrightarrow> cmp a b = ord_cmp (val a) (val b)"
    and val_shl: "val (shl a n) = val a * 2 ^ n"
    and val_shr: "val (shr a n) = val a div 2 ^ n"
    and val_low: "val (low a n) = val a mod 2 ^ n"
    and norm_sub: "norm (sub a b)" and norm_shl: "norm (shl a n)" and norm_low: "norm (low a n)"
begin

definition signed_of :: "bool \<Rightarrow> 'm \<Rightarrow> int" where
  "signed_of neg m = (if neg then - int (val m) else int (val m))"

lemma signed_of_inj:
  "norm a \<Longrightarrow> norm b \<Longrightarrow> (s \<longrightarrow> val a \<noteq> 0) \<Longrightarrow> (t \<longrightarrow> val b \<noteq> 0) \<Longrightarrow>
   signed_of s a = signed_of t b \<longleftrightarrow> s = t \<and> a = b"
  using val_inj [of a b] by (auto simp: signed_of_def)

lemma signed_add_same: "signed_of s (add a b) = signed_of s a + signed_of s b"
  by (simp add: signed_of_def val_add)

lemma signed_sub_less:
  "norm a \<Longrightarrow> norm b \<Longrightarrow> cmp a b = Less \<Longrightarrow> signed_of s (sub b a) = signed_of s b + signed_of (\<not> s) a"
  by (simp add: signed_of_def val_sub cmp_val of_nat_diff)

lemma signed_sub_ge:
  "norm a \<Longrightarrow> norm b \<Longrightarrow> cmp a b \<noteq> Less \<Longrightarrow> signed_of s (sub a b) = signed_of s a + signed_of (\<not> s) b"
  by (simp add: signed_of_def val_sub cmp_val not_less of_nat_diff)

lemma signed_mul:
  "\<exists>m. mul a b = Some m \<and> norm m \<and> signed_of (s \<noteq> t) m = signed_of s a * signed_of t b"
  using val_mul [of a b] by (auto simp: signed_of_def)

lemma signed_divrem:
  assumes "norm a" "norm b" "val b \<noteq> 0"
  shows "\<exists>q r. divrem a b = Some (q, r) \<and> norm q \<and> norm r \<and>
    signed_of (s \<noteq> t) q = signed_of s a sdiv signed_of t b \<and> signed_of s r = signed_of s a smod signed_of t b"
proof -
  obtain q r where "divrem a b = Some (q, r)" "norm q" "norm r"
    and "val q = val a div val b" "val r = val a mod val b"
    using val_divrem [OF assms] by blast
  moreover have "sgn (int (val a)) = of_bool (val a \<noteq> 0)" by simp
  ultimately show ?thesis
    using assms(3)
    by (auto simp: signed_of_def signed_divide_int_def signed_modulo_int_def sgn_mult zdiv_int zmod_int
        minus_div_mult_eq_mod mult.commute)
qed

lemma signed_shl: "signed_of s (shl a n) = signed_of s a * 2 ^ n"
  by (simp add: signed_of_def val_shl)

text \<open>The complement trick of the negative right shift rounds towards minus infinity.\<close>

lemma signed_shr_neg:
  assumes "norm a" "norm one" "val one = 1" "val a \<noteq> 0"
  shows "signed_of True (add (shr (sub a one) n) one) = signed_of True a div 2 ^ n"
proof -
  define v where "v = val a - 1"
  have v: "int (val a) = int v + 1" using assms(4) by (simp add: v_def)
  have "val (sub a one) = v" using assms by (simp add: val_sub v_def)
  then have "signed_of True (add (shr (sub a one) n) one) = - int (v div 2 ^ n) - 1"
    using assms(3) by (simp add: signed_of_def val_add val_shr)
  also have "\<dots> = - (int v div 2 ^ n) - 1" by (simp add: zdiv_int)
  also have "\<dots> = (- 1 - int v) div 2 ^ n" by (simp add: div_complement)
  also have "- 1 - int v = signed_of True a" by (simp add: signed_of_def v)
  finally show ?thesis .
qed

lemma signed_mod_pos: "int (val (low a w)) = signed_of False a mod 2 ^ w"
  by (simp add: signed_of_def val_low zmod_int)

lemma signed_mod_zero: "val (low a w) = 0 \<Longrightarrow> signed_of s a mod 2 ^ w = 0"
proof -
  assume "val (low a w) = 0"
  then have "int (val a mod 2 ^ w) = 0" by (simp add: val_low)
  then have "int (val a) mod 2 ^ w = 0" by (simp only: zmod_int) simp
  then show ?thesis by (simp add: signed_of_def zmod_zminus1_eq_if)
qed

lemma signed_mod_neg:
  assumes "norm p" "val p = 2 ^ w" "val (low a w) \<noteq> 0"
  shows "int (val (sub p (low a w))) = signed_of True a mod 2 ^ w"
proof -
  have "val (low a w) < 2 ^ w" by (simp add: val_low)
  then have "int (val (sub p (low a w))) = 2 ^ w - int (val (low a w))"
    using assms by (simp add: val_sub norm_low of_nat_diff)
  moreover have "int (val (low a w)) = int (val a) mod 2 ^ w" by (simp add: val_low zmod_int)
  ultimately show ?thesis using assms(3) by (simp add: signed_of_def zmod_zminus1_eq_if)
qed

end

interpretation limbs: magnitude mag_val normalized mag_add mag_sub mag_mul mag_divrem mag_cmp mag_shl mag_shr
  mag_low_bits
proof
qed (simp_all add: normalized_inject mag_val_sub mag_mul_val mag_divrem_val mag_cmp_val)

section \<open>Bit counts at their width\<close>

lemma unat_of_nat32: "n < 2 ^ 32 \<Longrightarrow> unat (of_nat n :: u32) = n"
  by (simp add: unat_of_nat take_bit_nat_eq_self)

lemma checked_add32_nat: "m + n < 2 ^ 32 \<Longrightarrow> checked_add32 (of_nat m) (of_nat n) = Some (of_nat (m + n))"
  by (simp add: checked_add32_def unat_of_nat32)

lemma checked_mul32_nat: "m < 2 ^ 32 \<Longrightarrow> m * 32 < 2 ^ 32 \<Longrightarrow> checked_mul32 (of_nat m) 32 = Some (of_nat (m * 32))"
  by (simp add: checked_mul32_def unat_of_nat32)

lemma checked_sub32_nat: "0 < n \<Longrightarrow> n < 2 ^ 32 \<Longrightarrow> checked_sub32 (of_nat n) 1 = Some (of_nat (n - 1))"
  by (simp add: checked_sub32_def word_le_nat_alt unat_of_nat32 of_nat_diff)

lemma bit_len_u32: "bit_len (unat (x :: u32)) \<le> 32"
  using unat_u32_less [of x] by (simp add: bit_len_le_iff)

lemma mag_bit_len32_eq:
  assumes "mag_bit_len a < 2 ^ 32"
  shows "mag_bit_len32 a = Some (of_nat (mag_bit_len a))"
proof (cases "a = []")
  case False
  let ?n = "length a - 1" and ?b = "bit_len (unat (last a))"
  have n: "?n * 32 + ?b < 2 ^ 32" "length a = Suc ?n" using assms False by (simp_all add: mag_bit_len_def)
  then have "?n < 2 ^ 32" "length a < 2 ^ 32" "?b < 2 ^ 32" using bit_len_u32 [of "last a"] by auto
  then show ?thesis
    using n False checked_add32_nat [of "?n * 32" ?b] checked_mul32_nat [of ?n] checked_sub32_nat [of "length a"]
    by (simp add: mag_bit_len32_def mag_bit_len_def)
qed (simp add: mag_bit_len32_def mag_bit_len_def)

lemma mag_bit_len32_overflow:
  assumes "2 ^ 32 \<le> mag_bit_len a" "length a < 2 ^ 32"
  shows "mag_bit_len32 a = None"
proof -
  let ?n = "length a - 1" and ?b = "bit_len (unat (last a))"
  have ne: "a \<noteq> []" using assms(1) by (auto simp: mag_bit_len_def)
  have big: "2 ^ 32 \<le> ?n * 32 + ?b" using assms(1) ne by (simp add: mag_bit_len_def)
  have sub: "checked_sub32 (of_nat (length a)) 1 = Some (of_nat ?n)"
    using checked_sub32_nat [of "length a"] ne assms(2) by simp
  have n: "unat (of_nat ?n :: u32) = ?n" "unat (of_nat ?b :: u32) = ?b"
    using assms(2) bit_len_u32 [of "last a"] by (simp_all add: unat_of_nat32)
  show ?thesis
  proof (cases "?n * 32 < 2 ^ 32")
    case True
    then have "unat (of_nat ?n * 32 :: u32) = ?n * 32" using unat_of_nat32 [of "?n * 32"] by simp
    then show ?thesis using True big n ne sub by (simp add: mag_bit_len32_def checked_mul32_def checked_add32_def)
  next
    case False
    then show ?thesis using n ne sub by (simp add: mag_bit_len32_def checked_mul32_def)
  qed
qed

lemma mag_divrem32_eq: "mag_bit_len a < 2 ^ 32 \<Longrightarrow> mag_divrem32 a b = mag_divrem a b"
  by (simp add: mag_divrem32_def mag_divrem_def mag_bit_len32_eq unat_of_nat32)

lemma mag_bit_len32_None: "length a < 2 ^ 32 \<Longrightarrow> mag_bit_len32 a = None \<longleftrightarrow> 2 ^ 32 \<le> mag_bit_len a"
  using mag_bit_len32_eq [of a] mag_bit_len32_overflow [of a] by (cases "mag_bit_len a < 2 ^ 32") auto

end
