(* ===== verification/Exact_Int.thy ===== *)
theory Exact_Int
  imports Exact_Mag
begin

text \<open>
  The signed layer of \<^verbatim>\<open>src/src/exact_int.rs\<close>: \<^verbatim>\<open>ExactInt\<close>, the arbitrary-precision integers
  constant evaluation works on, as a sign and a limb vector.  \<open>exact_val\<close> reads a value and
  \<open>wf_exact\<close> is the invariant its constructors establish; every operation is shown to compute
  the corresponding operation on \<open>int\<close> and to keep the invariant.

  The operations that count bits are modelled with the count in the naturals and, with the suffix 32, in the checked
  \<^verbatim>\<open>u32\<close> arithmetic of the source.
\<close>

section \<open>Signed values\<close>

record ExactInt =
  negative :: bool
  mag :: "u32 list"

definition from_parts :: "bool \<Rightarrow> u32 list \<Rightarrow> ExactInt" where
  "from_parts neg m = (let m' = trim m in \<lparr>negative = neg \<and> m' \<noteq> [], mag = m'\<rparr>)"

definition from_u128 :: "u128 \<Rightarrow> ExactInt" where
  "from_u128 v = from_parts False (map (\<lambda>i. ucast (drop_bit (32 * i) v)) [0..<4])"

text \<open>An \<^verbatim>\<open>i128\<close> is its 128-bit pattern, read with \<open>sint\<close>.\<close>

definition unsigned_abs :: "u128 \<Rightarrow> u128" where
  "unsigned_abs v = (if sint v < 0 then - v else v)"

definition from_i128 :: "u128 \<Rightarrow> ExactInt" where
  "from_i128 v = (from_u128 (unsigned_abs v))\<lparr>negative := sint v < 0\<rparr>"

definition from_bits :: "u64 \<Rightarrow> bool \<Rightarrow> ExactInt" where
  "from_bits bits sg = (if sg then from_i128 (scast bits) else from_u128 (ucast bits))"

definition from_words :: "u32 list \<Rightarrow> ExactInt" where
  "from_words ws = from_parts False ws"

definition ExactInt_shl :: "ExactInt \<Rightarrow> nat \<Rightarrow> ExactInt" where
  "ExactInt_shl x n = from_parts (negative x) (mag_shl (mag x) n)"

definition pow2 :: "nat \<Rightarrow> ExactInt" where
  "pow2 n = ExactInt_shl (from_u128 1) n"

definition is_zero :: "ExactInt \<Rightarrow> bool" where
  "is_zero x \<longleftrightarrow> mag x = []"

definition is_negative :: "ExactInt \<Rightarrow> bool" where
  "is_negative x \<longleftrightarrow> negative x"

definition magnitude_bits :: "ExactInt \<Rightarrow> nat" where
  "magnitude_bits x = mag_bit_len (mag x)"

definition ExactInt_neg :: "ExactInt \<Rightarrow> ExactInt" where
  "ExactInt_neg x = from_parts (\<not> negative x) (mag x)"

definition ExactInt_add :: "ExactInt \<Rightarrow> ExactInt \<Rightarrow> ExactInt" where
  "ExactInt_add x y =
     (if negative x = negative y then from_parts (negative x) (mag_add (mag x) (mag y))
      else case mag_cmp (mag x) (mag y) of
          Less \<Rightarrow> from_parts (negative y) (mag_sub (mag y) (mag x))
        | _ \<Rightarrow> from_parts (negative x) (mag_sub (mag x) (mag y)))"

definition ExactInt_sub :: "ExactInt \<Rightarrow> ExactInt \<Rightarrow> ExactInt" where
  "ExactInt_sub x y = ExactInt_add x (ExactInt_neg y)"

definition ExactInt_mul :: "ExactInt \<Rightarrow> ExactInt \<Rightarrow> ExactInt option" where
  "ExactInt_mul x y = map_option (from_parts (negative x \<noteq> negative y)) (mag_mul (mag x) (mag y))"

text \<open>The outer option is a panic of the magnitude division, the inner one the source's \<^verbatim>\<open>Option\<close>.\<close>

definition div_rem :: "ExactInt \<Rightarrow> ExactInt \<Rightarrow> (ExactInt \<times> ExactInt) option option" where
  "div_rem x y =
     (if is_zero y then Some None
      else do { (q, r) \<leftarrow> mag_divrem (mag x) (mag y);
                Some (Some (from_parts (negative x \<noteq> negative y) q, from_parts (negative x) r)) })"

definition literal_width :: "ExactInt \<Rightarrow> nat" where
  "literal_width x =
     (if negative x then magnitude_bits (ExactInt_add x (from_u128 1)) + 1
      else max (magnitude_bits x) 1)"

definition to_i128 :: "ExactInt \<Rightarrow> u128 option" where
  "to_i128 x =
     (if magnitude_bits x > 127 then
        (if negative x \<and> magnitude_bits x = 128 \<and> mag x = [0, 0, 0, push_bit 31 1]
         then Some (push_bit 127 1) else None)
      else
        let v = fold (\<lambda>(i, w) v. v OR push_bit (32 * i) (ucast w)) (enumerate 0 (mag x)) 0
        in Some (if negative x then - v else v))"

definition fits_i64 :: "ExactInt \<Rightarrow> bool" where
  "fits_i64 x = (case to_i128 x of None \<Rightarrow> False
     | Some v \<Rightarrow> - (2 ^ 63) \<le> sint v \<and> sint v < 2 ^ 63)"

definition fits_u64 :: "ExactInt \<Rightarrow> bool" where
  "fits_u64 x = (case to_i128 x of None \<Rightarrow> False | Some v \<Rightarrow> 0 \<le> sint v \<and> sint v < 2 ^ 64)"

definition to_u32 :: "ExactInt \<Rightarrow> u32 option" where
  "to_u32 x = (case to_i128 x of None \<Rightarrow> None
     | Some v \<Rightarrow> if 0 \<le> sint v \<and> sint v < 2 ^ 32 then Some (ucast v) else None)"

definition ExactInt_shr :: "ExactInt \<Rightarrow> nat \<Rightarrow> ExactInt" where
  "ExactInt_shr x n =
     (if \<not> negative x then from_parts False (mag_shr (mag x) n)
      else let m1 = mag_sub (mag x) [1] in from_parts True (mag_add (mag_shr m1 n) [1]))"

definition mod_pow2 :: "ExactInt \<Rightarrow> nat \<Rightarrow> ExactInt" where
  "mod_pow2 x w =
     (let low = mag_low_bits (mag x) w in
      if \<not> negative x \<or> low = [] then from_parts False low
      else from_parts False (mag_sub (mag (pow2 w)) low))"

definition low_u64 :: "ExactInt \<Rightarrow> u64" where
  "low_u64 x =
     (let m = mod_pow2 x 64 in ucast (limb (mag m) 0) OR push_bit 32 (ucast (limb (mag m) 1)))"

text \<open>\<^verbatim>\<open>Vec::resize(n, 0)\<close>\<close>

definition resize :: "u32 list \<Rightarrow> nat \<Rightarrow> u32 list" where
  "resize ws n = take n ws @ replicate (n - length ws) 0"

definition pattern_words :: "ExactInt \<Rightarrow> nat \<Rightarrow> u32 list" where
  "pattern_words x w = resize (mag (mod_pow2 x w)) ((w + 31) div 32)"

definition sext :: "ExactInt \<Rightarrow> nat \<Rightarrow> ExactInt" where
  "sext x w =
     (let u = mod_pow2 x w in
      if w > 0 \<and> mag_bit (mag u) (w - 1) then ExactInt_sub u (pow2 w) else u)"

definition normalize :: "ExactInt \<Rightarrow> nat \<Rightarrow> bool \<Rightarrow> ExactInt" where
  "normalize x w sg = (if sg then sext x w else mod_pow2 x w)"

definition fits :: "ExactInt \<Rightarrow> nat \<Rightarrow> bool \<Rightarrow> bool" where
  "fits x w sg \<longleftrightarrow> normalize x w sg = x"

definition ExactInt_not :: "ExactInt \<Rightarrow> ExactInt" where
  "ExactInt_not x = ExactInt_sub (ExactInt_neg x) (from_u128 1)"

definition bitwise :: "ExactInt \<Rightarrow> ExactInt \<Rightarrow> (u32 \<Rightarrow> u32 \<Rightarrow> u32) \<Rightarrow> ExactInt" where
  "bitwise x y f =
     (let w = max (literal_width x) (literal_width y) + 1;
          ws = map (\<lambda>(p, q). f p q) (zip (pattern_words x w) (pattern_words y w))
      in sext (from_words ws) w)"

definition magnitude_bits32 :: "ExactInt \<Rightarrow> u32 option" where
  "magnitude_bits32 x = mag_bit_len32 (mag x)"

definition literal_width32 :: "ExactInt \<Rightarrow> u32 option" where
  "literal_width32 x =
     (if negative x then Option.bind (magnitude_bits32 (ExactInt_add x (from_u128 1))) (\<lambda>n. checked_add32 n 1)
      else map_option (\<lambda>n. max n 1) (magnitude_bits32 x))"

definition div_rem32 :: "ExactInt \<Rightarrow> ExactInt \<Rightarrow> (ExactInt \<times> ExactInt) option option" where
  "div_rem32 x y =
     (if is_zero y then Some None
      else do { (q, r) \<leftarrow> mag_divrem32 (mag x) (mag y);
                Some (Some (from_parts (negative x \<noteq> negative y) q, from_parts (negative x) r)) })"

definition bitwise32 :: "ExactInt \<Rightarrow> ExactInt \<Rightarrow> (u32 \<Rightarrow> u32 \<Rightarrow> u32) \<Rightarrow> ExactInt option" where
  "bitwise32 x y f = do {
     a \<leftarrow> literal_width32 x;
     b \<leftarrow> literal_width32 y;
     w \<leftarrow> checked_add32 (max a b) 1;
     Some (sext (from_words (map (\<lambda>(p, q). f p q) (zip (pattern_words x (unat w)) (pattern_words y (unat w))))) (unat w))
   }"

definition ExactInt_and :: "ExactInt \<Rightarrow> ExactInt \<Rightarrow> ExactInt" where
  "ExactInt_and x y = bitwise x y (AND)"

definition ExactInt_or :: "ExactInt \<Rightarrow> ExactInt \<Rightarrow> ExactInt" where
  "ExactInt_or x y = bitwise x y (OR)"

definition ExactInt_xor :: "ExactInt \<Rightarrow> ExactInt \<Rightarrow> ExactInt" where
  "ExactInt_xor x y = bitwise x y (XOR)"

definition ExactInt_cmp :: "ExactInt \<Rightarrow> ExactInt \<Rightarrow> Ordering" where
  "ExactInt_cmp x y =
     (case (negative x, negative y) of
        (False, True) \<Rightarrow> Greater
      | (True, False) \<Rightarrow> Less
      | (False, False) \<Rightarrow> mag_cmp (mag x) (mag y)
      | (True, True) \<Rightarrow> mag_cmp (mag y) (mag x))"

text \<open>
  \<^verbatim>\<open>Display\<close>: base \<open>10\<^sup>9\<close> chunks, least significant first, produced by repeated division.  The
  loop is a partial function; \<open>None\<close> is a panic or a loop that does not end.
\<close>

partial_function (option) display_chunks :: "u32 list \<Rightarrow> u32 list \<Rightarrow> u32 list option" where
  "display_chunks m digits =
     (if m = [] then Some digits
      else Option.bind (mag_divrem m [1000000000]) (\<lambda>(q, r). display_chunks q (digits @ [limb r 0])))"

declare display_chunks.simps [code]

definition to_string :: "ExactInt \<Rightarrow> string option" where
  "to_string x =
     (if is_zero x then Some ''0''
      else do { digits \<leftarrow> display_chunks (mag x) [];
                if digits = [] then None
                else Some ((if negative x then ''-'' else []) @ show_nat (unat (last digits)) @
                           concat (map (\<lambda>d. zero_pad 9 (unat d)) (rev (butlast digits)))) })"

section \<open>Values and the representation invariant\<close>

definition exact_val :: "ExactInt \<Rightarrow> int" where
  "exact_val x = (if negative x then - int (mag_val (mag x)) else int (mag_val (mag x)))"

definition wf_exact :: "ExactInt \<Rightarrow> bool" where
  "wf_exact x \<longleftrightarrow> normalized (mag x) \<and> (negative x \<longrightarrow> mag x \<noteq> [])"

lemma exact_val_signed: "exact_val x = limbs.signed_of (negative x) (mag x)"
  by (simp add: exact_val_def limbs.signed_of_def)

lemma wf_exactD: "wf_exact x \<Longrightarrow> normalized (mag x)" "wf_exact x \<Longrightarrow> negative x \<Longrightarrow> mag x \<noteq> []"
  by (simp_all add: wf_exact_def)

lemma wf_from_parts [simp]: "wf_exact (from_parts neg m)"
  by (simp add: wf_exact_def from_parts_def Let_def)

lemma val_from_parts [simp]: "exact_val (from_parts neg m) = limbs.signed_of neg m"
proof (cases "trim m = []")
  case True
  then have "mag_val m = 0" by (metis mag_val.simps(1) mag_val_trim)
  then show ?thesis by (simp add: exact_val_def from_parts_def limbs.signed_of_def True)
qed (simp add: exact_val_def from_parts_def limbs.signed_of_def Let_def)

lemma mag_from_parts [simp]: "mag (from_parts neg m) = trim m"
  by (simp add: from_parts_def Let_def)

lemma is_zero_iff: "wf_exact x \<Longrightarrow> is_zero x \<longleftrightarrow> exact_val x = 0"
  by (auto simp: is_zero_def exact_val_def wf_exact_def)

lemma is_negative_iff: "wf_exact x \<Longrightarrow> is_negative x \<longleftrightarrow> exact_val x < 0"
  by (auto simp: is_negative_def exact_val_def wf_exact_def zero_less_iff_neq_zero)

lemma exact_val_eq_iff: "wf_exact x \<Longrightarrow> wf_exact y \<Longrightarrow> exact_val x = exact_val y \<longleftrightarrow> x = y"
  using limbs.signed_of_inj [of "mag x" "mag y" "negative x" "negative y"]
  by (auto simp: exact_val_signed wf_exact_def intro: ExactInt.equality)

lemma magnitude_bits_val: "wf_exact x \<Longrightarrow> magnitude_bits x = bit_len (nat \<bar>exact_val x\<bar>)"
  by (simp add: magnitude_bits_def exact_val_def wf_exact_def mag_bit_len_val)

section \<open>Arithmetic\<close>

named_theorems exact_simps \<open>the value each operation computes\<close>

lemma val_neg [exact_simps]: "exact_val (ExactInt_neg x) = - exact_val x"
  by (simp add: ExactInt_neg_def exact_val_def [of x] limbs.signed_of_def)

lemma wf_neg [simp]: "wf_exact (ExactInt_neg x)"
  by (simp add: ExactInt_neg_def)

lemma val_add [exact_simps]:
  assumes "wf_exact x" "wf_exact y"
  shows "exact_val (ExactInt_add x y) = exact_val x + exact_val y"
proof (cases "negative x = negative y")
  case True
  then show ?thesis by (simp add: ExactInt_add_def exact_val_signed [of x] exact_val_signed [of y]
      limbs.signed_add_same)
next
  case False
  note n = assms [THEN wf_exactD(1)]
  show ?thesis
  proof (cases "mag_cmp (mag x) (mag y) = Less")
    case True
    with False n show ?thesis
      by (simp add: ExactInt_add_def exact_val_signed [of x] exact_val_signed [of y]
          limbs.signed_sub_less)
  next
    case ge: False
    then have "ExactInt_add x y = from_parts (negative x) (mag_sub (mag x) (mag y))"
      using False by (simp add: ExactInt_add_def split: Ordering.splits)
    with False ge n show ?thesis
      by (simp add: exact_val_signed [of x] exact_val_signed [of y] limbs.signed_sub_ge)
  qed
qed

lemma wf_add [simp]: "wf_exact (ExactInt_add x y)"
  by (simp add: ExactInt_add_def split: Ordering.split)

lemma val_sub [exact_simps]:
  "wf_exact x \<Longrightarrow> exact_val (ExactInt_sub x y) = exact_val x - exact_val y"
  by (simp add: ExactInt_sub_def val_add val_neg)

lemma wf_sub [simp]: "wf_exact (ExactInt_sub x y)"
  by (simp add: ExactInt_sub_def)

lemma mul_val: "\<exists>z. ExactInt_mul x y = Some z \<and> wf_exact z \<and> exact_val z = exact_val x * exact_val y"
  using limbs.signed_mul [of "mag x" "mag y" "negative x" "negative y"]
  by (auto simp: ExactInt_mul_def exact_val_signed [of x] exact_val_signed [of y])

lemma div_rem_val:
  assumes "wf_exact x" "wf_exact y"
  shows "if exact_val y = 0 then div_rem x y = Some None
    else \<exists>q r. div_rem x y = Some (Some (q, r)) \<and> wf_exact q \<and> wf_exact r \<and>
      exact_val q = exact_val x sdiv exact_val y \<and> exact_val r = exact_val x smod exact_val y"
proof (cases "exact_val y = 0")
  case False
  then have "mag_val (mag y) \<noteq> 0" by (auto simp: exact_val_def split: if_splits)
  then show ?thesis
    using False assms limbs.signed_divrem [of "mag x" "mag y" "negative x" "negative y"]
    by (auto simp: div_rem_def is_zero_iff exact_val_signed [of x] exact_val_signed [of y] wf_exactD)
qed (use assms in \<open>simp add: div_rem_def is_zero_iff\<close>)

lemma val_shl [exact_simps]: "exact_val (ExactInt_shl x n) = exact_val x * 2 ^ n"
  by (simp add: ExactInt_shl_def exact_val_signed [of x] limbs.signed_shl)

lemma wf_shl [simp]: "wf_exact (ExactInt_shl x n)"
  by (simp add: ExactInt_shl_def)

lemma val_shr [exact_simps]:
  assumes "wf_exact x"
  shows "exact_val (ExactInt_shr x n) = exact_val x div 2 ^ n"
proof (cases "negative x")
  case True
  have "normalized [1]" by (simp add: normalized_def)
  with True assms show ?thesis
    by (simp add: ExactInt_shr_def exact_val_signed [of x] limbs.signed_shr_neg wf_exact_def)
qed (simp add: ExactInt_shr_def exact_val_def [of x] limbs.signed_of_def zdiv_int)

lemma wf_shr [simp]: "wf_exact (ExactInt_shr x n)"
  by (simp add: ExactInt_shr_def Let_def)

section \<open>Conversions from machine integers\<close>

lemma mag_val_u128: "mag_val (map (\<lambda>i. ucast (drop_bit (32 * i) v)) [0..<4]) = unat (v :: u128)"
proof (rule bit_eqI)
  fix i :: nat
  have "i div 32 < 4 \<longleftrightarrow> i < 128" by (simp add: div_less_iff_less_mult)
  moreover have "bit (ucast (drop_bit (32 * k) v) :: u32) r \<longleftrightarrow> bit v (32 * k + r)" if "r < 32" for k r
    using that by (simp add: bit_ucast_iff bit_drop_bit_eq)
  ultimately show "bit (mag_val (map (\<lambda>i. ucast (drop_bit (32 * i) v)) [0..<4])) i = bit (unat v) i"
    by (auto simp: bit_mag_val bit_unsigned_iff possible_bit_nat dest: bit_imp_le_length)
qed

lemma val_from_u128 [exact_simps]: "exact_val (from_u128 v) = uint v"
  by (simp add: from_u128_def limbs.signed_of_def mag_val_u128 del: upt_rec_numeral)

lemma wf_from_u128 [simp]: "wf_exact (from_u128 v)"
  by (simp add: from_u128_def)

lemma uint_unsigned_abs: "uint (unsigned_abs v) = \<bar>sint v\<bar>"
proof -
  have "take_bit 128 (uint v) = uint v"
    using unsigned_less [of v, where ?'a = int] by (simp add: take_bit_int_eq_self_iff)
  then have s: "sint v = uint v - 2 ^ 128 * of_bool (bit (uint v) 127)"
    by (simp add: sint_uint signed_take_bit_eq_take_bit_minus)
  show ?thesis
  proof (cases "sint v < 0")
    case True
    then have "sint v = uint v - 2 ^ 128" "uint v \<noteq> 0"
      using s by (cases "bit (uint v) 127"; auto)+
    then show ?thesis using True by (simp add: unsigned_abs_def uint_word_ariths zmod_zminus1_eq_if)
  next
    case False
    then have "uint v = sint v"
      using s unsigned_less [of v, where ?'a = int] by (cases "bit (uint v) 127") auto
    with False show ?thesis by (simp add: unsigned_abs_def)
  qed
qed

lemma val_from_i128 [exact_simps]: "exact_val (from_i128 v) = sint v"
proof -
  have "int (mag_val (mag (from_u128 (unsigned_abs v)))) = \<bar>sint v\<bar>"
    using val_from_u128 [of "unsigned_abs v"] uint_unsigned_abs [of v]
    by (simp add: exact_val_def from_u128_def from_parts_def Let_def)
  then show ?thesis by (simp add: from_i128_def exact_val_def)
qed

lemma wf_from_i128 [simp]: "wf_exact (from_i128 v)"
proof -
  have "exact_val (from_u128 (unsigned_abs v)) = \<bar>sint v\<bar>" by (simp add: val_from_u128 uint_unsigned_abs)
  then have "sint v < 0 \<Longrightarrow> mag (from_u128 (unsigned_abs v)) \<noteq> []"
    by (auto simp: exact_val_def split: if_splits)
  then show ?thesis using wf_from_u128 [of "unsigned_abs v"] by (simp add: wf_exact_def from_i128_def)
qed

lemma val_from_bits [exact_simps]: "exact_val (from_bits b sg) = (if sg then sint b else uint b)"
  by (simp add: from_bits_def exact_simps sint_up_scast uint_up_ucast is_up)

section \<open>Widths and two's-complement patterns\<close>

lemma val_pow2 [exact_simps]: "exact_val (pow2 n) = 2 ^ n"
  by (simp add: pow2_def exact_simps)

lemma wf_pow2 [simp]: "wf_exact (pow2 n)"
  by (simp add: pow2_def)

lemma mag_val_pow2: "mag_val (mag (pow2 w)) = 2 ^ w"
proof -
  have "int (mag_val (mag (pow2 w))) = \<bar>exact_val (pow2 w)\<bar>" by (simp add: exact_val_def)
  then show ?thesis by (simp add: val_pow2)
qed

lemma val_mod_pow2 [exact_simps]: "exact_val (mod_pow2 x w) = exact_val x mod 2 ^ w"
proof (cases "\<not> negative x \<or> mag_low_bits (mag x) w = []")
  case True
  show ?thesis
  proof (cases "negative x")
    case neg: True
    with True have "mag_val (mag_low_bits (mag x) w) = 0" by simp
    then have "exact_val x mod 2 ^ w = 0" unfolding exact_val_signed by (rule limbs.signed_mod_zero)
    with True neg show ?thesis by (simp add: mod_pow2_def limbs.signed_of_def)
  next
    case False
    then show ?thesis
      using limbs.signed_mod_pos [of "mag x" w] by (simp add: mod_pow2_def limbs.signed_of_def exact_val_def [of x])
  qed
next
  case False
  then have "mag_val (mag_low_bits (mag x) w) \<noteq> 0" by (subst normalized_mag_val_0) simp_all
  then have "int (mag_val (mag_sub (mag (pow2 w)) (mag_low_bits (mag x) w))) = exact_val x mod 2 ^ w"
    using False limbs.signed_mod_neg [OF wf_exactD(1) [OF wf_pow2] mag_val_pow2, where a = "mag x"]
    by (simp add: exact_val_signed)
  with False show ?thesis by (simp add: mod_pow2_def limbs.signed_of_def)
qed

lemma wf_mod_pow2 [simp]: "wf_exact (mod_pow2 x w)"
  by (simp add: mod_pow2_def Let_def)

lemma mod_pow2_nonneg [simp]: "\<not> negative (mod_pow2 x w)"
  by (simp add: mod_pow2_def from_parts_def Let_def)

lemma mag_val_mod_pow2: "int (mag_val (mag (mod_pow2 x w))) = exact_val x mod 2 ^ w"
  by (simp add: exact_val_def [of "mod_pow2 x w"] flip: val_mod_pow2)

lemma bit_mag_mod_pow2: "bit (mag_val (mag (mod_pow2 x w))) i \<longleftrightarrow> i < w \<and> bit (exact_val x) i"
  using mag_val_mod_pow2 [of x w] by (metis bit_of_nat_iff_bit bit_take_bit_iff take_bit_eq_mod)

lemma val_sext [exact_simps]:
  "exact_val (sext x w) = (if w = 0 then 0 else signed_take_bit (w - 1) (exact_val x))"
proof -
  have "bit (mag_val (mag (mod_pow2 x w))) (w - 1) \<longleftrightarrow> bit (exact_val x) (w - 1)" if "0 < w"
    using that by (simp add: bit_mag_mod_pow2)
  then show ?thesis
    by (cases w) (simp_all add: sext_def Let_def mag_bit_val exact_simps signed_take_bit_eq_take_bit_minus take_bit_eq_mod)
qed

lemma wf_sext [simp]: "wf_exact (sext x w)"
  by (simp add: sext_def Let_def)

lemma wf_normalize [simp]: "wf_exact (normalize x w sg)"
  by (simp add: normalize_def)

lemma val_normalize [exact_simps]:
  "exact_val (normalize x w sg) =
     (if sg then (if w = 0 then 0 else signed_take_bit (w - 1) (exact_val x)) else take_bit w (exact_val x))"
  by (simp add: normalize_def exact_simps take_bit_eq_mod)

lemma fits_iff:
  assumes "wf_exact x"
  shows "fits x w sg \<longleftrightarrow>
    (if sg then (if w = 0 then exact_val x = 0 else - (2 ^ (w - 1)) \<le> exact_val x \<and> exact_val x < 2 ^ (w - 1))
     else 0 \<le> exact_val x \<and> exact_val x < 2 ^ w)"
proof -
  have "fits x w sg \<longleftrightarrow> exact_val (normalize x w sg) = exact_val x"
    using assms by (simp add: fits_def exact_val_eq_iff)
  then show ?thesis
    by (auto simp: val_normalize signed_take_bit_int_eq_self_iff take_bit_int_eq_self_iff)
qed

lemma literal_width_nonneg:
  "wf_exact x \<Longrightarrow> 0 \<le> exact_val x \<Longrightarrow> literal_width x = max (bit_len (nat (exact_val x))) 1"
  using is_negative_iff [of x] by (simp add: literal_width_def is_negative_def magnitude_bits_val)

lemma literal_width_neg:
  "wf_exact x \<Longrightarrow> exact_val x < 0 \<Longrightarrow> literal_width x = Suc (bit_len (nat (- exact_val x - 1)))"
  using is_negative_iff [of x]
  by (simp add: literal_width_def is_negative_def magnitude_bits_val exact_simps)

text \<open>The least width that holds the value: unsigned for a non-negative one, signed for a negative one.\<close>

lemma literal_width_least:
  assumes "wf_exact x" "0 < w"
  shows "literal_width x \<le> w \<longleftrightarrow> fits x w (exact_val x < 0)"
proof (cases "exact_val x < 0")
  case True
  then have "literal_width x \<le> w \<longleftrightarrow> nat (- exact_val x - 1) < 2 ^ (w - 1)"
    using assms by (cases w) (simp_all add: literal_width_neg bit_len_le_iff)
  also have "\<dots> \<longleftrightarrow> - (2 ^ (w - 1)) \<le> exact_val x"
    using True by (simp add: nat_less_iff) linarith
  also have "\<dots> \<longleftrightarrow> - (2 ^ (w - 1)) \<le> exact_val x \<and> exact_val x < 2 ^ (w - 1)"
    using True by (simp add: less_le_trans)
  finally show ?thesis using True assms by (simp add: fits_iff)
next
  case False
  then have "literal_width x \<le> w \<longleftrightarrow> nat (exact_val x) < 2 ^ w"
    using assms by (simp add: literal_width_nonneg bit_len_le_iff)
  then show ?thesis using False assms by (simp add: fits_iff nat_less_iff)
qed

lemma length_pattern_words [simp]: "length (pattern_words x w) = (w + 31) div 32"
  by (simp add: pattern_words_def resize_def)

lemma mag_val_resize: "length ws \<le> n \<Longrightarrow> mag_val (resize ws n) = mag_val ws"
  by (simp add: resize_def)

lemma length_mod_pow2: "length (mag (mod_pow2 x w)) \<le> (w + 31) div 32"
proof (rule ccontr)
  let ?m = "mag (mod_pow2 x w)"
  assume "\<not> ?thesis"
  then have "w \<le> 32 * (length ?m - 1)" "?m \<noteq> []" by auto
  moreover have "2 ^ (32 * (length ?m - 1)) \<le> mag_val ?m"
    using \<open>?m \<noteq> []\<close> by (intro normalized_ge wf_exactD(1)) simp_all
  moreover have "mag_val ?m < 2 ^ w"
    using mag_val_mod_pow2 [of x w] pos_mod_bound [of "2 ^ w" "exact_val x"]
    by (metis numeral_2_eq_2 of_nat_less_iff of_nat_numeral of_nat_power zero_less_numeral zero_less_power)
  ultimately show False
    using power_increasing [of w "32 * (length ?m - 1)" "2::nat"] by linarith
qed

lemma pattern_words_val: "int (mag_val (pattern_words x w)) = exact_val x mod 2 ^ w"
  by (simp add: pattern_words_def mag_val_resize length_mod_pow2 mag_val_mod_pow2)

lemma bit_pattern_words: "bit (mag_val (pattern_words x w)) i \<longleftrightarrow> i < w \<and> bit (exact_val x) i"
  by (simp add: pattern_words_def mag_val_resize length_mod_pow2 bit_mag_mod_pow2)

section \<open>Bitwise operations\<close>

lemma val_not [exact_simps]: "exact_val (ExactInt_not x) = NOT (exact_val x)"
  by (simp add: ExactInt_not_def exact_simps not_int_def)

lemma val_self_fits:
  assumes "wf_exact x" "literal_width x < w"
  shows "signed_take_bit (w - 1) (exact_val x) = exact_val x"
proof -
  have "0 < literal_width x" by (simp add: literal_width_def less_max_iff_disj)
  then have "fits x (w - 1) (exact_val x < 0)"
    using assms literal_width_least [of x "w - 1"] by auto
  moreover have "(2::int) ^ (w - 1 - 1) \<le> 2 ^ (w - 1)" by (simp add: power_increasing)
  ultimately have "- (2 ^ (w - 1)) \<le> exact_val x \<and> exact_val x < 2 ^ (w - 1)"
    unfolding fits_iff [OF assms(1)] by (smt (verit) zero_less_power)
  then show ?thesis by (simp only: signed_take_bit_int_eq_self_iff)
qed

lemma bitwise_val:
  assumes wf: "wf_exact x" "wf_exact y"
    and f: "\<And>p q i. i < 32 \<Longrightarrow> bit (f p q) i \<longleftrightarrow> F (bit p i) (bit q i)"
    and g: "\<And>(k::int) l i. bit (g k l) i \<longleftrightarrow> F (bit k i) (bit l i)"
  shows "exact_val (bitwise x y f) = g (exact_val x) (exact_val y)"
proof -
  define w where "w = max (literal_width x) (literal_width y) + 1"
  define ws where "ws = map (\<lambda>(p, q). f p q) (zip (pattern_words x w) (pattern_words y w))"
  have len: "length ws = (w + 31) div 32" by (simp add: ws_def)
  have bits: "bit (mag_val ws) i \<longleftrightarrow> F (bit (exact_val x) i) (bit (exact_val y) i)" if "i < w" for i
  proof -
    have "i div 32 < (w + 31) div 32" using that by (simp only: word_position(1) word_position(2) [of i w]) auto
    then show ?thesis
      using that bit_pattern_words [of x w i] bit_pattern_words [of y w i]
      by (simp add: bit_mag_val ws_def f)
  qed
  have "exact_val (bitwise x y f) = signed_take_bit (w - 1) (int (mag_val ws))"
    unfolding bitwise_def Let_def w_def [symmetric] ws_def [symmetric]
    by (simp add: val_sext from_words_def limbs.signed_of_def w_def)
  also have "\<dots> = signed_take_bit (w - 1) (g (exact_val x) (exact_val y))"
  proof (rule bit_eqI)
    fix i
    have "min i (w - 1) < w" by (simp add: w_def)
    then show "bit (signed_take_bit (w - 1) (int (mag_val ws))) i \<longleftrightarrow>
        bit (signed_take_bit (w - 1) (g (exact_val x) (exact_val y))) i"
      by (simp only: bit_signed_take_bit_iff bit_of_nat_iff_bit bits g possible_bit_int)
  qed
  also have "\<dots> = g (signed_take_bit (w - 1) (exact_val x)) (signed_take_bit (w - 1) (exact_val y))"
    by (rule bit_eqI) (simp add: bit_signed_take_bit_iff g)
  also have "\<dots> = g (exact_val x) (exact_val y)"
  proof -
    have "literal_width x < w" "literal_width y < w" by (simp_all add: w_def)
    then show ?thesis by (simp only: val_self_fits wf)
  qed
  finally show ?thesis .
qed

lemma val_and [exact_simps]:
  "wf_exact x \<Longrightarrow> wf_exact y \<Longrightarrow> exact_val (ExactInt_and x y) = exact_val x AND exact_val y"
  unfolding ExactInt_and_def by (rule bitwise_val [where F = "(\<and>)"]) (simp_all add: bit_and_iff)

lemma val_or [exact_simps]:
  "wf_exact x \<Longrightarrow> wf_exact y \<Longrightarrow> exact_val (ExactInt_or x y) = exact_val x OR exact_val y"
  unfolding ExactInt_or_def by (rule bitwise_val [where F = "(\<or>)"]) (simp_all add: bit_or_iff)

lemma val_xor [exact_simps]:
  "wf_exact x \<Longrightarrow> wf_exact y \<Longrightarrow> exact_val (ExactInt_xor x y) = exact_val x XOR exact_val y"
  unfolding ExactInt_xor_def by (rule bitwise_val [where F = "(\<noteq>)"]) (simp_all add: bit_xor_iff)

lemma wf_bitwise [simp]: "wf_exact (bitwise x y f)"
  by (simp add: bitwise_def Let_def)

section \<open>Order\<close>

lemma cmp_val: "wf_exact x \<Longrightarrow> wf_exact y \<Longrightarrow> ExactInt_cmp x y = ord_cmp (exact_val x) (exact_val y)"
proof -
  assume wf: "wf_exact x" "wf_exact y"
  have neg: "exact_val z < 0" if "wf_exact z" "negative z" for z
    using that is_negative_iff [of z] by (simp add: is_negative_def)
  have pos: "0 \<le> exact_val z" if "\<not> negative z" for z
    using that by (simp add: exact_val_def)
  consider "negative x" "negative y" | "negative x" "\<not> negative y" | "\<not> negative x" "negative y"
    | "\<not> negative x" "\<not> negative y" by blast
  then show ?thesis
  proof cases
    case 2
    with neg [OF wf(1)] pos [of y] have "exact_val x < exact_val y" by simp
    with 2 show ?thesis by (simp add: ExactInt_cmp_def ord_cmp_def)
  next
    case 3
    with neg [OF wf(2)] pos [of x] have "exact_val y < exact_val x" by simp
    with 3 show ?thesis by (simp add: ExactInt_cmp_def ord_cmp_def)
  qed (use wf in \<open>auto simp: ExactInt_cmp_def mag_cmp_val wf_exactD exact_val_def ord_cmp_def\<close>)
qed

section \<open>Conversions to machine integers\<close>

lemma or_push_bit_eq_add:
  fixes k l :: int
  assumes "0 \<le> k" "k < 2 ^ n"
  shows "k OR push_bit n l = k + push_bit n l"
proof (rule disjunctive_add [symmetric])
  fix i
  from assms have "k = take_bit n k" by (simp add: take_bit_int_eq_self)
  then have "bit k i \<Longrightarrow> i < n" by (metis bit_take_bit_iff)
  then show "\<not> bit k i \<or> \<not> bit (push_bit n l) i" by (auto simp: bit_push_bit_iff)
qed

lemma fold_or_limbs:
  assumes "32 * (k + length m) \<le> 128" "uint v < 2 ^ (32 * k)"
  shows "uint (fold (\<lambda>(i, w) v. v OR push_bit (32 * i) (ucast w)) (enumerate k m) (v :: u128)) =
    uint v + 2 ^ (32 * k) * int (mag_val m)"
  using assms
proof (induction m arbitrary: k v)
  case (Cons x xs)
  have x: "uint x < 2 ^ 32" using unsigned_less [of x, where ?'a = int] by simp
  have k: "32 * k + 32 \<le> 128" using Cons.prems(1) by simp
  have sum: "uint v + 2 ^ (32 * k) * uint x < 2 ^ (32 * k + 32)"
  proof -
    have "2 ^ (32 * k) * (uint x + 1) \<le> (2 ^ (32 * k) * 2 ^ 32 :: int)"
      using x by (intro mult_left_mono) simp_all
    then have "2 ^ (32 * k) + 2 ^ (32 * k) * uint x \<le> 2 ^ (32 * k + 32)"
      by (simp add: power_add distrib_left)
    with Cons.prems(2) show ?thesis by linarith
  qed
  have "uint (push_bit (32 * k) (ucast x) :: u128) = push_bit (32 * k) (uint x)"
  proof -
    have "uint (push_bit (32 * k) (ucast x) :: u128) = take_bit 128 (push_bit (32 * k) (uint x))"
      by (simp add: unsigned_push_bit_eq uint_up_ucast is_up)
    also have "\<dots> = push_bit (32 * k) (uint x)"
    proof (rule take_bit_int_eq_self)
      have "0 \<le> uint v" by simp
      with sum have "2 ^ (32 * k) * uint x < 2 ^ (32 * k + 32)" by linarith
      then have "push_bit (32 * k) (uint x) < 2 ^ (32 * k + 32)" by (simp only: push_bit_eq_mult mult.commute)
      also have "\<dots> \<le> (2::int) ^ 128" using k by (intro power_increasing) simp_all
      finally show "push_bit (32 * k) (uint x) < 2 ^ 128" .
    qed simp
    finally show ?thesis .
  qed
  then have step: "uint (v OR push_bit (32 * k) (ucast x)) = uint v + 2 ^ (32 * k) * uint x"
    using or_push_bit_eq_add [of "uint v" "32 * k" "uint x"] Cons.prems(2)
    by (simp only: unsigned_or_eq) (simp add: push_bit_eq_mult mult.commute)
  have "uint (fold (\<lambda>(i, w) v. v OR push_bit (32 * i) (ucast w)) (enumerate (Suc k) xs)
      (v OR push_bit (32 * k) (ucast x))) =
    uint (v OR push_bit (32 * k) (ucast x)) + 2 ^ (32 * Suc k) * int (mag_val xs)"
    using Cons.prems(1) sum step by (intro Cons.IH) (simp_all add: algebra_simps)
  then have "uint (fold (\<lambda>(i, w) v. v OR push_bit (32 * i) (ucast w)) (enumerate k (x # xs)) v) =
    uint v + 2 ^ (32 * k) * uint x + 2 ^ (32 * Suc k) * int (mag_val xs)"
    by (simp only: step enumerate_simps fold_simps prod.case)
  also have "\<dots> = uint v + 2 ^ (32 * k) * int (mag_val (x # xs))"
    by (simp add: power_add algebra_simps)
  finally show ?case .
qed simp

lemma to_i128_range:
  assumes "wf_exact x"
  shows "to_i128 x = (if - (2 ^ 127) \<le> exact_val x \<and> exact_val x < 2 ^ 127
    then Some (word_of_int (exact_val x)) else None)"
proof (cases "magnitude_bits x > 127")
  case True
  then have big: "\<not> nat \<bar>exact_val x\<bar> < 2 ^ 127"
    by (simp add: magnitude_bits_val [OF assms] bit_len_le_iff flip: not_le)
  have "negative x \<and> mag x = [0, 0, 0, push_bit 31 1] \<longleftrightarrow> exact_val x = - (2 ^ 127)"
  proof -
    define m :: ExactInt where "m = \<lparr>negative = True, mag = [0, 0, 0, push_bit 31 1]\<rparr>"
    have "wf_exact m" by (simp add: m_def wf_exact_def normalized_def)
    moreover have "exact_val m = - (2 ^ 127)" by (simp add: m_def exact_val_def)
    ultimately have "exact_val x = - (2 ^ 127) \<longleftrightarrow> x = m" using exact_val_eq_iff [OF assms] by metis
    then show ?thesis by (cases x) (auto simp: m_def)
  qed
  moreover have "exact_val x = - (2 ^ 127) \<Longrightarrow> magnitude_bits x = 128"
    by (simp add: magnitude_bits_val [OF assms] bit_len_unique [of 127])
  moreover have "- (2 ^ 127) \<le> exact_val x \<and> exact_val x < 2 ^ 127 \<longleftrightarrow> exact_val x = - (2 ^ 127)"
    using big by (auto simp: nat_less_iff)
  ultimately show ?thesis using True by (auto simp: to_i128_def)
next
  case False
  then have small: "nat \<bar>exact_val x\<bar> < 2 ^ 127"
    by (simp add: magnitude_bits_val [OF assms] bit_len_le_iff not_less)
  then have "mag_val (mag x) < 2 ^ 127" by (auto simp: exact_val_def split: if_splits)
  then have "length (mag x) \<le> 4"
    using normalized_length_less [of "mag x" "[0, 0, 0, 2 ^ 31]"] wf_exactD(1) [OF assms] by (cases "4 < length (mag x)") auto
  define v where "v = fold (\<lambda>(i, w) v. v OR push_bit (32 * i) (ucast w)) (enumerate 0 (mag x)) (0 :: u128)"
  have "uint v = int (mag_val (mag x))"
    unfolding v_def using \<open>length (mag x) \<le> 4\<close> by (subst fold_or_limbs) simp_all
  then have "v = word_of_int (int (mag_val (mag x)))" by (metis word_of_int_uint)
  then have "(if negative x then - v else v) = word_of_int (exact_val x)" by (simp add: exact_val_def)
  moreover have "- (2 ^ 127) \<le> exact_val x \<and> exact_val x < 2 ^ 127"
    using small by (simp add: nat_less_iff abs_less_iff)
  ultimately show ?thesis using False by (simp add: to_i128_def v_def [symmetric])
qed

lemma sint_word_of_int_i128: "- (2 ^ 127) \<le> k \<Longrightarrow> k < 2 ^ 127 \<Longrightarrow> sint (word_of_int k :: u128) = k"
  by (simp add: signed_of_int signed_take_bit_int_eq_self_iff)

lemma fits_i64_iff: "wf_exact x \<Longrightarrow> fits_i64 x \<longleftrightarrow> - (2 ^ 63) \<le> exact_val x \<and> exact_val x < 2 ^ 63"
  using sint_word_of_int_i128 [of "exact_val x"] by (auto simp: fits_i64_def to_i128_range)

lemma fits_u64_iff: "wf_exact x \<Longrightarrow> fits_u64 x \<longleftrightarrow> 0 \<le> exact_val x \<and> exact_val x < 2 ^ 64"
  using sint_word_of_int_i128 [of "exact_val x"] by (auto simp: fits_u64_def to_i128_range)

lemma to_u32_val:
  "wf_exact x \<Longrightarrow> to_u32 x = (if 0 \<le> exact_val x \<and> exact_val x < 2 ^ 32 then Some (word_of_int (exact_val x)) else None)"
  using sint_word_of_int_i128 [of "exact_val x"] by (auto simp: to_u32_def to_i128_range unsigned_of_int take_bit_int_eq_self)

lemma low_u64_val: "low_u64 x = word_of_int (exact_val x)"
proof (rule bit_word_eqI)
  fix i assume "i < LENGTH(64)"
  let ?m = "mag (mod_pow2 x 64)"
  from \<open>i < LENGTH(64)\<close> have i: "i < 64" by simp
  then have "bit (exact_val x) i \<longleftrightarrow> i div 32 < length ?m \<and> bit (?m ! (i div 32)) (i mod 32)"
    using bit_mag_mod_pow2 [of x 64 i] by (simp add: bit_mag_val)
  moreover have "i div 32 = (if i < 32 then 0 else 1)" "i mod 32 = (if i < 32 then i else i - 32)"
    using i by (auto simp: div_nat_eqI mod_if)
  moreover have "bit (w :: u32) j \<Longrightarrow> j < 32" for w j using bit_imp_le_length [of w j] by simp
  ultimately show "bit (low_u64 x) i \<longleftrightarrow> bit (word_of_int (exact_val x) :: u64) i"
    using i by (auto simp: low_u64_def Let_def bit_simps limb_def split: if_splits)
qed

section \<open>Decimal display\<close>

fun chunks :: "nat \<Rightarrow> nat list" where
  "chunks n = (if n = 0 then [] else n mod 10 ^ 9 # chunks (n div 10 ^ 9))"

declare chunks.simps [simp del]

lemma chunks_eq_Nil [simp]: "chunks n = [] \<longleftrightarrow> n = 0"
  by (subst chunks.simps) simp

lemma mag_val_billion: "mag_val [1000000000] = 10 ^ 9" "normalized [1000000000]"
  by (simp_all add: normalized_def)

lemma limb_0_small:
  assumes "mag_val r < 2 ^ 32" "normalized r"
  shows "unat (limb r 0) = mag_val r"
proof (cases r)
  case (Cons x xs)
  with assms show ?thesis
    using normalized_ge [of xs] by (cases "mag_val xs") (auto simp: limb_def)
qed (simp add: limb_def)

lemma display_chunks_val:
  "normalized m \<Longrightarrow> \<exists>cs. display_chunks m ds = Some (ds @ cs) \<and> map unat cs = chunks (mag_val m)"
proof (induction "mag_val m" arbitrary: m ds rule: less_induct)
  case less
  show ?case
  proof (cases "m = []")
    case False
    obtain q r where dr: "mag_divrem m [1000000000] = Some (q, r)" and n: "normalized q" "normalized r"
      and val: "mag_val q = mag_val m div 10 ^ 9" "mag_val r = mag_val m mod 10 ^ 9"
      using mag_divrem_val [OF less.prems mag_val_billion(2)] mag_val_billion(1) by auto
    have pos: "0 < mag_val m" using False less.prems by simp
    then have "mag_val q < mag_val m" unfolding val by (intro div_less_dividend) simp_all
    then obtain cs where "display_chunks q (ds @ [limb r 0]) = Some ((ds @ [limb r 0]) @ cs)"
      and cs: "map unat cs = chunks (mag_val q)"
      using less.hyps n(1) by blast
    moreover have "mag_val r < 2 ^ 32"
    proof -
      have "mag_val r < 10 ^ 9" unfolding val by simp
      then show ?thesis by simp
    qed
    then have "unat (limb r 0) = mag_val m mod 10 ^ 9" using limb_0_small n val by simp
    ultimately have "display_chunks m ds = Some (ds @ limb r 0 # cs)"
      "map unat (limb r 0 # cs) = chunks (mag_val m)"
      using False dr pos val(1) by (simp_all add: display_chunks.simps [of m] chunks.simps [of "mag_val m"])
    then show ?thesis by blast
  qed (simp add: display_chunks.simps chunks.simps)
qed

lemma render_chunks:
  "0 < n \<Longrightarrow> show_nat (last (chunks n)) @ concat (map (zero_pad 9) (rev (butlast (chunks n)))) = show_nat n"
proof (induction n rule: chunks.induct)
  case (1 n)
  have c: "chunks n = n mod 10 ^ 9 # chunks (n div 10 ^ 9)" using 1 by (simp add: chunks.simps [of n])
  show ?case
  proof (cases "n div 10 ^ 9 = 0")
    case True
    then have "n < 10 ^ 9" by (simp add: div_eq_0_iff)
    with c True show ?thesis by (simp add: chunks.simps [of 0])
  next
    case False
    have n: "10 ^ 9 * (n div 10 ^ 9) + n mod 10 ^ 9 = n" by (rule mult_div_mod_eq)
    have "show_nat n = show_nat (n div 10 ^ 9) @ zero_pad 9 (n mod 10 ^ 9)"
      using show_nat_chunk [of "n div 10 ^ 9" "n mod 10 ^ 9" 9] zero_pad_low_digits [of 9 "n mod 10 ^ 9"] False n
      by simp
    then show ?thesis using 1 False c by simp
  qed
qed

lemma to_string_val:
  assumes "wf_exact x"
  shows "to_string x = Some (show_int (exact_val x))"
proof (cases "is_zero x")
  case True
  then show ?thesis
    using is_zero_iff [OF assms] by (simp add: to_string_def show_int_def show_nat.simps [of 0])
next
  case False
  let ?n = "mag_val (mag x)"
  obtain cs where cs: "display_chunks (mag x) [] = Some cs" "map unat cs = chunks ?n"
    using display_chunks_val [of "mag x" "[]"] assms by (auto simp: wf_exact_def)
  have pos: "0 < ?n" using False assms by (simp add: is_zero_def wf_exact_def)
  then have ne: "cs \<noteq> []" using cs(2) by (metis chunks_eq_Nil list.map_disc_iff not_less_zero)
  then have "unat (last cs) = last (chunks ?n)" "map unat (butlast cs) = butlast (chunks ?n)"
    using cs(2) by (metis last_map, metis map_butlast)
  then have "show_nat (unat (last cs)) @ concat (map (\<lambda>d. zero_pad 9 (unat d)) (rev (butlast cs))) = show_nat ?n"
    using render_chunks [OF pos] by (metis (no_types, lifting) map_map comp_apply map_eq_conv rev_map)
  then show ?thesis
    using False cs(1) ne pos by (simp add: to_string_def show_int_def exact_val_def)
qed

section \<open>Bit counts at their width\<close>

lemma magnitude_bits32_eq: "magnitude_bits x < 2 ^ 32 \<Longrightarrow> magnitude_bits32 x = Some (of_nat (magnitude_bits x))"
  by (simp add: magnitude_bits32_def magnitude_bits_def mag_bit_len32_eq)

lemma max_of_nat32: "m < 2 ^ 32 \<Longrightarrow> n < 2 ^ 32 \<Longrightarrow> max (of_nat m) (of_nat n :: u32) = of_nat (max m n)"
  by (simp add: max_def word_le_nat_alt unat_of_nat32)

lemma literal_width32_eq:
  assumes "literal_width x < 2 ^ 32" shows "literal_width32 x = Some (of_nat (literal_width x))"
proof (cases "negative x")
  case True
  then show ?thesis
    using assms magnitude_bits32_eq [of "ExactInt_add x (from_u128 1)"]
      checked_add32_nat [of "magnitude_bits (ExactInt_add x (from_u128 1))" 1]
    by (simp add: literal_width32_def literal_width_def)
next
  case False
  then show ?thesis
    using assms magnitude_bits32_eq [of x] max_of_nat32 [of "magnitude_bits x" 1]
    by (simp add: literal_width32_def literal_width_def)
qed

lemma bitwise32_eq:
  assumes "literal_width x + 1 < 2 ^ 32" "literal_width y + 1 < 2 ^ 32"
  shows "bitwise32 x y f = Some (bitwise x y f)"
proof -
  let ?w = "max (literal_width x) (literal_width y)"
  have "?w + 1 < 2 ^ 32" using assms by simp
  then have "checked_add32 (max (of_nat (literal_width x)) (of_nat (literal_width y))) 1 = Some (of_nat (?w + 1))"
    using assms checked_add32_nat [of ?w 1] max_of_nat32 [of "literal_width x" "literal_width y"] by simp
  then show ?thesis
    using assms unat_of_nat32 [of "?w + 1"] by (simp add: bitwise32_def literal_width32_eq bitwise_def Let_def)
qed

lemma div_rem32_eq: "magnitude_bits x < 2 ^ 32 \<Longrightarrow> div_rem32 x y = div_rem x y"
  by (simp add: div_rem32_def div_rem_def magnitude_bits_def mag_divrem32_eq)

lemma div_rem32_small:
  assumes "wf_exact x" "wf_exact y" "\<bar>exact_val x\<bar> < \<bar>exact_val y\<bar>"
  shows "div_rem32 x y = div_rem x y"
proof -
  have "mag_cmp (mag x) (mag y) = Less"
    using assms by (simp add: mag_cmp_val wf_exactD exact_val_def split: if_splits)
  then show ?thesis by (simp add: div_rem32_def div_rem_def mag_divrem32_def mag_divrem_def)
qed

lemma div_rem32_overflow:
  assumes "wf_exact x" "wf_exact y" "exact_val y \<noteq> 0" "\<bar>exact_val y\<bar> \<le> \<bar>exact_val x\<bar>" "length (mag x) < 2 ^ 32"
    "2 ^ 32 \<le> magnitude_bits x"
  shows "div_rem32 x y = None"
proof -
  have "mag_cmp (mag x) (mag y) \<noteq> Less"
    using assms(1-4) by (simp add: mag_cmp_val wf_exactD exact_val_def split: if_splits)
  moreover have "mag_bit_len32 (mag x) = None" using mag_bit_len32_None [OF assms(5)] assms(6) by (simp add: magnitude_bits_def)
  ultimately show ?thesis using assms(2,3) by (simp add: div_rem32_def mag_divrem32_def is_zero_iff)
qed

section \<open>Properties\<close>

text \<open>
  The representation is canonical: on values that satisfy the invariant, structural equality (the
  derived \<^verbatim>\<open>Eq\<close>) is equality of the integers denoted, and \<^verbatim>\<open>cmp\<close> is their order.
\<close>

theorem exact_canonical:
  assumes "wf_exact x" "wf_exact y"
  shows "(x = y \<longleftrightarrow> exact_val x = exact_val y) \<and> ExactInt_cmp x y = ord_cmp (exact_val x) (exact_val y)"
  using assms by (auto simp: exact_val_eq_iff cmp_val)

theorem exact_canonical_witness:
  "\<not> exact_val (from_parts True [5]) = exact_val (from_parts False [5]) \<and>
   ExactInt_cmp (from_parts True [5]) (from_parts False [5]) = Less"
  using exact_canonical [of "from_parts True [5]" "from_parts False [5]"]
  by (simp add: ord_cmp_def limbs.signed_of_def)

text \<open>
  C23.  \<^verbatim>\<open>add\<close>, \<^verbatim>\<open>sub\<close>, \<^verbatim>\<open>mul\<close> and \<^verbatim>\<open>neg\<close> are the ring operations of the integers: no limb loop panics,
  overflows or loses a carry, and the results satisfy the invariant again.
\<close>

theorem exact_ring_ops:
  assumes "wf_exact x" "wf_exact y"
  shows "exact_val (ExactInt_add x y) = exact_val x + exact_val y \<and> wf_exact (ExactInt_add x y) \<and>
    exact_val (ExactInt_sub x y) = exact_val x - exact_val y \<and> wf_exact (ExactInt_sub x y) \<and>
    exact_val (ExactInt_neg x) = - exact_val x \<and> wf_exact (ExactInt_neg x) \<and>
    (\<exists>z. ExactInt_mul x y = Some z \<and> wf_exact z \<and> exact_val z = exact_val x * exact_val y)"
  using assms mul_val [of x y] by (simp add: exact_simps)

theorem exact_ring_ops_witness:
  "exact_val (ExactInt_add (from_parts True [0, 1]) (from_parts False [1])) = 1 - 2 ^ 32"
  using exact_ring_ops [of "from_parts True [0, 1]" "from_parts False [1]"]
  by (simp add: limbs.signed_of_def)

text \<open>
  C24.  \<^verbatim>\<open>div_rem\<close> with its bit count in checked \<^verbatim>\<open>u32\<close> arithmetic, for a dividend of less than \<open>2\<^sup>3\<^sup>2\<close> limbs.  It
  returns \<^verbatim>\<open>None\<close> exactly for a zero divisor; otherwise the quotient truncated toward zero and the remainder with the
  sign of the dividend, both canonical, with no panic, unless the dividend is not smaller in magnitude than the divisor and has
  \<open>2\<^sup>3\<^sup>2\<close> or more bits: then the count overflows.
\<close>

theorem exact_div_rem:
  assumes "wf_exact x" "wf_exact y" "length (mag x) < 2 ^ 32"
  shows "if exact_val y = 0 then div_rem32 x y = Some None
    else if \<bar>exact_val y\<bar> \<le> \<bar>exact_val x\<bar> \<and> 2 ^ 32 \<le> magnitude_bits x then div_rem32 x y = None
    else \<exists>q r. div_rem32 x y = Some (Some (q, r)) \<and> wf_exact q \<and> wf_exact r \<and>
      exact_val q = exact_val x sdiv exact_val y \<and> exact_val r = exact_val x smod exact_val y"
proof (cases "exact_val y \<noteq> 0 \<and> \<bar>exact_val y\<bar> \<le> \<bar>exact_val x\<bar> \<and> 2 ^ 32 \<le> magnitude_bits x")
  case True
  then show ?thesis using div_rem32_overflow [OF assms(1,2) _ _ assms(3)] by simp
next
  case False
  have "div_rem32 x y = div_rem x y"
  proof (cases "exact_val y = 0")
    case zero: True
    then show ?thesis using assms(2) by (simp add: div_rem32_def div_rem_def is_zero_iff)
  next
    case nonzero: False
    then show ?thesis using False div_rem32_small [OF assms(1,2)] div_rem32_eq [of x y] by (meson not_le)
  qed
  then show ?thesis using div_rem_val [OF assms(1,2)] False by auto
qed

theorem exact_div_rem_witness:
  "\<exists>q r. div_rem32 (from_parts True [7]) (from_parts False [2]) = Some (Some (q, r)) \<and>
     exact_val q = - 3 \<and> exact_val r = - 1"
proof -
  have "magnitude_bits (from_parts True [7]) < 2 ^ 32"
    by (simp add: magnitude_bits_val limbs.signed_of_def bit_len.simps)
  moreover have "length (mag (from_parts True [7])) < 2 ^ 32" by (simp add: trim.simps)
  note exact_div_rem [OF _ _ this, of "from_parts False [2]"]
  ultimately show ?thesis by (auto simp: limbs.signed_of_def)
qed

text \<open>
  The smallest power of two whose bits a \<^verbatim>\<open>u32\<close> cannot count is \<^verbatim>\<open>pow2(u32::MAX)\<close>: dividing it by one overflows.
\<close>

lemma pow2_division_overflows:
  assumes "n = 2 ^ 32 - 1" shows "div_rem32 (pow2 n) (from_u128 1) = None"
proof (rule div_rem32_overflow)
  show wf: "wf_exact (pow2 n)" "wf_exact (from_u128 1)" by (simp_all add: from_u128_def)
  have one: "exact_val (from_u128 1) = 1" using val_pow2 [of 0] by (simp add: pow2_def ExactInt_shl_def exact_simps)
  then show "exact_val (from_u128 1) \<noteq> 0" "\<bar>exact_val (from_u128 1)\<bar> \<le> \<bar>exact_val (pow2 n)\<bar>"
    by (simp_all add: val_pow2)
  have bits: "mag_bit_len (mag (pow2 n)) = Suc n"
    using mag_bit_len_val [OF wf_exactD(1) [OF wf(1)]] bit_len_unique [of n "2 ^ n"] by (simp add: mag_val_pow2)
  then have "magnitude_bits (pow2 n) = Suc n" by (simp add: magnitude_bits_def)
  then show "2 ^ 32 \<le> magnitude_bits (pow2 n)" using assms by simp
  have "(length (mag (pow2 n)) - 1) * 32 \<le> Suc n" using bits by (simp add: mag_bit_len_def split: if_splits)
  then show "length (mag (pow2 n)) < 2 ^ 32" using assms by simp
qed

text \<open>
  \<^verbatim>\<open>shl\<close> multiplies by a power of two, \<^verbatim>\<open>shr\<close> is the arithmetic (floor) shift also for negative
  values, \<^verbatim>\<open>mod_pow2\<close> is the residue and \<^verbatim>\<open>sext\<close> the two's-complement reading of the low bits.
\<close>

theorem exact_shifts_and_patterns:
  assumes "wf_exact x"
  shows "exact_val (ExactInt_shl x n) = exact_val x * 2 ^ n \<and>
    exact_val (ExactInt_shr x n) = exact_val x div 2 ^ n \<and>
    exact_val (mod_pow2 x n) = exact_val x mod 2 ^ n \<and>
    exact_val (sext x (Suc n)) = signed_take_bit n (exact_val x) \<and>
    wf_exact (ExactInt_shl x n) \<and> wf_exact (ExactInt_shr x n) \<and> wf_exact (mod_pow2 x n) \<and> wf_exact (sext x n)"
  using assms by (simp add: exact_simps)

theorem exact_shifts_and_patterns_witness:
  "exact_val (ExactInt_shr (from_parts True [5]) 1) = - 3 \<and> exact_val (mod_pow2 (from_parts True [5]) 1) = 1"
  using exact_shifts_and_patterns [of "from_parts True [5]" 1] by (simp add: limbs.signed_of_def)

text \<open>
  The bitwise operations agree with the infinite two's-complement reading of both operands: the
  width the code chooses, one more than either literal width, loses nothing.
\<close>

theorem exact_bitwise:
  assumes "wf_exact x" "wf_exact y"
  shows "exact_val (ExactInt_and x y) = exact_val x AND exact_val y \<and>
    exact_val (ExactInt_or x y) = exact_val x OR exact_val y \<and>
    exact_val (ExactInt_xor x y) = exact_val x XOR exact_val y \<and>
    exact_val (ExactInt_not x) = NOT (exact_val x)"
  using assms by (simp add: exact_simps)

theorem exact_bitwise_witness:
  "exact_val (ExactInt_and (from_parts True [5]) (from_parts False [6])) = 2"
  using exact_bitwise [of "from_parts True [5]" "from_parts False [6]"] by (simp add: limbs.signed_of_def)

text \<open>
  \<^verbatim>\<open>literal_width\<close> is the least positive width that represents the value, unsigned when it is not
  negative and signed when it is, where \<^verbatim>\<open>fits\<close> decides representability by its range.
\<close>

theorem literal_width_is_least:
  assumes "wf_exact x" "0 < w"
  shows "(literal_width x \<le> w \<longleftrightarrow> fits x w (exact_val x < 0)) \<and>
    (fits x w True \<longleftrightarrow> - (2 ^ (w - 1)) \<le> exact_val x \<and> exact_val x < 2 ^ (w - 1)) \<and>
    (fits x w False \<longleftrightarrow> 0 \<le> exact_val x \<and> exact_val x < 2 ^ w)"
  using assms by (simp add: literal_width_least fits_iff)

theorem literal_width_is_least_witness:
  "literal_width (from_parts True [1]) \<le> 1 \<and> fits (from_parts True [1]) 1 True"
  using literal_width_is_least [of "from_parts True [1]" 1] by (simp add: limbs.signed_of_def)

text \<open>
  \<^verbatim>\<open>to_i128\<close> succeeds exactly on the range of \<^verbatim>\<open>i128\<close>, the asymmetric minimum included, and then
  converting back gives the value it came from.
\<close>

theorem to_i128_roundtrip:
  assumes "wf_exact x"
  shows "(case to_i128 x of
      Some v \<Rightarrow> from_i128 v = x \<and> sint v = exact_val x
    | None \<Rightarrow> exact_val x < - (2 ^ 127) \<or> 2 ^ 127 \<le> exact_val x) \<and>
    to_i128 (from_i128 v) = Some v"
proof -
  note s = sint_word_of_int_i128
  have "- (2 ^ 127) \<le> sint v" "sint v < 2 ^ 127"
    using sint_ge [of v] sint_lt [of v] by simp_all
  then have "to_i128 (from_i128 v) = Some v"
    by (simp add: to_i128_range val_from_i128)
  moreover have "from_i128 (word_of_int (exact_val x)) = x"
    if "- (2 ^ 127) \<le> exact_val x" "exact_val x < 2 ^ 127"
    using that assms s by (simp add: val_from_i128 flip: exact_val_eq_iff)
  ultimately show ?thesis using s by (auto simp: to_i128_range [OF assms])
qed

theorem to_i128_roundtrip_witness:
  "to_i128 (from_parts True [0, 0, 0, 2147483648]) \<noteq> None"
  using to_i128_roundtrip [of "from_parts True [0, 0, 0, 2147483648]" 0]
  by (auto simp: limbs.signed_of_def split: option.splits)

text \<open>
  The display loop over base \<open>10\<^sup>9\<close> chunks ends and prints the decimal numeral of the value: the
  chunks after the first keep their leading zeros, there are no others, and zero prints as one digit.
\<close>

theorem display_decimal:
  assumes "wf_exact x"
  shows "to_string x = Some (show_int (exact_val x))"
  using assms by (rule to_string_val)

theorem display_decimal_witness:
  "to_string (from_parts True [1000000007]) = Some ''-1000000007''"
proof -
  have "digit_char 1 = CHR ''1''" "digit_char 7 = CHR ''7''" by code_simp+
  then have "show_int (- 1000000007) = ''-1000000007''" by (simp add: show_int_def show_nat.simps)
  then show ?thesis
    using display_decimal [of "from_parts True [1000000007]"] by (simp add: limbs.signed_of_def)
qed

text \<open>
  The carriers of code generation: \<^verbatim>\<open>fits_i64\<close>, \<^verbatim>\<open>fits_u64\<close> and \<^verbatim>\<open>to_u32\<close> decide the exact ranges,
  \<^verbatim>\<open>low_u64\<close> is the low half of the two's-complement pattern, and \<^verbatim>\<open>pattern_words\<close> lists the pattern's
  \<open>\<lceil>w / 32\<rceil>\<close> limbs.
\<close>

theorem exact_carriers:
  assumes "wf_exact x"
  shows "(fits_i64 x \<longleftrightarrow> - (2 ^ 63) \<le> exact_val x \<and> exact_val x < 2 ^ 63) \<and>
    (fits_u64 x \<longleftrightarrow> 0 \<le> exact_val x \<and> exact_val x < 2 ^ 64) \<and>
    to_u32 x = (if 0 \<le> exact_val x \<and> exact_val x < 2 ^ 32 then Some (word_of_int (exact_val x)) else None) \<and>
    uint (low_u64 x) = exact_val x mod 2 ^ 64 \<and>
    length (pattern_words x w) = (w + 31) div 32 \<and> int (mag_val (pattern_words x w)) = exact_val x mod 2 ^ w"
  using assms
  by (simp add: fits_i64_iff fits_u64_iff to_u32_val low_u64_val pattern_words_val uint_word_of_int)

theorem exact_carriers_witness:
  "uint (low_u64 (from_parts True [1])) = 2 ^ 64 - 1 \<and> length (pattern_words (from_parts True [1]) 33) = 2"
  using exact_carriers [of "from_parts True [1]" 33] by (simp add: limbs.signed_of_def)

end
