(* ===== verification/Source_Span.thy ===== *)
theory Source_Span
  imports Harc_Prelude
begin

text \<open>
  \<^verbatim>\<open>Span\<close> of \<^verbatim>\<open>src/src/lexer.rs\<close>: byte ranges of the source text with 32-bit offsets.  \<open>Span_new\<close>
  saturates offsets that do not fit, \<open>merge\<close> is the hull of two spans.
\<close>

record Span =
  span_start :: u32
  span_end :: u32

text \<open>\<^verbatim>\<open>u32::MAX as usize\<close>; \<^verbatim>\<open>u32::MAX\<close> itself is the all-ones word \<open>- 1\<close>.\<close>

definition MAX_SOURCE_LEN :: nat where
  "MAX_SOURCE_LEN = 2 ^ 32 - 1"

definition saturate_u32 :: "nat \<Rightarrow> u32" where
  "saturate_u32 n = (if n \<le> MAX_SOURCE_LEN then of_nat n else - 1)"

definition Span_new :: "nat \<Rightarrow> nat \<Rightarrow> Span" where
  "Span_new s e = \<lparr>span_start = saturate_u32 s, span_end = saturate_u32 e\<rparr>"

definition Span_default :: Span where
  "Span_default = \<lparr>span_start = 0, span_end = 0\<rparr>"

definition start_usize :: "Span \<Rightarrow> nat" where
  "start_usize s = unat (span_start s)"

definition end_usize :: "Span \<Rightarrow> nat" where
  "end_usize s = unat (span_end s)"

definition merge :: "Span \<Rightarrow> Span \<Rightarrow> Span" where
  "merge a b = \<lparr>span_start = min (span_start a) (span_start b), span_end = max (span_end a) (span_end b)\<rparr>"

lemma unat_saturate_u32: "unat (saturate_u32 n) = min n MAX_SOURCE_LEN"
  by (simp add: saturate_u32_def MAX_SOURCE_LEN_def unsigned_of_nat take_bit_nat_eq_self min_def unsigned_minus_1_eq_mask mask_eq_exp_minus_1)

lemma start_usize_new: "start_usize (Span_new s e) = min s MAX_SOURCE_LEN"
  and end_usize_new: "end_usize (Span_new s e) = min e MAX_SOURCE_LEN"
  by (simp_all add: start_usize_def end_usize_def Span_new_def unat_saturate_u32)

lemma start_usize_merge: "start_usize (merge a b) = min (start_usize a) (start_usize b)"
  and end_usize_merge: "end_usize (merge a b) = max (end_usize a) (end_usize b)"
  by (simp_all add: start_usize_def end_usize_def merge_def min_def max_def word_le_nat_alt)

text \<open>
  On a source within the size limit the offsets survive the round trip through 32 bits, and merging
  two spans is merging their byte ranges: the least range that contains both.
\<close>

theorem span_merge_hull:
  assumes "e1 \<le> MAX_SOURCE_LEN" "e2 \<le> MAX_SOURCE_LEN" "s1 \<le> e1" "s2 \<le> e2"
  shows "start_usize (merge (Span_new s1 e1) (Span_new s2 e2)) = min s1 s2 \<and>
    end_usize (merge (Span_new s1 e1) (Span_new s2 e2)) = max e1 e2"
  using assms by (simp add: start_usize_merge end_usize_merge start_usize_new end_usize_new)

theorem span_merge_hull_witness:
  "start_usize (merge (Span_new 7 9) (Span_new 3 5)) = 3 \<and> end_usize (merge (Span_new 7 9) (Span_new 3 5)) = 9"
  using span_merge_hull [of 9 5 7 3] by (simp add: MAX_SOURCE_LEN_def)

end
