(* ===== verification/Typed_Constraints.thy ===== *)
theory Typed_Constraints
  imports Source_Span
begin

text \<open>
  \<^verbatim>\<open>src/src/constraints/typed.rs\<close>: the typed constraint representation (types, operators, expressions,
  clauses, problems), the accessors the verifier and the solver backend use, and the textual
  \<^verbatim>\<open>Display\<close> forms that golden files and diagnostics show.

  A \<^verbatim>\<open>BTreeMap\<close> is the list of its entries in key order.  Strings are lists of bytes.  The attribute
  and relation schemas a field environment carries for diagnostics are type parameters: no
  definition here looks into them.
\<close>

section \<open>Handles and field paths\<close>

datatype ConstraintProblemId = ConstraintProblemId (problem_id_0: u64)
datatype EnumDomainId = EnumDomainId (domain_0: nat)
datatype RelationId = RelationId (relation_0: nat)
datatype LocalId = LocalId (local_0: nat)

datatype FieldPath = FieldPath (segments: "string list")

definition FieldPath_single :: "string \<Rightarrow> FieldPath" where
  "FieldPath_single name = FieldPath [name]"

definition FieldPath_of :: "string \<Rightarrow> string \<Rightarrow> FieldPath" where
  "FieldPath_of root field = FieldPath [root, field]"

definition dotted :: "FieldPath \<Rightarrow> string" where
  "dotted p = join ''.'' (segments p)"

section \<open>Types\<close>

datatype Sign = Unsigned | Signed

fun show_Sign :: "Sign \<Rightarrow> string" where
  "show_Sign Sign.Unsigned = ''u''"
| "show_Sign Sign.Signed = ''s''"

datatype CType =
    BV (width: nat) (sign: Sign)
  | Bool
  | Enum (domain: EnumDomainId)
  | Range (elem: CType)
  | Set (elem: CType)
  | List (elem: CType) (max_len: "nat option")
  | Bottom

definition CType_uint :: "nat \<Rightarrow> CType" where
  "CType_uint w = BV w Sign.Unsigned"

definition CType_sint :: "nat \<Rightarrow> CType" where
  "CType_sint w = BV w Sign.Signed"

fun is_bv :: "CType \<Rightarrow> bool" where
  "is_bv (BV w s) = True"
| "is_bv _ = False"

fun is_bool :: "CType \<Rightarrow> bool" where
  "is_bool CType.Bool = True"
| "is_bool _ = False"

fun is_bottom :: "CType \<Rightarrow> bool" where
  "is_bottom CType.Bottom = True"
| "is_bottom _ = False"

fun as_bv :: "CType \<Rightarrow> (nat \<times> Sign) option" where
  "as_bv (BV w s) = Some (w, s)"
| "as_bv _ = None"

fun show_CType :: "CType \<Rightarrow> string" where
  "show_CType (BV w s) = show_Sign s @ show_nat w"
| "show_CType CType.Bool = ''bool''"
| "show_CType (CType.Enum d) = ''enum#'' @ show_nat (domain_0 d)"
| "show_CType (CType.Range t) = ''range<'' @ show_CType t @ ''>''"
| "show_CType (CType.Set t) = ''set<'' @ show_CType t @ ''>''"
| "show_CType (CType.List t (Some n)) = ''list<'' @ show_CType t @ '', max='' @ show_nat n @ ''>''"
| "show_CType (CType.List t None) = ''list<'' @ show_CType t @ ''>''"
| "show_CType CType.Bottom = [CHR 0xE2, CHR 0x8A, CHR 0xA5]"

section \<open>Operators\<close>

datatype CUnaryOp = Neg | LogicalNot | BitNot

fun show_CUnaryOp :: "CUnaryOp \<Rightarrow> string" where
  "show_CUnaryOp CUnaryOp.Neg = ''-''"
| "show_CUnaryOp CUnaryOp.LogicalNot = ''!''"
| "show_CUnaryOp CUnaryOp.BitNot = ''~''"

datatype CBinaryOp =
    Add | Sub | Mul | Div | Mod
  | Eq | Ne | Lt | Le | Gt | Ge
  | LogicalAnd | LogicalOr
  | BitAnd | BitOr | BitXor
  | Shl | Shr

fun show_CBinaryOp :: "CBinaryOp \<Rightarrow> string" where
  "show_CBinaryOp CBinaryOp.Add = ''+''"
| "show_CBinaryOp CBinaryOp.Sub = ''-''"
| "show_CBinaryOp CBinaryOp.Mul = ''*''"
| "show_CBinaryOp CBinaryOp.Div = ''/''"
| "show_CBinaryOp CBinaryOp.Mod = ''%''"
| "show_CBinaryOp CBinaryOp.Eq = ''==''"
| "show_CBinaryOp CBinaryOp.Ne = ''!=''"
| "show_CBinaryOp CBinaryOp.Lt = ''<''"
| "show_CBinaryOp CBinaryOp.Le = ''<=''"
| "show_CBinaryOp CBinaryOp.Gt = ''>''"
| "show_CBinaryOp CBinaryOp.Ge = ''>=''"
| "show_CBinaryOp CBinaryOp.LogicalAnd = ''&&''"
| "show_CBinaryOp CBinaryOp.LogicalOr = ''||''"
| "show_CBinaryOp CBinaryOp.BitAnd = ''&''"
| "show_CBinaryOp CBinaryOp.BitOr = ''|''"
| "show_CBinaryOp CBinaryOp.BitXor = ''^''"
| "show_CBinaryOp CBinaryOp.Shl = ''<<''"
| "show_CBinaryOp CBinaryOp.Shr = ''>>''"

datatype BuiltinMethod = Len

fun show_BuiltinMethod :: "BuiltinMethod \<Rightarrow> string" where
  "show_BuiltinMethod Len = ''len''"

section \<open>Expressions\<close>

datatype CTypedExpr = CTypedExpr (kind: CExprKind) (ty: CType) (span: Span)
and CExprKind =
    BvLit u128
  | BoolLit bool
  | EnumLit EnumDomainId nat
  | FieldRef FieldPath
  | LocalRef LocalId
  | Unary CUnaryOp CTypedExpr
  | Binary CBinaryOp CTypedExpr CTypedExpr
  | InSet CTypedExpr CTypedExpr
  | InRange CTypedExpr "CTypedExpr option" "CTypedExpr option"
  | Set "CTypedExpr list"
  | Range "CTypedExpr option" "CTypedExpr option"
  | FieldMethodCall CTypedExpr BuiltinMethod "CTypedExpr list"
  | ForAll LocalId CTypedExpr CTypedExpr

text \<open>\<^verbatim>\<open>if let Some(x) = o { v.push(x) }\<close>\<close>

definition opt_list :: "'a option \<Rightarrow> 'a list" where
  "opt_list o' = (case o' of None \<Rightarrow> [] | Some x \<Rightarrow> [x])"

lemma opt_list_simps [simp]: "opt_list None = []" "opt_list (Some x) = [x]"
  by (simp_all add: opt_list_def)

lemma set_opt_list [simp]: "set (opt_list z) = set_option z"
  by (cases z) simp_all

fun children :: "CTypedExpr \<Rightarrow> CTypedExpr list" where
  "children (CTypedExpr (Unary _ e) _ _) = [e]"
| "children (CTypedExpr (Binary _ l r) _ _) = [l, r]"
| "children (CTypedExpr (InSet e s) _ _) = [e, s]"
| "children (CTypedExpr (InRange e lo hi) _ _) = e # opt_list lo @ opt_list hi"
| "children (CTypedExpr (CExprKind.Set items) _ _) = items"
| "children (CTypedExpr (CExprKind.Range lo hi) _ _) = opt_list lo @ opt_list hi"
| "children (CTypedExpr (FieldMethodCall t _ args) _ _) = t # args"
| "children (CTypedExpr (ForAll _ i b) _ _) = [i, b]"
| "children (CTypedExpr _ _ _) = []"

definition show_bool :: "bool \<Rightarrow> string" where
  "show_bool b = (if b then ''true'' else ''false'')"

fun show_CTypedExpr :: "CTypedExpr \<Rightarrow> string"
and show_CExprKind :: "CExprKind \<Rightarrow> string" where
  "show_CTypedExpr (CTypedExpr k t s) = show_CExprKind k @ '':'' @ show_CType t"
| "show_CExprKind (BvLit v) = show_nat (unat v)"
| "show_CExprKind (BoolLit b) = show_bool b"
| "show_CExprKind (EnumLit d i) = ''enum#'' @ show_nat (domain_0 d) @ ''.'' @ show_nat i"
| "show_CExprKind (FieldRef p) = dotted p"
| "show_CExprKind (LocalRef l) = ''%'' @ show_nat (local_0 l)"
| "show_CExprKind (Unary op e) = ''('' @ show_CUnaryOp op @ show_CTypedExpr e @ '')''"
| "show_CExprKind (Binary op l r) =
     ''('' @ show_CTypedExpr l @ '' '' @ show_CBinaryOp op @ '' '' @ show_CTypedExpr r @ '')''"
| "show_CExprKind (InSet e s) = ''('' @ show_CTypedExpr e @ '' in '' @ show_CTypedExpr s @ '')''"
| "show_CExprKind (InRange e lo hi) =
     ''('' @ show_CTypedExpr e @ '' in ['' @
     (case lo of None \<Rightarrow> [] | Some x \<Rightarrow> show_CTypedExpr x) @ ''..'' @
     (case hi of None \<Rightarrow> [] | Some x \<Rightarrow> show_CTypedExpr x) @ ''])''"
| "show_CExprKind (CExprKind.Set items) = ''{'' @ join '', '' (map show_CTypedExpr items) @ ''}''"
| "show_CExprKind (CExprKind.Range lo hi) =
     ''['' @ (case lo of None \<Rightarrow> [] | Some x \<Rightarrow> show_CTypedExpr x) @ ''..'' @
     (case hi of None \<Rightarrow> [] | Some x \<Rightarrow> show_CTypedExpr x) @ '']''"
| "show_CExprKind (FieldMethodCall t m args) =
     show_CTypedExpr t @ ''.'' @ show_BuiltinMethod m @ ''('' @ join '', '' (map show_CTypedExpr args) @ '')''"
| "show_CExprKind (ForAll v i b) =
     ''(forall %'' @ show_nat (local_0 v) @ '' in '' @ show_CTypedExpr i @ '': '' @ show_CTypedExpr b @ '')''"

section \<open>Clauses and problems\<close>

datatype ConstraintOrigin =
    TransactionKeep string Span
  | RandomizeWith Span
  | RandomizeSoft Span nat
  | RelationExpansion string Span
  | FieldAttribute string string Span

fun origin_short :: "ConstraintOrigin \<Rightarrow> string" where
  "origin_short (TransactionKeep transaction _) = ''keep@'' @ transaction"
| "origin_short (RandomizeWith _) = ''randomize_with''"
| "origin_short (RandomizeSoft _ weight) = ''soft@w'' @ show_nat weight"
| "origin_short (RelationExpansion relation _) = ''rel@'' @ relation"
| "origin_short (FieldAttribute field attr _) = ''attr['' @ attr @ '']@'' @ field"

record CTypedClause =
  cl_origin :: ConstraintOrigin
  cl_expr :: CTypedExpr
  assertion_name :: string

record CTypedSoftClause =
  sc_origin :: ConstraintOrigin
  sc_expr :: CTypedExpr
  sc_assertion_name :: string
  weight :: nat

definition show_CTypedClause :: "CTypedClause \<Rightarrow> string" where
  "show_CTypedClause c =
     ''['' @ assertion_name c @ ''] '' @ origin_short (cl_origin c) @ '' := '' @ show_CTypedExpr (cl_expr c)"

definition show_CTypedSoftClause :: "CTypedSoftClause \<Rightarrow> string" where
  "show_CTypedSoftClause c =
     ''['' @ sc_assertion_name c @ ''] soft weight '' @ show_nat (weight c) @ '' '' @
     origin_short (sc_origin c) @ '' := '' @ show_CTypedExpr (sc_expr c)"

datatype ProblemOrigin =
    RandomizeSite string Span
  | BareRandomize string Span

fun show_ProblemOrigin :: "ProblemOrigin \<Rightarrow> string" where
  "show_ProblemOrigin (RandomizeSite r _) = ''randomize('' @ r @ '') with''"
| "show_ProblemOrigin (BareRandomize r _) = ''randomize('' @ r @ '')''"

record 'attr FieldInfo =
  fi_ty :: CType
  non_random :: bool
  has_default :: bool
  attrs :: "'attr list"

record EnumVariantSchema =
  enum_name :: string
  variant :: string
  variant_index :: nat

record EnumDomainEntry =
  ed_id :: EnumDomainId
  ed_name :: string
  variants :: "EnumVariantSchema list"

record ('attr, 'rel) FieldEnv =
  env_fields :: "(FieldPath \<times> 'attr FieldInfo) list"
  enums :: "EnumDomainEntry list"
  relations :: "'rel list"

definition lookup :: "('attr, 'rel) FieldEnv \<Rightarrow> FieldPath \<Rightarrow> 'attr FieldInfo option" where
  "lookup env p = map_of (env_fields env) p"

definition enum_by_id :: "('attr, 'rel) FieldEnv \<Rightarrow> EnumDomainId \<Rightarrow> EnumDomainEntry option" where
  "enum_by_id env d = List.find (\<lambda>e. ed_id e = d) (enums env)"

record ('attr, 'rel) CTypedProblem =
  problem_id :: ConstraintProblemId
  origin :: ProblemOrigin
  env :: "('attr, 'rel) FieldEnv"
  constraints :: "CTypedClause list"
  soft_constraints :: "CTypedSoftClause list"
  solve_order :: "FieldPath list option"

definition show_CTypedProblem :: "('attr, 'rel) CTypedProblem \<Rightarrow> string" where
  "show_CTypedProblem p =
     (let nl = [CHR 0x0A] in
      ''problem #'' @ show_nat (unat (problem_id_0 (problem_id p))) @ '' '' @ show_ProblemOrigin (origin p) @ nl @
      concat (map (\<lambda>(path, info).
        ''  field '' @ dotted path @ '': '' @ show_CType (fi_ty info) @
        (if non_random info then '' !'' else []) @ nl) (env_fields (env p))) @
      concat (map (\<lambda>c. ''  clause '' @ show_CTypedClause c @ nl) (constraints p)) @
      concat (map (\<lambda>c. ''  soft '' @ show_CTypedSoftClause c @ nl) (soft_constraints p)) @
      (case solve_order p of None \<Rightarrow> []
       | Some order \<Rightarrow> ''  solve_order = ['' @ join '', '' (map dotted order) @ '']'' @ nl))"

end
