(* ===== verification/Typed_Verify.thy ===== *)
theory Typed_Verify
  imports Typed_Constraints "HOL-Library.Sublist"
begin

text \<open>
  \<^verbatim>\<open>src/src/constraints/typed_verify.rs\<close>: the verifier that stands between the constraint lowering
  and the solver backends.  The Rust \<^verbatim>\<open>Verifier\<close> is passed as a record: the error log, which keeps
  the first \<open>MAX_VERIFY_ERRORS\<close> entries, and the types of the quantified locals in scope.

  The inductive judgement \<open>typed\<close> states the typing rules.  The verifier accepts exactly the
  well-typed problems; it keeps the order of what it reports and never reports more than the cap.
\<close>

section \<open>Errors and the verifier state\<close>

definition MAX_VERIFY_ERRORS :: nat where
  "MAX_VERIFY_ERRORS = 16"

datatype VerifyError =
    BottomType Span
  | TypeMismatch string CType CType Span
  | FieldNotInEnv FieldPath Span
  | FieldTypeMismatch FieldPath CType CType Span
  | EnumDomainNotFound EnumDomainId Span
  | EnumVariantOutOfRange EnumDomainId nat Span
  | ClauseNotBool string CType Span
  | UnaryOperandType CUnaryOp string CType Span
  | BinaryOperandType CBinaryOp string CType CType Span
  | BinaryWidthMismatch CBinaryOp nat nat Span
  | BinarySignMismatch CBinaryOp Sign Sign Span
  | SetElemTypeMismatch CType CType Span
  | MembershipRhsType CType Span
  | LocalNotInScope LocalId Span
  | LocalTypeMismatch LocalId CType CType Span
  | SolveOrderFieldNotFound FieldPath Span
  | DuplicateSolveOrderField FieldPath Span
  | EmptyAssertionName Span

record Verifier =
  errors :: "VerifyError list"
  locals :: "LocalId \<rightharpoonup> CType"

definition push :: "VerifyError \<Rightarrow> Verifier \<Rightarrow> Verifier" where
  "push err v = (if length (errors v) < MAX_VERIFY_ERRORS then v\<lparr>errors := errors v @ [err]\<rparr> else v)"

text \<open>The statement \<^verbatim>\<open>if c { self.push(err) }\<close>.\<close>

definition push_if :: "bool \<Rightarrow> VerifyError \<Rightarrow> Verifier \<Rightarrow> Verifier" where
  "push_if c err v = (if c then push err v else v)"

section \<open>Type checks\<close>

fun iterable_elem_type :: "CType \<Rightarrow> CType option" where
  "iterable_elem_type (CType.Set t) = Some t"
| "iterable_elem_type (CType.Range t) = Some t"
| "iterable_elem_type (CType.List t _) = Some t"
| "iterable_elem_type _ = None"

definition literal_exceeds_width :: "u128 \<Rightarrow> nat \<Rightarrow> bool" where
  "literal_exceeds_width value w = (if w \<ge> 128 then False else value > push_bit w 1 - 1)"

definition expect_type :: "string \<Rightarrow> CType \<Rightarrow> CTypedExpr \<Rightarrow> Verifier \<Rightarrow> Verifier" where
  "expect_type context expected expr =
     push_if (ty expr \<noteq> expected) (TypeMismatch context expected (ty expr) (span expr))"

definition expect_same_type :: "string \<Rightarrow> CType \<Rightarrow> CTypedExpr \<Rightarrow> Verifier \<Rightarrow> Verifier" where
  "expect_same_type context expected expr =
     push_if (ty expr \<noteq> expected) (TypeMismatch context expected (ty expr) (span expr))"

definition push_type_mismatch :: "string \<Rightarrow> CType \<Rightarrow> CTypedExpr \<Rightarrow> Verifier \<Rightarrow> Verifier" where
  "push_type_mismatch context expected expr =
     push (TypeMismatch context expected (ty expr) (span expr))"

fun check_type_concrete :: "('a, 'r) CTypedProblem \<Rightarrow> CType \<Rightarrow> Span \<Rightarrow> Verifier \<Rightarrow> Verifier" where
  "check_type_concrete p CType.Bottom sp v = push (BottomType sp) v"
| "check_type_concrete p (BV w s) sp v =
     push_if (w = 0) (TypeMismatch ''zero-width bit-vector'' (CType_uint 1) (BV w s) sp) v"
| "check_type_concrete p (CType.Range t) sp v = check_type_concrete p t sp v"
| "check_type_concrete p (CType.Set t) sp v = check_type_concrete p t sp v"
| "check_type_concrete p (CType.List t _) sp v = check_type_concrete p t sp v"
| "check_type_concrete p (CType.Enum d) sp v =
     push_if (enum_by_id (env p) d = None) (EnumDomainNotFound d sp) v"
| "check_type_concrete p CType.Bool sp v = v"

definition expect_matching_bv ::
  "CBinaryOp \<Rightarrow> CTypedExpr \<Rightarrow> CTypedExpr \<Rightarrow> Span \<Rightarrow> Verifier \<Rightarrow> (nat \<times> Sign) option \<times> Verifier"
where
  "expect_matching_bv op lhs rhs sp v =
     (case as_bv (ty lhs) of
        None \<Rightarrow> (None, push (BinaryOperandType op ''bit-vector lhs'' (ty lhs) (ty rhs) sp) v)
      | Some (lw, ls) \<Rightarrow>
          (case as_bv (ty rhs) of
             None \<Rightarrow> (None, push (BinaryOperandType op ''bit-vector rhs'' (ty lhs) (ty rhs) sp) v)
           | Some (rw, rs) \<Rightarrow>
               if lw \<noteq> rw then (None, push (BinaryWidthMismatch op lw rw sp) v)
               else if ls \<noteq> rs then (None, push (BinarySignMismatch op ls rs sp) v)
               else (Some (lw, ls), v)))"

definition verify_enum_lit ::
  "('a, 'r) CTypedProblem \<Rightarrow> CTypedExpr \<Rightarrow> EnumDomainId \<Rightarrow> nat \<Rightarrow> Verifier \<Rightarrow> Verifier"
where
  "verify_enum_lit p expr d variant_idx v =
     (let v = push_if (ty expr \<noteq> CType.Enum d)
                (TypeMismatch ''enum literal'' (CType.Enum d) (ty expr) (span expr)) v
      in case enum_by_id (env p) d of
           None \<Rightarrow> push (EnumDomainNotFound d (span expr)) v
         | Some entry \<Rightarrow> push_if (variant_idx \<ge> length (variants entry))
             (EnumVariantOutOfRange d variant_idx (span expr)) v)"

definition verify_field_ref :: "('a, 'r) CTypedProblem \<Rightarrow> CTypedExpr \<Rightarrow> FieldPath \<Rightarrow> Verifier \<Rightarrow> Verifier" where
  "verify_field_ref p expr path v =
     (case lookup (env p) path of
        None \<Rightarrow> push (FieldNotInEnv path (span expr)) v
      | Some info \<Rightarrow> push_if (fi_ty info \<noteq> ty expr)
          (FieldTypeMismatch path (fi_ty info) (ty expr) (span expr)) v)"

definition verify_local_ref :: "CTypedExpr \<Rightarrow> LocalId \<Rightarrow> Verifier \<Rightarrow> Verifier" where
  "verify_local_ref expr local v =
     (case locals v local of
        None \<Rightarrow> push (LocalNotInScope local (span expr)) v
      | Some expected \<Rightarrow> push_if (expected \<noteq> ty expr)
          (LocalTypeMismatch local expected (ty expr) (span expr)) v)"

definition verify_unary :: "CTypedExpr \<Rightarrow> CUnaryOp \<Rightarrow> CTypedExpr \<Rightarrow> Verifier \<Rightarrow> Verifier" where
  "verify_unary expr op inner v =
     (if op = CUnaryOp.Neg \<or> op = CUnaryOp.BitNot then
        expect_same_type ''unary result'' (ty inner) expr
          (push_if (\<not> is_bv (ty inner)) (UnaryOperandType op ''bit-vector'' (ty inner) (span expr)) v)
      else
        expect_type ''logical-not result'' CType.Bool expr
          (push_if (ty inner \<noteq> CType.Bool) (UnaryOperandType op ''bool'' (ty inner) (span expr)) v))"

definition is_unsigned_bv :: "CType \<Rightarrow> bool" where
  "is_unsigned_bv t = (case as_bv t of Some (_, Sign.Unsigned) \<Rightarrow> True | _ \<Rightarrow> False)"

definition verify_equality :: "CTypedExpr \<Rightarrow> CBinaryOp \<Rightarrow> CTypedExpr \<Rightarrow> CTypedExpr \<Rightarrow> Verifier \<Rightarrow> Verifier" where
  "verify_equality expr op lhs rhs v =
     (if ty lhs = CType.Bool \<and> ty rhs = CType.Bool then
        expect_type ''bool equality result'' CType.Bool expr v
      else case (ty lhs, ty rhs) of
          (CType.Enum dl, CType.Enum dr) \<Rightarrow>
            expect_type ''enum equality result'' CType.Bool expr
              (push_if (dl \<noteq> dr) (BinaryOperandType op ''same enum domain'' (ty lhs) (ty rhs) (span expr)) v)
        | _ \<Rightarrow>
            expect_type ''bv equality result'' CType.Bool expr
              (snd (expect_matching_bv op lhs rhs (span expr) v)))"

definition verify_shift :: "CTypedExpr \<Rightarrow> CBinaryOp \<Rightarrow> CTypedExpr \<Rightarrow> CTypedExpr \<Rightarrow> Verifier \<Rightarrow> Verifier" where
  "verify_shift expr op lhs rhs v =
     (let v = push_if (\<not> is_bv (ty lhs))
                (BinaryOperandType op ''bit-vector lhs'' (ty lhs) (ty rhs) (span expr)) v;
          v = push_if (\<not> is_unsigned_bv (ty rhs))
                (BinaryOperandType op ''unsigned bit-vector shift amount'' (ty lhs) (ty rhs) (span expr)) v
      in if is_bv (ty lhs) then expect_same_type ''shift result'' (ty lhs) expr v else v)"

definition verify_binary :: "CTypedExpr \<Rightarrow> CBinaryOp \<Rightarrow> CTypedExpr \<Rightarrow> CTypedExpr \<Rightarrow> Verifier \<Rightarrow> Verifier" where
  "verify_binary expr op lhs rhs v =
     (if op \<in> {CBinaryOp.Add, CBinaryOp.Sub, CBinaryOp.Mul, CBinaryOp.Div, CBinaryOp.Mod,
               CBinaryOp.BitAnd, CBinaryOp.BitOr, CBinaryOp.BitXor} then
        (case expect_matching_bv op lhs rhs (span expr) v of
           (Some (w, s), v) \<Rightarrow> expect_type ''binary bv result'' (BV w s) expr v
         | (None, v) \<Rightarrow> v)
      else if op \<in> {CBinaryOp.Eq, CBinaryOp.Ne} then verify_equality expr op lhs rhs v
      else if op \<in> {CBinaryOp.Lt, CBinaryOp.Le, CBinaryOp.Gt, CBinaryOp.Ge} then
        expect_type ''comparison result'' CType.Bool expr
          (snd (expect_matching_bv op lhs rhs (span expr) v))
      else if op \<in> {CBinaryOp.LogicalAnd, CBinaryOp.LogicalOr} then
        expect_type ''logical result'' CType.Bool expr
          (push_if (ty lhs \<noteq> CType.Bool \<or> ty rhs \<noteq> CType.Bool)
             (BinaryOperandType op ''bool x bool'' (ty lhs) (ty rhs) (span expr)) v)
      else verify_shift expr op lhs rhs v)"

definition verify_in_set :: "CTypedExpr \<Rightarrow> CTypedExpr \<Rightarrow> CTypedExpr \<Rightarrow> Verifier \<Rightarrow> Verifier" where
  "verify_in_set expr item st v =
     (case iterable_elem_type (ty st) of
        None \<Rightarrow> expect_type ''membership result'' CType.Bool expr
          (push (MembershipRhsType (ty st) (span st)) v)
      | Some elem_ty \<Rightarrow> expect_type ''membership result'' CType.Bool expr
          (push_if (elem_ty \<noteq> ty item) (SetElemTypeMismatch elem_ty (ty item) (span expr)) v))"

definition verify_field_method ::
  "CTypedExpr \<Rightarrow> BuiltinMethod \<Rightarrow> CTypedExpr list \<Rightarrow> Verifier \<Rightarrow> Verifier"
where
  "verify_field_method expr m args v = (case m of Len \<Rightarrow>
     push_if (\<not> is_unsigned_bv (ty expr)) (TypeMismatch ''len() result'' (CType_uint 32) (ty expr) (span expr))
       (push_if (args \<noteq> [])
          (BinaryOperandType CBinaryOp.Eq ''len() has no arguments'' CType.Bool CType.Bool (span expr)) v))"

section \<open>Expressions\<close>

text \<open>
  \<open>verify_expr\<close> is the source's function: the type check of the node, then the match on its kind,
  which is \<open>verify_kind\<close>.  The literal cases of \<^verbatim>\<open>verify_set\<close> and \<^verbatim>\<open>verify_range\<close> are part of the
  match because they recurse.
\<close>

fun verify_expr :: "('a, 'r) CTypedProblem \<Rightarrow> CTypedExpr \<Rightarrow> Verifier \<Rightarrow> Verifier"
and verify_kind :: "('a, 'r) CTypedProblem \<Rightarrow> CTypedExpr \<Rightarrow> CExprKind \<Rightarrow> Verifier \<Rightarrow> Verifier" where
  "verify_expr p (CTypedExpr k t s) v =
     verify_kind p (CTypedExpr k t s) k (check_type_concrete p t s v)"
| "verify_kind p expr (BvLit value) v =
     (case as_bv (ty expr) of
        None \<Rightarrow> push_type_mismatch ''bv literal'' (CType_uint 1) expr v
      | Some (w, _) \<Rightarrow> push_if (w = 0 \<or> literal_exceeds_width value w)
          (TypeMismatch ''bv literal width'' (CType_uint (max w 1)) (ty expr) (span expr)) v)"
| "verify_kind p expr (BoolLit b) v =
     (if ty expr \<noteq> CType.Bool then push_type_mismatch ''bool literal'' CType.Bool expr v else v)"
| "verify_kind p expr (EnumLit d i) v = verify_enum_lit p expr d i v"
| "verify_kind p expr (FieldRef path) v = verify_field_ref p expr path v"
| "verify_kind p expr (LocalRef local) v = verify_local_ref expr local v"
| "verify_kind p expr (Unary op inner) v = verify_unary expr op inner (verify_expr p inner v)"
| "verify_kind p expr (Binary op lhs rhs) v =
     verify_binary expr op lhs rhs (verify_expr p rhs (verify_expr p lhs v))"
| "verify_kind p expr (InSet item st) v =
     verify_in_set expr item st (verify_expr p st (verify_expr p item v))"
| "verify_kind p expr (InRange item lo hi) v =
     (let v = verify_expr p item v;
          v = (case lo of None \<Rightarrow> v
               | Some e \<Rightarrow> expect_same_type ''range lower bound'' (ty item) e (verify_expr p e v));
          v = (case hi of None \<Rightarrow> v
               | Some e \<Rightarrow> expect_same_type ''range upper bound'' (ty item) e (verify_expr p e v))
      in expect_type ''range membership result'' CType.Bool expr v)"
| "verify_kind p expr (CExprKind.Set items) v =
     (case ty expr of
        CType.Set elem_ty \<Rightarrow>
          fold (\<lambda>item v. push_if (ty item \<noteq> elem_ty) (SetElemTypeMismatch elem_ty (ty item) (span item))
                  (verify_expr p item v))
            items (check_type_concrete p elem_ty (span expr) v)
      | _ \<Rightarrow> push (TypeMismatch ''set literal'' (CType.Set CType.Bottom) (ty expr) (span expr)) v)"
| "verify_kind p expr (CExprKind.Range lo hi) v =
     (case ty expr of
        CType.Range elem_ty \<Rightarrow>
          (let v = check_type_concrete p elem_ty (span expr) v;
               v = (case lo of None \<Rightarrow> v
                    | Some e \<Rightarrow> expect_same_type ''range lower bound'' elem_ty e (verify_expr p e v))
           in (case hi of None \<Rightarrow> v
               | Some e \<Rightarrow> expect_same_type ''range upper bound'' elem_ty e (verify_expr p e v)))
      | _ \<Rightarrow> push (TypeMismatch ''range literal'' (CType.Range CType.Bottom) (ty expr) (span expr)) v)"
| "verify_kind p expr (FieldMethodCall target m args) v =
     verify_field_method expr m args (fold (verify_expr p) args (verify_expr p target v))"
| "verify_kind p expr (ForAll var iter body) v =
     (let v = verify_expr p iter v;
          v = (case iterable_elem_type (ty iter) of
                 Some elem_ty \<Rightarrow>
                   (let prior = locals v var;
                        v = verify_expr p body (v\<lparr>locals := (locals v)(var \<mapsto> elem_ty)\<rparr>)
                    in v\<lparr>locals := (locals v)(var := prior)\<rparr>)
               | None \<Rightarrow> verify_expr p body (push (MembershipRhsType (ty iter) (span iter)) v))
      in expect_type ''forall result'' CType.Bool expr (expect_type ''forall body'' CType.Bool body v))"

definition verify_clause :: "('a, 'r) CTypedProblem \<Rightarrow> string \<Rightarrow> CTypedExpr \<Rightarrow> Verifier \<Rightarrow> Verifier" where
  "verify_clause p name expr v =
     push_if (ty expr \<noteq> CType.Bool) (ClauseNotBool name (ty expr) (span expr))
       (verify_expr p expr (push_if (name = []) (EmptyAssertionName (span expr)) v))"

fun problem_span :: "ProblemOrigin \<Rightarrow> Span" where
  "problem_span (RandomizeSite _ s) = s"
| "problem_span (BareRandomize _ s) = s"

text \<open>The loop over \<^verbatim>\<open>solve_order\<close>, with the set of paths seen so far.\<close>

fun verify_solve_order ::
  "('a, 'r) CTypedProblem \<Rightarrow> FieldPath list \<Rightarrow> FieldPath list \<Rightarrow> Verifier \<Rightarrow> Verifier"
where
  "verify_solve_order p seen [] v = v"
| "verify_solve_order p seen (path # order) v =
     verify_solve_order p (path # seen) order
       (push_if (path \<in> set seen) (DuplicateSolveOrderField path (problem_span (origin p)))
         (push_if (lookup (env p) path = None)
           (SolveOrderFieldNotFound path (problem_span (origin p))) v))"

definition verify_field :: "('a, 'r) CTypedProblem \<Rightarrow> FieldPath \<times> 'a FieldInfo \<Rightarrow> Verifier \<Rightarrow> Verifier" where
  "verify_field p f v =
     push_if (segments (fst f) = []) (FieldNotInEnv (fst f) Span_default)
       (check_type_concrete p (fi_ty (snd f)) Span_default v)"

definition verify_problem :: "('a, 'r) CTypedProblem \<Rightarrow> Verifier \<Rightarrow> Verifier" where
  "verify_problem p v =
     (let v = fold (verify_field p) (env_fields (env p)) v;
          v = fold (\<lambda>c. verify_clause p (assertion_name c) (cl_expr c)) (constraints p) v;
          v = fold (\<lambda>c. verify_clause p (sc_assertion_name c) (sc_expr c)) (soft_constraints p) v
      in case solve_order p of None \<Rightarrow> v | Some order \<Rightarrow> verify_solve_order p [] order v)"

definition verify_constraint_problem :: "('a, 'r) CTypedProblem \<Rightarrow> (VerifyError list, unit) result" where
  "verify_constraint_problem p =
     (let v = verify_problem p \<lparr>errors = [], locals = Map.empty\<rparr>
      in if errors v = [] then Ok () else Err (errors v))"

section \<open>The typing rules\<close>

fun concrete :: "('a, 'r) CTypedProblem \<Rightarrow> CType \<Rightarrow> bool" where
  "concrete p CType.Bottom \<longleftrightarrow> False"
| "concrete p (BV w s) \<longleftrightarrow> 0 < w"
| "concrete p (CType.Range t) \<longleftrightarrow> concrete p t"
| "concrete p (CType.Set t) \<longleftrightarrow> concrete p t"
| "concrete p (CType.List t _) \<longleftrightarrow> concrete p t"
| "concrete p (CType.Enum d) \<longleftrightarrow> enum_by_id (env p) d \<noteq> None"
| "concrete p CType.Bool \<longleftrightarrow> True"

inductive typed :: "('a, 'r) CTypedProblem \<Rightarrow> (LocalId \<rightharpoonup> CType) \<Rightarrow> CTypedExpr \<Rightarrow> bool"
and has_type :: "('a, 'r) CTypedProblem \<Rightarrow> (LocalId \<rightharpoonup> CType) \<Rightarrow> CExprKind \<Rightarrow> CType \<Rightarrow> bool"
  for p :: "('a, 'r) CTypedProblem" where
  typed: "concrete p t \<Longrightarrow> has_type p l k t \<Longrightarrow> typed p l (CTypedExpr k t s)"
| BvLit: "0 < w \<Longrightarrow> unat v < 2 ^ w \<Longrightarrow> has_type p l (BvLit v) (BV w sg)"
| BoolLit: "has_type p l (BoolLit b) CType.Bool"
| EnumLit: "enum_by_id (env p) d = Some e \<Longrightarrow> i < length (variants e) \<Longrightarrow> has_type p l (EnumLit d i) (CType.Enum d)"
| FieldRef: "lookup (env p) f = Some info \<Longrightarrow> has_type p l (FieldRef f) (fi_ty info)"
| LocalRef: "l x = Some t \<Longrightarrow> has_type p l (LocalRef x) t"
| Arith1: "op \<noteq> CUnaryOp.LogicalNot \<Longrightarrow> typed p l e \<Longrightarrow> ty e = BV w sg \<Longrightarrow> has_type p l (Unary op e) (BV w sg)"
| Not: "typed p l e \<Longrightarrow> ty e = CType.Bool \<Longrightarrow> has_type p l (Unary CUnaryOp.LogicalNot e) CType.Bool"
| Arith2: "op \<in> {CBinaryOp.Add, CBinaryOp.Sub, CBinaryOp.Mul, CBinaryOp.Div, CBinaryOp.Mod,
      CBinaryOp.BitAnd, CBinaryOp.BitOr, CBinaryOp.BitXor} \<Longrightarrow>
    typed p l a \<Longrightarrow> typed p l b \<Longrightarrow> ty a = BV w sg \<Longrightarrow> ty b = BV w sg \<Longrightarrow> has_type p l (Binary op a b) (BV w sg)"
| Equality: "op \<in> {CBinaryOp.Eq, CBinaryOp.Ne} \<Longrightarrow> typed p l a \<Longrightarrow> typed p l b \<Longrightarrow> ty a = ty b \<Longrightarrow>
    ty a = CType.Bool \<or> (\<exists>d. ty a = CType.Enum d) \<or> is_bv (ty a) \<Longrightarrow> has_type p l (Binary op a b) CType.Bool"
| Comparison: "op \<in> {CBinaryOp.Lt, CBinaryOp.Le, CBinaryOp.Gt, CBinaryOp.Ge} \<Longrightarrow>
    typed p l a \<Longrightarrow> typed p l b \<Longrightarrow> ty a = BV w sg \<Longrightarrow> ty b = BV w sg \<Longrightarrow> has_type p l (Binary op a b) CType.Bool"
| Logical: "op \<in> {CBinaryOp.LogicalAnd, CBinaryOp.LogicalOr} \<Longrightarrow>
    typed p l a \<Longrightarrow> typed p l b \<Longrightarrow> ty a = CType.Bool \<Longrightarrow> ty b = CType.Bool \<Longrightarrow> has_type p l (Binary op a b) CType.Bool"
| Shift: "op \<in> {CBinaryOp.Shl, CBinaryOp.Shr} \<Longrightarrow> typed p l a \<Longrightarrow> typed p l b \<Longrightarrow>
    ty a = BV w sg \<Longrightarrow> ty b = BV n Sign.Unsigned \<Longrightarrow> has_type p l (Binary op a b) (BV w sg)"
| InSet: "typed p l a \<Longrightarrow> typed p l b \<Longrightarrow> iterable_elem_type (ty b) = Some (ty a) \<Longrightarrow> has_type p l (InSet a b) CType.Bool"
| InRange: "typed p l a \<Longrightarrow> \<forall>b \<in> set_option lo \<union> set_option hi. typed p l b \<and> ty b = ty a \<Longrightarrow>
    has_type p l (InRange a lo hi) CType.Bool"
| Set: "concrete p t \<Longrightarrow> \<forall>e \<in> set items. typed p l e \<and> ty e = t \<Longrightarrow> has_type p l (CExprKind.Set items) (CType.Set t)"
| Range: "concrete p t \<Longrightarrow> \<forall>b \<in> set_option lo \<union> set_option hi. typed p l b \<and> ty b = t \<Longrightarrow>
    has_type p l (CExprKind.Range lo hi) (CType.Range t)"
| Len: "typed p l e \<Longrightarrow> has_type p l (FieldMethodCall e Len []) (BV w Sign.Unsigned)"
| ForAll: "typed p l i \<Longrightarrow> iterable_elem_type (ty i) = Some t \<Longrightarrow> typed p (l(x \<mapsto> t)) b \<Longrightarrow> ty b = CType.Bool \<Longrightarrow>
    has_type p l (ForAll x i b) CType.Bool"

inductive_simps typed_simps: "typed p l (CTypedExpr k t s)"

inductive_simps has_type_simps:
  "has_type p l (BvLit v) t" "has_type p l (BoolLit b) t" "has_type p l (EnumLit d i) t"
  "has_type p l (FieldRef f) t" "has_type p l (LocalRef x) t" "has_type p l (Unary op e) t"
  "has_type p l (Binary op a b) t" "has_type p l (InSet a b) t" "has_type p l (InRange a lo hi) t"
  "has_type p l (CExprKind.Set items) t" "has_type p l (CExprKind.Range lo hi) t"
  "has_type p l (FieldMethodCall e m args) t" "has_type p l (ForAll x i b) t"

definition typed_clause :: "('a, 'r) CTypedProblem \<Rightarrow> string \<Rightarrow> CTypedExpr \<Rightarrow> bool" where
  "typed_clause p name e \<longleftrightarrow> name \<noteq> [] \<and> typed p Map.empty e \<and> ty e = CType.Bool"

definition well_formed_problem :: "('a, 'r) CTypedProblem \<Rightarrow> bool" where
  "well_formed_problem p \<longleftrightarrow>
     (\<forall>(path, info) \<in> set (env_fields (env p)). segments path \<noteq> [] \<and> concrete p (fi_ty info)) \<and>
     (\<forall>c \<in> set (constraints p). typed_clause p (assertion_name c) (cl_expr c)) \<and>
     (\<forall>c \<in> set (soft_constraints p). typed_clause p (sc_assertion_name c) (sc_expr c)) \<and>
     (\<forall>order \<in> set_option (solve_order p). distinct order \<and> (\<forall>path \<in> set order. lookup (env p) path \<noteq> None))"

section \<open>Checks\<close>

text \<open>
  What every operation of the verifier promises: it leaves the scope as it found it, only appends
  to the log and never beyond the cap, and an empty log stays empty exactly when a condition on the
  scope holds.
\<close>

locale checks =
  fixes run :: "Verifier \<Rightarrow> Verifier" and ok :: "(LocalId \<rightharpoonup> CType) \<Rightarrow> bool"
  assumes scope: "locals (run v) = locals v"
    and appends: "prefix (errors v) (errors (run v))"
    and capped: "length (errors v) \<le> MAX_VERIFY_ERRORS \<Longrightarrow> length (errors (run v)) \<le> MAX_VERIFY_ERRORS"
    and verdict: "errors (run v) = [] \<longleftrightarrow> errors v = [] \<and> ok (locals v)"
begin

lemma accepts_silently: "errors v = [] \<Longrightarrow> ok (locals v) \<Longrightarrow> run v = v"
  using scope [of v] verdict [of v] by (intro Verifier.equality) simp_all

lemma rejects: "\<not> ok (locals v) \<Longrightarrow> errors (run v) \<noteq> []"
  by (simp add: verdict)

end

lemma checks_push: "checks (push e) (\<lambda>l. False)"
  by unfold_locales (auto simp: push_def MAX_VERIFY_ERRORS_def)

lemma checks_push_if: "checks (push_if c e) (\<lambda>l. \<not> c)"
  by unfold_locales (auto simp: push_if_def push_def MAX_VERIFY_ERRORS_def)

lemma checks_id: "checks (\<lambda>v. v) (\<lambda>l. True)"
  by unfold_locales auto

lemma checks_weaken: "checks f P \<Longrightarrow> (\<And>l. P l = Q l) \<Longrightarrow> checks f Q"
  by (subst ext [of Q P]) auto

lemma checks_eq: "checks f P \<Longrightarrow> (\<And>v. g v = f v) \<Longrightarrow> (\<And>l. P l = Q l) \<Longrightarrow> checks g Q"
proof -
  assume f: "checks f P" and eq: "\<And>v. g v = f v" "\<And>l. P l = Q l"
  have "g = f" "Q = P" by (auto simp: eq)
  with f show ?thesis by simp
qed

lemma checks_comp:
  assumes g: "checks g Q" and f: "checks f P"
  shows "checks (\<lambda>v. g (f v)) (\<lambda>l. P l \<and> Q l)"
proof
  fix v
  show "prefix (errors v) (errors (g (f v)))"
    using checks.appends [OF f, of v] checks.appends [OF g, of "f v"] by (rule prefix_order.trans)
qed (use checks.capped [OF f] checks.capped [OF g] in
  \<open>auto simp: checks.scope [OF f] checks.scope [OF g] checks.verdict [OF f] checks.verdict [OF g]\<close>)

lemma checks_fold:
  assumes "\<And>x. x \<in> set xs \<Longrightarrow> checks (f x) (P x)"
  shows "checks (fold f xs) (\<lambda>l. \<forall>x \<in> set xs. P x l)"
  using assms
proof (induction xs)
  case Nil
  show ?case using checks_id by (simp add: id_def)
next
  case (Cons x xs)
  then have "checks (\<lambda>v. fold f xs (f x v)) (\<lambda>l. P x l \<and> (\<forall>x \<in> set xs. P x l))"
    by (intro checks_comp) auto
  then show ?case by (rule checks_eq) auto
qed

lemma checks_option:
  assumes "\<And>x. x \<in> set_option z \<Longrightarrow> checks (f x) (P x)"
  shows "checks (\<lambda>v. case z of None \<Rightarrow> v | Some x \<Rightarrow> f x v) (\<lambda>l. \<forall>x \<in> set_option z. P x l)"
  using assms checks_id by (cases z) auto

lemma checks_scope:
  assumes f: "checks f P"
  shows "checks (\<lambda>v. let prior = locals v x; v' = f (v\<lparr>locals := (locals v)(x \<mapsto> t)\<rparr>)
      in v'\<lparr>locals := (locals v')(x := prior)\<rparr>) (\<lambda>l. P (l(x \<mapsto> t)))"
proof
  fix v
  show "prefix (errors v) (errors (let prior = locals v x; v' = f (v\<lparr>locals := (locals v)(x \<mapsto> t)\<rparr>)
      in v'\<lparr>locals := (locals v')(x := prior)\<rparr>))"
    using checks.appends [OF f, of "v\<lparr>locals := (locals v)(x \<mapsto> t)\<rparr>"] by (simp add: Let_def)
qed (use checks.capped [OF f] in \<open>auto simp: Let_def checks.scope [OF f] checks.verdict [OF f]\<close>)

lemma checks_check_type_concrete: "checks (check_type_concrete p t sp) (\<lambda>l. concrete p t)"
proof (induction t)
  case (BV w s)
  show ?case by (rule checks_eq [OF checks_push_if]) auto
next
  case (Enum d)
  show ?case by (rule checks_eq [OF checks_push_if]) auto
next
  case Bottom
  show ?case by (rule checks_eq [OF checks_push]) auto
next
  case Bool
  show ?case by (rule checks_eq [OF checks_id]) auto
qed (auto elim: checks_eq)

lemma checks_expect_type: "checks (expect_type c t e) (\<lambda>l. ty e = t)"
  unfolding expect_type_def by (rule checks_weaken [OF checks_push_if]) simp

lemma checks_expect_same_type: "checks (expect_same_type c t e) (\<lambda>l. ty e = t)"
  unfolding expect_same_type_def by (rule checks_weaken [OF checks_push_if]) simp

lemma checks_expect_matching_bv:
  "checks (\<lambda>v. snd (expect_matching_bv op a b sp v)) (\<lambda>l. \<exists>w s. ty a = BV w s \<and> ty b = BV w s)"
proof (cases "is_bv (ty a) \<and> is_bv (ty b)")
  case True
  then obtain w s w' s' where "ty a = BV w s" "ty b = BV w' s'" by (cases "ty a"; cases "ty b") auto
  then show ?thesis
    by (cases "w = w'"; cases "s = s'")
      (auto simp: expect_matching_bv_def intro: checks_weaken [OF checks_push] checks_weaken [OF checks_id])
next
  case False
  then show ?thesis
    by (cases "ty a"; cases "ty b") (auto simp: expect_matching_bv_def intro: checks_weaken [OF checks_push])
qed

lemma fst_expect_matching_bv:
  "fst (expect_matching_bv op a b sp v) =
     (case (ty a, ty b) of (BV w s, BV w' s') \<Rightarrow> if w = w' \<and> s = s' then Some (w, s) else None | _ \<Rightarrow> None)"
  by (cases "ty a"; cases "ty b") (auto simp: expect_matching_bv_def)

lemma checks_verify_enum_lit:
  "checks (verify_enum_lit p expr d i)
     (\<lambda>l. ty expr = CType.Enum d \<and> (\<exists>e. enum_by_id (env p) d = Some e \<and> i < length (variants e)))"
proof (cases "enum_by_id (env p) d")
  case None
  show ?thesis
    by (rule checks_eq [OF checks_comp [OF checks_push checks_push_if]])
      (auto simp: verify_enum_lit_def None)
next
  case (Some e)
  show ?thesis
    by (rule checks_eq [OF checks_comp [OF checks_push_if checks_push_if]])
      (auto simp: verify_enum_lit_def Some)
qed

lemma checks_verify_field_ref:
  "checks (verify_field_ref p expr path) (\<lambda>l. \<exists>info. lookup (env p) path = Some info \<and> fi_ty info = ty expr)"
proof (cases "lookup (env p) path")
  case None
  show ?thesis by (rule checks_eq [OF checks_push]) (auto simp: verify_field_ref_def None)
next
  case (Some info)
  show ?thesis by (rule checks_eq [OF checks_push_if]) (auto simp: verify_field_ref_def Some)
qed

lemma checks_verify_local_ref: "checks (verify_local_ref expr x) (\<lambda>l. l x = Some (ty expr))"
  by unfold_locales (auto simp: verify_local_ref_def push_if_def push_def MAX_VERIFY_ERRORS_def split: option.split)

lemma checks_verify_unary:
  "checks (verify_unary expr op e) (\<lambda>l. if op = CUnaryOp.LogicalNot then ty e = CType.Bool \<and> ty expr = CType.Bool
     else is_bv (ty e) \<and> ty expr = ty e)"
proof (cases "op = CUnaryOp.LogicalNot")
  case True
  show ?thesis
    by (rule checks_eq [OF checks_comp [OF checks_expect_type checks_push_if]])
      (auto simp: verify_unary_def True)
next
  case False
  then have "op = CUnaryOp.Neg \<or> op = CUnaryOp.BitNot" by (cases op) auto
  then show ?thesis
    by (intro checks_eq [OF checks_comp [OF checks_expect_same_type checks_push_if]])
      (auto simp: verify_unary_def)
qed

lemma checks_verify_equality:
  "checks (verify_equality expr op a b) (\<lambda>l. ty expr = CType.Bool \<and> ty a = ty b \<and>
     (ty a = CType.Bool \<or> (\<exists>d. ty a = CType.Enum d) \<or> is_bv (ty a)))"
proof -
  consider "ty a = CType.Bool" "ty b = CType.Bool" | d d' where "ty a = CType.Enum d" "ty b = CType.Enum d'"
    | (bv) "\<not> (ty a = CType.Bool \<and> ty b = CType.Bool)" "\<And>d d'. \<not> (ty a = CType.Enum d \<and> ty b = CType.Enum d')"
    by blast
  then show ?thesis
  proof cases
    case 1
    show ?thesis by (rule checks_eq [OF checks_expect_type]) (auto simp: verify_equality_def 1)
  next
    case 2
    show ?thesis
      by (rule checks_eq [OF checks_comp [OF checks_expect_type checks_push_if]])
        (auto simp: verify_equality_def 2)
  next
    case bv
    have v: "verify_equality expr op a b v = expect_type ''bv equality result'' CType.Bool expr
        (snd (expect_matching_bv op a b (span expr) v))" for v
      using bv by (cases "ty a"; cases "ty b") (auto simp: verify_equality_def)
    have "(\<exists>w s. ty a = BV w s \<and> ty b = BV w s) \<longleftrightarrow> ty a = ty b \<and>
        (ty a = CType.Bool \<or> (\<exists>d. ty a = CType.Enum d) \<or> is_bv (ty a))"
      using bv by (cases "ty a"; cases "ty b") auto
    then show ?thesis
      by (intro checks_eq [OF checks_comp [OF checks_expect_type checks_expect_matching_bv]]) (auto simp: v)
  qed
qed

lemma is_unsigned_bv_iff: "is_unsigned_bv t \<longleftrightarrow> (\<exists>w. t = BV w Sign.Unsigned)"
proof (cases t)
  case (BV w s)
  then show ?thesis by (cases s) (auto simp: is_unsigned_bv_def)
qed (auto simp: is_unsigned_bv_def)

lemma is_bv_iff: "is_bv t \<longleftrightarrow> (\<exists>w s. t = BV w s)"
  by (cases t) auto

lemma checks_verify_shift:
  "checks (verify_shift expr op a b) (\<lambda>l. is_bv (ty a) \<and> is_unsigned_bv (ty b) \<and> ty expr = ty a)"
proof (cases "is_bv (ty a)")
  case True
  show ?thesis
    by (rule checks_eq [OF checks_comp [OF checks_expect_same_type checks_comp [OF checks_push_if checks_push_if]]])
      (auto simp: verify_shift_def True)
next
  case False
  show ?thesis
    by (rule checks_eq [OF checks_comp [OF checks_push_if checks_push_if]])
      (auto simp: verify_shift_def False)
qed

lemma checks_verify_arith:
  "checks (\<lambda>v. case expect_matching_bv op a b sp v of
       (Some (w, s), v) \<Rightarrow> expect_type c (BV w s) expr v | (None, v) \<Rightarrow> v)
     (\<lambda>l. \<exists>w s. ty a = BV w s \<and> ty b = BV w s \<and> ty expr = BV w s)"
proof (cases "\<exists>w s. ty a = BV w s \<and> ty b = BV w s")
  case True
  then obtain w s where t: "ty a = BV w s" "ty b = BV w s" by blast
  show ?thesis
    by (rule checks_eq [OF checks_expect_type]) (auto simp: expect_matching_bv_def t)
next
  case False
  then have "fst (expect_matching_bv op a b sp v) = None" for v
    by (cases "ty a"; cases "ty b") (auto simp: fst_expect_matching_bv)
  then show ?thesis
    by (intro checks_eq [OF checks_expect_matching_bv]) (use False in \<open>auto simp: prod.case_eq_if\<close>)
qed

definition binary_type :: "CBinaryOp \<Rightarrow> CType \<Rightarrow> CType \<Rightarrow> CType \<Rightarrow> bool" where
  "binary_type op a b t \<longleftrightarrow>
     (if op \<in> {CBinaryOp.Add, CBinaryOp.Sub, CBinaryOp.Mul, CBinaryOp.Div, CBinaryOp.Mod,
               CBinaryOp.BitAnd, CBinaryOp.BitOr, CBinaryOp.BitXor} then \<exists>w s. a = BV w s \<and> b = BV w s \<and> t = BV w s
      else if op \<in> {CBinaryOp.Eq, CBinaryOp.Ne} then
        t = CType.Bool \<and> a = b \<and> (a = CType.Bool \<or> (\<exists>d. a = CType.Enum d) \<or> is_bv a)
      else if op \<in> {CBinaryOp.Lt, CBinaryOp.Le, CBinaryOp.Gt, CBinaryOp.Ge} then
        t = CType.Bool \<and> (\<exists>w s. a = BV w s \<and> b = BV w s)
      else if op \<in> {CBinaryOp.LogicalAnd, CBinaryOp.LogicalOr} then
        t = CType.Bool \<and> a = CType.Bool \<and> b = CType.Bool
      else is_bv a \<and> is_unsigned_bv b \<and> t = a)"

lemma checks_verify_binary:
  "checks (verify_binary expr op a b) (\<lambda>l. binary_type op (ty a) (ty b) (ty expr))"
proof -
  consider (arith) "op \<in> {CBinaryOp.Add, CBinaryOp.Sub, CBinaryOp.Mul, CBinaryOp.Div, CBinaryOp.Mod,
      CBinaryOp.BitAnd, CBinaryOp.BitOr, CBinaryOp.BitXor}"
    | (eq) "op \<in> {CBinaryOp.Eq, CBinaryOp.Ne}"
    | (cmp) "op \<in> {CBinaryOp.Lt, CBinaryOp.Le, CBinaryOp.Gt, CBinaryOp.Ge}"
    | (logical) "op \<in> {CBinaryOp.LogicalAnd, CBinaryOp.LogicalOr}" | (shift) "op \<in> {CBinaryOp.Shl, CBinaryOp.Shr}"
    by (cases op) auto
  then show ?thesis
  proof cases
    case arith
    then show ?thesis
      by (intro checks_eq [OF checks_verify_arith]) (simp_all add: verify_binary_def binary_type_def)
  next
    case eq
    then show ?thesis
      by (intro checks_eq [OF checks_verify_equality [of expr op a b]]) (auto simp: verify_binary_def binary_type_def)
  next
    case cmp
    then show ?thesis
      by (intro checks_eq [OF checks_comp [OF checks_expect_type checks_expect_matching_bv [of op a b]]])
        (auto simp: verify_binary_def binary_type_def)
  next
    case logical
    then show ?thesis
      by (intro checks_eq [OF checks_comp [OF checks_expect_type checks_push_if [of
              "ty a \<noteq> CType.Bool \<or> ty b \<noteq> CType.Bool" "BinaryOperandType op ''bool x bool'' (ty a) (ty b) (span expr)"]]])
        (auto simp: verify_binary_def binary_type_def)
  next
    case shift
    then show ?thesis
      by (intro checks_eq [OF checks_verify_shift [of expr op a b]]) (auto simp: verify_binary_def binary_type_def)
  qed
qed

lemma has_type_Binary:
  "has_type p l (Binary op a b) t \<longleftrightarrow> typed p l a \<and> typed p l b \<and> binary_type op (ty a) (ty b) t"
  by (cases op) (auto simp: has_type_simps binary_type_def is_bv_iff is_unsigned_bv_iff)

lemma checks_verify_in_set:
  "checks (verify_in_set expr a b) (\<lambda>l. iterable_elem_type (ty b) = Some (ty a) \<and> ty expr = CType.Bool)"
proof (cases "iterable_elem_type (ty b)")
  case None
  show ?thesis
    by (rule checks_eq [OF checks_comp [OF checks_expect_type checks_push]]) (auto simp: verify_in_set_def None)
next
  case (Some t)
  show ?thesis
    by (rule checks_eq [OF checks_comp [OF checks_expect_type checks_push_if]]) (auto simp: verify_in_set_def Some)
qed

lemma checks_verify_field_method:
  "checks (verify_field_method expr m args) (\<lambda>l. args = [] \<and> is_unsigned_bv (ty expr))"
  by (rule checks_eq [OF checks_comp [OF checks_push_if checks_push_if]])
    (auto simp: verify_field_method_def split: BuiltinMethod.split)

lemma literal_exceeds_width_iff: "literal_exceeds_width v w \<longleftrightarrow> \<not> unat v < 2 ^ w"
proof (cases "w \<ge> 128")
  case True
  have "unat v < 2 ^ 128" using unsigned_less [of v, where ?'a = nat] by simp
  also have "(2::nat) ^ 128 \<le> 2 ^ w" using True by (intro power_increasing) simp_all
  finally show ?thesis using True by (simp add: literal_exceeds_width_def)
next
  case False
  have "(mask w :: u128) = of_nat (mask w)" by (simp only: of_nat_mask_eq)
  then have "unat (mask w :: u128) = mask w"
    using False by (simp only: unsigned_of_nat) (simp add: take_bit_of_mask min_def)
  then have "unat (push_bit w 1 - 1 :: u128) = 2 ^ w - 1" by (simp add: mask_eq_exp_minus_1)
  then have "literal_exceeds_width v w \<longleftrightarrow> 2 ^ w - 1 < unat v"
    using False by (simp only: literal_exceeds_width_def word_less_nat_alt if_False)
  moreover have "(0::nat) < 2 ^ w" by simp
  ultimately show ?thesis by arith
qed

lemma checks_BvLit:
  "checks (verify_kind p expr (BvLit value)) (\<lambda>l. has_type p l (BvLit value) (ty expr))"
proof (cases "ty expr")
  case (BV w s)
  show ?thesis
    by (rule checks_eq [OF checks_push_if]) (auto simp: BV has_type_simps literal_exceeds_width_iff)
qed (rule checks_eq [OF checks_push], auto simp: push_type_mismatch_def has_type_simps)+

lemma checks_InRange_bound:
  "checks (verify_expr p e) (\<lambda>l. typed p l e) \<Longrightarrow>
   checks (\<lambda>v. expect_same_type c t e (verify_expr p e v)) (\<lambda>l. typed p l e \<and> ty e = t)"
  by (rule checks_comp [OF checks_expect_same_type])

lemma checks_verify_expr:
  "checks (verify_expr p e) (\<lambda>l. typed p l e)"
  "checks (verify_kind p expr k) (\<lambda>l. has_type p l k (ty expr))"
proof (induction e and k arbitrary: and expr rule: CTypedExpr.induct CExprKind.induct)
  case (CTypedExpr k t s)
  show ?case
    by (rule checks_eq [OF checks_comp [OF CTypedExpr.IH [of "CTypedExpr k t s"] checks_check_type_concrete]])
      (simp_all add: typed_simps)
next
  case (BvLit v)
  show ?case by (rule checks_BvLit)
next
  case (BoolLit b)
  show ?case
    by (rule checks_eq [OF checks_push_if [of "ty expr \<noteq> CType.Bool"]])
      (auto simp: push_if_def push_type_mismatch_def has_type_simps)
next
  case (EnumLit d i)
  show ?case by (rule checks_eq [OF checks_verify_enum_lit]) (auto simp: has_type_simps)
next
  case (FieldRef f)
  show ?case by (rule checks_eq [OF checks_verify_field_ref]) (auto simp: has_type_simps)
next
  case (LocalRef x)
  show ?case by (rule checks_eq [OF checks_verify_local_ref]) (auto simp: has_type_simps)
next
  case (Unary op e)
  show ?case
    by (rule checks_eq [OF checks_comp [OF checks_verify_unary Unary.IH]]) (auto simp: has_type_simps is_bv_iff)
next
  case (Binary op a b)
  show ?case
    by (rule checks_eq [OF checks_comp [OF checks_verify_binary checks_comp [OF Binary.IH(2,1)]]])
      (auto simp: has_type_Binary)
next
  case (InSet a b)
  show ?case
    by (rule checks_eq [OF checks_comp [OF checks_verify_in_set checks_comp [OF InSet.IH(2,1)]]])
      (auto simp: has_type_simps)
next
  case (InRange a lo hi)
  note lo = checks_InRange_bound [where c = "''range lower bound''" and t = "ty a"]
    and hi = checks_InRange_bound [where c = "''range upper bound''" and t = "ty a"]
  show ?case
    by (rule checks_eq [OF checks_comp [OF checks_expect_type checks_comp [OF
          checks_option [OF hi [OF InRange.IH(3)]] checks_comp [OF
          checks_option [OF lo [OF InRange.IH(2)]] InRange.IH(1)]]]])
      (auto simp: Let_def has_type_simps)
next
  case (Set items)
  show ?case
  proof (cases "ty expr")
    case (Set t)
    show ?thesis
      by (rule checks_eq [OF checks_comp [OF checks_fold [OF checks_comp [OF checks_push_if Set.IH]]
            checks_check_type_concrete]]) (auto simp: has_type_simps Set)
  qed (rule checks_eq [OF checks_push], auto simp: has_type_simps)+
next
  case (Range lo hi)
  show ?case
  proof (cases "ty expr")
    case (Range t)
    note lo = checks_InRange_bound [where c = "''range lower bound''" and t = t]
      and hi = checks_InRange_bound [where c = "''range upper bound''" and t = t]
    show ?thesis
      by (rule checks_eq [OF checks_comp [OF checks_option [OF hi [OF Range.IH(2)]] checks_comp [OF
            checks_option [OF lo [OF Range.IH(1)]] checks_check_type_concrete]]])
        (auto simp: Let_def has_type_simps Range)
  qed (rule checks_eq [OF checks_push], auto simp: has_type_simps)+
next
  case (FieldMethodCall e m args)
  show ?case
    by (rule checks_eq [OF checks_comp [OF checks_verify_field_method checks_comp [OF
          checks_fold [OF FieldMethodCall.IH(2)] FieldMethodCall.IH(1)]]])
      (cases m; auto simp: has_type_simps is_unsigned_bv_iff)+
next
  case (ForAll x i b)
  note ends = checks_comp [OF checks_expect_type checks_expect_type]
  show ?case
  proof (cases "iterable_elem_type (ty i)")
    case None
    show ?thesis
      by (rule checks_eq [OF checks_comp [OF ends checks_comp [OF ForAll.IH(2) checks_comp [OF checks_push ForAll.IH(1)]]]])
        (auto simp: has_type_simps None)
  next
    case (Some t)
    show ?thesis
      by (rule checks_eq [OF checks_comp [OF ends checks_comp [OF checks_scope [OF ForAll.IH(2)] ForAll.IH(1)]]])
        (auto simp: has_type_simps Some Let_def fun_upd_def)
  qed
qed

interpretation expr: checks "verify_expr p e" "\<lambda>l. typed p l e" for p e
  by (rule checks_verify_expr)

lemma checks_verify_clause:
  "checks (verify_clause p name e) (\<lambda>l. name \<noteq> [] \<and> typed p l e \<and> ty e = CType.Bool)"
  by (rule checks_eq [OF checks_comp [OF checks_push_if checks_comp [OF checks_verify_expr(1) checks_push_if]]])
    (auto simp: verify_clause_def)

interpretation clause: checks "verify_clause p name e" "\<lambda>l. name \<noteq> [] \<and> typed p l e \<and> ty e = CType.Bool" for p name e
  by (rule checks_verify_clause)

lemma checks_verify_field:
  "checks (verify_field p f) (\<lambda>l. segments (fst f) \<noteq> [] \<and> concrete p (fi_ty (snd f)))"
  by (rule checks_eq [OF checks_comp [OF checks_push_if checks_check_type_concrete]])
    (auto simp: verify_field_def)

lemma checks_verify_solve_order:
  "checks (verify_solve_order p seen order)
     (\<lambda>l. distinct order \<and> set seen \<inter> set order = {} \<and> (\<forall>path \<in> set order. lookup (env p) path \<noteq> None))"
proof (induction order arbitrary: seen)
  case Nil
  show ?case by (rule checks_eq [OF checks_id]) auto
next
  case (Cons path order)
  show ?case
    by (rule checks_eq [OF checks_comp [OF Cons.IH checks_comp [OF checks_push_if checks_push_if]]]) auto
qed

text \<open>The whole run, as a check whose condition no longer depends on the scope it starts with.\<close>

lemma checks_verify_problem:
  "checks (verify_problem p) (\<lambda>l.
     (\<forall>f \<in> set (env_fields (env p)). segments (fst f) \<noteq> [] \<and> concrete p (fi_ty (snd f))) \<and>
     (\<forall>c \<in> set (constraints p). assertion_name c \<noteq> [] \<and> typed p l (cl_expr c) \<and> ty (cl_expr c) = CType.Bool) \<and>
     (\<forall>c \<in> set (soft_constraints p). sc_assertion_name c \<noteq> [] \<and> typed p l (sc_expr c) \<and> ty (sc_expr c) = CType.Bool) \<and>
     (\<forall>order \<in> set_option (solve_order p). distinct order \<and> (\<forall>path \<in> set order. lookup (env p) path \<noteq> None)))"
proof -
  note order = checks_weaken [OF checks_verify_solve_order [where seen = "[]" and p = p],
      where Q = "\<lambda>l. distinct order \<and> (\<forall>path \<in> set order. lookup (env p) path \<noteq> None)" for order]
  show ?thesis
    by (rule checks_eq [OF checks_comp [OF checks_option [OF order] checks_comp [OF
          checks_fold [OF checks_verify_clause] checks_comp [OF
          checks_fold [OF checks_verify_clause] checks_fold [OF checks_verify_field]]]]])
      (auto simp: verify_problem_def Let_def)
qed

interpretation problem: checks "verify_problem p" "\<lambda>l.
     (\<forall>f \<in> set (env_fields (env p)). segments (fst f) \<noteq> [] \<and> concrete p (fi_ty (snd f))) \<and>
     (\<forall>c \<in> set (constraints p). assertion_name c \<noteq> [] \<and> typed p l (cl_expr c) \<and> ty (cl_expr c) = CType.Bool) \<and>
     (\<forall>c \<in> set (soft_constraints p). sc_assertion_name c \<noteq> [] \<and> typed p l (sc_expr c) \<and> ty (sc_expr c) = CType.Bool) \<and>
     (\<forall>order \<in> set_option (solve_order p). distinct order \<and> (\<forall>path \<in> set order. lookup (env p) path \<noteq> None))" for p
  by (rule checks_verify_problem)

lemma verify_ok_iff: "verify_constraint_problem p = Inr () \<longleftrightarrow> well_formed_problem p"
  by (auto simp: verify_constraint_problem_def Let_def problem.verdict well_formed_problem_def typed_clause_def)

lemma typed_concrete: "typed p l e \<Longrightarrow> concrete p (ty e)"
  by (cases e) (simp add: typed_simps)

section \<open>Properties\<close>

text \<open>
  C7.  The verifier is sound and complete for the typing rules: \<^verbatim>\<open>verify_constraint_problem\<close> returns
  \<^verbatim>\<open>Ok\<close> exactly for the problems whose fields have concrete types, whose clauses are well-typed named
  Boolean expressions, and whose solve order lists existing fields without repetition.
\<close>

theorem verifier_sound_complete: "verify_constraint_problem p = Inr () \<longleftrightarrow> well_formed_problem p"
  by (rule verify_ok_iff)

text \<open>
  A rejected problem is reported: the error list is not empty and never longer than
  \<^verbatim>\<open>MAX_VERIFY_ERRORS\<close>.
\<close>

theorem verifier_errors_bounded:
  assumes "\<not> well_formed_problem p"
  shows "\<exists>errs. verify_constraint_problem p = Inl errs \<and> errs \<noteq> [] \<and> length errs \<le> MAX_VERIFY_ERRORS"
proof -
  let ?v = "\<lparr>errors = [], locals = Map.empty\<rparr>"
  have "errors (verify_problem p ?v) \<noteq> []"
    using assms verify_ok_iff [of p] by (auto simp: verify_constraint_problem_def Let_def)
  moreover have "length (errors (verify_problem p ?v)) \<le> MAX_VERIFY_ERRORS"
    by (rule problem.capped) (simp add: MAX_VERIFY_ERRORS_def)
  ultimately show ?thesis by (simp add: verify_constraint_problem_def)
qed

theorem verifier_errors_bounded_witness:
  "\<exists>errs. verify_constraint_problem
      (\<lparr>problem_id = ConstraintProblemId 0, origin = BareRandomize ''t'' Span_default,
        env = \<lparr>env_fields = [], enums = [], relations = []\<rparr>, constraints = [], soft_constraints = [],
        solve_order = Some [FieldPath [''x'']]\<rparr> :: (unit, unit) CTypedProblem) = Inl errs \<and> errs \<noteq> []"
  using verifier_errors_bounded [of "\<lparr>problem_id = ConstraintProblemId 0, origin = BareRandomize ''t'' Span_default,
      env = \<lparr>env_fields = [], enums = [], relations = []\<rparr>, constraints = [], soft_constraints = [],
      solve_order = Some [FieldPath [''x'']]\<rparr> :: (unit, unit) CTypedProblem"]
  by (auto simp: well_formed_problem_def lookup_def)

text \<open>
  Verifying an expression leaves the quantifier scope as it was, also when a quantifier shadows a
  local, and reports what it finds after what was reported before it: no earlier error is lost.
\<close>

theorem verify_expr_frame:
  "locals (verify_expr p e v) = locals v \<and> prefix (errors v) (errors (verify_expr p e v)) \<and>
   (errors (verify_expr p e v) = [] \<longleftrightarrow> errors v = [] \<and> typed p (locals v) e)"
  by (simp add: expr.scope expr.appends expr.verdict)

end
