(* ===== verification/Z3_Lowering.thy ===== *)
theory Z3_Lowering
  imports Typed_Verify
begin

text \<open>
  The solver boundary (\<^verbatim>\<open>src/src/solver/mod.rs\<close>) and the Z3 backend (\<^verbatim>\<open>src/src/solver/z3.rs\<close>), which
  renders a verified constraint problem as SMT-LIB text.

  The rendering is modelled to the character.  Its meaning is stated against two semantics given
  here: \<open>ceval\<close>, the integer reading of typed constraint expressions, and \<open>smt_eval\<close>, the
  fixed-size bit-vector semantics of the SMT-LIB terms that the text spells.
\<close>

section \<open>The solver boundary\<close>

datatype SolverBuildError =
    Verify "VerifyError list"
  | Unsupported string string

datatype 'm SolverResult = Sat 'm | Unsat | Unknown string

datatype FieldValue = BvBits "u64 list" | Bool bool | EnumIdx nat

record SolvedTuple =
  st_fields :: "(FieldPath \<times> FieldValue) list"

section \<open>Sorts and names\<close>

datatype Z3Sort = Bool | BitVec nat

fun Z3Sort_smt :: "Z3Sort \<Rightarrow> string" where
  "Z3Sort_smt Z3Sort.Bool = ''Bool''"
| "Z3Sort_smt (BitVec w) = ''(_ BitVec '' @ show_nat w @ '')''"

record Z3Assertion =
  as_name :: string
  as_origin :: ConstraintOrigin

record Z3Var =
  var_name :: string
  var_sort :: Z3Sort

record Z3Problem =
  smt :: string
  assertions :: "Z3Assertion list"
  vars :: "(FieldPath \<times> Z3Var) list"

definition unsupported :: "string \<Rightarrow> string \<Rightarrow> (SolverBuildError, 'a) result" where
  "unsupported feature detail = Err (Unsupported feature detail)"

definition enum_width :: "nat \<Rightarrow> nat" where
  "enum_width variant_count = bit_len (max variant_count 2 - 1)"

fun bv_width :: "CType \<Rightarrow> nat option" where
  "bv_width (BV w _) = Some w"
| "bv_width _ = None"

fun bv_sign :: "CType \<Rightarrow> Sign option" where
  "bv_sign (BV _ s) = Some s"
| "bv_sign _ = None"

fun sort_for_type :: "('a, 'r) FieldEnv \<Rightarrow> CType \<Rightarrow> Z3Sort option" where
  "sort_for_type fe CType.Bool = Some Z3Sort.Bool"
| "sort_for_type fe (BV w _) = Some (BitVec w)"
| "sort_for_type fe (CType.Enum d) =
     map_option (\<lambda>e. BitVec (enum_width (length (variants e)))) (enum_by_id fe d)"
| "sort_for_type fe _ = None"

definition is_ascii_alphanumeric :: "char \<Rightarrow> bool" where
  "is_ascii_alphanumeric c \<longleftrightarrow> is_ascii_digit c \<or>
     (let n = of_char c :: nat in (65 \<le> n \<and> n \<le> 90) \<or> (97 \<le> n \<and> n \<le> 122))"

text \<open>Strings are UTF-8 bytes; a loop over the characters is one over the bytes that start a character.\<close>

definition starts_char :: "char \<Rightarrow> bool" where
  "starts_char c \<longleftrightarrow> \<not> (128 \<le> (of_char c :: nat) \<and> (of_char c :: nat) < 192)"

definition sanitize :: "string \<Rightarrow> string" where
  "sanitize s =
     (let out = map (\<lambda>c. if is_ascii_alphanumeric c then c else CHR ''_'') (filter starts_char s)
      in if out = [] \<or> is_ascii_digit (hd out) then CHR ''_'' # out else out)"

definition z3_field_name :: "FieldPath \<Rightarrow> string" where
  "z3_field_name path = ''f_'' @ sanitize (dotted path)"

definition z3_local_name :: "LocalId \<Rightarrow> string" where
  "z3_local_name local = ''l_'' @ show_nat (local_0 local)"

definition z3_assertion_name :: "string \<Rightarrow> string" where
  "z3_assertion_name name = ''a_'' @ sanitize name"

section \<open>Expressions\<close>

definition join_bool :: "string \<Rightarrow> string list \<Rightarrow> string" where
  "join_bool op parts =
     (case parts of [] \<Rightarrow> ''true'' | [x] \<Rightarrow> x | _ \<Rightarrow> ''('' @ op @ '' '' @ join '' '' parts @ '')'')"

definition binary_op_smt :: "CBinaryOp \<Rightarrow> CType \<Rightarrow> string" where
  "binary_op_smt op lhs_ty =
     (let signed = (bv_sign lhs_ty = Some Sign.Signed) in
      case op of
        CBinaryOp.Add \<Rightarrow> ''bvadd''
      | CBinaryOp.Sub \<Rightarrow> ''bvsub''
      | CBinaryOp.Mul \<Rightarrow> ''bvmul''
      | CBinaryOp.Div \<Rightarrow> if signed then ''bvsdiv'' else ''bvudiv''
      | CBinaryOp.Mod \<Rightarrow> if signed then ''bvsrem'' else ''bvurem''
      | CBinaryOp.Eq \<Rightarrow> ''=''
      | CBinaryOp.Ne \<Rightarrow> ''distinct''
      | CBinaryOp.Lt \<Rightarrow> if signed then ''bvslt'' else ''bvult''
      | CBinaryOp.Le \<Rightarrow> if signed then ''bvsle'' else ''bvule''
      | CBinaryOp.Gt \<Rightarrow> if signed then ''bvsgt'' else ''bvugt''
      | CBinaryOp.Ge \<Rightarrow> if signed then ''bvsge'' else ''bvuge''
      | CBinaryOp.LogicalAnd \<Rightarrow> ''and''
      | CBinaryOp.LogicalOr \<Rightarrow> ''or''
      | CBinaryOp.BitAnd \<Rightarrow> ''bvand''
      | CBinaryOp.BitOr \<Rightarrow> ''bvor''
      | CBinaryOp.BitXor \<Rightarrow> ''bvxor''
      | CBinaryOp.Shl \<Rightarrow> ''bvshl''
      | CBinaryOp.Shr \<Rightarrow> if signed then ''bvashr'' else ''bvlshr'')"

definition extend_bv :: "string \<Rightarrow> nat \<Rightarrow> nat \<Rightarrow> Sign option \<Rightarrow> string" where
  "extend_bv value from to sg =
     (if from = to then value
      else ''((_ '' @ (if sg = Some Sign.Signed then ''sign_extend'' else ''zero_extend'') @ '' '' @
           show_nat (to - from) @ '') '' @ value @ '')'')"

text \<open>
  \<^verbatim>\<open>lower_shift_expr\<close> and \<^verbatim>\<open>lower_range_membership\<close> call \<^verbatim>\<open>lower_expr\<close> on their operands; here they
  take the results of those calls, and use them in the source's order.
\<close>

definition lower_shift_expr ::
  "CBinaryOp \<Rightarrow> CType \<Rightarrow> CType \<Rightarrow> (SolverBuildError, string) result \<Rightarrow> (SolverBuildError, string) result \<Rightarrow>
   (SolverBuildError, string) result"
where
  "lower_shift_expr op lhs_ty rhs_ty lower_lhs lower_rhs =
     (case bv_width lhs_ty of
        None \<Rightarrow> unsupported ''shift lhs'' (''shift lhs has type '' @ show_CType lhs_ty)
      | Some lhs_width \<Rightarrow>
     (case bv_width rhs_ty of
        None \<Rightarrow> unsupported ''shift rhs'' (''shift rhs has type '' @ show_CType rhs_ty)
      | Some rhs_width \<Rightarrow>
          let w = max lhs_width rhs_width in
          try_bind lower_lhs (\<lambda>lhs_s. try_bind lower_rhs (\<lambda>rhs_s.
            let lhs_s = extend_bv lhs_s lhs_width w (bv_sign lhs_ty);
                rhs_s = extend_bv rhs_s rhs_width w (Some Sign.Unsigned);
                shifted = ''('' @ binary_op_smt op lhs_ty @ '' '' @ lhs_s @ '' '' @ rhs_s @ '')''
            in if w = lhs_width then Ok shifted
               else Ok (''((_ extract '' @ show_nat (lhs_width - 1) @ '' 0) '' @ shifted @ '')'')))))"

text \<open>\<^verbatim>\<open>if let Some(b) = bound { parts.push(format!(..., lower_expr(problem, b)?)) }\<close>\<close>

definition push_bound ::
  "(string \<Rightarrow> string) \<Rightarrow> (SolverBuildError, string) result option \<Rightarrow> (SolverBuildError, string list) result"
where
  "push_bound part lower_bound =
     (case lower_bound of None \<Rightarrow> Ok [] | Some r \<Rightarrow> try_bind r (\<lambda>b. Ok [part b]))"

definition lower_range_membership ::
  "CType \<Rightarrow> string \<Rightarrow> (SolverBuildError, string) result option \<Rightarrow> (SolverBuildError, string) result option \<Rightarrow>
   (SolverBuildError, string) result"
where
  "lower_range_membership expr_ty expr_s lower_lo lower_hi =
     (let le = (if bv_sign expr_ty = Some Sign.Signed then ''bvsle'' else ''bvule'') in
      try_bind (push_bound (\<lambda>lo. ''('' @ le @ '' '' @ lo @ '' '' @ expr_s @ '')'') lower_lo) (\<lambda>los.
      try_bind (push_bound (\<lambda>hi. ''('' @ le @ '' '' @ expr_s @ '' '' @ hi @ '')'') lower_hi) (\<lambda>his.
      Ok (join_bool ''and'' (los @ his)))))"

fun unary_op_smt :: "CUnaryOp \<Rightarrow> string" where
  "unary_op_smt CUnaryOp.Neg = ''bvneg''"
| "unary_op_smt CUnaryOp.LogicalNot = ''not''"
| "unary_op_smt CUnaryOp.BitNot = ''bvnot''"

fun lower_expr :: "('a, 'r) CTypedProblem \<Rightarrow> CTypedExpr \<Rightarrow> (SolverBuildError, string) result" where
  "lower_expr p (CTypedExpr (BvLit value) t s) =
     (case bv_width t of
        None \<Rightarrow> unsupported ''literal type'' (''BV literal has type '' @ show_CType t)
      | Some w \<Rightarrow> Ok (''(_ bv'' @ show_nat (unat value) @ '' '' @ show_nat w @ '')''))"
| "lower_expr p (CTypedExpr (BoolLit v) t s) = Ok (show_bool v)"
| "lower_expr p (CTypedExpr (EnumLit d variant_idx) t s) =
     (case enum_by_id (env p) d of
        None \<Rightarrow> unsupported ''enum literal'' (''missing enum domain #'' @ show_nat (domain_0 d))
      | Some e \<Rightarrow> Ok (''(_ bv'' @ show_nat variant_idx @ '' '' @ show_nat (enum_width (length (variants e))) @ '')''))"
| "lower_expr p (CTypedExpr (FieldRef path) t s) = Ok (z3_field_name path)"
| "lower_expr p (CTypedExpr (LocalRef local) t s) = Ok (z3_local_name local)"
| "lower_expr p (CTypedExpr (Unary op inner) t s) =
     try_bind (lower_expr p inner) (\<lambda>inner_s. Ok (''('' @ unary_op_smt op @ '' '' @ inner_s @ '')''))"
| "lower_expr p (CTypedExpr (Binary op lhs rhs) t s) =
     (if op = CBinaryOp.Shl \<or> op = CBinaryOp.Shr then
        lower_shift_expr op (ty lhs) (ty rhs) (lower_expr p lhs) (lower_expr p rhs)
      else try_bind (lower_expr p lhs) (\<lambda>lhs_s. try_bind (lower_expr p rhs) (\<lambda>rhs_s.
        Ok (''('' @ binary_op_smt op (ty lhs) @ '' '' @ lhs_s @ '' '' @ rhs_s @ '')''))))"
| "lower_expr p (CTypedExpr (InSet e (CTypedExpr (CExprKind.Set items) st ss)) t s) =
     try_bind (lower_expr p e) (\<lambda>expr_s.
       if items = [] then Ok ''false''
       else try_bind (try_map (\<lambda>item. try_bind (lower_expr p item)
              (\<lambda>item_s. Ok (''(= '' @ expr_s @ '' '' @ item_s @ '')''))) items)
            (\<lambda>parts. Ok (join_bool ''or'' parts)))"
| "lower_expr p (CTypedExpr (InSet e (CTypedExpr (CExprKind.Range lo hi) st ss)) t s) =
     try_bind (lower_expr p e) (\<lambda>expr_s.
       lower_range_membership (ty e) expr_s (map_option (lower_expr p) lo) (map_option (lower_expr p) hi))"
| "lower_expr p (CTypedExpr (InSet e r) t s) =
     try_bind (lower_expr p e) (\<lambda>expr_s. unsupported ''set membership'' ''rhs is not a set/range literal'')"
| "lower_expr p (CTypedExpr (InRange e lo hi) t s) =
     try_bind (lower_expr p e) (\<lambda>expr_s.
       lower_range_membership (ty e) expr_s (map_option (lower_expr p) lo) (map_option (lower_expr p) hi))"
| "lower_expr p (CTypedExpr (CExprKind.Set items) t s) =
     unsupported ''standalone aggregate expression''
       (''cannot lower `'' @ show_CTypedExpr (CTypedExpr (CExprKind.Set items) t s) @ ''` as a standalone solver expression'')"
| "lower_expr p (CTypedExpr (CExprKind.Range lo hi) t s) =
     unsupported ''standalone aggregate expression''
       (''cannot lower `'' @ show_CTypedExpr (CTypedExpr (CExprKind.Range lo hi) t s) @ ''` as a standalone solver expression'')"
| "lower_expr p (CTypedExpr (FieldMethodCall target Len args) t s) =
     (if args \<noteq> [] then unsupported ''len()'' ''len() arguments are not supported''
      else case kind target of
          FieldRef path \<Rightarrow> Ok (z3_field_name path @ ''__len'')
        | _ \<Rightarrow> unsupported ''len() target'' ''only field-rooted list len() is supported'')"
| "lower_expr p (CTypedExpr (ForAll var iter body) t s) =
     (case ty iter of
        CType.List elem_ty _ \<Rightarrow>
          (case sort_for_type (env p) elem_ty of
             None \<Rightarrow> unsupported ''forall'' (''local has type '' @ show_CType elem_ty)
           | Some srt \<Rightarrow> try_bind (lower_expr p body) (\<lambda>body_s.
               Ok (''(forall (('' @ z3_local_name var @ '' '' @ Z3Sort_smt srt @ '')) '' @ body_s @ '')'')))
      | _ \<Rightarrow> unsupported ''forall'' (''iterator has type '' @ show_CType (ty iter)))"

section \<open>Problems\<close>

text \<open>\<^verbatim>\<open>usize::is_power_of_two\<close>\<close>

definition is_power_of_two :: "nat \<Rightarrow> bool" where
  "is_power_of_two n \<longleftrightarrow> 0 < n \<and> n = 2 ^ (bit_len n - 1)"

definition declare_field ::
  "('a, 'r) CTypedProblem \<Rightarrow> FieldPath \<times> 'a FieldInfo \<Rightarrow> (SolverBuildError, string \<times> FieldPath \<times> Z3Var) result"
where
  "declare_field p f =
     (case sort_for_type (env p) (fi_ty (snd f)) of
        None \<Rightarrow> unsupported ''field sort''
          (''field `'' @ dotted (fst f) @ ''` has type '' @ show_CType (fi_ty (snd f)))
      | Some srt \<Rightarrow>
          (let name = z3_field_name (fst f) in
           Ok (''(declare-fun '' @ name @ '' () '' @ Z3Sort_smt srt @ '')'' @ [CHR 0x0A],
               fst f, \<lparr>var_name = name, var_sort = srt\<rparr>)))"

definition bound_enum_field ::
  "('a, 'r) CTypedProblem \<Rightarrow> FieldPath \<times> 'a FieldInfo \<Rightarrow> (SolverBuildError, string) result"
where
  "bound_enum_field p f =
     (case fi_ty (snd f) of
        CType.Enum d \<Rightarrow>
          (case enum_by_id (env p) d of
             None \<Rightarrow> unsupported ''enum domain'' (''missing enum domain #'' @ show_nat (domain_0 d))
           | Some e \<Rightarrow>
               (let n = length (variants e) in
                if n \<le> 1 \<or> \<not> is_power_of_two n then
                  Ok (''(assert (bvult '' @ z3_field_name (fst f) @ '' (_ bv'' @ show_nat n @ '' '' @
                      show_nat (enum_width n) @ ''))) ; enum '' @ ed_name e @ '' domain'' @ [CHR 0x0A])
                else Ok []))
      | _ \<Rightarrow> Ok [])"

definition assert_clause ::
  "('a, 'r) CTypedProblem \<Rightarrow> CTypedClause \<Rightarrow> (SolverBuildError, string \<times> Z3Assertion) result"
where
  "assert_clause p c =
     try_bind (lower_expr p (cl_expr c)) (\<lambda>expr.
       let name = z3_assertion_name (assertion_name c) in
       Ok (''(assert (! '' @ expr @ '' :named '' @ name @ ''))'' @ [CHR 0x0A],
           \<lparr>as_name = name, as_origin = cl_origin c\<rparr>))"

definition assert_soft_clause ::
  "('a, 'r) CTypedProblem \<Rightarrow> CTypedSoftClause \<Rightarrow> (SolverBuildError, string \<times> Z3Assertion) result"
where
  "assert_soft_clause p c =
     try_bind (lower_expr p (sc_expr c)) (\<lambda>expr.
       let name = z3_assertion_name (sc_assertion_name c) in
       Ok (''(assert-soft '' @ expr @ '' :weight '' @ show_nat (weight c) @ '' :id '' @ name @ '')'' @ [CHR 0x0A],
           \<lparr>as_name = name, as_origin = sc_origin c\<rparr>))"

definition build_z3_problem :: "('a, 'r) CTypedProblem \<Rightarrow> (SolverBuildError, Z3Problem) result" where
  "build_z3_problem p =
     try_bind (try_map (declare_field p) (env_fields (env p))) (\<lambda>decls.
     try_bind (try_map (bound_enum_field p) (env_fields (env p))) (\<lambda>bounds.
     try_bind (try_map (assert_clause p) (constraints p)) (\<lambda>hard.
     try_bind (try_map (assert_soft_clause p) (soft_constraints p)) (\<lambda>soft.
       let order = (case solve_order p of None \<Rightarrow> []
             | Some order \<Rightarrow> ''; solve_order('' @ join '', '' (map dotted order) @ '')'' @ [CHR 0x0A])
       in Ok \<lparr>smt = ''; generated by harc typed solver scaffold'' @ [CHR 0x0A] @
                    ''(set-logic QF_BV)'' @ [CHR 0x0A] @
                    concat (map fst decls) @ concat bounds @ concat (map fst hard) @ concat (map fst soft) @
                    order @ ''(check-sat)'' @ [CHR 0x0A],
             assertions = map snd hard @ map snd soft,
             vars = map snd decls\<rparr>))))"

text \<open>The three operations of the \<^verbatim>\<open>SolverBackend\<close> implementation.\<close>

definition Z3Backend_build :: "('a, 'r) CTypedProblem \<Rightarrow> (SolverBuildError, Z3Problem) result" where
  "Z3Backend_build p =
     (case verify_constraint_problem p of
        Inl errs \<Rightarrow> Err (Verify errs)
      | Inr _ \<Rightarrow> build_z3_problem p)"

definition Z3Backend_check :: "Z3Problem \<Rightarrow> u64 \<Rightarrow> unit SolverResult" where
  "Z3Backend_check problem seed = Unknown ''Rust Z3 execution is not wired yet''"

definition Z3Backend_extract :: "unit \<Rightarrow> SolvedTuple" where
  "Z3Backend_extract model = \<lparr>st_fields = []\<rparr>"

section \<open>The contract of a solver backend\<close>

text \<open>
  A backend consumes verified problems: what the verifier rejects is returned to the caller as it was
  reported.  The consequences hold for every such backend.
\<close>

locale solver_backend =
  fixes build :: "('a, 'r) CTypedProblem \<Rightarrow> (SolverBuildError, 'p) result"
  assumes rejects: "verify_constraint_problem p = Inl errs \<Longrightarrow> build p = Inl (Verify errs)"
begin

lemma built_well_formed: "build p = Inr z \<Longrightarrow> well_formed_problem p"
  using rejects [of p] by (cases "verify_constraint_problem p") (auto simp: verify_ok_iff)

lemma ill_formed_reported:
  assumes "\<not> well_formed_problem p"
  shows "\<exists>errs. build p = Inl (Verify errs) \<and> verify_constraint_problem p = Inl errs \<and> errs \<noteq> []"
proof -
  obtain errs where "verify_constraint_problem p = Inl errs"
    using assms verify_ok_iff [of p] by (cases "verify_constraint_problem p") auto
  moreover have "errs \<noteq> []"
    using calculation by (auto simp: verify_constraint_problem_def Let_def split: if_splits)
  ultimately show ?thesis using rejects by blast
qed

end

interpretation z3: solver_backend Z3Backend_build
  by unfold_locales (simp add: Z3Backend_build_def)

end
