(* ===== verification/Z3_Semantics.thy ===== *)
theory Z3_Semantics
  imports Z3_Lowering
begin

text \<open>
  The meaning of what the Z3 backend renders.  \<open>ceval\<close> reads a typed constraint expression over the
  integers: a value of type \<^verbatim>\<open>uint<w>\<close> or \<^verbatim>\<open>sint<w>\<close> is an integer in its range, results are wrapped
  to the type of the expression, comparisons compare integers, and an enum value is its variant
  index.  Division by zero has SMT-LIB's value.  \<open>smt_eval\<close> evaluates SMT-LIB terms with the
  definitions of the theory of fixed-size bit-vectors, and fails on an ill-sorted term.

  The lowering is correct: the text of a verified clause spells a term that evaluates to the
  clause's truth value, for every assignment of the fields.
\<close>

section \<open>SMT-LIB terms\<close>

datatype smt_term =
    BvNum nat nat
  | Const bool
  | Sym string
  | Op1 string smt_term
  | Op2 string smt_term smt_term
  | OpN string "smt_term list"
  | Extend Sign nat smt_term
  | Extract nat smt_term

fun show_smt :: "smt_term \<Rightarrow> string" where
  "show_smt (BvNum v w) = ''(_ bv'' @ show_nat v @ '' '' @ show_nat w @ '')''"
| "show_smt (Const b) = show_bool b"
| "show_smt (Sym x) = x"
| "show_smt (Op1 f a) = ''('' @ f @ '' '' @ show_smt a @ '')''"
| "show_smt (Op2 f a b) = ''('' @ f @ '' '' @ show_smt a @ '' '' @ show_smt b @ '')''"
| "show_smt (OpN f as) = ''('' @ f @ '' '' @ join '' '' (map show_smt as) @ '')''"
| "show_smt (Extend sg n a) =
     ''((_ '' @ (if sg = Sign.Signed then ''sign_extend'' else ''zero_extend'') @ '' '' @ show_nat n @ '') '' @
     show_smt a @ '')''"
| "show_smt (Extract hi a) = ''((_ extract '' @ show_nat hi @ '' 0) '' @ show_smt a @ '')''"

datatype smt_val = SBool bool | SBv nat int

definition to_signed :: "nat \<Rightarrow> int \<Rightarrow> int" where
  "to_signed w a = signed_take_bit (w - 1) a"

definition bvneg :: "nat \<Rightarrow> int \<Rightarrow> int" where
  "bvneg w a = take_bit w (- a)"

definition bvnot :: "nat \<Rightarrow> int \<Rightarrow> int" where
  "bvnot w a = take_bit w (NOT a)"

definition bvudiv :: "nat \<Rightarrow> int \<Rightarrow> int \<Rightarrow> int" where
  "bvudiv w a b = (if b = 0 then mask w else a div b)"

definition bvurem :: "nat \<Rightarrow> int \<Rightarrow> int \<Rightarrow> int" where
  "bvurem w a b = (if b = 0 then a else a mod b)"

definition bvsdiv :: "nat \<Rightarrow> int \<Rightarrow> int \<Rightarrow> int" where
  "bvsdiv w a b =
     (case (bit a (w - 1), bit b (w - 1)) of
        (False, False) \<Rightarrow> bvudiv w a b
      | (True, False) \<Rightarrow> bvneg w (bvudiv w (bvneg w a) b)
      | (False, True) \<Rightarrow> bvneg w (bvudiv w a (bvneg w b))
      | (True, True) \<Rightarrow> bvudiv w (bvneg w a) (bvneg w b))"

definition bvsrem :: "nat \<Rightarrow> int \<Rightarrow> int \<Rightarrow> int" where
  "bvsrem w a b =
     (case (bit a (w - 1), bit b (w - 1)) of
        (False, False) \<Rightarrow> bvurem w a b
      | (True, False) \<Rightarrow> bvneg w (bvurem w (bvneg w a) b)
      | (False, True) \<Rightarrow> bvurem w a (bvneg w b)
      | (True, True) \<Rightarrow> bvneg w (bvurem w (bvneg w a) (bvneg w b)))"

definition bvashr :: "nat \<Rightarrow> int \<Rightarrow> int \<Rightarrow> int" where
  "bvashr w a b =
     (if bit a (w - 1) then bvnot w (bvnot w a div 2 ^ nat b) else a div 2 ^ nat b)"

definition bv_binop :: "string \<Rightarrow> nat \<Rightarrow> int \<Rightarrow> int \<Rightarrow> smt_val option" where
  "bv_binop f w a b =
     (if f = ''bvadd'' then Some (SBv w (take_bit w (a + b)))
      else if f = ''bvsub'' then Some (SBv w (take_bit w (a - b)))
      else if f = ''bvmul'' then Some (SBv w (take_bit w (a * b)))
      else if f = ''bvudiv'' then Some (SBv w (bvudiv w a b))
      else if f = ''bvurem'' then Some (SBv w (bvurem w a b))
      else if f = ''bvsdiv'' then Some (SBv w (bvsdiv w a b))
      else if f = ''bvsrem'' then Some (SBv w (bvsrem w a b))
      else if f = ''bvand'' then Some (SBv w (a AND b))
      else if f = ''bvor'' then Some (SBv w (a OR b))
      else if f = ''bvxor'' then Some (SBv w (a XOR b))
      else if f = ''bvshl'' then Some (SBv w (take_bit w (a * 2 ^ nat b)))
      else if f = ''bvlshr'' then Some (SBv w (a div 2 ^ nat b))
      else if f = ''bvashr'' then Some (SBv w (bvashr w a b))
      else if f = ''bvult'' then Some (SBool (a < b))
      else if f = ''bvule'' then Some (SBool (a \<le> b))
      else if f = ''bvugt'' then Some (SBool (a > b))
      else if f = ''bvuge'' then Some (SBool (a \<ge> b))
      else if f = ''bvslt'' then Some (SBool (to_signed w a < to_signed w b))
      else if f = ''bvsle'' then Some (SBool (to_signed w a \<le> to_signed w b))
      else if f = ''bvsgt'' then Some (SBool (to_signed w a > to_signed w b))
      else if f = ''bvsge'' then Some (SBool (to_signed w a \<ge> to_signed w b))
      else None)"

fun smt_op2 :: "string \<Rightarrow> smt_val \<Rightarrow> smt_val \<Rightarrow> smt_val option" where
  "smt_op2 f (SBool a) (SBool b) =
     (if f = ''='' then Some (SBool (a = b))
      else if f = ''distinct'' then Some (SBool (a \<noteq> b))
      else if f = ''and'' then Some (SBool (a \<and> b))
      else if f = ''or'' then Some (SBool (a \<or> b))
      else None)"
| "smt_op2 f (SBv w a) (SBv w' b) =
     (if w \<noteq> w' then None
      else if f = ''='' then Some (SBool (a = b))
      else if f = ''distinct'' then Some (SBool (a \<noteq> b))
      else bv_binop f w a b)"
| "smt_op2 f _ _ = None"

fun smt_op1 :: "string \<Rightarrow> smt_val \<Rightarrow> smt_val option" where
  "smt_op1 f (SBool a) = (if f = ''not'' then Some (SBool (\<not> a)) else None)"
| "smt_op1 f (SBv w a) =
     (if f = ''bvneg'' then Some (SBv w (bvneg w a))
      else if f = ''bvnot'' then Some (SBv w (bvnot w a))
      else None)"

fun smt_bools :: "smt_val option list \<Rightarrow> bool list option" where
  "smt_bools [] = Some []"
| "smt_bools (Some (SBool b) # vs) = map_option ((#) b) (smt_bools vs)"
| "smt_bools _ = None"

fun smt_eval :: "(string \<rightharpoonup> smt_val) \<Rightarrow> smt_term \<Rightarrow> smt_val option" where
  "smt_eval \<sigma> (BvNum v w) = (if v < 2 ^ w \<and> 0 < w then Some (SBv w (int v)) else None)"
| "smt_eval \<sigma> (Const b) = Some (SBool b)"
| "smt_eval \<sigma> (Sym x) = \<sigma> x"
| "smt_eval \<sigma> (Op1 f a) = Option.bind (smt_eval \<sigma> a) (smt_op1 f)"
| "smt_eval \<sigma> (Op2 f a b) = Option.bind (smt_eval \<sigma> a) (\<lambda>x. Option.bind (smt_eval \<sigma> b) (smt_op2 f x))"
| "smt_eval \<sigma> (OpN f as) =
     Option.bind (smt_bools (map (smt_eval \<sigma>) as)) (\<lambda>bs.
       if f = ''and'' then Some (SBool (list_all id bs))
       else if f = ''or'' then Some (SBool (list_ex id bs))
       else None)"
| "smt_eval \<sigma> (Extend sg n a) =
     (case smt_eval \<sigma> a of
        Some (SBv w x) \<Rightarrow> Some (SBv (w + n) (if sg = Sign.Signed then take_bit (w + n) (to_signed w x) else x))
      | _ \<Rightarrow> None)"
| "smt_eval \<sigma> (Extract hi a) =
     (case smt_eval \<sigma> a of
        Some (SBv w x) \<Rightarrow> if hi < w then Some (SBv (hi + 1) (take_bit (hi + 1) x)) else None
      | _ \<Rightarrow> None)"

section \<open>Constraint expressions over the integers\<close>

datatype cval = CBool bool | CInt int

fun wrap :: "CType \<Rightarrow> int \<Rightarrow> int" where
  "wrap (BV w Sign.Unsigned) i = take_bit w i"
| "wrap (BV w Sign.Signed) i = signed_take_bit (w - 1) i"
| "wrap _ i = i"

fun in_type :: "('a, 'r) CTypedProblem \<Rightarrow> CType \<Rightarrow> cval \<Rightarrow> bool" where
  "in_type p CType.Bool (CBool b) \<longleftrightarrow> True"
| "in_type p (BV w s) (CInt i) \<longleftrightarrow> 0 < w \<and> wrap (BV w s) i = i"
| "in_type p (CType.Enum d) (CInt i) \<longleftrightarrow>
     (case enum_by_id (env p) d of None \<Rightarrow> False | Some e \<Rightarrow> 0 \<le> i \<and> i < int (length (variants e)))"
| "in_type p _ _ \<longleftrightarrow> False"

definition int_div :: "int \<Rightarrow> int \<Rightarrow> int" where
  "int_div a b = (if b = 0 then (if a < 0 then 1 else - 1) else a sdiv b)"

definition int_rem :: "int \<Rightarrow> int \<Rightarrow> int" where
  "int_rem a b = (if b = 0 then a else a smod b)"

fun ceval_int :: "CBinaryOp \<Rightarrow> CType \<Rightarrow> int \<Rightarrow> int \<Rightarrow> cval option" where
  "ceval_int CBinaryOp.Add t a b = Some (CInt (wrap t (a + b)))"
| "ceval_int CBinaryOp.Sub t a b = Some (CInt (wrap t (a - b)))"
| "ceval_int CBinaryOp.Mul t a b = Some (CInt (wrap t (a * b)))"
| "ceval_int CBinaryOp.Div t a b = Some (CInt (wrap t (int_div a b)))"
| "ceval_int CBinaryOp.Mod t a b = Some (CInt (wrap t (int_rem a b)))"
| "ceval_int CBinaryOp.Eq t a b = Some (CBool (a = b))"
| "ceval_int CBinaryOp.Ne t a b = Some (CBool (a \<noteq> b))"
| "ceval_int CBinaryOp.Lt t a b = Some (CBool (a < b))"
| "ceval_int CBinaryOp.Le t a b = Some (CBool (a \<le> b))"
| "ceval_int CBinaryOp.Gt t a b = Some (CBool (a > b))"
| "ceval_int CBinaryOp.Ge t a b = Some (CBool (a \<ge> b))"
| "ceval_int CBinaryOp.BitAnd t a b = Some (CInt (wrap t (a AND b)))"
| "ceval_int CBinaryOp.BitOr t a b = Some (CInt (wrap t (a OR b)))"
| "ceval_int CBinaryOp.BitXor t a b = Some (CInt (wrap t (a XOR b)))"
| "ceval_int CBinaryOp.Shl t a b = Some (CInt (wrap t (a * 2 ^ nat b)))"
| "ceval_int CBinaryOp.Shr t a b = Some (CInt (a div 2 ^ nat b))"
| "ceval_int _ t a b = None"

fun ceval_binary :: "CBinaryOp \<Rightarrow> CType \<Rightarrow> cval \<Rightarrow> cval \<Rightarrow> cval option" where
  "ceval_binary op t (CInt a) (CInt b) = ceval_int op t a b"
| "ceval_binary CBinaryOp.Eq t (CBool a) (CBool b) = Some (CBool (a = b))"
| "ceval_binary CBinaryOp.Ne t (CBool a) (CBool b) = Some (CBool (a \<noteq> b))"
| "ceval_binary CBinaryOp.LogicalAnd t (CBool a) (CBool b) = Some (CBool (a \<and> b))"
| "ceval_binary CBinaryOp.LogicalOr t (CBool a) (CBool b) = Some (CBool (a \<or> b))"
| "ceval_binary _ t _ _ = None"

fun ceval_unary :: "CUnaryOp \<Rightarrow> CType \<Rightarrow> cval \<Rightarrow> cval option" where
  "ceval_unary CUnaryOp.Neg t (CInt a) = Some (CInt (wrap t (- a)))"
| "ceval_unary CUnaryOp.BitNot t (CInt a) = Some (CInt (wrap t (NOT a)))"
| "ceval_unary CUnaryOp.LogicalNot t (CBool a) = Some (CBool (\<not> a))"
| "ceval_unary _ t _ = None"

text \<open>An absent bound of a range does not constrain.\<close>

fun ceval_range :: "cval \<Rightarrow> cval option option \<Rightarrow> cval option option \<Rightarrow> cval option" where
  "ceval_range (CInt x) lo hi =
     (case (lo, hi) of
        (None, None) \<Rightarrow> Some (CBool True)
      | (Some (Some (CInt l)), None) \<Rightarrow> Some (CBool (l \<le> x))
      | (None, Some (Some (CInt h))) \<Rightarrow> Some (CBool (x \<le> h))
      | (Some (Some (CInt l)), Some (Some (CInt h))) \<Rightarrow> Some (CBool (l \<le> x \<and> x \<le> h))
      | _ \<Rightarrow> None)"
| "ceval_range _ _ _ = None"

fun ceval :: "(FieldPath \<Rightarrow> cval) \<Rightarrow> CTypedExpr \<Rightarrow> cval option" where
  "ceval \<rho> (CTypedExpr (BvLit v) t s) = Some (CInt (wrap t (uint v)))"
| "ceval \<rho> (CTypedExpr (BoolLit b) t s) = Some (CBool b)"
| "ceval \<rho> (CTypedExpr (EnumLit d i) t s) = Some (CInt (int i))"
| "ceval \<rho> (CTypedExpr (FieldRef f) t s) = Some (\<rho> f)"
| "ceval \<rho> (CTypedExpr (Unary op e) t s) = Option.bind (ceval \<rho> e) (ceval_unary op t)"
| "ceval \<rho> (CTypedExpr (Binary op a b) t s) =
     Option.bind (ceval \<rho> a) (\<lambda>x. Option.bind (ceval \<rho> b) (ceval_binary op t x))"
| "ceval \<rho> (CTypedExpr (InSet e (CTypedExpr (CExprKind.Set items) t' s')) t s) =
     Option.bind (ceval \<rho> e) (\<lambda>x. Some (CBool (\<exists>i \<in> set items. ceval \<rho> i = Some x)))"
| "ceval \<rho> (CTypedExpr (InSet e (CTypedExpr (CExprKind.Range lo hi) t' s')) t s) =
     Option.bind (ceval \<rho> e) (\<lambda>x. ceval_range x (map_option (ceval \<rho>) lo) (map_option (ceval \<rho>) hi))"
| "ceval \<rho> (CTypedExpr (InRange e lo hi) t s) =
     Option.bind (ceval \<rho> e) (\<lambda>x. ceval_range x (map_option (ceval \<rho>) lo) (map_option (ceval \<rho>) hi))"
| "ceval \<rho> (CTypedExpr _ t s) = None"

text \<open>The bit-vector value that stands for a value of a type.\<close>

fun encode :: "('a, 'r) CTypedProblem \<Rightarrow> CType \<Rightarrow> cval \<Rightarrow> smt_val" where
  "encode p (BV w s) (CInt i) = SBv w (take_bit w i)"
| "encode p (CType.Enum d) (CInt i) =
     SBv (case enum_by_id (env p) d of None \<Rightarrow> 0 | Some e \<Rightarrow> enum_width (length (variants e))) i"
| "encode p _ (CBool b) = SBool b"
| "encode p _ (CInt i) = SBv 0 i"

text \<open>
  Range membership of Boolean items and \<^verbatim>\<open>len()\<close> pass the verifier although the text they lower to
  has no meaning in SMT-LIB; the correctness theorem excludes them.
\<close>

fun supported :: "CTypedExpr \<Rightarrow> bool" where
  "supported (CTypedExpr (Unary op e) t s) \<longleftrightarrow> supported e"
| "supported (CTypedExpr (Binary op a b) t s) \<longleftrightarrow> supported a \<and> supported b"
| "supported (CTypedExpr (InSet e (CTypedExpr (CExprKind.Set items) t' s')) t s) \<longleftrightarrow>
     supported e \<and> (\<forall>i \<in> set items. supported i)"
| "supported (CTypedExpr (InSet e (CTypedExpr (CExprKind.Range lo hi) t' s')) t s) \<longleftrightarrow>
     ty e \<noteq> CType.Bool \<and> supported e \<and> (\<forall>i \<in> set_option lo \<union> set_option hi. supported i)"
| "supported (CTypedExpr (InRange e lo hi) t s) \<longleftrightarrow>
     ty e \<noteq> CType.Bool \<and> supported e \<and> (\<forall>i \<in> set_option lo \<union> set_option hi. supported i)"
| "supported (CTypedExpr (FieldMethodCall e m args) t s) \<longleftrightarrow> False"
| "supported (CTypedExpr _ t s) \<longleftrightarrow> True"

section \<open>Two's-complement arithmetic\<close>

lemma take_bit_wrap: "0 < w \<Longrightarrow> take_bit w (wrap (BV w s) i) = take_bit w i"
  by (cases s) (simp_all add: take_bit_signed_take_bit)

lemma wrap_wrap [simp]: "wrap t (wrap t i) = wrap t i"
proof (cases t)
  case (BV w s)
  then show ?thesis by (cases s) simp_all
qed auto

text \<open>An in-range value of a signed type of width \<open>w\<close>.\<close>

definition in_signed :: "nat \<Rightarrow> int \<Rightarrow> bool" where
  "in_signed w a \<longleftrightarrow> 0 < w \<and> - (2 ^ (w - 1)) \<le> a \<and> a < 2 ^ (w - 1)"

lemma wrap_signed_iff: "0 < w \<Longrightarrow> wrap (BV w Sign.Signed) a = a \<longleftrightarrow> in_signed w a"
  by (simp add: in_signed_def signed_take_bit_int_eq_self_iff)

lemma wrap_unsigned_iff: "wrap (BV w Sign.Unsigned) a = a \<longleftrightarrow> 0 \<le> a \<and> a < 2 ^ w"
  by (simp add: take_bit_int_eq_self_iff)

lemma to_signed_take_bit: "in_signed w a \<Longrightarrow> to_signed w (take_bit w a) = a"
proof -
  assume a: "in_signed w a"
  then have "\<not> w \<le> w - 1" by (cases w) (simp_all add: in_signed_def)
  then have "to_signed w (take_bit w a) = signed_take_bit (w - 1) a"
    by (simp only: to_signed_def signed_take_bit_take_bit if_False)
  with a show ?thesis by (simp add: in_signed_def signed_take_bit_int_eq_self)
qed

lemma pow_half: "0 < w \<Longrightarrow> (2::int) ^ w = 2 * 2 ^ (w - 1)"
  by (cases w) simp_all

lemma sign_bit_iff: "in_signed w a \<Longrightarrow> bit (take_bit w a) (w - 1) \<longleftrightarrow> a < 0"
proof -
  assume a: "in_signed w a"
  then have "bit a (w - 1) \<longleftrightarrow> a < 0"
    by (metis in_signed_def signed_take_bit_int_eq_self signed_take_bit_negative_iff)
  with a show ?thesis by (simp add: bit_take_bit_iff in_signed_def)
qed

lemma take_bit_nonneg: "in_signed w a \<Longrightarrow> 0 \<le> a \<Longrightarrow> take_bit w a = a"
  using pow_half [of w] by (simp add: take_bit_int_eq_self_iff in_signed_def)

lemma bvneg_negative: "in_signed w a \<Longrightarrow> a < 0 \<Longrightarrow> bvneg w (take_bit w a) = - a"
proof -
  assume a: "in_signed w a" "a < 0"
  have "bvneg w (take_bit w a) = take_bit w (- a)"
    by (simp add: bvneg_def take_bit_minus)
  also have "\<dots> = - a" using a pow_half [of w] by (simp add: take_bit_int_eq_self_iff in_signed_def)
  finally show ?thesis .
qed

lemma bvneg_eq: "bvneg w a = take_bit w (- a)"
  by (simp add: bvneg_def)

lemma minus_one_mask: "take_bit w (- 1 :: int) = mask w"
  by (simp add: take_bit_minus_one_eq_mask)

lemma div_in_range:
  fixes a b :: int
  assumes "0 \<le> a" "a < 2 ^ w" "0 < b"
  shows "take_bit w (a div b) = a div b"
proof -
  have "a div b \<le> a div 1" using assms by (intro zdiv_mono2) auto
  then show ?thesis using assms by (intro take_bit_int_eq_self) (simp_all add: pos_imp_zdiv_nonneg_iff)
qed

lemma mod_in_range: "0 \<le> a \<Longrightarrow> a < 2 ^ w \<Longrightarrow> 0 < b \<Longrightarrow> take_bit w (a mod b) = a mod (b::int)"
  by (simp add: take_bit_int_eq_self_iff) (meson le_less_trans zmod_le_nonneg_dividend)

lemma bvudiv_val:
  "0 \<le> a \<Longrightarrow> a < 2 ^ w \<Longrightarrow> 0 \<le> b \<Longrightarrow> bvudiv w a b = take_bit w (int_div a b)"
  by (cases "b = 0") (simp_all add: bvudiv_def int_div_def minus_one_mask div_in_range sdiv_nonneg)

lemma bvurem_val:
  "0 \<le> a \<Longrightarrow> a < 2 ^ w \<Longrightarrow> 0 \<le> b \<Longrightarrow> bvurem w a b = take_bit w (int_rem a b)"
  by (cases "b = 0") (simp_all add: bvurem_def int_rem_def take_bit_int_eq_self mod_in_range smod_nonneg)

lemma bvsdiv_val:
  assumes a: "in_signed w a" and b: "in_signed w b"
  shows "bvsdiv w (take_bit w a) (take_bit w b) = take_bit w (int_div a b)"
proof -
  have small: "a < 2 ^ w" "b < 2 ^ w" "- a < 2 ^ w" "- b < 2 ^ w"
    using a b pow_half [of w] by (auto simp: in_signed_def)
  have unf: "bvsdiv w (take_bit w a) (take_bit w b) =
     (case (a < 0, b < 0) of
        (False, False) \<Rightarrow> bvudiv w (take_bit w a) (take_bit w b)
      | (True, False) \<Rightarrow> bvneg w (bvudiv w (bvneg w (take_bit w a)) (take_bit w b))
      | (False, True) \<Rightarrow> bvneg w (bvudiv w (take_bit w a) (bvneg w (take_bit w b)))
      | (True, True) \<Rightarrow> bvudiv w (bvneg w (take_bit w a)) (bvneg w (take_bit w b)))"
    by (simp only: bvsdiv_def sign_bit_iff [OF a] sign_bit_iff [OF b])
  have n: "bvneg w (take_bit w x) = take_bit w (- x)" for x by (simp add: bvneg_def take_bit_minus)
  consider "0 \<le> a" "0 \<le> b" | "a < 0" "0 \<le> b" | "0 \<le> a" "b < 0" | "a < 0" "b < 0" by linarith
  then show ?thesis
  proof cases
    case 1
    then show ?thesis
      using a b small by (subst unf) (simp add: take_bit_nonneg bvudiv_val)
  next
    case 2
    then have "bvsdiv w (take_bit w a) (take_bit w b) = bvneg w (take_bit w (int_div (- a) b))"
      using a b small by (subst unf) (simp add: bvneg_negative take_bit_nonneg bvudiv_val)
    also have "\<dots> = take_bit w (int_div a b)"
      using 2 by (simp add: n) (simp add: int_div_def)
    finally show ?thesis .
  next
    case 3
    then have "bvsdiv w (take_bit w a) (take_bit w b) = bvneg w (take_bit w (int_div a (- b)))"
      using a b small by (subst unf) (simp add: bvneg_negative take_bit_nonneg bvudiv_val)
    also have "\<dots> = take_bit w (int_div a b)"
      using 3 by (simp add: n) (simp add: int_div_def)
    finally show ?thesis .
  next
    case 4
    then show ?thesis
      using a b small by (subst unf) (simp add: bvneg_negative bvudiv_val int_div_def)
  qed
qed

lemma bvsrem_val:
  assumes a: "in_signed w a" and b: "in_signed w b"
  shows "bvsrem w (take_bit w a) (take_bit w b) = take_bit w (int_rem a b)"
proof -
  have small: "a < 2 ^ w" "b < 2 ^ w" "- a < 2 ^ w" "- b < 2 ^ w"
    using a b pow_half [of w] by (auto simp: in_signed_def)
  have unf: "bvsrem w (take_bit w a) (take_bit w b) =
     (case (a < 0, b < 0) of
        (False, False) \<Rightarrow> bvurem w (take_bit w a) (take_bit w b)
      | (True, False) \<Rightarrow> bvneg w (bvurem w (bvneg w (take_bit w a)) (take_bit w b))
      | (False, True) \<Rightarrow> bvurem w (take_bit w a) (bvneg w (take_bit w b))
      | (True, True) \<Rightarrow> bvneg w (bvurem w (bvneg w (take_bit w a)) (bvneg w (take_bit w b))))"
    by (simp only: bvsrem_def sign_bit_iff [OF a] sign_bit_iff [OF b])
  have n: "bvneg w (take_bit w x) = take_bit w (- x)" for x by (simp add: bvneg_def take_bit_minus)
  consider "0 \<le> a" "0 \<le> b" | "a < 0" "0 \<le> b" | "0 \<le> a" "b < 0" | "a < 0" "b < 0" by linarith
  then show ?thesis
  proof cases
    case 1
    then show ?thesis
      using a b small by (subst unf) (simp add: take_bit_nonneg bvurem_val)
  next
    case 2
    then have "bvsrem w (take_bit w a) (take_bit w b) = bvneg w (take_bit w (int_rem (- a) b))"
      using a b small by (subst unf) (simp add: bvneg_negative take_bit_nonneg bvurem_val)
    also have "\<dots> = take_bit w (int_rem a b)"
      by (simp add: n) (simp add: int_rem_def)
    finally show ?thesis .
  next
    case 3
    then show ?thesis
      using a b small by (subst unf) (simp add: bvneg_negative take_bit_nonneg bvurem_val int_rem_def)
  next
    case 4
    then have "bvsrem w (take_bit w a) (take_bit w b) = bvneg w (take_bit w (int_rem (- a) (- b)))"
      using a b small by (subst unf) (simp add: bvneg_negative bvurem_val)
    also have "\<dots> = take_bit w (int_rem a b)"
      by (simp add: n) (simp add: int_rem_def)
    finally show ?thesis .
  qed
qed

lemma bvashr_val:
  assumes a: "in_signed w a"
  shows "bvashr w (take_bit w a) k = take_bit w (a div 2 ^ nat k)"
proof (cases "a < 0")
  case True
  have "bvnot w (take_bit w a) = take_bit w (NOT a)" by (simp add: bvnot_def take_bit_not_take_bit)
  also have "\<dots> = - 1 - a"
    using a True pow_half [of w] by (subst take_bit_int_eq_self) (auto simp: in_signed_def not_int_def)
  finally have "bvashr w (take_bit w a) k = take_bit w (NOT ((- 1 - a) div 2 ^ nat k))"
    using True by (simp only: bvashr_def sign_bit_iff [OF a] bvnot_def if_True)
  also have "NOT ((- 1 - a) div 2 ^ nat k) = a div 2 ^ nat k"
    by (simp add: div_complement not_int_def)
  finally show ?thesis .
next
  case False
  then have "take_bit w (a div 2 ^ nat k) = a div 2 ^ nat k"
    using a pow_half [of w] by (intro div_in_range) (auto simp: in_signed_def)
  moreover have "bvashr w (take_bit w a) k = take_bit w a div 2 ^ nat k"
    using False by (simp only: bvashr_def sign_bit_iff [OF a] if_False)
  ultimately show ?thesis using False a by (simp add: take_bit_nonneg)
qed

section \<open>Operators\<close>

lemma in_type_BV: "in_type p (BV w s) v \<longleftrightarrow> (\<exists>a. v = CInt a \<and> 0 < w \<and> wrap (BV w s) a = a)"
  by (cases v) auto

lemma in_type_Bool: "in_type p CType.Bool v \<longleftrightarrow> (\<exists>b. v = CBool b)"
  by (cases v) auto

lemma in_type_Enum:
  "in_type p (CType.Enum d) v \<longleftrightarrow> (\<exists>e a. enum_by_id (env p) d = Some e \<and> v = CInt a \<and> 0 \<le> a \<and> a < int (length (variants e)))"
  by (cases v) (auto split: option.splits)

lemma in_type_scalar: "in_type p t v \<Longrightarrow> t = CType.Bool \<or> (\<exists>d. t = CType.Enum d) \<or> is_bv t"
  by (cases t) auto

lemma in_range_cases [consumes 2, case_names Unsigned Signed]:
  assumes "0 < w" "wrap (BV w s) a = a"
  obtains "s = Sign.Unsigned" "0 \<le> a" "a < 2 ^ w" "take_bit w a = a" | "s = Sign.Signed" "in_signed w a"
  using assms by (cases s) (auto simp: in_signed_def signed_take_bit_int_eq_self_iff take_bit_int_eq_self_iff)

lemma encode_eq_iff:
  assumes "in_type p t x" "in_type p t y"
  shows "encode p t x = encode p t y \<longleftrightarrow> x = y"
proof -
  have "take_bit w a = take_bit w b \<longleftrightarrow> a = b" if "0 < w" "wrap (BV w s) a = a" "wrap (BV w s) b = b" for w s a b
    using that(1,2)
  proof (cases rule: in_range_cases)
    case Unsigned
    then show ?thesis using that(3) by simp
  next
    case Signed
    then show ?thesis using that by (metis to_signed_take_bit wrap_signed_iff)
  qed
  then show ?thesis
    using assms in_type_scalar [OF assms(1)]
    by (auto simp: in_type_BV in_type_Bool in_type_Enum is_bv_iff)
qed

lemma encode_smt_eq:
  assumes "in_type p t x" "in_type p t y"
  shows "smt_op2 ''='' (encode p t x) (encode p t y) = Some (SBool (x = y))"
    and "smt_op2 ''distinct'' (encode p t x) (encode p t y) = Some (SBool (x \<noteq> y))"
  using encode_eq_iff [OF assms] assms in_type_scalar [OF assms(1)]
  by (auto simp: in_type_BV in_type_Bool in_type_Enum is_bv_iff)

lemma arith_correct:
  assumes "op \<in> {CBinaryOp.Add, CBinaryOp.Sub, CBinaryOp.Mul, CBinaryOp.Div, CBinaryOp.Mod,
      CBinaryOp.BitAnd, CBinaryOp.BitOr, CBinaryOp.BitXor}"
    and w: "0 < w" and a: "wrap (BV w s) a = a" and b: "wrap (BV w s) b = b"
  shows "\<exists>i. ceval_int op (BV w s) a b = Some (CInt (wrap (BV w s) i)) \<and>
    bv_binop (binary_op_smt op (BV w s)) w (take_bit w a) (take_bit w b) = Some (SBv w (take_bit w i))"
proof -
  have dm: "bv_binop (binary_op_smt CBinaryOp.Div (BV w s)) w (take_bit w a) (take_bit w b) =
      Some (SBv w (take_bit w (int_div a b))) \<and>
    bv_binop (binary_op_smt CBinaryOp.Mod (BV w s)) w (take_bit w a) (take_bit w b) =
      Some (SBv w (take_bit w (int_rem a b)))"
    using w a
  proof (cases rule: in_range_cases)
    case Unsigned
    then have "0 \<le> b" "take_bit w b = b" using b by (simp_all add: take_bit_int_eq_self_iff)
    with Unsigned show ?thesis by (simp add: bv_binop_def binary_op_smt_def bvudiv_val bvurem_val)
  next
    case Signed
    then have "in_signed w b" using w b by (simp only: wrap_signed_iff)
    with Signed show ?thesis by (simp add: bv_binop_def binary_op_smt_def bvsdiv_val bvsrem_val)
  qed
  show ?thesis
    using assms(1)
  proof (elim insertE emptyE)
    assume "op = CBinaryOp.Div"
    then show ?thesis using dm by (intro exI [of _ "int_div a b"]) simp
  next
    assume "op = CBinaryOp.Mod"
    then show ?thesis using dm by (intro exI [of _ "int_rem a b"]) simp
  next
    assume "op = CBinaryOp.Add"
    then show ?thesis by (intro exI [of _ "a + b"]) (simp add: bv_binop_def binary_op_smt_def take_bit_add)
  next
    assume "op = CBinaryOp.Sub"
    then show ?thesis by (intro exI [of _ "a - b"]) (simp add: bv_binop_def binary_op_smt_def take_bit_diff)
  next
    assume "op = CBinaryOp.Mul"
    then show ?thesis by (intro exI [of _ "a * b"]) (simp add: bv_binop_def binary_op_smt_def take_bit_mult)
  next
    assume "op = CBinaryOp.BitAnd"
    then show ?thesis by (intro exI [of _ "a AND b"]) (simp add: bv_binop_def binary_op_smt_def take_bit_and)
  next
    assume "op = CBinaryOp.BitOr"
    then show ?thesis by (intro exI [of _ "a OR b"]) (simp add: bv_binop_def binary_op_smt_def take_bit_or)
  next
    assume "op = CBinaryOp.BitXor"
    then show ?thesis by (intro exI [of _ "a XOR b"]) (simp add: bv_binop_def binary_op_smt_def take_bit_xor)
  qed
qed

lemma comparison_correct:
  assumes "op \<in> {CBinaryOp.Lt, CBinaryOp.Le, CBinaryOp.Gt, CBinaryOp.Ge}"
    and w: "0 < w" and a: "wrap (BV w s) a = a" and b: "wrap (BV w s) b = b"
  shows "\<exists>c. ceval_int op t a b = Some (CBool c) \<and>
    bv_binop (binary_op_smt op (BV w s)) w (take_bit w a) (take_bit w b) = Some (SBool c)"
  using w a
proof (cases rule: in_range_cases)
  case Unsigned
  then have "take_bit w b = b" using b by simp
  then show ?thesis
    using assms(1) Unsigned(1,4) by (elim insertE emptyE) (simp_all add: bv_binop_def binary_op_smt_def)
next
  case Signed
  then have "in_signed w b" using w b by (simp only: wrap_signed_iff)
  then show ?thesis
    using assms(1) Signed by (elim insertE emptyE) (simp_all add: bv_binop_def binary_op_smt_def to_signed_take_bit)
qed

lemma binary_correct:
  assumes t: "binary_type op ta tb t" and "op \<notin> {CBinaryOp.Shl, CBinaryOp.Shr}"
    and x: "in_type p ta x" and y: "in_type p tb y"
  shows "\<exists>v. ceval_binary op t x y = Some v \<and> in_type p t v \<and>
    smt_op2 (binary_op_smt op ta) (encode p ta x) (encode p tb y) = Some (encode p t v)"
proof -
  consider (arith) "op \<in> {CBinaryOp.Add, CBinaryOp.Sub, CBinaryOp.Mul, CBinaryOp.Div, CBinaryOp.Mod,
      CBinaryOp.BitAnd, CBinaryOp.BitOr, CBinaryOp.BitXor}"
    | (eq) "op \<in> {CBinaryOp.Eq, CBinaryOp.Ne}"
    | (cmp) "op \<in> {CBinaryOp.Lt, CBinaryOp.Le, CBinaryOp.Gt, CBinaryOp.Ge}"
    | (logical) "op \<in> {CBinaryOp.LogicalAnd, CBinaryOp.LogicalOr}"
    using assms(2) by (cases op) auto
  then show ?thesis
  proof cases
    case arith
    then obtain w s where ts: "ta = BV w s" "tb = BV w s" "t = BV w s" using t by (auto simp: binary_type_def)
    then obtain a b where v: "x = CInt a" "y = CInt b" "0 < w" "wrap (BV w s) a = a" "wrap (BV w s) b = b"
      using x y by (auto simp: in_type_BV)
    have "binary_op_smt op (BV w s) \<notin> {''='', ''distinct''}"
      using arith by (cases s) (auto simp: binary_op_smt_def)
    then show ?thesis
      using arith_correct [OF arith v(3-5)] ts v(1-3) by (auto simp: take_bit_wrap)
  next
    case eq
    then have ts: "t = CType.Bool" "tb = ta" using t by (auto simp: binary_type_def)
    have "ceval_binary op CType.Bool x y = Some (CBool ((x = y) = (op = CBinaryOp.Eq)))"
      using eq x y in_type_scalar [OF x] by (auto simp: ts in_type_BV in_type_Bool in_type_Enum is_bv_iff)
    then show ?thesis
      using eq encode_smt_eq [OF x, of y] y by (auto simp: ts binary_op_smt_def)
  next
    case cmp
    then obtain w s where ts: "ta = BV w s" "tb = BV w s" "t = CType.Bool" using t by (auto simp: binary_type_def)
    then obtain a b where v: "x = CInt a" "y = CInt b" "0 < w" "wrap (BV w s) a = a" "wrap (BV w s) b = b"
      using x y by (auto simp: in_type_BV)
    have "binary_op_smt op (BV w s) \<notin> {''='', ''distinct''}"
      using cmp by (cases s) (auto simp: binary_op_smt_def)
    then show ?thesis
      using comparison_correct [OF cmp v(3-5), of CType.Bool] ts v(1-2) by auto
  next
    case logical
    then have "ta = CType.Bool" "tb = CType.Bool" "t = CType.Bool" using t by (auto simp: binary_type_def)
    then show ?thesis using logical x y by (auto simp: in_type_Bool binary_op_smt_def)
  qed
qed

lemma unary_correct:
  assumes t: "if op = CUnaryOp.LogicalNot then te = CType.Bool \<and> t = CType.Bool else is_bv te \<and> t = te"
    and x: "in_type p te x"
  shows "\<exists>v. ceval_unary op t x = Some v \<and> in_type p t v \<and> smt_op1 (unary_op_smt op) (encode p te x) = Some (encode p t v)"
proof (cases "op = CUnaryOp.LogicalNot")
  case True
  then show ?thesis using t x by (auto simp: in_type_Bool)
next
  case False
  then obtain w s where ts: "te = BV w s" "t = BV w s" using t by (auto simp: is_bv_iff)
  then obtain a where "x = CInt a" "0 < w" using x by (auto simp: in_type_BV)
  with False show ?thesis
    by (cases op) (auto simp: ts take_bit_wrap bvneg_def bvnot_def take_bit_minus take_bit_not_take_bit)
qed

section \<open>Shifts\<close>

lemma shr_in_range:
  assumes "0 < w" "wrap (BV w s) a = a"
  shows "wrap (BV w s) (a div 2 ^ k) = a div 2 ^ k"
  using assms
proof (cases rule: in_range_cases)
  case Unsigned
  then show ?thesis by (simp add: div_in_range)
next
  case Signed
  have "- (2 ^ (w - 1)) \<le> a div 2 ^ k"
  proof -
    have "- (2 ^ (w - 1)) * 2 ^ k \<le> (- (2 ^ (w - 1)) :: int) * 1" by (intro mult_left_mono_neg) simp_all
    then have "- (2 ^ (w - 1)) * 2 ^ k \<le> a" using Signed(2) unfolding in_signed_def by linarith
    then have "- (2 ^ (w - 1)) * 2 ^ k div 2 ^ k \<le> a div 2 ^ k" by (intro zdiv_mono1) simp_all
    moreover have "- (2 ^ (w - 1)) * 2 ^ k div 2 ^ k = (- (2 ^ (w - 1)) :: int)"
      by (rule nonzero_mult_div_cancel_right) simp
    ultimately show ?thesis by simp
  qed
  moreover have "a div 2 ^ k < 2 ^ (w - 1)"
  proof (cases "0 \<le> a")
    case True
    then have "a div 2 ^ k \<le> a div 1" by (intro zdiv_mono2) simp_all
    then show ?thesis using Signed by (simp add: in_signed_def)
  next
    case False
    then have "a div 2 ^ k < 0" by (simp add: div_neg_pos_less0)
    then show ?thesis by (simp add: less_le_trans)
  qed
  ultimately show ?thesis using Signed assms(1) by (simp only: wrap_signed_iff in_signed_def)
qed

definition extend_term :: "smt_term \<Rightarrow> nat \<Rightarrow> nat \<Rightarrow> Sign \<Rightarrow> smt_term" where
  "extend_term t from to sg = (if from = to then t else Extend sg (to - from) t)"

lemma show_extend_term: "show_smt (extend_term t from to sg) = extend_bv (show_smt t) from to (Some sg)"
  by (cases sg) (simp_all add: extend_term_def extend_bv_def)

lemma eval_extend_term:
  assumes "smt_eval \<sigma> t = Some (SBv w (take_bit w a))" "0 < w" "wrap (BV w s) a = a" "w \<le> W"
  shows "smt_eval \<sigma> (extend_term t w W s) = Some (SBv W (take_bit W a))"
proof (cases "w = W")
  case True
  then show ?thesis using assms(1) by (simp add: extend_term_def)
next
  case False
  from assms(2,3) show ?thesis
  proof (cases rule: in_range_cases)
    case Unsigned
    have "a < 2 ^ W"
      using Unsigned(3) assms(4) by (meson less_le_trans numeral_le_iff one_le_numeral power_increasing semiring_norm)
    then show ?thesis using False Unsigned assms(1,4) by (simp add: extend_term_def take_bit_int_eq_self)
  next
    case Signed
    then show ?thesis using False assms(1,4) by (simp add: extend_term_def to_signed_take_bit)
  qed
qed

lemma in_signed_mono: "in_signed w a \<Longrightarrow> w \<le> W \<Longrightarrow> in_signed W a"
proof -
  assume a: "in_signed w a" "w \<le> W"
  then have "(2::int) ^ (w - 1) \<le> 2 ^ (W - 1)" by (intro power_increasing) simp_all
  with a show ?thesis unfolding in_signed_def by linarith
qed

lemma shift_op_correct:
  assumes op: "op \<in> {CBinaryOp.Shl, CBinaryOp.Shr}" and w: "0 < w" and a: "wrap (BV w s) a = a" and W: "w \<le> W"
  shows "\<exists>i. ceval_int op (BV w s) a b = Some (CInt (wrap (BV w s) i)) \<and>
    bv_binop (binary_op_smt op (BV w s)) W (take_bit W a) b = Some (SBv W (take_bit W i))"
proof (cases "op = CBinaryOp.Shl")
  case True
  then show ?thesis
    by (intro exI [of _ "a * 2 ^ nat b"]) (simp add: bv_binop_def binary_op_smt_def take_bit_eq_mod mod_mult_left_eq)
next
  case False
  then have op: "op = CBinaryOp.Shr" using op by simp
  have "bv_binop (binary_op_smt op (BV w s)) W (take_bit W a) b = Some (SBv W (take_bit W (a div 2 ^ nat b)))"
    using w a
  proof (cases rule: in_range_cases)
    case Unsigned
    have "a < 2 ^ W" using Unsigned(3) W by (meson less_le_trans one_le_numeral power_increasing)
    then show ?thesis
      using Unsigned by (simp add: op bv_binop_def binary_op_smt_def take_bit_int_eq_self div_in_range)
  next
    case Signed
    then show ?thesis
      using in_signed_mono [OF Signed(2) W] by (simp add: op bv_binop_def binary_op_smt_def bvashr_val)
  qed
  moreover have "ceval_int op (BV w s) a b = Some (CInt (wrap (BV w s) (a div 2 ^ nat b)))"
    by (simp only: op ceval_int.simps shr_in_range [OF w a])
  ultimately show ?thesis by blast
qed

lemma shift_correct:
  assumes op: "op \<in> {CBinaryOp.Shl, CBinaryOp.Shr}" and w: "0 < w" "wrap (BV w s) a = a"
    and n: "0 < n" "wrap (BV n Sign.Unsigned) b = b"
    and ta: "smt_eval \<sigma> ta = Some (SBv w (take_bit w a))" and tb: "smt_eval \<sigma> tb = Some (SBv n (take_bit n b))"
  shows "\<exists>t i. lower_shift_expr op (BV w s) (BV n Sign.Unsigned) (Inr (show_smt ta)) (Inr (show_smt tb)) = Inr (show_smt t) \<and>
    ceval_int op (BV w s) a b = Some (CInt (wrap (BV w s) i)) \<and> smt_eval \<sigma> t = Some (SBv w (take_bit w i))"
proof -
  define W where "W = max w n"
  define sh where "sh = Op2 (binary_op_smt op (BV w s)) (extend_term ta w W s) (extend_term tb n W Sign.Unsigned)"
  obtain i where i: "ceval_int op (BV w s) a b = Some (CInt (wrap (BV w s) i))"
    "bv_binop (binary_op_smt op (BV w s)) W (take_bit W a) b = Some (SBv W (take_bit W i))"
    using shift_op_correct [OF op w, of W b] by (auto simp: W_def)
  have "take_bit W b = b"
  proof -
    have "0 \<le> b" "b < 2 ^ n" using n(2) by (simp_all add: take_bit_int_eq_self_iff)
    moreover have "(2::int) ^ n \<le> 2 ^ W" by (intro power_increasing) (simp_all add: W_def)
    ultimately have "0 \<le> b" "b < 2 ^ W" by linarith+
    then show ?thesis by (rule take_bit_int_eq_self)
  qed
  moreover have "binary_op_smt op (BV w s) \<notin> {''='', ''distinct''}"
    using op by (cases s) (auto simp: binary_op_smt_def)
  ultimately have ev: "smt_eval \<sigma> sh = Some (SBv W (take_bit W i))"
    using eval_extend_term [OF ta w, of W] eval_extend_term [OF tb n, of W] i(2) by (simp add: sh_def W_def)
  show ?thesis
  proof (cases "W = w")
    case True
    then have "lower_shift_expr op (BV w s) (BV n Sign.Unsigned) (Inr (show_smt ta)) (Inr (show_smt tb)) = Inr (show_smt sh)"
      by (simp add: lower_shift_expr_def sh_def show_extend_term W_def [symmetric] Let_def)
    then show ?thesis using ev i(1) True by blast
  next
    case False
    then have "lower_shift_expr op (BV w s) (BV n Sign.Unsigned) (Inr (show_smt ta)) (Inr (show_smt tb)) =
      Inr (show_smt (Extract (w - 1) sh))"
      by (simp add: lower_shift_expr_def sh_def show_extend_term W_def [symmetric] Let_def)
    moreover have "w \<le> W" by (simp add: W_def)
    then have "smt_eval \<sigma> (Extract (w - 1) sh) = Some (SBv w (take_bit w i))"
      using ev w(1) by (simp add: min_def)
    ultimately show ?thesis using i(1) by blast
  qed
qed

section \<open>Membership\<close>

definition join_term :: "string \<Rightarrow> smt_term list \<Rightarrow> smt_term" where
  "join_term f ts = (case ts of [] \<Rightarrow> Const True | [t] \<Rightarrow> t | _ \<Rightarrow> OpN f ts)"

lemma show_join_term: "show_smt (join_term f ts) = join_bool f (map show_smt ts)"
  by (auto simp: join_term_def join_bool_def show_bool_def split: list.split)

definition holds :: "(string \<rightharpoonup> smt_val) \<Rightarrow> smt_term \<Rightarrow> bool" where
  "holds \<sigma> t \<longleftrightarrow> smt_eval \<sigma> t = Some (SBool True)"

definition is_bool_term :: "(string \<rightharpoonup> smt_val) \<Rightarrow> smt_term \<Rightarrow> bool" where
  "is_bool_term \<sigma> t \<longleftrightarrow> smt_eval \<sigma> t = Some (SBool (holds \<sigma> t))"

lemma bool_termI: "smt_eval \<sigma> t = Some (SBool c) \<Longrightarrow> is_bool_term \<sigma> t \<and> holds \<sigma> t = c"
  by (simp add: is_bool_term_def holds_def)

lemma smt_bools_map:
  "list_all (is_bool_term \<sigma>) ts \<Longrightarrow> smt_bools (map (smt_eval \<sigma>) ts) = Some (map (holds \<sigma>) ts)"
  by (induction ts) (auto simp: is_bool_term_def)

lemma eval_join_and:
  assumes "list_all (is_bool_term \<sigma>) ts"
  shows "smt_eval \<sigma> (join_term ''and'' ts) = Some (SBool (\<forall>t \<in> set ts. holds \<sigma> t))"
  using smt_bools_map [OF assms] assms
  by (auto simp: join_term_def list_all_iff is_bool_term_def split: list.split)

lemma eval_join_or:
  assumes "list_all (is_bool_term \<sigma>) ts" "ts \<noteq> []"
  shows "smt_eval \<sigma> (join_term ''or'' ts) = Some (SBool (\<exists>t \<in> set ts. holds \<sigma> t))"
  using smt_bools_map [OF assms(1)] assms
  by (auto simp: join_term_def list_ex_iff is_bool_term_def split: list.split)

definition le_op :: "CType \<Rightarrow> string" where
  "le_op t = (if bv_sign t = Some Sign.Signed then ''bvsle'' else ''bvule'')"

lemma le_op_correct:
  assumes "in_type p t (CInt i)" "in_type p t (CInt j)"
  shows "smt_op2 (le_op t) (encode p t (CInt i)) (encode p t (CInt j)) = Some (SBool (i \<le> j))"
proof -
  consider (enum) d where "t = CType.Enum d" | (bv) w s where "t = BV w s"
    using in_type_scalar [OF assms(1)] assms(1) by (auto simp: is_bv_iff)
  then show ?thesis
  proof cases
    case enum
    then show ?thesis by (simp add: le_op_def bv_binop_def)
  next
    case bv
    then have w: "0 < w" "wrap (BV w s) i = i" "wrap (BV w s) j = j" using assms by auto
    obtain c where c: "ceval_int CBinaryOp.Le t i j = Some (CBool c)"
      "bv_binop (binary_op_smt CBinaryOp.Le (BV w s)) w (take_bit w i) (take_bit w j) = Some (SBool c)"
      using comparison_correct [OF _ w, of CBinaryOp.Le t] by auto
    moreover have "binary_op_smt CBinaryOp.Le (BV w s) = le_op t" "le_op t \<notin> {''='', ''distinct''}"
      by (simp_all add: bv binary_op_smt_def le_op_def)
    ultimately show ?thesis by (simp add: bv)
  qed
qed

lemma in_type_not_Bool: "in_type p t v \<Longrightarrow> t \<noteq> CType.Bool \<Longrightarrow> \<exists>i. v = CInt i"
  by (cases v) (auto dest: in_type_scalar elim: in_type.elims)

section \<open>Lowered expressions\<close>

definition fields_agree ::
  "('a, 'r) CTypedProblem \<Rightarrow> (FieldPath \<Rightarrow> cval) \<Rightarrow> (string \<rightharpoonup> smt_val) \<Rightarrow> bool"
where
  "fields_agree p \<rho> \<sigma> \<longleftrightarrow> (\<forall>f info. lookup (env p) f = Some info \<longrightarrow>
     in_type p (fi_ty info) (\<rho> f) \<and> \<sigma> (z3_field_name f) = Some (encode p (fi_ty info) (\<rho> f)))"

definition renders ::
  "('a, 'r) CTypedProblem \<Rightarrow> (FieldPath \<Rightarrow> cval) \<Rightarrow> (string \<rightharpoonup> smt_val) \<Rightarrow> CTypedExpr \<Rightarrow> string \<Rightarrow> bool"
where
  "renders p \<rho> \<sigma> e s \<longleftrightarrow> (\<exists>t v. s = show_smt t \<and> ceval \<rho> e = Some v \<and> in_type p (ty e) v \<and>
     smt_eval \<sigma> t = Some (encode p (ty e) v))"

lemma bound_parts:
  assumes "push_bound F (map_option L z) = Inr ps"
    and "\<And>b r. b \<in> set_option z \<Longrightarrow> L b = Inr r \<Longrightarrow> \<exists>t. F r = show_smt t \<and> smt_eval \<sigma> t = Some (SBool (Q b))"
  shows "\<exists>ts. ps = map show_smt ts \<and> list_all (is_bool_term \<sigma>) ts \<and>
    ((\<forall>t \<in> set ts. holds \<sigma> t) \<longleftrightarrow> (\<forall>b \<in> set_option z. Q b))"
proof (cases z)
  case (Some b)
  then obtain r where r: "L b = Inr r" "ps = [F r]" using assms(1) by (auto simp: push_bound_def result_simps)
  then obtain t where "F r = show_smt t" "smt_eval \<sigma> t = Some (SBool (Q b))" using assms(2) Some by auto
  then show ?thesis using Some r bool_termI [of \<sigma> t] by (intro exI [of _ "[t]"]) auto
qed (use assms(1) in \<open>auto simp: push_bound_def intro: exI [of _ "[]"]\<close>)

definition cint :: "cval option \<Rightarrow> int" where
  "cint v = (case v of Some (CInt i) \<Rightarrow> i | _ \<Rightarrow> 0)"

lemma ceval_range_ints:
  assumes "\<And>b. b \<in> set_option lo \<union> set_option hi \<Longrightarrow> \<exists>j. ceval \<rho> b = Some (CInt j)"
  shows "ceval_range (CInt i) (map_option (ceval \<rho>) lo) (map_option (ceval \<rho>) hi) =
    Some (CBool ((\<forall>b \<in> set_option lo. cint (ceval \<rho> b) \<le> i) \<and> (\<forall>b \<in> set_option hi. i \<le> cint (ceval \<rho> b))))"
  using assms by (cases lo; cases hi) (fastforce simp: cint_def)+

lemma range_renders:
  assumes x: "renders p \<rho> \<sigma> e es" and nb: "ty e \<noteq> CType.Bool"
    and bounds: "\<And>b r. b \<in> set_option lo \<union> set_option hi \<Longrightarrow> lower_expr p b = Inr r \<Longrightarrow> renders p \<rho> \<sigma> b r"
      "\<And>b. b \<in> set_option lo \<union> set_option hi \<Longrightarrow> ty b = ty e"
    and l: "lower_range_membership (ty e) es (map_option (lower_expr p) lo) (map_option (lower_expr p) hi) = Inr s"
  shows "\<exists>t x c. s = show_smt t \<and> ceval \<rho> e = Some x \<and>
    ceval_range x (map_option (ceval \<rho>) lo) (map_option (ceval \<rho>) hi) = Some (CBool c) \<and> smt_eval \<sigma> t = Some (SBool c)"
proof -
  obtain te i where te: "es = show_smt te" "ceval \<rho> e = Some (CInt i)" "in_type p (ty e) (CInt i)"
    "smt_eval \<sigma> te = Some (encode p (ty e) (CInt i))"
    using x nb in_type_not_Bool unfolding renders_def by blast
  have bound: "\<exists>tb j. r = show_smt tb \<and> ceval \<rho> b = Some (CInt j) \<and> in_type p (ty e) (CInt j) \<and>
      smt_eval \<sigma> tb = Some (encode p (ty e) (CInt j))"
    if "b \<in> set_option lo \<union> set_option hi" "lower_expr p b = Inr r" for b r
    using bounds(1) [OF that] bounds(2) [OF that(1)] nb in_type_not_Bool unfolding renders_def by metis
  obtain los his where parts:
    "push_bound (\<lambda>b. ''('' @ le_op (ty e) @ '' '' @ b @ '' '' @ es @ '')'') (map_option (lower_expr p) lo) = Inr los"
    "push_bound (\<lambda>b. ''('' @ le_op (ty e) @ '' '' @ es @ '' '' @ b @ '')'') (map_option (lower_expr p) hi) = Inr his"
    "s = join_bool ''and'' (los @ his)"
    using l by (auto simp: lower_range_membership_def Let_def try_eq_Inr_iff le_op_def [symmetric])
  have low: "\<exists>t. ''('' @ le_op (ty e) @ '' '' @ r @ '' '' @ es @ '')'' = show_smt t \<and>
      smt_eval \<sigma> t = Some (SBool (cint (ceval \<rho> b) \<le> i))"
    if "b \<in> set_option lo" "lower_expr p b = Inr r" for b r
  proof -
    from bound [of b r] that obtain tb j where "r = show_smt tb" "ceval \<rho> b = Some (CInt j)"
      "in_type p (ty e) (CInt j)" "smt_eval \<sigma> tb = Some (encode p (ty e) (CInt j))" by blast
    then show ?thesis
      using te le_op_correct [of p "ty e" j i] by (intro exI [of _ "Op2 (le_op (ty e)) tb te"]) (simp add: cint_def)
  qed
  have high: "\<exists>t. ''('' @ le_op (ty e) @ '' '' @ es @ '' '' @ r @ '')'' = show_smt t \<and>
      smt_eval \<sigma> t = Some (SBool (i \<le> cint (ceval \<rho> b)))"
    if "b \<in> set_option hi" "lower_expr p b = Inr r" for b r
  proof -
    from bound [of b r] that obtain tb j where "r = show_smt tb" "ceval \<rho> b = Some (CInt j)"
      "in_type p (ty e) (CInt j)" "smt_eval \<sigma> tb = Some (encode p (ty e) (CInt j))" by blast
    then show ?thesis
      using te le_op_correct [of p "ty e" i j] by (intro exI [of _ "Op2 (le_op (ty e)) te tb"]) (simp add: cint_def)
  qed
  have "\<exists>ts. los = map show_smt ts \<and> list_all (is_bool_term \<sigma>) ts \<and>
      ((\<forall>t \<in> set ts. holds \<sigma> t) \<longleftrightarrow> (\<forall>b \<in> set_option lo. cint (ceval \<rho> b) \<le> i))"
    using parts(1)
  proof (rule bound_parts)
    fix b r assume "b \<in> set_option lo" "lower_expr p b = Inr r"
    then show "\<exists>t. ''('' @ le_op (ty e) @ '' '' @ r @ '' '' @ es @ '')'' = show_smt t \<and>
      smt_eval \<sigma> t = Some (SBool (cint (ceval \<rho> b) \<le> i))" by (rule low)
  qed
  then obtain ls where ls: "los = map show_smt ls" "list_all (is_bool_term \<sigma>) ls"
    "(\<forall>t \<in> set ls. holds \<sigma> t) \<longleftrightarrow> (\<forall>b \<in> set_option lo. cint (ceval \<rho> b) \<le> i)" by (elim exE conjE)
  have "\<exists>ts. his = map show_smt ts \<and> list_all (is_bool_term \<sigma>) ts \<and>
      ((\<forall>t \<in> set ts. holds \<sigma> t) \<longleftrightarrow> (\<forall>b \<in> set_option hi. i \<le> cint (ceval \<rho> b)))"
    using parts(2)
  proof (rule bound_parts)
    fix b r assume "b \<in> set_option hi" "lower_expr p b = Inr r"
    then show "\<exists>t. ''('' @ le_op (ty e) @ '' '' @ es @ '' '' @ r @ '')'' = show_smt t \<and>
      smt_eval \<sigma> t = Some (SBool (i \<le> cint (ceval \<rho> b)))" by (rule high)
  qed
  then obtain hs where hs: "his = map show_smt hs" "list_all (is_bool_term \<sigma>) hs"
    "(\<forall>t \<in> set hs. holds \<sigma> t) \<longleftrightarrow> (\<forall>b \<in> set_option hi. i \<le> cint (ceval \<rho> b))" by (elim exE conjE)
  have "\<exists>j. ceval \<rho> b = Some (CInt j)" if "b \<in> set_option lo \<union> set_option hi" for b
  proof -
    from that parts(1,2) obtain r where "lower_expr p b = Inr r"
      by (cases lo; cases hi) (auto simp: push_bound_def try_eq_Inr_iff)
    then show ?thesis using bound that by blast
  qed
  note range = ceval_range_ints [of lo hi \<rho> i, OF this]
  show ?thesis
    using te range parts(3) ls hs eval_join_and [of \<sigma> "ls @ hs"]
    by (intro exI [of _ "join_term ''and'' (ls @ hs)"] exI [of _ "CInt i"]) (auto simp: show_join_term list_all_append ball_Un)
qed

lemma set_renders:
  assumes x: "renders p \<rho> \<sigma> e es" and ne: "items \<noteq> []"
    and items: "\<And>i r. i \<in> set items \<Longrightarrow> lower_expr p i = Inr r \<Longrightarrow> renders p \<rho> \<sigma> i r"
      "\<And>i. i \<in> set items \<Longrightarrow> ty i = ty e"
    and l: "try_map (\<lambda>item. try_bind (lower_expr p item)
        (\<lambda>item_s. Inr (''(= '' @ es @ '' '' @ item_s @ '')''))) items = Inr parts"
  shows "\<exists>t v. join_bool ''or'' parts = show_smt t \<and> ceval \<rho> e = Some v \<and>
    smt_eval \<sigma> t = Some (SBool (\<exists>i \<in> set items. ceval \<rho> i = Some v))"
proof -
  obtain te v where te: "es = show_smt te" "ceval \<rho> e = Some v" "in_type p (ty e) v"
    "smt_eval \<sigma> te = Some (encode p (ty e) v)" using x by (auto simp: renders_def)
  have part: "\<exists>t. part = show_smt t \<and> is_bool_term \<sigma> t \<and> holds \<sigma> t = (ceval \<rho> i = Some v)"
    if "i \<in> set items" "try_bind (lower_expr p i) (\<lambda>item_s. Inr (''(= '' @ es @ '' '' @ item_s @ '')'')) = Inr part" for i part
  proof -
    from that(2) obtain r where r: "lower_expr p i = Inr r" "part = ''(= '' @ es @ '' '' @ r @ '')''"
      by (auto simp: try_eq_Inr_iff)
    from items(1) [OF that(1) r(1)] items(2) [OF that(1)] obtain ti vi where "r = show_smt ti" "ceval \<rho> i = Some vi" "in_type p (ty e) vi"
      "smt_eval \<sigma> ti = Some (encode p (ty e) vi)" by (auto simp: renders_def)
    then show ?thesis
      using te r(2) encode_smt_eq(1) [of p "ty e" v vi] bool_termI [of \<sigma> "Op2 ''='' te ti" "v = vi"]
      by (intro exI [of _ "Op2 ''='' te ti"]) auto
  qed
  have "\<exists>ts. parts = map show_smt ts \<and> list_all (is_bool_term \<sigma>) ts \<and> length ts = length items \<and>
      ((\<exists>t \<in> set ts. holds \<sigma> t) \<longleftrightarrow> (\<exists>i \<in> set items. ceval \<rho> i = Some v))"
    using l part unfolding try_map_Inr_iff
  proof (induction items arbitrary: parts)
    case (Cons i items)
    then obtain q qs where q: "parts = q # qs" "try_bind (lower_expr p i) (\<lambda>item_s. Inr (''(= '' @ es @ '' '' @ item_s @ '')'')) = Inr q"
      "list_all2 (\<lambda>x y. try_bind (lower_expr p x) (\<lambda>item_s. Inr (''(= '' @ es @ '' '' @ item_s @ '')'')) = Inr y) items qs"
      by (auto simp: list_all2_Cons1)
    obtain t where "q = show_smt t" "is_bool_term \<sigma> t" "holds \<sigma> t = (ceval \<rho> i = Some v)"
      using Cons.prems(2) [OF _ q(2)] by auto
    moreover obtain ts where "qs = map show_smt ts" "list_all (is_bool_term \<sigma>) ts" "length ts = length items"
      "(\<exists>t \<in> set ts. holds \<sigma> t) \<longleftrightarrow> (\<exists>i \<in> set items. ceval \<rho> i = Some v)"
      using Cons.IH [OF q(3) Cons.prems(2)] by auto
    ultimately show ?case using q(1) by (intro exI [of _ "t # ts"]) auto
  qed simp
  then obtain ts where ts: "parts = map show_smt ts" "list_all (is_bool_term \<sigma>) ts" "length ts = length items"
    "(\<exists>t \<in> set ts. holds \<sigma> t) \<longleftrightarrow> (\<exists>i \<in> set items. ceval \<rho> i = Some v)" by blast
  then have "ts \<noteq> []" using ne by auto
  then show ?thesis
    using te(2) ts eval_join_or [OF ts(2)] by (intro exI [of _ "join_term ''or'' ts"]) (auto simp: show_join_term)
qed

definition scalar_fields :: "('a, 'r) CTypedProblem \<Rightarrow> bool" where
  "scalar_fields p \<longleftrightarrow> (\<forall>f info. lookup (env p) f = Some info \<longrightarrow> sort_for_type (env p) (fi_ty info) \<noteq> None)"

lemma in_type_sort: "in_type p t v \<Longrightarrow> sort_for_type (env p) t \<noteq> None"
  by (cases t; cases v) (auto split: option.splits)

lemma fields_agree_scalar: "fields_agree p \<rho> \<sigma> \<Longrightarrow> scalar_fields p"
  unfolding fields_agree_def scalar_fields_def by (metis in_type_sort)

text \<open>With scalar fields only, nothing well-typed in the empty scope has a list type.\<close>

lemma list_typed_impossible:
  assumes "typed p Map.empty i" "ty i = CType.List t m" "scalar_fields p"
  shows False
proof -
  obtain k s where i: "i = CTypedExpr k (CType.List t m) s" using assms(2) by (cases i) auto
  then have "has_type p Map.empty k (CType.List t m)" using assms(1) by (simp add: typed_simps)
  then show False
  proof cases
    case (FieldRef f info)
    then show False using assms(3) unfolding scalar_fields_def by (metis sort_for_type.simps(6))
  qed auto
qed

lemma enum_width_bound: "n \<le> 2 ^ enum_width n"
proof -
  have "max n 2 - 1 < 2 ^ bit_len (max n 2 - 1)" by (rule less_pow_bit_len)
  then show ?thesis by (simp add: enum_width_def)
qed

lemma enum_width_pos: "0 < enum_width n"
  by (simp add: enum_width_def zero_less_iff_neq_zero)

lemma literal_renders:
  assumes "typed p l (CTypedExpr k t s)" "lower_expr p (CTypedExpr k t s) = Inr r"
    and "(\<exists>v. k = BvLit v) \<or> (\<exists>b. k = BoolLit b) \<or> (\<exists>d i. k = EnumLit d i)"
  shows "renders p \<rho> \<sigma> (CTypedExpr k t s) r"
  using assms(3)
proof (elim disjE exE)
  fix v assume k: "k = BvLit v"
  then obtain w sg where t: "t = BV w sg" "0 < w" "unat v < 2 ^ w"
    using assms(1) by (auto simp: typed_simps has_type_simps)
  then have "take_bit w (unat v) = unat v" by (simp add: take_bit_nat_eq_self)
  then have "take_bit w (int (unat v)) = int (unat v)" by (simp only: take_bit_of_nat)
  then have "take_bit w (uint v) = int (unat v)" by simp
  then show ?thesis
    using assms(2) t
    by (auto simp: k renders_def take_bit_wrap intro!: exI [of _ "BvNum (unat v) w"])
next
  fix b assume k: "k = BoolLit b"
  then show ?thesis
    using assms by (auto simp: renders_def typed_simps has_type_simps intro!: exI [of _ "Const b"])
next
  fix d i assume k: "k = EnumLit d i"
  then obtain e where e: "t = CType.Enum d" "enum_by_id (env p) d = Some e" "i < length (variants e)"
    using assms(1) by (auto simp: typed_simps has_type_simps)
  then have "i < 2 ^ enum_width (length (variants e))" using enum_width_bound less_le_trans by blast
  then show ?thesis
    using assms(2) e enum_width_pos
    by (auto simp: k renders_def intro!: exI [of _ "BvNum i (enum_width (length (variants e)))"])
qed

lemma unary_renders:
  assumes "has_type p l (Unary op e) t" "renders p \<rho> \<sigma> e r"
  shows "renders p \<rho> \<sigma> (CTypedExpr (Unary op e) t s) (''('' @ unary_op_smt op @ '' '' @ r @ '')'')"
proof -
  have "if op = CUnaryOp.LogicalNot then ty e = CType.Bool \<and> t = CType.Bool else is_bv (ty e) \<and> t = ty e"
    using assms(1) by (auto simp: has_type_simps)
  moreover obtain te v where "r = show_smt te" "ceval \<rho> e = Some v" "in_type p (ty e) v"
    "smt_eval \<sigma> te = Some (encode p (ty e) v)"
    using assms(2) by (auto simp: renders_def)
  ultimately show ?thesis
    using unary_correct [of op "ty e" t p v] by (auto simp: renders_def intro!: exI [of _ "Op1 (unary_op_smt op) te"])
qed

lemma lower_shift_expr_Inr: "lower_shift_expr op ta tb la lb = Inr r \<Longrightarrow> \<exists>x y. la = Inr x \<and> lb = Inr y"
  by (cases la; cases lb) (auto simp: lower_shift_expr_def unsupported_def Let_def split: option.splits)

lemma binary_renders:
  assumes ty: "binary_type op (ty a) (ty b) t" and a: "renders p \<rho> \<sigma> a ra" and b: "renders p \<rho> \<sigma> b rb"
    and low: "lower_expr p a = Inr ra" "lower_expr p b = Inr rb" "lower_expr p (CTypedExpr (Binary op a b) t s) = Inr r"
  shows "renders p \<rho> \<sigma> (CTypedExpr (Binary op a b) t s) r"
proof -
  obtain ta va where a: "ra = show_smt ta" "ceval \<rho> a = Some va" "in_type p (ty a) va"
    "smt_eval \<sigma> ta = Some (encode p (ty a) va)" using a by (auto simp: renders_def)
  obtain tb vb where b: "rb = show_smt tb" "ceval \<rho> b = Some vb" "in_type p (ty b) vb"
    "smt_eval \<sigma> tb = Some (encode p (ty b) vb)" using b by (auto simp: renders_def)
  show ?thesis
  proof (cases "op \<in> {CBinaryOp.Shl, CBinaryOp.Shr}")
    case True
    then obtain w sg n where ts: "ty a = BV w sg" "ty b = BV n Sign.Unsigned" "t = BV w sg"
      using ty by (auto simp: binary_type_def is_bv_iff is_unsigned_bv_iff)
    then obtain i j where ij: "va = CInt i" "0 < w" "wrap (BV w sg) i = i" "vb = CInt j" "0 < n" "wrap (BV n Sign.Unsigned) j = j"
      using a(3) b(3) by (auto simp: in_type_BV)
    obtain u x where "lower_shift_expr op (BV w sg) (BV n Sign.Unsigned) (Inr (show_smt ta)) (Inr (show_smt tb)) = Inr (show_smt u)"
      "ceval_int op (BV w sg) i j = Some (CInt (wrap (BV w sg) x))" "smt_eval \<sigma> u = Some (SBv w (take_bit w x))"
      using shift_correct [OF True ij(2,3,5,6), of \<sigma> ta tb] a(4) b(4) ts ij by auto
    then show ?thesis
      using True low a b ts ij by (auto simp: renders_def take_bit_wrap intro!: exI [of _ u])
  next
    case False
    then have "r = show_smt (Op2 (binary_op_smt op (ty a)) ta tb)" using low a(1) b(1) by auto
    then show ?thesis
      using binary_correct [OF ty False a(3) b(3)] a b
      by (auto simp: renders_def intro!: exI [of _ "Op2 (binary_op_smt op (ty a)) ta tb"])
  qed
qed

lemma renders_Bool:
  "\<exists>u. r = show_smt u \<and> ceval \<rho> (CTypedExpr k CType.Bool s) = Some (CBool c) \<and> smt_eval \<sigma> u = Some (SBool c) \<Longrightarrow>
   renders p \<rho> \<sigma> (CTypedExpr k CType.Bool s) r"
  by (auto simp: renders_def)

lemma in_set_renders:
  assumes x: "renders p \<rho> \<sigma> e es" "lower_expr p e = Inr es"
    and items: "\<And>i r. i \<in> set items \<Longrightarrow> lower_expr p i = Inr r \<Longrightarrow> renders p \<rho> \<sigma> i r" "\<And>i. i \<in> set items \<Longrightarrow> ty i = ty e"
    and l: "lower_expr p (CTypedExpr (InSet e (CTypedExpr (CExprKind.Set items) st ss)) CType.Bool s) = Inr r"
  shows "renders p \<rho> \<sigma> (CTypedExpr (InSet e (CTypedExpr (CExprKind.Set items) st ss)) CType.Bool s) r"
proof (cases "items = []")
  case True
  obtain v where "ceval \<rho> e = Some v" using x(1) by (auto simp: renders_def)
  with True l x(2) show ?thesis
    by (intro renders_Bool [where c = False] exI [of _ "Const False"]) (simp add: show_bool_def)
next
  case False
  with l x(2) obtain parts where parts: "try_map (\<lambda>item. try_bind (lower_expr p item)
        (\<lambda>item_s. Inr (''(= '' @ es @ '' '' @ item_s @ '')''))) items = Inr parts" "r = join_bool ''or'' parts"
    by (auto simp: try_eq_Inr_iff)
  obtain t v where "join_bool ''or'' parts = show_smt t" "ceval \<rho> e = Some v"
    "smt_eval \<sigma> t = Some (SBool (\<exists>i \<in> set items. ceval \<rho> i = Some v))"
    using set_renders [OF x(1) False items parts(1)] by blast
  then show ?thesis using parts(2) by (intro renders_Bool exI [of _ t]) simp
qed

lemma in_range_renders:
  assumes "renders p \<rho> \<sigma> e es" "ty e \<noteq> CType.Bool"
    and "\<And>b r. b \<in> set_option lo \<union> set_option hi \<Longrightarrow> lower_expr p b = Inr r \<Longrightarrow> renders p \<rho> \<sigma> b r"
      "\<And>b. b \<in> set_option lo \<union> set_option hi \<Longrightarrow> ty b = ty e"
    and "lower_range_membership (ty e) es (map_option (lower_expr p) lo) (map_option (lower_expr p) hi) = Inr r"
    and ce: "ceval \<rho> (CTypedExpr k CType.Bool s) =
      Option.bind (ceval \<rho> e) (\<lambda>x. ceval_range x (map_option (ceval \<rho>) lo) (map_option (ceval \<rho>) hi))"
  shows "renders p \<rho> \<sigma> (CTypedExpr k CType.Bool s) r"
proof -
  obtain u x c where "r = show_smt u" "ceval \<rho> e = Some x"
    "ceval_range x (map_option (ceval \<rho>) lo) (map_option (ceval \<rho>) hi) = Some (CBool c)" "smt_eval \<sigma> u = Some (SBool c)"
    using range_renders [OF assms(1-5)] by blast
  then show ?thesis by (intro renders_Bool [where c = c] exI [of _ u]) (simp add: ce)
qed

theorem lower_expr_renders:
  assumes "fields_agree p \<rho> \<sigma>"
  shows "typed p Map.empty e \<Longrightarrow> supported e \<Longrightarrow> lower_expr p e = Inr r \<Longrightarrow> renders p \<rho> \<sigma> e r"
  using assms
proof (induction p e arbitrary: r rule: lower_expr.induct)
  case (4 p path t s)
  then show ?case
    by (auto simp: renders_def typed_simps has_type_simps fields_agree_def intro!: exI [of _ "Sym (z3_field_name path)"])
next
  case (5 p local t s)
  then show ?case by (simp add: typed_simps has_type_simps)
next
  case (6 p op e t s)
  then show ?case
    by (auto simp: try_eq_Inr_iff typed_simps has_type_simps intro!: unary_renders [where l = Map.empty, simplified])
next
  case (7 p op a b t s)
  have ty: "typed p Map.empty a" "typed p Map.empty b" "binary_type op (ty a) (ty b) t"
    using "7.prems" by (auto simp: typed_simps has_type_Binary)
  obtain ra rb where low: "lower_expr p a = Inr ra" "lower_expr p b = Inr rb"
    using "7.prems"(3) by (auto simp: try_eq_Inr_iff dest: lower_shift_expr_Inr split: if_splits)
  have "renders p \<rho> \<sigma> a ra" "renders p \<rho> \<sigma> b rb"
    using 7 ty low by (metis supported.simps(2))+
  then show ?case using binary_renders [OF ty(3) _ _ low "7.prems"(3)] by blast
next
  case (8 p e items st ss t s)
  have ty: "typed p Map.empty e" "t = CType.Bool" "\<forall>i \<in> set items. typed p Map.empty i \<and> ty i = ty e"
    using "8.prems"(1) by (auto simp: typed_simps has_type_simps)
  obtain es where es: "lower_expr p e = Inr es" using "8.prems"(3) by (auto simp: try_eq_Inr_iff)
  have sup: "supported e" "\<forall>i \<in> set items. supported i" using "8.prems"(2) by simp_all
  have "renders p \<rho> \<sigma> e es" using "8.IH"(1) ty(1) sup(1) es "8.prems"(4) by blast
  moreover have "renders p \<rho> \<sigma> i r" if "i \<in> set items" "lower_expr p i = Inr r" for i r
    using "8.IH"(2) [OF es _ that(1)] that ty(3) sup(2) "8.prems"(4) by fastforce
  ultimately show ?case
    using in_set_renders [OF _ es] ty(3) "8.prems"(3) unfolding ty(2) by blast
next
  case (9 p e lo hi st ss t s)
  have ty: "typed p Map.empty e" "t = CType.Bool" "\<forall>b \<in> set_option lo \<union> set_option hi. typed p Map.empty b \<and> ty b = ty e"
    and sup: "ty e \<noteq> CType.Bool" "supported e" "\<forall>b \<in> set_option lo \<union> set_option hi. supported b"
    using "9.prems"(1,2) by (auto simp: typed_simps has_type_simps)
  obtain es where es: "lower_expr p e = Inr es" using "9.prems"(3) by (auto simp: try_eq_Inr_iff)
  have "renders p \<rho> \<sigma> e es" using "9.IH"(1) ty(1) sup(2) es "9.prems"(4) by blast
  moreover have "renders p \<rho> \<sigma> b r" if "b \<in> set_option lo \<union> set_option hi" "lower_expr p b = Inr r" for b r
    using "9.IH"(2,3) [OF es] that ty(3) sup(3) "9.prems"(4) by blast
  ultimately show ?case
    using in_range_renders [of p \<rho> \<sigma> e es lo hi r] ty(3) sup(1) "9.prems"(3) es unfolding ty(2) by simp
next
  case (11 p e lo hi t s)
  have ty: "typed p Map.empty e" "t = CType.Bool" "\<forall>b \<in> set_option lo \<union> set_option hi. typed p Map.empty b \<and> ty b = ty e"
    and sup: "ty e \<noteq> CType.Bool" "supported e" "\<forall>b \<in> set_option lo \<union> set_option hi. supported b"
    using "11.prems"(1,2) by (auto simp: typed_simps has_type_simps)
  obtain es where es: "lower_expr p e = Inr es" using "11.prems"(3) by (auto simp: try_eq_Inr_iff)
  have "renders p \<rho> \<sigma> e es" using "11.IH"(1) ty(1) sup(2) es "11.prems"(4) by blast
  moreover have "renders p \<rho> \<sigma> b r" if "b \<in> set_option lo \<union> set_option hi" "lower_expr p b = Inr r" for b r
    using "11.IH"(2,3) [OF es] that ty(3) sup(3) "11.prems"(4) by blast
  ultimately show ?case
    using in_range_renders [of p \<rho> \<sigma> e es lo hi r] ty(3) sup(1) "11.prems"(3) es unfolding ty(2) by simp
next
  case (15 p x iter body t s)
  then show ?case
    by (auto simp: typed_simps has_type_simps unsupported_def dest: list_typed_impossible fields_agree_scalar
        split: CType.splits)
qed (auto simp: unsupported_def try_eq_Inr_iff intro: literal_renders)

section \<open>Built problems\<close>

text \<open>An example: one byte field \<open>x\<close> and the clause \<open>x < 10\<close>.\<close>

definition example_clause :: CTypedClause where
  "example_clause = \<lparr>cl_origin = RandomizeWith Span_default,
     cl_expr = CTypedExpr (Binary CBinaryOp.Lt
       (CTypedExpr (FieldRef (FieldPath [''x''])) (BV 8 Sign.Unsigned) Span_default)
       (CTypedExpr (BvLit 10) (BV 8 Sign.Unsigned) Span_default)) CType.Bool Span_default,
     assertion_name = ''c0''\<rparr>"

definition example_problem :: "(unit, unit) CTypedProblem" where
  "example_problem = \<lparr>problem_id = ConstraintProblemId 0, origin = RandomizeSite ''t'' Span_default,
     env = \<lparr>env_fields = [(FieldPath [''x''],
         \<lparr>fi_ty = BV 8 Sign.Unsigned, non_random = False, has_default = False, attrs = []\<rparr>)], enums = [], relations = []\<rparr>,
     constraints = [example_clause], soft_constraints = [], solve_order = None\<rparr>"

lemma example_builds: "\<exists>z. Z3Backend_build example_problem = Inr z"
proof -
  have "isl (Z3Backend_build example_problem) = False" by code_simp
  then show ?thesis by (cases "Z3Backend_build example_problem") simp_all
qed


fun forall_free :: "CTypedExpr \<Rightarrow> bool" where
  "forall_free (CTypedExpr (Unary op e) t s) \<longleftrightarrow> forall_free e"
| "forall_free (CTypedExpr (Binary op a b) t s) \<longleftrightarrow> forall_free a \<and> forall_free b"
| "forall_free (CTypedExpr (InSet a b) t s) \<longleftrightarrow> forall_free a \<and> forall_free b"
| "forall_free (CTypedExpr (InRange e lo hi) t s) \<longleftrightarrow>
     forall_free e \<and> (\<forall>b \<in> set_option lo. forall_free b) \<and> (\<forall>b \<in> set_option hi. forall_free b)"
| "forall_free (CTypedExpr (CExprKind.Set items) t s) \<longleftrightarrow> (\<forall>i \<in> set items. forall_free i)"
| "forall_free (CTypedExpr (CExprKind.Range lo hi) t s) \<longleftrightarrow>
     (\<forall>b \<in> set_option lo. forall_free b) \<and> (\<forall>b \<in> set_option hi. forall_free b)"
| "forall_free (CTypedExpr (FieldMethodCall e m args) t s) \<longleftrightarrow> forall_free e \<and> (\<forall>a \<in> set args. forall_free a)"
| "forall_free (CTypedExpr (ForAll x i b) t s) \<longleftrightarrow> False"
| "forall_free _ \<longleftrightarrow> True"

lemma try_map_elem: "try_map f xs = Inr ys \<Longrightarrow> x \<in> set xs \<Longrightarrow> \<exists>y \<in> set ys. f x = Inr y"
  by (induction xs arbitrary: ys) (auto simp: try_eq_Inr_iff)

lemma lower_range_Inr:
  "lower_range_membership t es lo hi = Inr s \<Longrightarrow> r \<in> set_option lo \<union> set_option hi \<Longrightarrow> \<exists>b. r = Inr b"
  by (cases lo; cases hi) (auto simp: lower_range_membership_def push_bound_def Let_def try_eq_Inr_iff)

lemma lowered_forall_free:
  "typed p Map.empty e \<Longrightarrow> lower_expr p e = Inr r \<Longrightarrow> scalar_fields p \<Longrightarrow> forall_free e"
proof (induction p e arbitrary: r rule: lower_expr.induct)
  case (6 p op e t s)
  then show ?case by (auto simp: typed_simps has_type_simps try_eq_Inr_iff)
next
  case (7 p op a b t s)
  then obtain ra rb where "lower_expr p a = Inr ra" "lower_expr p b = Inr rb"
    by (auto simp: try_eq_Inr_iff dest: lower_shift_expr_Inr split: if_splits)
  moreover have "typed p Map.empty a" "typed p Map.empty b"
    using "7.prems"(1) by (auto simp: typed_simps has_type_Binary)
  ultimately have "forall_free a" "forall_free b" using 7 by metis+
  then show ?case by simp
next
  case (8 p e items st ss t s)
  then obtain es where es: "lower_expr p e = Inr es" by (auto simp: try_eq_Inr_iff)
  have ty: "typed p Map.empty e" "\<forall>i \<in> set items. typed p Map.empty i"
    using "8.prems"(1) by (auto simp: typed_simps has_type_simps)
  have "forall_free i" if i: "i \<in> set items" for i
  proof -
    have "items \<noteq> []" using i by auto
    then obtain ri where "lower_expr p i = Inr ri"
      using "8.prems"(2) es i by (auto simp: try_eq_Inr_iff dest!: try_map_elem [OF _ i])
    then show ?thesis using "8.IH"(2) [OF es \<open>items \<noteq> []\<close> i] ty(2) i "8.prems"(3) by blast
  qed
  then show ?case using "8.IH"(1) ty(1) es "8.prems"(3) by auto
next
  case (9 p e lo hi st ss t s)
  then obtain es where es: "lower_expr p e = Inr es" by (auto simp: try_eq_Inr_iff)
  have ty: "typed p Map.empty e" "\<forall>b \<in> set_option lo \<union> set_option hi. typed p Map.empty b"
    using "9.prems"(1) by (auto simp: typed_simps has_type_simps)
  have "forall_free b" if b: "b \<in> set_option lo \<union> set_option hi" for b
  proof -
    obtain rb where "lower_expr p b = Inr rb"
      using lower_range_Inr [of "ty e" es "map_option (lower_expr p) lo" "map_option (lower_expr p) hi" r "lower_expr p b"]
        b "9.prems"(2) es by (auto simp: option.set_map)
    then show ?thesis using "9.IH"(2,3) [OF es] b ty(2) "9.prems"(3) by blast
  qed
  then show ?case using "9.IH"(1) ty(1) es "9.prems"(3) by auto
next
  case (11 p e lo hi t s)
  then obtain es where es: "lower_expr p e = Inr es" by (auto simp: try_eq_Inr_iff)
  have ty: "typed p Map.empty e" "\<forall>b \<in> set_option lo \<union> set_option hi. typed p Map.empty b"
    using "11.prems"(1) by (auto simp: typed_simps has_type_simps)
  have "forall_free b" if b: "b \<in> set_option lo \<union> set_option hi" for b
  proof -
    obtain rb where "lower_expr p b = Inr rb"
      using lower_range_Inr [of "ty e" es "map_option (lower_expr p) lo" "map_option (lower_expr p) hi" r "lower_expr p b"]
        b "11.prems"(2) es by (auto simp: option.set_map)
    then show ?thesis using "11.IH"(2,3) [OF es] b ty(2) "11.prems"(3) by blast
  qed
  then show ?case using "11.IH"(1) ty(1) es "11.prems"(3) by auto
next
  case (14 p target args t s)
  then show ?case
    by (cases target) (auto simp: unsupported_def split: if_splits CExprKind.splits)
next
  case (15 p x iter body t s)
  then show ?case
    by (auto simp: typed_simps has_type_simps unsupported_def dest: list_typed_impossible split: CType.splits)
qed (auto simp: unsupported_def try_eq_Inr_iff)

lemma build_Inr:
  assumes "Z3Backend_build p = Inr z"
  shows "well_formed_problem p" "scalar_fields p"
    and "\<And>c. c \<in> set (constraints p) \<Longrightarrow> \<exists>s. lower_expr p (cl_expr c) = Inr s \<and>
      (\<exists>pre post. smt z = pre @ ''(assert (! '' @ s @ '' :named '' @ z3_assertion_name (assertion_name c) @ ''))'' @ [CHR 0x0A] @ post)"
    and "\<And>c. c \<in> set (soft_constraints p) \<Longrightarrow> \<exists>s. lower_expr p (sc_expr c) = Inr s"
proof -
  have ok: "verify_constraint_problem p = Inr ()" "build_z3_problem p = Inr z"
    using assms by (auto simp: Z3Backend_build_def split: sum.splits)
  show "well_formed_problem p" using assms by (rule z3.built_well_formed)
  obtain decls hard soft pre post where
    d: "try_map (declare_field p) (env_fields (env p)) = Inr decls"
    and h: "try_map (assert_clause p) (constraints p) = Inr hard"
    and s: "try_map (assert_soft_clause p) (soft_constraints p) = Inr soft"
    and z: "smt z = pre @ concat (map fst hard) @ post"
  proof -
    obtain decls bounds hard soft where parts:
      "try_map (declare_field p) (env_fields (env p)) = Inr decls"
      "try_map (bound_enum_field p) (env_fields (env p)) = Inr bounds"
      "try_map (assert_clause p) (constraints p) = Inr hard"
      "try_map (assert_soft_clause p) (soft_constraints p) = Inr soft"
      "\<exists>order. smt z = (''; generated by harc typed solver scaffold'' @ [CHR 0x0A] @ ''(set-logic QF_BV)'' @ [CHR 0x0A] @
         concat (map fst decls) @ concat bounds) @ concat (map fst hard) @ concat (map fst soft) @ order"
      using ok(2) by (auto simp: build_z3_problem_def try_eq_Inr_iff Let_def)
    then show thesis using that by blast
  qed
  show "scalar_fields p"
    unfolding scalar_fields_def lookup_def
  proof (intro allI impI)
    fix f info assume "map_of (env_fields (env p)) f = Some info"
    then have "(f, info) \<in> set (env_fields (env p))" by (rule map_of_SomeD)
    then show "sort_for_type (env p) (fi_ty info) \<noteq> None"
      using try_map_elem [OF d] by (fastforce simp: declare_field_def unsupported_def split: option.splits)
  qed
  show "\<exists>s. lower_expr p (sc_expr c) = Inr s" if "c \<in> set (soft_constraints p)" for c
    using try_map_elem [OF s that] by (auto simp: assert_soft_clause_def try_eq_Inr_iff)
  show "\<exists>s. lower_expr p (cl_expr c) = Inr s \<and>
      (\<exists>pre post. smt z = pre @ ''(assert (! '' @ s @ '' :named '' @ z3_assertion_name (assertion_name c) @ ''))'' @ [CHR 0x0A] @ post)"
    if "c \<in> set (constraints p)" for c
  proof -
    from try_map_elem [OF h that] obtain s a where s: "lower_expr p (cl_expr c) = Inr s"
      "(''(assert (! '' @ s @ '' :named '' @ z3_assertion_name (assertion_name c) @ ''))'' @ [CHR 0x0A], a) \<in> set hard"
      by (auto simp: assert_clause_def try_eq_Inr_iff Let_def)
    then obtain h1 h2 where "hard = h1 @ (''(assert (! '' @ s @ '' :named '' @ z3_assertion_name (assertion_name c) @ ''))'' @ [CHR 0x0A], a) # h2"
      by (auto simp: in_set_conv_decomp)
    then have "smt z = (pre @ concat (map fst h1)) @ ''(assert (! '' @ s @ '' :named '' @ z3_assertion_name (assertion_name c) @ ''))'' @
        [CHR 0x0A] @ (concat (map fst h2) @ post)"
      by (simp add: z)
    then show ?thesis using s(1) by blast
  qed
qed

text \<open>
  C8.  Meaning preservation: in a script the backend produces, the text of every supported hard clause
  is an assertion whose term evaluates, under the SMT-LIB semantics and any assignment of the
  fields, to the truth value of the clause over the integers.
\<close>

theorem z3_clause_meaning:
  assumes "Z3Backend_build p = Inr z" "c \<in> set (constraints p)" "supported (cl_expr c)" "fields_agree p \<rho> \<sigma>"
  shows "\<exists>t b. ceval \<rho> (cl_expr c) = Some (CBool b) \<and> smt_eval \<sigma> t = Some (SBool b) \<and>
    (\<exists>pre post. smt z = pre @ ''(assert (! '' @ show_smt t @ '' :named '' @
        z3_assertion_name (assertion_name c) @ ''))'' @ [CHR 0x0A] @ post)"
proof -
  obtain s where s: "lower_expr p (cl_expr c) = Inr s"
    "\<exists>pre post. smt z = pre @ ''(assert (! '' @ s @ '' :named '' @ z3_assertion_name (assertion_name c) @ ''))'' @ [CHR 0x0A] @ post"
    using build_Inr(3) [OF assms(1,2)] by blast
  have ty: "typed p Map.empty (cl_expr c)" "ty (cl_expr c) = CType.Bool"
    using build_Inr(1) [OF assms(1)] assms(2) by (auto simp: well_formed_problem_def typed_clause_def)
  then have "renders p \<rho> \<sigma> (cl_expr c) s" using lower_expr_renders [OF assms(4)] assms(3) s(1) by blast
  then obtain t b where "s = show_smt t" "ceval \<rho> (cl_expr c) = Some (CBool b)" "smt_eval \<sigma> t = Some (SBool b)"
    by (auto simp: renders_def ty(2) in_type_Bool)
  then show ?thesis using s(2) by blast
qed

theorem z3_clause_meaning_witness:
  "\<exists>t b. ceval (\<lambda>f. CInt 3) (cl_expr example_clause) = Some (CBool b) \<and>
     smt_eval [''f_x'' \<mapsto> SBv 8 3] t = Some (SBool b)"
proof -
  obtain z where z: "Z3Backend_build example_problem = Inr z" using example_builds by blast
  have "z3_field_name (FieldPath [''x'']) = ''f_x''" by code_simp
  then have agree: "fields_agree example_problem (\<lambda>f. CInt 3) [''f_x'' \<mapsto> SBv 8 3]"
    by (auto simp: fields_agree_def example_problem_def lookup_def take_bit_eq_mod split: if_splits)
  have "example_clause \<in> set (constraints example_problem)" "supported (cl_expr example_clause)"
    by (simp_all add: example_problem_def example_clause_def)
  then show ?thesis using z3_clause_meaning [OF z _ _ agree] by blast
qed

text \<open>
  The script announces the quantifier-free logic \<^verbatim>\<open>QF_BV\<close>, and a problem the backend builds
  contains no quantifier: a verified \<^verbatim>\<open>ForAll\<close> ranges over a list, and a list field has no sort.
\<close>

theorem built_problem_quantifier_free:
  assumes "Z3Backend_build p = Inr z"
  shows "(\<forall>c \<in> set (constraints p). forall_free (cl_expr c)) \<and> (\<forall>c \<in> set (soft_constraints p). forall_free (sc_expr c))"
proof -
  have "typed p Map.empty (cl_expr c)" if "c \<in> set (constraints p)" for c
    using build_Inr(1) [OF assms] that by (auto simp: well_formed_problem_def typed_clause_def)
  moreover have "typed p Map.empty (sc_expr c)" if "c \<in> set (soft_constraints p)" for c
    using build_Inr(1) [OF assms] that by (auto simp: well_formed_problem_def typed_clause_def)
  ultimately show ?thesis
    using build_Inr(2-4) [OF assms] lowered_forall_free by metis
qed

theorem built_problem_quantifier_free_witness: "forall_free (cl_expr example_clause)"
proof -
  obtain z where z: "Z3Backend_build example_problem = Inr z" using example_builds by blast
  show ?thesis using built_problem_quantifier_free [OF z] by (simp add: example_problem_def)
qed

lemma enum_domain_bound:
  "(if n \<le> 1 \<or> \<not> is_power_of_two n then n < 2 ^ enum_width n else n = 2 ^ enum_width n)"
proof -
  let ?w = "enum_width n"
  have le: "n \<le> 2 ^ ?w" by (rule enum_width_bound)
  show ?thesis
  proof (cases "n \<le> 1 \<or> \<not> is_power_of_two n")
    case True
    have "n \<noteq> 2 ^ ?w"
    proof
      assume n: "n = 2 ^ ?w"
      have "1 < n" using n enum_width_pos [of n] by (metis one_less_numeral_iff one_less_power semiring_norm(76))
      moreover have "bit_len (2 ^ k) = Suc k" for k by (intro bit_len_unique) simp_all
      then have "bit_len n = Suc ?w" using n by metis
      ultimately show False using True n by (simp add: is_power_of_two_def)
    qed
    with le True show ?thesis by simp
  next
    case False
    then obtain k where k: "n = 2 ^ k" by (auto simp: is_power_of_two_def)
    have "?w \<le> k" using False k by (simp add: enum_width_def bit_len_le_iff max_def)
    then have "2 ^ ?w \<le> n" using k by (simp add: power_increasing)
    with le False show ?thesis by simp
  qed
qed

text \<open>A line of the script that asserts a term, with a comment.\<close>

definition assert_line :: "smt_term \<Rightarrow> string \<Rightarrow> string" where
  "assert_line t comment = ''(assert '' @ show_smt t @ '') ; '' @ comment @ [CHR 0x0A]"

lemma concat_elem: "x \<in> set xs \<Longrightarrow> \<exists>pre post. concat xs = pre @ x @ post"
  by (metis concat.simps(2) concat_append in_set_conv_decomp append.assoc)

lemma built_field_lines:
  assumes "Z3Backend_build p = Inr z" "f \<in> set (env_fields (env p))"
  shows "\<exists>decl var bound pre mid post. declare_field p f = Inr (decl, var) \<and> bound_enum_field p f = Inr bound \<and>
    smt z = pre @ decl @ mid @ bound @ post"
proof -
  obtain decls bounds rest where parts:
    "try_map (declare_field p) (env_fields (env p)) = Inr decls"
    "try_map (bound_enum_field p) (env_fields (env p)) = Inr bounds"
    "smt z = (''; generated by harc typed solver scaffold'' @ [CHR 0x0A] @ ''(set-logic QF_BV)'' @ [CHR 0x0A]) @
       concat (map fst decls) @ concat bounds @ rest"
    using assms(1) by (auto simp: Z3Backend_build_def build_z3_problem_def try_eq_Inr_iff Let_def split: sum.splits)
  obtain d where d: "d \<in> set decls" "declare_field p f = Inr d" using try_map_elem [OF parts(1) assms(2)] by blast
  obtain b where b: "b \<in> set bounds" "bound_enum_field p f = Inr b" using try_map_elem [OF parts(2) assms(2)] by blast
  obtain d1 d2 where "concat (map fst decls) = d1 @ fst d @ d2" using concat_elem [of "fst d" "map fst decls"] d(1) by auto
  moreover obtain b1 b2 where "concat bounds = b1 @ b @ b2" using concat_elem [OF b(1)] by blast
  ultimately have "smt z = (''; generated by harc typed solver scaffold'' @ [CHR 0x0A] @ ''(set-logic QF_BV)'' @ [CHR 0x0A] @ d1) @
      fst d @ (d2 @ b1) @ b @ (b2 @ rest)" by (simp add: parts(3))
  moreover have "declare_field p f = Inr (fst d, snd d)" using d(2) by simp
  ultimately show ?thesis using b(2) by blast
qed

text \<open>
  C9.  The enum domain: in a script the backend builds, an enum field is declared as a bit-vector, and the
  assertions the backend writes for its domain (one, or none where the variants fill the width) are terms that all evaluate
  to true under the SMT-LIB semantics exactly when the field's value is the index of a variant.  The bound never wraps.
\<close>

theorem enum_domain_exact:
  assumes "Z3Backend_build p = Inr z" "(f, info) \<in> set (env_fields (env p))"
    "fi_ty info = CType.Enum d" "enum_by_id (env p) d = Some e"
  shows "\<exists>w bounds pre mid post.
    smt z = pre @ (''(declare-fun '' @ z3_field_name f @ '' () (_ BitVec '' @ show_nat w @ ''))'' @ [CHR 0x0A]) @ mid @
      concat (map (\<lambda>t. assert_line t (''enum '' @ ed_name e @ '' domain'')) bounds) @ post \<and>
    bound_enum_field p (f, info) = Inr (concat (map (\<lambda>t. assert_line t (''enum '' @ ed_name e @ '' domain'')) bounds)) \<and>
    (\<forall>\<sigma> x. \<sigma> (z3_field_name f) = Some (SBv w (int x)) \<and> x < 2 ^ w \<longrightarrow>
      ((\<forall>t \<in> set bounds. smt_eval \<sigma> t = Some (SBool True)) \<longleftrightarrow> x < length (variants e)))"
proof -
  let ?n = "length (variants e)" and ?bvult = "\<lambda>n w. Op2 ''bvult'' (Sym (z3_field_name f)) (BvNum n w)"
  let ?w = "enum_width ?n"
  let ?bounds = "if ?n \<le> 1 \<or> \<not> is_power_of_two ?n then [?bvult ?n ?w] else []"
  obtain decl var bound pre mid post where b: "declare_field p (f, info) = Inr (decl, var)"
    "bound_enum_field p (f, info) = Inr bound" "smt z = pre @ decl @ mid @ bound @ post"
    using built_field_lines [OF assms(1,2)] by blast
  have decl: "decl = ''(declare-fun '' @ z3_field_name f @ '' () (_ BitVec '' @ show_nat ?w @ ''))'' @ [CHR 0x0A]"
    using b(1) assms(3,4) by (auto simp: declare_field_def Let_def)
  have bound: "bound = concat (map (\<lambda>t. assert_line t (''enum '' @ ed_name e @ '' domain'')) ?bounds)"
    using b(2) assms(3,4) by (auto simp: bound_enum_field_def Let_def assert_line_def split: if_splits)
  have "(\<forall>t \<in> set ?bounds. smt_eval \<sigma> t = Some (SBool True)) \<longleftrightarrow> x < ?n"
    if "\<sigma> (z3_field_name f) = Some (SBv ?w (int x))" "x < 2 ^ ?w" for \<sigma> x
    using that enum_domain_bound [of ?n] enum_width_pos [of ?n] by (auto simp: bv_binop_def split: if_splits)
  then show ?thesis using b(2,3) unfolding decl bound by blast
qed


definition example_enum :: "(unit, unit) CTypedProblem" where
  "example_enum = example_problem\<lparr>env := \<lparr>env_fields = [(FieldPath [''x''],
         \<lparr>fi_ty = CType.Enum (EnumDomainId 0), non_random = False, has_default = False, attrs = []\<rparr>)],
       enums = [\<lparr>ed_id = EnumDomainId 0, ed_name = ''op'', variants =
         map (\<lambda>(v, i). \<lparr>enum_name = ''op'', variant = v, variant_index = i\<rparr>) [(''a'', 0), (''b'', 1), (''c'', 2)]\<rparr>],
       relations = []\<rparr>, constraints := []\<rparr>"

theorem enum_domain_exact_witness:
  "\<exists>w bounds. bound_enum_field example_enum (hd (env_fields (env example_enum))) =
      Inr (concat (map (\<lambda>t. assert_line t ''enum op domain'') bounds)) \<and>
    (\<forall>t \<in> set bounds. smt_eval [''f_x'' \<mapsto> SBv w 0] t = Some (SBool True))"
proof -
  have "isl (Z3Backend_build example_enum) = False" by code_simp
  then obtain z where z: "Z3Backend_build example_enum = Inr z" by (cases "Z3Backend_build example_enum") simp_all
  have name: "z3_field_name (FieldPath [''x'']) = ''f_x''" by code_simp
  let ?f = "FieldPath [''x'']" and ?info = "snd (hd (env_fields (env example_enum)))"
  let ?e = "hd (enums (env example_enum))"
  have "(?f, ?info) \<in> set (env_fields (env example_enum))" "fi_ty ?info = CType.Enum (EnumDomainId 0)"
    "enum_by_id (env example_enum) (EnumDomainId 0) = Some ?e"
    by (simp_all add: example_enum_def enum_by_id_def)
  from enum_domain_exact [OF z this] obtain w bounds where
    b: "bound_enum_field example_enum (?f, ?info) = Inr (concat (map (\<lambda>t. assert_line t (''enum '' @ ed_name ?e @ '' domain'')) bounds))"
    "\<forall>\<sigma> x. \<sigma> (z3_field_name ?f) = Some (SBv w (int x)) \<and> x < 2 ^ w \<longrightarrow>
      ((\<forall>t \<in> set bounds. smt_eval \<sigma> t = Some (SBool True)) \<longleftrightarrow> x < length (variants ?e))" by blast
  have "\<forall>t \<in> set bounds. smt_eval [''f_x'' \<mapsto> SBv w 0] t = Some (SBool True)"
    using b(2) [rule_format, of "[''f_x'' \<mapsto> SBv w 0]" 0] by (simp add: name example_enum_def)
  moreover have "hd (env_fields (env example_enum)) = (?f, ?info)" by (simp add: example_enum_def)
  ultimately show ?thesis using b(1) by (auto simp: example_enum_def)
qed

text \<open>
  Symbols: \<^verbatim>\<open>sanitize\<close> yields a simple SMT-LIB symbol for every name: not empty, alphanumeric or
  underscore throughout, and not starting with a digit.
\<close>

theorem sanitize_symbol:
  "sanitize s \<noteq> [] \<and> (\<forall>c \<in> set (sanitize s). is_ascii_alphanumeric c \<or> c = CHR ''_'') \<and>
   \<not> is_ascii_digit (hd (sanitize s))"
proof -
  have "\<not> is_ascii_digit (CHR ''_'')" by code_simp
  then show ?thesis by (auto simp: sanitize_def Let_def)
qed

theorem sanitize_symbol_witness: "hd (sanitize ''7a'') = CHR ''_'' \<and> \<not> is_ascii_digit (hd (sanitize ''7a''))"
proof -
  have "hd (sanitize ''7a'') = CHR ''_''" by code_simp
  then show ?thesis using sanitize_symbol [of "''7a''"] by simp
qed

text \<open>
  An ill-formed problem never reaches the renderer: the backend returns the verifier's errors, and
  there is at least one.
\<close>

theorem backend_rejects_ill_formed:
  assumes "\<not> well_formed_problem p"
  shows "\<exists>errs. Z3Backend_build p = Inl (Verify errs) \<and> verify_constraint_problem p = Inl errs \<and> errs \<noteq> []"
  using assms by (rule z3.ill_formed_reported)

theorem backend_rejects_ill_formed_witness:
  "\<exists>errs. Z3Backend_build (example_problem\<lparr>solve_order := Some [FieldPath [''y'']]\<rparr>) = Inl (Verify errs) \<and> errs \<noteq> []"
  using backend_rejects_ill_formed [of "example_problem\<lparr>solve_order := Some [FieldPath [''y'']]\<rparr>"]
  by (auto simp: well_formed_problem_def example_problem_def lookup_def)

text \<open>The map from field paths to symbols is not injective: a nested field and a flat one can share a symbol.\<close>

lemma z3_field_name_collision:
  "FieldPath [''a'', ''b''] \<noteq> FieldPath [''a_b''] \<and>
   z3_field_name (FieldPath [''a'', ''b'']) = z3_field_name (FieldPath [''a_b''])"
  by (simp add: z3_field_name_def dotted_def) code_simp

text \<open>
  Range membership of Boolean items is accepted by the verifier and lowered, but to a bit-vector
  comparison of Booleans, which has no value in any assignment.
\<close>

lemma bool_range_ill_sorted:
  fixes p :: "('a, 'r) CTypedProblem"
  defines "lit b \<equiv> CTypedExpr (BoolLit b) CType.Bool Span_default"
  defines "e \<equiv> CTypedExpr (InRange (lit True) (Some (lit False)) None) CType.Bool Span_default"
  shows "typed p Map.empty e \<and>
    lower_expr p e = Inr (show_smt (Op2 ''bvule'' (Const False) (Const True))) \<and>
    smt_eval \<sigma> (Op2 ''bvule'' (Const False) (Const True)) = None"
  by (simp add: e_def lit_def typed_simps has_type_simps lower_range_membership_def push_bound_def join_bool_def)

text \<open>
  The result of \<^verbatim>\<open>len()\<close> is a symbol that no declaration introduces, and the verifier accepts it on a
  field of any type.
\<close>

lemma len_accepted_on_scalar:
  "lookup (env p) f = Some info \<Longrightarrow> concrete p (fi_ty info) \<Longrightarrow>
   typed p Map.empty (CTypedExpr (FieldMethodCall (CTypedExpr (FieldRef f) (fi_ty info) s) Len []) (CType_uint 32) s')"
  by (auto simp: typed_simps has_type_simps CType_uint_def)

end
