(* ===== verification/Ir_Types.thy ===== *)
theory Ir_Types
  imports Harc_Prelude "HOL-Library.Sublist"
begin

text \<open>
  The value types of the testbench IR (\<^verbatim>\<open>src/ir/mod.rs\<close>): \<^verbatim>\<open>IrType\<close> with the element types of queues,
  sequences and events, the storage class codegen gives a value type, the compatibility test for sequence
  elements, log verbosities, and the names that identify the callbacks of a test.

  Rust's \<^verbatim>\<open>u32\<close> and \<^verbatim>\<open>usize\<close> widths, lengths and ids are naturals: the code of this theory only compares
  them and divides by 32.
\<close>

section \<open>Ids\<close>

type_synonym FunctionId = nat
type_synonym BlockId = nat
type_synonym LocalId = nat
type_synonym CovgroupId = nat
type_synonym TestbenchId = nat
type_synonym TestId = nat
type_synonym TestbenchTypeId = nat
type_synonym TestbenchMethodId = nat
type_synonym RecordId = nat
type_synonym TransactorId = nat
type_synonym TransactorCallableId = nat
type_synonym ScoreboardId = nat
type_synonym RegblockId = nat
type_synonym ComponentId = nat
type_synonym ComponentCallableId = nat
type_synonym ProbeId = nat
type_synonym BusBindingId = nat
type_synonym PropertyCheckId = nat
type_synonym CoverCheckId = nat
type_synonym CycleHandlerId = nat
type_synonym ConstraintRef = nat

section \<open>Value types\<close>

datatype IrType =
    UInt "nat option"
  | SInt "nat option"
  | Bool
  | String
  | Record RecordId
  | RecordSeq RecordId
  | Seq IrType
  | FixedVec IrType nat
  | Component ComponentId
  | PortSnapshot
  | Event EventPayload
  | Unknown
and EventPayload =
    Scalar (payload_signed: bool) (payload_width: "nat option") (payload_boolean: bool)
  | PFixedVec IrType nat
  | PRecord RecordId

datatype TseqElem =
    TRecord RecordId
  | TScalar IrType

fun seq_type :: "TseqElem \<Rightarrow> IrType" where
  "seq_type (TRecord r) = RecordSeq r"
| "seq_type (TScalar t) = Seq t"

datatype QueueElem =
    QScalar IrType
  | QFixedVec IrType nat
  | QList IrType
  | QRecord RecordId

fun QueueElem_ir_type :: "QueueElem \<Rightarrow> IrType" where
  "QueueElem_ir_type (QScalar ty) = ty"
| "QueueElem_ir_type (QFixedVec elem n) = FixedVec elem n"
| "QueueElem_ir_type (QList elem) = (case elem of Record r \<Rightarrow> RecordSeq r | _ \<Rightarrow> Seq elem)"
| "QueueElem_ir_type (QRecord r) = Record r"

fun scalar_ir_type :: "EventPayload \<Rightarrow> IrType option" where
  "scalar_ir_type (Scalar sg width boolean) =
     Some (if boolean then Bool else if sg then SInt width else UInt width)"
| "scalar_ir_type (PRecord _) = None"
| "scalar_ir_type (PFixedVec _ _) = None"

text \<open>
  The scalar case of \<^verbatim>\<open>value_ir_type\<close> unwraps \<^verbatim>\<open>scalar_ir_type\<close> with \<^verbatim>\<open>expect\<close>: \<^const>\<open>None\<close> is the panic.
\<close>

fun value_ir_type :: "EventPayload \<Rightarrow> IrType option" where
  "value_ir_type (Scalar sg width boolean) = scalar_ir_type (Scalar sg width boolean)"
| "value_ir_type (PRecord r) = Some (Record r)"
| "value_ir_type (PFixedVec elem n) = Some (FixedVec elem n)"

datatype ProbeScalarType = PBit | PBool | PUInt nat | PSInt nat | PBits nat

fun ProbeScalarType_width :: "ProbeScalarType \<Rightarrow> nat" where
  "ProbeScalarType_width PBit = 1"
| "ProbeScalarType_width PBool = 1"
| "ProbeScalarType_width (PUInt w) = w"
| "ProbeScalarType_width (PSInt w) = w"
| "ProbeScalarType_width (PBits w) = w"

fun ProbeScalarType_ir_type :: "ProbeScalarType \<Rightarrow> IrType" where
  "ProbeScalarType_ir_type PBit = Bool"
| "ProbeScalarType_ir_type PBool = Bool"
| "ProbeScalarType_ir_type (PUInt w) = UInt (Some w)"
| "ProbeScalarType_ir_type (PBits w) = UInt (Some w)"
| "ProbeScalarType_ir_type (PSInt w) = SInt (Some w)"

section \<open>Storage classes\<close>

datatype ValueAbiClass =
    AbiBool | Unsigned64 | Signed64 | Wide128 | WideWords nat | AbiRecord RecordId

definition div_ceil :: "nat \<Rightarrow> nat \<Rightarrow> nat" where
  "div_ceil n d = n div d + (if n mod d > 0 then 1 else 0)"

fun value_abi_class :: "IrType \<Rightarrow> ValueAbiClass option" where
  "value_abi_class Bool = Some AbiBool"
| "value_abi_class (UInt w) =
     (case w of
        Some width \<Rightarrow>
          if width > 128 then Some (WideWords (div_ceil width 32))
          else if width > 64 then Some Wide128
          else Some Unsigned64
      | None \<Rightarrow> Some Unsigned64)"
| "value_abi_class (SInt w) =
     (case w of
        Some width \<Rightarrow>
          if width > 128 then Some (WideWords (div_ceil width 32))
          else if width > 64 then Some Wide128
          else Some Signed64
      | None \<Rightarrow> Some Signed64)"
| "value_abi_class (Record r) = Some (AbiRecord r)"
| "value_abi_class _ = None"

definition widthless :: "IrType \<Rightarrow> bool" where
  "widthless ty \<longleftrightarrow> ty = UInt None \<or> ty = SInt None"

text \<open>The final \<^verbatim>\<open>match\<close> of \<^verbatim>\<open>sequence_element_compatible\<close>, on two sized integers of one signedness.\<close>

fun narrower_int :: "IrType \<Rightarrow> IrType \<Rightarrow> bool" where
  "narrower_int (UInt (Some expected)) (UInt (Some actual)) = (actual \<le> expected)"
| "narrower_int (SInt (Some expected)) (SInt (Some actual)) = (actual \<le> expected)"
| "narrower_int _ _ = False"

definition scalar_element_compatible :: "IrType \<Rightarrow> IrType \<Rightarrow> bool" where
  "scalar_element_compatible expected actual =
     (case value_abi_class expected of
        None \<Rightarrow> False
      | Some expected_class \<Rightarrow>
          if Some expected_class \<noteq> value_abi_class actual then False
          else if expected = actual then True
          else if widthless expected \<or> widthless actual then True
          else narrower_int expected actual)"

fun sequence_element_compatible :: "IrType \<Rightarrow> IrType \<Rightarrow> bool" where
  "sequence_element_compatible (FixedVec expected_elem expected_len) (FixedVec actual_elem actual_len) =
     (expected_len = actual_len \<and> sequence_element_compatible expected_elem actual_elem)"
| "sequence_element_compatible expected actual = scalar_element_compatible expected actual"

section \<open>Log verbosity\<close>

datatype LogVerbosity = Low | Medium | High | VDebug | Full

definition LogVerbosity_ALL :: "LogVerbosity list" where
  "LogVerbosity_ALL = [Low, Medium, High, VDebug, Full]"

fun rank :: "LogVerbosity \<Rightarrow> nat" where
  "rank Low = 0"
| "rank Medium = 1"
| "rank High = 2"
| "rank VDebug = 3"
| "rank Full = 4"

fun LogVerbosity_name :: "LogVerbosity \<Rightarrow> string" where
  "LogVerbosity_name Low = ''LOW''"
| "LogVerbosity_name Medium = ''MEDIUM''"
| "LogVerbosity_name High = ''HIGH''"
| "LogVerbosity_name VDebug = ''DEBUG''"
| "LogVerbosity_name Full = ''FULL''"

definition to_ascii_lowercase :: "char \<Rightarrow> char" where
  "to_ascii_lowercase c =
     (let n = of_char c :: nat in if 65 \<le> n \<and> n \<le> 90 then char_of (n + 32) else c)"

definition eq_ignore_ascii_case :: "string \<Rightarrow> string \<Rightarrow> bool" where
  "eq_ignore_ascii_case a b \<longleftrightarrow> map to_ascii_lowercase a = map to_ascii_lowercase b"

definition LogVerbosity_parse :: "string \<Rightarrow> LogVerbosity option" where
  "LogVerbosity_parse name = find (\<lambda>v. eq_ignore_ascii_case (LogVerbosity_name v) name) LogVerbosity_ALL"

section \<open>Names of callbacks\<close>

datatype TestCallableMember = Run | Check

fun TestCallableMember_symbol :: "TestCallableMember \<Rightarrow> string" where
  "TestCallableMember_symbol Run = ''run''"
| "TestCallableMember_symbol Check = ''check''"

record TestHookSiteOwner =
  owner_test :: string
  owner_member :: TestCallableMember

record TestHookSiteId =
  site_owner :: TestHookSiteOwner
  ordinal :: nat

definition TestHookSiteId_symbol :: "TestHookSiteId \<Rightarrow> string" where
  "TestHookSiteId_symbol s =
     TestCallableMember_symbol (owner_member (site_owner s)) @ ''_hs'' @ show_nat (ordinal s)"

datatype TestHookMember =
    EventSubscription TestHookSiteId
  | MethodSubscription TestHookSiteId
  | StatementCycle TestHookSiteId
  | RegblockWrite (hook_binding: string) (hook_register: string)
  | TestbenchPeriodic nat
  | TestbenchCycle nat
  | Pending

text \<open>\<^verbatim>\<open>binding.len()\<close> counts the bytes of the name; names are strings of one-byte characters here.\<close>

definition regblock_symbol :: "string \<Rightarrow> string \<Rightarrow> string" where
  "regblock_symbol binding register =
     ''regblock_b'' @ show_nat (length binding) @ ''_'' @ binding @
     ''_r'' @ show_nat (length register) @ ''_'' @ register"

fun TestHookMember_symbol :: "TestHookMember \<Rightarrow> string" where
  "TestHookMember_symbol (EventSubscription site) = ''event_'' @ TestHookSiteId_symbol site"
| "TestHookMember_symbol (MethodSubscription site) = ''method_'' @ TestHookSiteId_symbol site"
| "TestHookMember_symbol (StatementCycle site) = ''cycle_'' @ TestHookSiteId_symbol site"
| "TestHookMember_symbol (RegblockWrite binding register) = regblock_symbol binding register"
| "TestHookMember_symbol (TestbenchPeriodic service) = ''tb_periodic_'' @ show_nat service"
| "TestHookMember_symbol (TestbenchCycle service) = ''tb_cycle_'' @ show_nat service"
| "TestHookMember_symbol Pending = ''pending''"

fun function_name :: "TestHookMember \<Rightarrow> string \<Rightarrow> string" where
  "function_name (EventSubscription site) _ =
     owner_test (site_owner site) @ ''_on_event_'' @ TestHookSiteId_symbol site"
| "function_name (MethodSubscription site) _ =
     owner_test (site_owner site) @ ''_on_method_hook_'' @ TestHookSiteId_symbol site"
| "function_name (StatementCycle site) _ =
     owner_test (site_owner site) @ ''_on_handler_'' @ TestHookSiteId_symbol site"
| "function_name (RegblockWrite binding register) test_name =
     test_name @ ''_'' @ regblock_symbol binding register @ ''_cb''"
| "function_name (TestbenchPeriodic service) test_name = test_name @ ''_tb_periodic_'' @ show_nat service"
| "function_name (TestbenchCycle service) test_name = test_name @ ''_tb_cycle_'' @ show_nat service"
| "function_name Pending _ = ''_pending_test_hook''"

section \<open>Facts\<close>

text \<open>
  The container carrier of a value type: the storage class of its innermost element and the lengths of the
  fixed vectors around it.
\<close>

fun value_carrier :: "IrType \<Rightarrow> (ValueAbiClass \<times> nat list) option" where
  "value_carrier (FixedVec elem n) = map_option (\<lambda>(c, ns). (c, n # ns)) (value_carrier elem)"
| "value_carrier ty = map_option (\<lambda>c. (c, [])) (value_abi_class ty)"

fun innermost :: "IrType \<Rightarrow> IrType" where
  "innermost (FixedVec elem n) = innermost elem"
| "innermost ty = ty"

lemma value_carrier_scalar:
  "value_abi_class ty = Some c \<Longrightarrow> value_carrier ty = Some (c, []) \<and> innermost ty = ty"
  by (cases ty) simp_all

lemma scalar_element_compatible_iff:
  "scalar_element_compatible e a \<longleftrightarrow>
     value_abi_class e \<noteq> None \<and> value_abi_class e = value_abi_class a \<and>
     (e = a \<or> widthless e \<or> widthless a \<or> narrower_int e a)"
  by (cases "value_abi_class e") (simp_all add: scalar_element_compatible_def)

lemma scalar_element_compatibleD:
  "scalar_element_compatible e a \<Longrightarrow> value_carrier e = value_carrier a \<and> value_carrier e \<noteq> None"
  by (metis option.distinct(1) option.exhaust scalar_element_compatible_iff value_carrier_scalar)

lemma narrower_int_trans: "narrower_int e m \<Longrightarrow> narrower_int m a \<Longrightarrow> narrower_int e a"
  by (cases "(e, m)" rule: narrower_int.cases; cases "(m, a)" rule: narrower_int.cases) auto

lemma scalar_element_compatible_trans:
  "scalar_element_compatible e m \<Longrightarrow> scalar_element_compatible m a \<Longrightarrow> \<not> widthless m \<Longrightarrow>
     scalar_element_compatible e a"
  unfolding scalar_element_compatible_iff by (metis narrower_int_trans)

lemma compatible_scalar:
  assumes "value_abi_class e \<noteq> None \<or> value_abi_class a \<noteq> None"
  shows "sequence_element_compatible e a = scalar_element_compatible e a"
  by (cases "(e, a)" rule: sequence_element_compatible.cases) (use assms in simp_all)

lemma not_vec_compatible:
  "sequence_element_compatible e a \<Longrightarrow> (\<forall>x n. a \<noteq> FixedVec x n) \<Longrightarrow> scalar_element_compatible e a"
  by (cases "(e, a)" rule: sequence_element_compatible.cases) simp_all

lemma vec_induct [case_names vec scalar]:
  assumes "\<And>y n. P y \<Longrightarrow> P (FixedVec y n)" "\<And>t. (\<forall>x n. t \<noteq> FixedVec x n) \<Longrightarrow> P t"
  shows "P t"
  by (induction t rule: innermost.induct) (simp_all add: assms)

lemma innermost_scalar: "(\<forall>x n. t \<noteq> FixedVec x n) \<Longrightarrow> innermost t = t"
  by (cases t) simp_all

lemma compatible_vec_left:
  "sequence_element_compatible (FixedVec x n) a \<longleftrightarrow> (\<exists>y. a = FixedVec y n \<and> sequence_element_compatible x y)"
  by (cases a; simp add: scalar_element_compatible_iff; blast)

lemma compatible_vec_right:
  "sequence_element_compatible e (FixedVec y n) \<longleftrightarrow> (\<exists>x. e = FixedVec x n \<and> sequence_element_compatible x y)"
  by (cases e; simp add: scalar_element_compatible_iff) auto

lemma compatible_carrier:
  "sequence_element_compatible e a \<Longrightarrow> value_carrier e = value_carrier a \<and> value_carrier e \<noteq> None"
proof (induction a arbitrary: e rule: vec_induct)
  case (vec y n)
  from vec.prems obtain x where "e = FixedVec x n" "sequence_element_compatible x y"
    by (auto simp: compatible_vec_right)
  with vec.IH [of x] show ?case by (metis option.map_disc_iff value_carrier.simps(1))
next
  case (scalar t)
  then show ?case using not_vec_compatible scalar_element_compatibleD by blast
qed

lemma compatible_refl: "value_carrier t \<noteq> None \<Longrightarrow> sequence_element_compatible t t"
  by (induction t rule: value_carrier.induct)
    (simp_all add: scalar_element_compatible_iff split: option.split)

lemma compatible_trans:
  "sequence_element_compatible e m \<Longrightarrow> sequence_element_compatible m a \<Longrightarrow> \<not> widthless (innermost m) \<Longrightarrow>
     sequence_element_compatible e a"
proof (induction m arbitrary: e a rule: vec_induct)
  case (vec y n)
  then show ?case by (auto simp: compatible_vec_left compatible_vec_right)
next
  case (scalar m)
  have em: "scalar_element_compatible e m" using scalar not_vec_compatible by blast
  have "sequence_element_compatible m a = scalar_element_compatible m a"
    by (rule compatible_scalar) (use em in \<open>auto simp: scalar_element_compatible_iff\<close>)
  with scalar em have "scalar_element_compatible e a"
    using scalar_element_compatible_trans by (simp add: innermost_scalar)
  moreover have "sequence_element_compatible e a = scalar_element_compatible e a"
    by (rule compatible_scalar) (use em in \<open>auto simp: scalar_element_compatible_iff\<close>)
  ultimately show ?case by simp
qed

text \<open>
  An element accepted into a sequence slot has the slot's container carrier, a value type with a
  carrier is accepted into its own slot, and acceptance composes through a slot of known width.
\<close>

theorem sequence_element_carrier:
  "(sequence_element_compatible e a \<longrightarrow> value_carrier e = value_carrier a \<and> value_carrier e \<noteq> None) \<and>
   (value_carrier e \<noteq> None \<longrightarrow> sequence_element_compatible e e) \<and>
   (sequence_element_compatible e m \<and> sequence_element_compatible m a \<and> \<not> widthless (innermost m) \<longrightarrow>
      sequence_element_compatible e a)"
  using compatible_carrier compatible_refl compatible_trans by blast

theorem sequence_element_carrier_witness:
  "sequence_element_compatible (FixedVec (UInt (Some 40)) 4) (FixedVec (UInt (Some 8)) 4) \<and>
   sequence_element_compatible (FixedVec (UInt (Some 40)) 4) (FixedVec (UInt (Some 40)) 4) \<and>
   value_carrier (FixedVec (UInt (Some 40)) 4) = Some (Unsigned64, [4]) \<and>
   \<not> sequence_element_compatible (UInt (Some 80)) (SInt (Some 80))"
  using sequence_element_carrier [of "FixedVec (UInt (Some 40)) 4" "FixedVec (UInt (Some 8)) 4"
      "FixedVec (UInt (Some 40)) 4"]
  by (simp add: scalar_element_compatible_iff widthless_def)

section \<open>Verbosity names\<close>

lemma lowercase_name_inj:
  "map to_ascii_lowercase (LogVerbosity_name v) = map to_ascii_lowercase (LogVerbosity_name w) \<longleftrightarrow> v = w"
  by (cases v; cases w) (simp_all add: to_ascii_lowercase_def Let_def char_of_eq_iff)

lemma eq_ignore_ascii_case_inj:
  "eq_ignore_ascii_case (LogVerbosity_name v) name \<Longrightarrow> eq_ignore_ascii_case (LogVerbosity_name w) name \<Longrightarrow> v = w"
  using lowercase_name_inj by (metis eq_ignore_ascii_case_def)

text \<open>
  A verbosity parses from a name exactly when the name is the level's own up to letter case, so
  printing and parsing are inverse; the rank orders the levels as the table does.
\<close>

theorem verbosity_roundtrip:
  "(LogVerbosity_parse name = Some v \<longleftrightarrow> eq_ignore_ascii_case (LogVerbosity_name v) name) \<and>
   LogVerbosity_parse (LogVerbosity_name v) = Some v \<and>
   LogVerbosity_ALL ! rank v = v"
proof -
  have *: "(LogVerbosity_parse n = Some v) = eq_ignore_ascii_case (LogVerbosity_name v) n" for n v
  proof
    show "eq_ignore_ascii_case (LogVerbosity_name v) n" if "LogVerbosity_parse n = Some v"
      using that unfolding LogVerbosity_parse_def by (auto simp: find_Some_iff)
    show "LogVerbosity_parse n = Some v" if v: "eq_ignore_ascii_case (LogVerbosity_name v) n"
    proof -
      have "v \<in> set LogVerbosity_ALL" by (cases v) (simp_all add: LogVerbosity_ALL_def)
      with v obtain w where "LogVerbosity_parse n = Some w"
        unfolding LogVerbosity_parse_def by (metis find_None_iff option.exhaust)
      then show ?thesis
        using v eq_ignore_ascii_case_inj unfolding LogVerbosity_parse_def by (metis find_Some_iff)
    qed
  qed
  have "LogVerbosity_ALL ! rank v = v" by (cases v) (simp_all add: LogVerbosity_ALL_def)
  then show ?thesis by (simp add: *) (simp add: eq_ignore_ascii_case_def)
qed

section \<open>Callback names\<close>

lemma digits_delimited:
  assumes "list_all is_ascii_digit xs" "list_all is_ascii_digit ys" "\<not> is_ascii_digit c" "\<not> is_ascii_digit d"
    and "xs @ c # r = ys @ d # r'"
  shows "xs = ys \<and> c # r = d # r'"
proof -
  have "takeWhile is_ascii_digit (zs @ e # q) = zs \<and> dropWhile is_ascii_digit (zs @ e # q) = e # q"
    if "list_all is_ascii_digit zs" "\<not> is_ascii_digit e" for zs e q
    using that by (induction zs) auto
  from this [OF assms(1,3), of r] this [OF assms(2,4), of r'] assms(5) show ?thesis by metis
qed

lemma show_nat_all_digits: "list_all is_ascii_digit (show_nat n)"
  by (simp add: list_all_iff show_nat_digits)

lemma length_prefixed_inj:
  assumes "show_nat (length a) @ CHR ''_'' # a @ r = show_nat (length b) @ CHR ''_'' # b @ r'"
  shows "a = b \<and> r = r'"
proof -
  have "\<not> is_ascii_digit CHR ''_''" by (simp add: is_ascii_digit_def)
  with assms have *: "show_nat (length a) = show_nat (length b) \<and> a @ r = b @ r'"
    using digits_delimited [OF show_nat_all_digits show_nat_all_digits] by blast
  then have "length a = length b" using show_nat_inject by blast
  with * show ?thesis by simp
qed

lemma regblock_symbol_inj:
  assumes "regblock_symbol b r = regblock_symbol b' r'" shows "b = b' \<and> r = r'"
  using assms length_prefixed_inj [of b _ b' _] length_prefixed_inj [of r "[]" r' "[]"]
  by (simp add: regblock_symbol_def) blast

lemma TestHookSiteId_symbol_inj:
  "TestHookSiteId_symbol s = TestHookSiteId_symbol t \<Longrightarrow> owner_test (site_owner s) = owner_test (site_owner t) \<Longrightarrow>
     s = t"
  by (cases s; cases t; cases "site_owner s"; cases "site_owner t";
      cases "owner_member (site_owner s)"; cases "owner_member (site_owner t)")
    (simp_all add: TestHookSiteId_symbol_def show_nat_inject)

text \<open>The callbacks that a test registers: its site ids name that test as their owner.\<close>

fun hook_of :: "string \<Rightarrow> TestHookMember \<Rightarrow> bool" where
  "hook_of t (EventSubscription site) = (owner_test (site_owner site) = t)"
| "hook_of t (MethodSubscription site) = (owner_test (site_owner site) = t)"
| "hook_of t (StatementCycle site) = (owner_test (site_owner site) = t)"
| "hook_of t _ = True"

lemma last_show_nat: "last (show_nat n) \<noteq> CHR ''k''"
  using show_nat_digits [of "last (show_nat n)" n] last_in_set [OF show_nat_not_Nil [of n]]
  by (auto simp: is_ascii_digit_def)

lemma regblock_symbol_hd:
  "c \<noteq> CHR ''r'' \<Longrightarrow> regblock_symbol b r \<noteq> c # xs"
  "c \<noteq> CHR ''r'' \<Longrightarrow> c # xs \<noteq> regblock_symbol b r"
  "c \<noteq> CHR ''r'' \<Longrightarrow> regblock_symbol b r @ ys \<noteq> c # xs"
  "c \<noteq> CHR ''r'' \<Longrightarrow> c # xs \<noteq> regblock_symbol b r @ ys"
  by (simp_all add: regblock_symbol_def)

lemma function_name_last: "h \<noteq> Pending \<Longrightarrow> last (function_name h t) \<noteq> CHR ''k''"
  by (cases h) (simp_all add: TestHookSiteId_symbol_def last_show_nat)

lemma function_name_Pending: "function_name h t = function_name Pending t' \<longleftrightarrow> h = Pending"
  using function_name_last [of h t] by (cases "h = Pending") (force+)

lemma symbol_inj:
  "hook_of t h \<Longrightarrow> hook_of t h' \<Longrightarrow> TestHookMember_symbol h = TestHookMember_symbol h' \<Longrightarrow> h = h'"
  by (cases h; cases h') (auto simp: regblock_symbol_hd dest: TestHookSiteId_symbol_inj regblock_symbol_inj)

lemma function_name_inj:
  assumes "hook_of t h" "hook_of t h'" "function_name h t = function_name h' t"
  shows "h = h'"
proof (cases "h = Pending \<or> h' = Pending")
  case True
  then show ?thesis using assms(3) function_name_Pending [of h t t] function_name_Pending [of h' t t] by metis
next
  case False
  then show ?thesis using assms
    by (cases h; cases h') (auto simp: regblock_symbol_hd dest: TestHookSiteId_symbol_inj regblock_symbol_inj)
qed

text \<open>
  Within one test both spellings of a callback identify it: distinct callbacks have distinct symbols and
  distinct function names.
\<close>

theorem hook_names_injective:
  assumes "hook_of t h" "hook_of t h'"
  shows "(TestHookMember_symbol h = TestHookMember_symbol h' \<longleftrightarrow> h = h') \<and>
    (function_name h t = function_name h' t \<longleftrightarrow> h = h')"
  using assms symbol_inj function_name_inj by blast

theorem hook_names_injective_witness:
  "TestHookMember_symbol (RegblockWrite ''a_r1_b'' ''c'') \<noteq> TestHookMember_symbol (RegblockWrite ''a'' ''b_r1_c'') \<and>
   function_name (RegblockWrite ''a_r1_b'' ''c'') ''T'' \<noteq> function_name (RegblockWrite ''a'' ''b_r1_c'') ''T''"
  using hook_names_injective [of "''T''" "RegblockWrite ''a_r1_b'' ''c''" "RegblockWrite ''a'' ''b_r1_c''"]
  by (simp del: function_name.simps TestHookMember_symbol.simps)

end
