(* ===== verification/Ir_Syntax.thy ===== *)
theory Ir_Syntax
  imports Ir_Types
begin

text \<open>
  The expressions, statements, terminators and functions of the testbench IR (\<^verbatim>\<open>src/ir/mod.rs\<close>), with the
  constructors of the source.  A constructor whose Rust name is also the name of a constructor of another
  type is qualified by its type here as there (\<^verbatim>\<open>Expr::Local\<close> is \<^verbatim>\<open>Expr.Local\<close>).

  \<^verbatim>\<open>u64\<close> literals are words; \<^verbatim>\<open>i64\<close> picoseconds are integers.
\<close>

section \<open>Parts of expressions\<close>

datatype TemporalFn = Past | Rose | Fell | Stable

datatype ComponentInstanceMode = Active | Passive

datatype DynamicListQuery = Size | Empty

datatype IdleKind = IdleIn | IdleOut | IdleBoth

datatype WidthCastKind = Trunc | Zext | Sext | Resize

datatype BinOp =
    Add | Sub | Mul | Div | Mod | Eq | Ne | Lt | Le | Gt | Ge | And | Or
  | BitAnd | BitOr | BitXor | Shl | Shr

datatype UnOp = Neg | Not | BitNot | BitNotHost

datatype ScoreboardQuery =
    QScalarRead (query_scalar: string)
  | QueueSize string
  | QueueEmpty string
  | QueueFront string QueueElem

fun ScoreboardQuery_queue :: "ScoreboardQuery \<Rightarrow> string option" where
  "ScoreboardQuery_queue (QScalarRead _) = None"
| "ScoreboardQuery_queue (QueueSize queue) = Some queue"
| "ScoreboardQuery_queue (QueueEmpty queue) = Some queue"
| "ScoreboardQuery_queue (QueueFront queue _) = Some queue"

fun value_type :: "ScoreboardQuery \<Rightarrow> IrType option" where
  "value_type (QScalarRead _) = None"
| "value_type (QueueSize _) = Some (UInt None)"
| "value_type (QueueEmpty _) = Some Bool"
| "value_type (QueueFront _ elem) = Some (QueueElem_ir_type elem)"

datatype ComponentBase =
    SelfField
  | Path "string list"
  | Local LocalId
  | LocalPath LocalId "string list"

datatype TransactorMethodTarget =
    ConcreteBusBinding BusBindingId string
  | TestbenchBusField TestbenchTypeId string string
  | BoundBus
  | Callable TransactorId FunctionId

datatype CallTarget =
    Helper FunctionId string IrType
  | Builtin string
  | ExternFn string "IrType list" IrType
  | TransactorMethod string string TransactorMethodTarget
  | TransactorSelfMethod TransactorId string string FunctionId
  | Tseq FunctionId string

record CovgroupInstance =
  tb_field :: string
  covgroup :: CovgroupId

datatype DeferredBusBinding = Unresolved | Selected string

datatype PortOrigin =
    Dut
  | BusBinding BusBindingId string
  | BoundBusPort

datatype PortDirection = In | Out

datatype PortAccess = Port | Probe | Force

section \<open>Expressions\<close>

datatype (plugins only: size code) Expr =
    Literal u64 IrType
  | StringLiteral string
  | WideLiteral "u32 list"
  | Local LocalId
  | Port PortRef
  | RecordField LocalId string "string list" "(nat \<times> Expr) list" "Expr option"
  | TbField string
  | TbFieldVecElement string Expr "Expr option"
  | TemporalSlot nat TemporalFn
  | TbQueueQuery string ScoreboardQuery
  | TransactorState string string
  | TransactorStateRecordField string string "string list" "(nat \<times> Expr) list" "Expr option"
  | TransactorStateQueueQuery string string ScoreboardQuery
  | ScoreboardQuery ScoreboardId string ScoreboardQuery "string list option"
  | ComponentField ComponentBase string
  | ComponentVecElement ComponentBase string nat Expr "Expr option"
  | ComponentValue ComponentBase
  | ComponentQueueQuery ComponentBase ScoreboardQuery
  | DynamicListQuery Expr DynamicListQuery
  | ComponentIdle ComponentBase "string list" IdleKind Expr
  | TransactorIdle string TransactorId string IdleKind Expr
  | CycleCount
  | ErrorCount
  | Binary BinOp Expr Expr
  | Unary UnOp Expr
  | Ternary Expr Expr Expr
  | BitSlice Expr nat nat
  | BitSliceDyn Expr Expr Expr
  | PortSnapshotLane LocalId PortRef Expr
  | WidthCast WidthCastKind nat "nat option" Expr
  | CovBin CovgroupInstance string string
  | CovHookParam string string "Expr option"
  | CovHookArg string
  | SeqLen LocalId
  | SeqIndex LocalId Expr "Expr option"
  | Call CallTarget "Expr list"
  | RegRead LocalId string string u64 bool
and PortRef =
    PortRef (testbench_field: string) (origin: PortOrigin) (port_path: "string list") (aggregate_path: bool)
      (deferred_bus_binding: "DeferredBusBinding option") (direction: "PortDirection option")
      (port_width: "nat option") (port_value_type: "IrType option") (access: PortAccess)
      (probe: "ProbeId option") (lane: "LaneIndex option")
and LaneIndex =
    Const u64
  | Var Expr

section \<open>Statements\<close>

datatype FileLogLevel = FDebug | FInfo | FWarn | FError | FFatal

datatype LogLevel = Debug | Info | Warn | Error | Fatal | File string FileLogLevel

record LogAttrs =
  verbosity :: "LogVerbosity option"
  log_id :: "string option"

definition LogAttrs_is_empty :: "LogAttrs \<Rightarrow> bool" where
  "LogAttrs_is_empty a \<longleftrightarrow> verbosity a = None \<and> log_id a = None"

record FmtArg =
  fa_expr :: Expr
  wide_hex :: "(nat \<times> bool) option"

record FmtArgs =
  fmt :: string
  fmt_args :: "FmtArg list"

datatype EventChannelRef =
    ELocal LocalId
  | EComponent ComponentBase ComponentId string EventPayload

datatype MethodHookTarget =
    MTransactor string TransactorId string
  | MComponent ComponentBase ComponentId string

datatype HookSide = Pre | Post

record TlmForkDesc =
  bus_field :: string
  tlm_target :: TransactorMethodTarget
  tlm_method :: string
  tlm_args :: "Expr list"
  tlm_dest :: "LocalId option"
  has_ret :: bool
  tlm_tag :: "u64 option"

datatype ScoreboardOp =
    QueuePush string Expr
  | QueuePop string LocalId
  | ScalarWrite string Expr

datatype (plugins only: size code) Stmt =
    Assign LocalId Expr
  | DutWrite PortRef Expr
  | DutRead LocalId PortRef
  | ProbeRelease PortRef
  | RecordInit LocalId RecordId
  | AggregateInit LocalId
  | RecordFieldWrite LocalId string "string list" "(nat \<times> Expr) list" "Expr option" Expr
  | RecordRead LocalId LocalId RegblockId Expr
  | RecordWrite LocalId string RegblockId Expr Expr
  | RecordWriteCb LocalId string string u64 Expr u64 "FunctionId option"
  | TbFieldWrite string Expr
  | TbFieldVecElementWrite string Expr "Expr option" Expr
  | LocalVecElementWrite LocalId Expr "Expr option" Expr
  | TbQueuePush string Expr
  | TbQueuePop string LocalId
  | TransactorStateWrite string string Expr
  | TransactorStateRecordFieldWrite string string "string list" "(nat \<times> Expr) list" "Expr option" Expr
  | TransactorStateQueuePush string string Expr
  | TransactorStateQueuePop string string LocalId
  | Log LogLevel FmtArgs LogAttrs
  | AssertCheck Expr FmtArgs
  | AssumeCheck Expr FmtArgs
  | PropertyCheck PropertyCheckId
  | CoverCheck CoverCheckId
  | CycleHandler CycleHandlerId
  | EventSubscribe TestHookSiteId EventChannelRef FunctionId
  | MethodHookSubscribe TestHookSiteId MethodHookTarget HookSide FunctionId "LocalId list"
  | EventEmit LocalId "Expr list"
  | CovReport CovgroupInstance
  | TransactorCall "LocalId option" Expr
  | TransactorSelfCall "LocalId option" Expr
  | HelperCall Expr
  | FailDiag "Expr option" FmtArgs
  | ErrorIncrement
  | ScoreboardOp ScoreboardId string ScoreboardOp "string list option"
  | ComponentFieldWrite ComponentBase string Expr
  | ComponentVecElementWrite ComponentBase string nat Expr "Expr option" Expr
  | ComponentEmit ComponentBase "string list" string "Expr list"
  | ComponentCall ComponentBase ComponentId string FunctionId "Expr list" "LocalId option"
  | TestbenchCall FunctionId "Expr list" "nat list" "LocalId option"
  | ComponentQueuePush ComponentBase string Expr
  | ComponentQueuePop ComponentBase string LocalId
  | ComponentInit LocalId ComponentId "ComponentInstanceMode option"
  | ComponentSubAssign ComponentBase string ComponentBase
  | ComponentAssign ComponentBase ComponentBase
  | SeqPush LocalId Expr
  | TlmFork TlmForkDesc
  | TlmJoinAll "TlmForkDesc list"

section \<open>Terminators and functions\<close>

record WaitClock =
  clock_name :: string
  clock_index :: nat

record PredSrc =
  pred_expr :: Expr
  src_text :: string

datatype WaitMode = Single | AllOf | AnyOf

datatype (plugins only: size code) Terminator =
    Jump BlockId
  | Branch Expr BlockId BlockId
  | WaitCycles Expr "WaitClock option" BlockId
  | WaitCyclesSync Expr BlockId
  | WaitTimePs int BlockId
  | WaitUntil "PredSrc list" WaitMode BlockId
  | WaitUntilTimeout "PredSrc list" WaitMode Expr BlockId BlockId
  | Randomize LocalId ConstraintRef BlockId
  | Return
  | Fatal FmtArgs
  | TbLifecycleCall FunctionId BlockId

fun successors :: "Terminator \<Rightarrow> BlockId list" where
  "successors (Jump b) = [b]"
| "successors (Branch _ t f) = [t, f]"
| "successors (WaitCycles _ _ b) = [b]"
| "successors (WaitCyclesSync _ b) = [b]"
| "successors (WaitTimePs _ b) = [b]"
| "successors (WaitUntil _ _ succ) = [succ]"
| "successors (WaitUntilTimeout _ _ _ on_fire on_timeout) = [on_fire, on_timeout]"
| "successors (Randomize _ _ succ) = [succ]"
| "successors (TbLifecycleCall _ succ) = [succ]"
| "successors Return = []"
| "successors (Terminator.Fatal _) = []"

datatype LifecyclePhase = Setup | PhaseCheck | Teardown

datatype (plugins only: size code) FunctionKind =
    TestBody TestId TestCallableMember string
  | SamplerAuto CovgroupId
  | Helper
  | TestbenchMethod TestbenchTypeId TestbenchMethodId string
  | TransactorBody TransactorId TransactorCallableId string
  | ComponentMethod ComponentId ComponentCallableId "string option"
  | Tseq TseqElem
  | TestHook TestHookMember
  | TestbenchLifecycle TestbenchId LifecyclePhase

record TypedParam =
  param_name :: string
  param_ty :: IrType

record TypedLocal =
  local_name :: string
  local_ty :: IrType

record TbRecordLocalBinding =
  binding_local :: LocalId
  binding_field :: string
  binding_record :: RecordId

record BasicBlock =
  stmts :: "Stmt list"
  terminator :: Terminator

record TbFunction =
  fn_id :: FunctionId
  fn_name :: string
  kind :: FunctionKind
  params :: "TypedParam list"
  locals :: "TypedLocal list"
  blocks :: "BasicBlock list"
  entry :: BlockId
  owner :: "TestbenchId option"
  testbench_record_locals :: "TbRecordLocalBinding list"
  ret :: "LocalId option"
  implicit_returns :: "BlockId list"

section \<open>Programs\<close>

datatype CycleEdge = Rising | Falling | Level

datatype HandlerPhase = Checker | PostEval

datatype PropertySeverity = Fail | AssumeFail

datatype (plugins only: size code) CycleHandlerKind =
    CTrigger Expr CycleEdge
  | Periodic Expr

record CycleHandlerSchema =
  ch_site :: TestHookSiteId
  ch_kind :: CycleHandlerKind
  ch_function :: FunctionId
  ch_phase :: HandlerPhase

datatype (plugins only: size code) PropertyShape =
    Implies Expr Expr
  | ImpliesNext Expr Expr
  | Invariant Expr

record TemporalSlot =
  slot_inner :: Expr

record PropertyCheckSchema =
  pc_tag :: string
  pc_label :: string
  pc_severity :: PropertySeverity
  pc_shape :: PropertyShape
  pc_temporals :: "TemporalSlot list"
  pc_message :: "FmtArgs option"

record CoverCheckSchema =
  cc_tag :: string
  cc_label :: string
  cc_cond :: Expr
  cc_temporals :: "TemporalSlot list"

text \<open>The other schema tables of a program are a parameter: no code modelled here reads them.\<close>

record 'schemas TbProgram =
  prog_functions :: "TbFunction list"
  property_checks :: "PropertyCheckSchema list"
  cover_checks :: "CoverCheckSchema list"
  cycle_handlers :: "CycleHandlerSchema list"
  schemas :: 'schemas

text \<open>\<^verbatim>\<open>&self.functions[id.index()]\<close> and \<^verbatim>\<open>&self.blocks[id.index()]\<close>: \<^const>\<open>None\<close> is the panic.\<close>

definition TbProgram_function :: "'s TbProgram \<Rightarrow> FunctionId \<Rightarrow> TbFunction option" where
  "TbProgram_function p i = (if i < length (prog_functions p) then Some (prog_functions p ! i) else None)"

definition TbFunction_block :: "TbFunction \<Rightarrow> BlockId \<Rightarrow> BasicBlock option" where
  "TbFunction_block f i = (if i < length (blocks f) then Some (blocks f ! i) else None)"

definition TbFunction_local :: "TbFunction \<Rightarrow> LocalId \<Rightarrow> TypedLocal option" where
  "TbFunction_local f i = (if i < length (locals f) then Some (locals f ! i) else None)"

end
