(* ===== verification/Ir_Visit.thy ===== *)
theory Ir_Visit
  imports Ir_Syntax
begin

text \<open>
  The visitors of the testbench IR (\<^verbatim>\<open>src/ir/visit.rs\<close>).

  A closure \<^verbatim>\<open>&mut impl FnMut(&Expr) -> Result<(), E>\<close> reads an expression and may change the state it
  captures and fail: it maps an expression and the captured state to a result and the new state.  A closure
  \<^verbatim>\<open>&mut impl FnMut(&mut Expr)\<close> also replaces the expression; \<^const>\<open>None\<close> is a call that does not return.
\<close>

section \<open>Shared visitors\<close>

type_synonym ('s, 'e) visit_result = "('e, unit) result \<times> 's"

type_synonym ('s, 'e) visitor = "Expr \<Rightarrow> 's \<Rightarrow> ('s, 'e) visit_result"

definition visit_ok :: "'s \<Rightarrow> ('s, 'e) visit_result" where
  "visit_ok s = (Ok (), s)"

text \<open>\<^verbatim>\<open>a?; b\<close>\<close>

definition visit_then ::
  "('s \<Rightarrow> ('s, 'e) visit_result) \<Rightarrow> ('s \<Rightarrow> ('s, 'e) visit_result) \<Rightarrow> 's \<Rightarrow> ('s, 'e) visit_result"
where
  "visit_then a b s = (case a s of (Inl e, s') \<Rightarrow> (Inl e, s') | (Inr _, s') \<Rightarrow> b s')"

fun visit_exprs :: "Expr list \<Rightarrow> ('s, 'e) visitor \<Rightarrow> 's \<Rightarrow> ('s, 'e) visit_result" where
  "visit_exprs [] visit = visit_ok"
| "visit_exprs (e # es) visit = visit_then (visit e) (visit_exprs es visit)"

text \<open>\<^verbatim>\<open>if let Some(expr) = x { visit(expr)?; }\<close>\<close>

fun visit_opt :: "Expr option \<Rightarrow> ('s, 'e) visitor \<Rightarrow> 's \<Rightarrow> ('s, 'e) visit_result" where
  "visit_opt None visit = visit_ok"
| "visit_opt (Some e) visit = visit e"

definition visit_fmt :: "FmtArgs \<Rightarrow> ('s, 'e) visitor \<Rightarrow> 's \<Rightarrow> ('s, 'e) visit_result" where
  "visit_fmt args visit = visit_exprs (map fa_expr (fmt_args args)) visit"

definition try_visit_port_lane_expr :: "PortRef \<Rightarrow> ('s, 'e) visitor \<Rightarrow> 's \<Rightarrow> ('s, 'e) visit_result" where
  "try_visit_port_lane_expr port visit =
     (case lane port of Some (Var index) \<Rightarrow> visit index | Some (Const _) \<Rightarrow> visit_ok | None \<Rightarrow> visit_ok)"

fun try_visit_expr_children :: "Expr \<Rightarrow> ('s, 'e) visitor \<Rightarrow> 's \<Rightarrow> ('s, 'e) visit_result" where
  "try_visit_expr_children (Expr.Port port) visit = try_visit_port_lane_expr port visit"
| "try_visit_expr_children (Binary _ lhs rhs) visit = visit_then (visit lhs) (visit rhs)"
| "try_visit_expr_children (Unary _ inner) visit = visit inner"
| "try_visit_expr_children (BitSlice inner _ _) visit = visit inner"
| "try_visit_expr_children (WidthCast _ _ _ inner) visit = visit inner"
| "try_visit_expr_children (Expr.DynamicListQuery inner _) visit = visit inner"
| "try_visit_expr_children (Ternary c lhs rhs) visit =
     visit_then (visit c) (visit_then (visit lhs) (visit rhs))"
| "try_visit_expr_children (BitSliceDyn target hi lo) visit =
     visit_then (visit target) (visit_then (visit hi) (visit lo))"
| "try_visit_expr_children (RecordField _ _ _ mid_indices index) visit =
     visit_then (visit_exprs (map snd mid_indices) visit) (visit_opt index visit)"
| "try_visit_expr_children (TransactorStateRecordField _ _ _ mid_indices index) visit =
     visit_then (visit_exprs (map snd mid_indices) visit) (visit_opt index visit)"
| "try_visit_expr_children (TbFieldVecElement _ index inner_index) visit =
     visit_then (visit index) (visit_opt inner_index visit)"
| "try_visit_expr_children (ComponentVecElement _ _ _ index inner_index) visit =
     visit_then (visit index) (visit_opt inner_index visit)"
| "try_visit_expr_children (PortSnapshotLane _ port index) visit =
     visit_then (try_visit_port_lane_expr port visit) (visit index)"
| "try_visit_expr_children (SeqIndex _ index inner_index) visit =
     visit_then (visit index) (visit_opt inner_index visit)"
| "try_visit_expr_children (ComponentIdle _ _ _ index) visit = visit index"
| "try_visit_expr_children (TransactorIdle _ _ _ _ index) visit = visit index"
| "try_visit_expr_children (CovHookParam _ _ (Some index)) visit = visit index"
| "try_visit_expr_children (Call _ args) visit = visit_exprs args visit"
| "try_visit_expr_children (Literal _ _) visit = visit_ok"
| "try_visit_expr_children (StringLiteral _) visit = visit_ok"
| "try_visit_expr_children (WideLiteral _) visit = visit_ok"
| "try_visit_expr_children (Expr.Local _) visit = visit_ok"
| "try_visit_expr_children (TbField _) visit = visit_ok"
| "try_visit_expr_children (TemporalSlot _ _) visit = visit_ok"
| "try_visit_expr_children (TbQueueQuery _ _) visit = visit_ok"
| "try_visit_expr_children (TransactorState _ _) visit = visit_ok"
| "try_visit_expr_children (TransactorStateQueueQuery _ _ _) visit = visit_ok"
| "try_visit_expr_children (Expr.ScoreboardQuery _ _ _ _) visit = visit_ok"
| "try_visit_expr_children (ComponentField _ _) visit = visit_ok"
| "try_visit_expr_children (ComponentValue _) visit = visit_ok"
| "try_visit_expr_children (ComponentQueueQuery _ _) visit = visit_ok"
| "try_visit_expr_children CycleCount visit = visit_ok"
| "try_visit_expr_children ErrorCount visit = visit_ok"
| "try_visit_expr_children (CovBin _ _ _) visit = visit_ok"
| "try_visit_expr_children (CovHookParam _ _ None) visit = visit_ok"
| "try_visit_expr_children (CovHookArg _) visit = visit_ok"
| "try_visit_expr_children (SeqLen _) visit = visit_ok"
| "try_visit_expr_children (RegRead _ _ _ _ _) visit = visit_ok"

text \<open>The children of an expression, in the order of the source.\<close>

definition lane_exprs :: "PortRef \<Rightarrow> Expr list" where
  "lane_exprs port = (case lane port of Some (Var index) \<Rightarrow> [index] | _ \<Rightarrow> [])"

definition opt_expr :: "Expr option \<Rightarrow> Expr list" where
  "opt_expr x = (case x of None \<Rightarrow> [] | Some e \<Rightarrow> [e])"

fun expr_children :: "Expr \<Rightarrow> Expr list" where
  "expr_children (Expr.Port port) = lane_exprs port"
| "expr_children (Binary _ lhs rhs) = [lhs, rhs]"
| "expr_children (Unary _ inner) = [inner]"
| "expr_children (BitSlice inner _ _) = [inner]"
| "expr_children (WidthCast _ _ _ inner) = [inner]"
| "expr_children (Expr.DynamicListQuery inner _) = [inner]"
| "expr_children (Ternary c lhs rhs) = [c, lhs, rhs]"
| "expr_children (BitSliceDyn target hi lo) = [target, hi, lo]"
| "expr_children (RecordField _ _ _ mid_indices index) = map snd mid_indices @ opt_expr index"
| "expr_children (TransactorStateRecordField _ _ _ mid_indices index) = map snd mid_indices @ opt_expr index"
| "expr_children (TbFieldVecElement _ index inner_index) = index # opt_expr inner_index"
| "expr_children (ComponentVecElement _ _ _ index inner_index) = index # opt_expr inner_index"
| "expr_children (PortSnapshotLane _ port index) = lane_exprs port @ [index]"
| "expr_children (SeqIndex _ index inner_index) = index # opt_expr inner_index"
| "expr_children (ComponentIdle _ _ _ index) = [index]"
| "expr_children (TransactorIdle _ _ _ _ index) = [index]"
| "expr_children (CovHookParam _ _ index) = opt_expr index"
| "expr_children (Call _ args) = args"
| "expr_children _ = []"

lemma visit_then_ok [simp]: "visit_then visit_ok b = b" "visit_then a visit_ok = a"
  by (auto simp: visit_then_def visit_ok_def fun_eq_iff split: prod.splits sum.splits)

lemma visit_then_assoc [simp]: "visit_then (visit_then a b) c = visit_then a (visit_then b c)"
  by (auto simp: visit_then_def fun_eq_iff split: prod.splits sum.splits)

lemma visit_exprs_append [simp]: "visit_exprs (xs @ ys) v = visit_then (visit_exprs xs v) (visit_exprs ys v)"
  by (induction xs) simp_all

lemma visit_opt_exprs: "visit_opt x v = visit_exprs (opt_expr x) v"
  by (cases x) (simp_all add: opt_expr_def)

lemma visit_lane_exprs: "try_visit_port_lane_expr p v = visit_exprs (lane_exprs p) v"
  by (simp add: try_visit_port_lane_expr_def lane_exprs_def split: option.split LaneIndex.split)

lemma try_visit_expr_children_exprs: "try_visit_expr_children e v = visit_exprs (expr_children e) v"
  by (cases "(e, v)" rule: try_visit_expr_children.cases)
    (simp_all add: visit_opt_exprs visit_lane_exprs opt_expr_def)

lemma visit_exprs_cong:
  "xs = ys \<Longrightarrow> (\<And>x. x \<in> set ys \<Longrightarrow> v x = w x) \<Longrightarrow> visit_exprs xs v = visit_exprs ys w"
  by (induction ys arbitrary: xs) auto

lemma try_visit_expr_children_cong [fundef_cong]:
  "e = e' \<Longrightarrow> (\<And>c. c \<in> set (expr_children e') \<Longrightarrow> v c = w c) \<Longrightarrow>
     try_visit_expr_children e v = try_visit_expr_children e' w"
  by (metis try_visit_expr_children_exprs visit_exprs_cong)

lemma size_lane_exprs: "c \<in> set (lane_exprs p) \<Longrightarrow> size c < size p"
  by (cases p) (auto simp: lane_exprs_def split: option.splits LaneIndex.splits)

lemma size_mid_indices: "(n, c) \<in> set xs \<Longrightarrow> size c \<le> size_list (size_prod (\<lambda>_. 0) size) xs + k"
  by (rule trans_le_add1, rule size_list_estimation' [of "(n, c)"]) simp_all

lemma size_expr_children: "c \<in> set (expr_children e) \<Longrightarrow> size c < size e"
  by (cases e)
    (auto simp: opt_expr_def less_Suc_eq_le size_list_estimation' size_mid_indices dest: size_lane_exprs
      split: option.splits)

function try_walk_expr :: "Expr \<Rightarrow> ('s, 'e) visitor \<Rightarrow> 's \<Rightarrow> ('s, 'e) visit_result" where
  "try_walk_expr expr visit =
     visit_then (visit expr) (try_visit_expr_children expr (\<lambda>child. try_walk_expr child visit))"
  by pat_completeness auto

termination try_walk_expr
  by (relation "measure (\<lambda>(e, _). size e)") (simp_all add: size_expr_children)

declare try_walk_expr.simps [simp del]

text \<open>
  The entry points without errors wrap the visitor and match the impossible error away: the result is the
  captured state.
\<close>

definition infallible :: "(Expr \<Rightarrow> 's \<Rightarrow> 's) \<Rightarrow> ('s, 'e) visitor" where
  "infallible visit = (\<lambda>e s. (Ok (), visit e s))"

definition walk_expr :: "Expr \<Rightarrow> (Expr \<Rightarrow> 's \<Rightarrow> 's) \<Rightarrow> 's \<Rightarrow> 's" where
  "walk_expr expr visit s = snd (try_walk_expr expr (infallible visit :: ('s, unit) visitor) s)"

definition visit_port_lane_expr :: "PortRef \<Rightarrow> (Expr \<Rightarrow> 's \<Rightarrow> 's) \<Rightarrow> 's \<Rightarrow> 's" where
  "visit_port_lane_expr port visit s =
     snd (try_visit_port_lane_expr port (infallible visit :: ('s, unit) visitor) s)"

fun try_visit_stmt_exprs :: "Stmt \<Rightarrow> ('s, 'e) visitor \<Rightarrow> 's \<Rightarrow> ('s, 'e) visit_result" where
  "try_visit_stmt_exprs (Assign _ expr) visit = visit expr"
| "try_visit_stmt_exprs (RecordWriteCb _ _ _ _ expr _ _) visit = visit expr"
| "try_visit_stmt_exprs (TbFieldWrite _ expr) visit = visit expr"
| "try_visit_stmt_exprs (TbQueuePush _ expr) visit = visit expr"
| "try_visit_stmt_exprs (TransactorStateWrite _ _ expr) visit = visit expr"
| "try_visit_stmt_exprs (TransactorStateQueuePush _ _ expr) visit = visit expr"
| "try_visit_stmt_exprs (ComponentFieldWrite _ _ expr) visit = visit expr"
| "try_visit_stmt_exprs (ComponentQueuePush _ _ expr) visit = visit expr"
| "try_visit_stmt_exprs (SeqPush _ expr) visit = visit expr"
| "try_visit_stmt_exprs (DutWrite port val) visit =
     visit_then (try_visit_port_lane_expr port visit) (visit val)"
| "try_visit_stmt_exprs (DutRead _ port) visit = try_visit_port_lane_expr port visit"
| "try_visit_stmt_exprs (ProbeRelease port) visit = try_visit_port_lane_expr port visit"
| "try_visit_stmt_exprs (RecordRead _ _ _ addr) visit = visit addr"
| "try_visit_stmt_exprs (RecordWrite _ _ _ addr val) visit = visit_then (visit addr) (visit val)"
| "try_visit_stmt_exprs (RecordFieldWrite _ _ _ mid_indices index val) visit =
     visit_then (visit_exprs (map snd mid_indices) visit) (visit_then (visit_opt index visit) (visit val))"
| "try_visit_stmt_exprs (TransactorStateRecordFieldWrite _ _ _ mid_indices index val) visit =
     visit_then (visit_exprs (map snd mid_indices) visit) (visit_then (visit_opt index visit) (visit val))"
| "try_visit_stmt_exprs (TbFieldVecElementWrite _ index inner_index val) visit =
     visit_then (visit index) (visit_then (visit_opt inner_index visit) (visit val))"
| "try_visit_stmt_exprs (LocalVecElementWrite _ index inner_index val) visit =
     visit_then (visit index) (visit_then (visit_opt inner_index visit) (visit val))"
| "try_visit_stmt_exprs (ComponentVecElementWrite _ _ _ index inner_index val) visit =
     visit_then (visit index) (visit_then (visit_opt inner_index visit) (visit val))"
| "try_visit_stmt_exprs (Log _ args _) visit = visit_fmt args visit"
| "try_visit_stmt_exprs (AssertCheck c on_fail) visit = visit_then (visit c) (visit_fmt on_fail visit)"
| "try_visit_stmt_exprs (AssumeCheck c on_fail) visit = visit_then (visit c) (visit_fmt on_fail visit)"
| "try_visit_stmt_exprs (FailDiag guard args) visit =
     visit_then (visit_opt guard visit) (visit_fmt args visit)"
| "try_visit_stmt_exprs (Stmt.ScoreboardOp _ _ op _) visit =
     (case op of
        QueuePush _ val \<Rightarrow> visit val
      | ScalarWrite _ val \<Rightarrow> visit val
      | QueuePop _ _ \<Rightarrow> visit_ok)"
| "try_visit_stmt_exprs (ComponentEmit _ _ _ args) visit = visit_exprs args visit"
| "try_visit_stmt_exprs (EventEmit _ args) visit = visit_exprs args visit"
| "try_visit_stmt_exprs (ComponentCall _ _ _ _ args _) visit = visit_exprs args visit"
| "try_visit_stmt_exprs (TestbenchCall _ args _ _) visit = visit_exprs args visit"
| "try_visit_stmt_exprs (TransactorCall _ call) visit = visit call"
| "try_visit_stmt_exprs (TransactorSelfCall _ call) visit = visit call"
| "try_visit_stmt_exprs (HelperCall call) visit = visit call"
| "try_visit_stmt_exprs (TlmFork desc) visit = visit_exprs (tlm_args desc) visit"
| "try_visit_stmt_exprs (TlmJoinAll pending) visit = visit_exprs (concat (map tlm_args pending)) visit"
| "try_visit_stmt_exprs (RecordInit _ _) visit = visit_ok"
| "try_visit_stmt_exprs (AggregateInit _) visit = visit_ok"
| "try_visit_stmt_exprs (TbQueuePop _ _) visit = visit_ok"
| "try_visit_stmt_exprs (TransactorStateQueuePop _ _ _) visit = visit_ok"
| "try_visit_stmt_exprs (PropertyCheck _) visit = visit_ok"
| "try_visit_stmt_exprs (CoverCheck _) visit = visit_ok"
| "try_visit_stmt_exprs (CycleHandler _) visit = visit_ok"
| "try_visit_stmt_exprs (EventSubscribe _ _ _) visit = visit_ok"
| "try_visit_stmt_exprs (MethodHookSubscribe _ _ _ _ _) visit = visit_ok"
| "try_visit_stmt_exprs (CovReport _) visit = visit_ok"
| "try_visit_stmt_exprs (ComponentQueuePop _ _ _) visit = visit_ok"
| "try_visit_stmt_exprs (ComponentInit _ _ _) visit = visit_ok"
| "try_visit_stmt_exprs (ComponentSubAssign _ _ _) visit = visit_ok"
| "try_visit_stmt_exprs (ComponentAssign _ _) visit = visit_ok"
| "try_visit_stmt_exprs ErrorIncrement visit = visit_ok"

fun try_visit_terminator_exprs :: "Terminator \<Rightarrow> ('s, 'e) visitor \<Rightarrow> 's \<Rightarrow> ('s, 'e) visit_result" where
  "try_visit_terminator_exprs (Branch expr _ _) visit = visit expr"
| "try_visit_terminator_exprs (WaitCycles expr _ _) visit = visit expr"
| "try_visit_terminator_exprs (WaitCyclesSync expr _) visit = visit expr"
| "try_visit_terminator_exprs (WaitUntil preds _ _) visit = visit_exprs (map pred_expr preds) visit"
| "try_visit_terminator_exprs (WaitUntilTimeout preds _ cycles _ _) visit =
     visit_then (visit_exprs (map pred_expr preds) visit) (visit cycles)"
| "try_visit_terminator_exprs (Terminator.Fatal args) visit = visit_fmt args visit"
| "try_visit_terminator_exprs (Randomize _ _ _) visit = visit_ok"
| "try_visit_terminator_exprs (TbLifecycleCall _ _) visit = visit_ok"
| "try_visit_terminator_exprs (Jump _) visit = visit_ok"
| "try_visit_terminator_exprs (WaitTimePs _ _) visit = visit_ok"
| "try_visit_terminator_exprs Return visit = visit_ok"

section \<open>Mutable visitors\<close>

type_synonym 's visitor_mut = "Expr \<Rightarrow> 's \<Rightarrow> (Expr \<times> 's) option"

fun visit_exprs_mut :: "Expr list \<Rightarrow> 's visitor_mut \<Rightarrow> 's \<Rightarrow> (Expr list \<times> 's) option" where
  "visit_exprs_mut [] visit s = Some ([], s)"
| "visit_exprs_mut (e # es) visit s = do {
     (e, s) \<leftarrow> visit e s;
     (es, s) \<leftarrow> visit_exprs_mut es visit s;
     Some (e # es, s)
   }"

definition visit_opt_mut :: "Expr option \<Rightarrow> 's visitor_mut \<Rightarrow> 's \<Rightarrow> (Expr option \<times> 's) option" where
  "visit_opt_mut x visit s =
     (case x of
        None \<Rightarrow> Some (None, s)
      | Some e \<Rightarrow> do { (e, s) \<leftarrow> visit e s; Some (Some e, s) })"

definition visit_mid_mut :: "(nat \<times> Expr) list \<Rightarrow> 's visitor_mut \<Rightarrow> 's \<Rightarrow> ((nat \<times> Expr) list \<times> 's) option" where
  "visit_mid_mut mids visit s = do {
     (es, s) \<leftarrow> visit_exprs_mut (map snd mids) visit s;
     Some (zip (map fst mids) es, s)
   }"

definition visit_port_lane_expr_mut :: "PortRef \<Rightarrow> 's visitor_mut \<Rightarrow> 's \<Rightarrow> (PortRef \<times> 's) option" where
  "visit_port_lane_expr_mut port visit s =
     (case port of PortRef tb orig path agg bus dir w ty acc prb ln \<Rightarrow>
       (case ln of
          Some (Var index) \<Rightarrow> do {
            (index, s) \<leftarrow> visit index s;
            Some (PortRef tb orig path agg bus dir w ty acc prb (Some (Var index)), s)
          }
        | _ \<Rightarrow> Some (port, s)))"

definition visit_fmt_mut :: "FmtArgs \<Rightarrow> 's visitor_mut \<Rightarrow> 's \<Rightarrow> (FmtArgs \<times> 's) option" where
  "visit_fmt_mut args visit s = do {
     (es, s) \<leftarrow> visit_exprs_mut (map fa_expr (fmt_args args)) visit s;
     Some (args\<lparr>fmt_args := map2 (\<lambda>a e. a\<lparr>fa_expr := e\<rparr>) (fmt_args args) es\<rparr>, s)
   }"

fun visit_forks_mut :: "TlmForkDesc list \<Rightarrow> 's visitor_mut \<Rightarrow> 's \<Rightarrow> (TlmForkDesc list \<times> 's) option" where
  "visit_forks_mut [] visit s = Some ([], s)"
| "visit_forks_mut (d # ds) visit s = do {
     (args, s) \<leftarrow> visit_exprs_mut (tlm_args d) visit s;
     (ds, s) \<leftarrow> visit_forks_mut ds visit s;
     Some (d\<lparr>tlm_args := args\<rparr> # ds, s)
   }"

definition visit_preds_mut :: "PredSrc list \<Rightarrow> 's visitor_mut \<Rightarrow> 's \<Rightarrow> (PredSrc list \<times> 's) option" where
  "visit_preds_mut preds visit s = do {
     (es, s) \<leftarrow> visit_exprs_mut (map pred_expr preds) visit s;
     Some (map2 (\<lambda>p e. p\<lparr>pred_expr := e\<rparr>) preds es, s)
   }"

fun visit_expr_children_mut :: "Expr \<Rightarrow> 's visitor_mut \<Rightarrow> 's \<Rightarrow> (Expr \<times> 's) option" where
  "visit_expr_children_mut (Expr.Port port) visit s = do {
     (port, s) \<leftarrow> visit_port_lane_expr_mut port visit s; Some (Expr.Port port, s) }"
| "visit_expr_children_mut (Binary op lhs rhs) visit s = do {
     (lhs, s) \<leftarrow> visit lhs s; (rhs, s) \<leftarrow> visit rhs s; Some (Binary op lhs rhs, s) }"
| "visit_expr_children_mut (Unary op inner) visit s = do {
     (inner, s) \<leftarrow> visit inner s; Some (Unary op inner, s) }"
| "visit_expr_children_mut (BitSlice inner hi lo) visit s = do {
     (inner, s) \<leftarrow> visit inner s; Some (BitSlice inner hi lo, s) }"
| "visit_expr_children_mut (WidthCast k w sw inner) visit s = do {
     (inner, s) \<leftarrow> visit inner s; Some (WidthCast k w sw inner, s) }"
| "visit_expr_children_mut (Expr.DynamicListQuery inner q) visit s = do {
     (inner, s) \<leftarrow> visit inner s; Some (Expr.DynamicListQuery inner q, s) }"
| "visit_expr_children_mut (Ternary c lhs rhs) visit s = do {
     (c, s) \<leftarrow> visit c s; (lhs, s) \<leftarrow> visit lhs s; (rhs, s) \<leftarrow> visit rhs s; Some (Ternary c lhs rhs, s) }"
| "visit_expr_children_mut (BitSliceDyn target hi lo) visit s = do {
     (target, s) \<leftarrow> visit target s; (hi, s) \<leftarrow> visit hi s; (lo, s) \<leftarrow> visit lo s;
     Some (BitSliceDyn target hi lo, s) }"
| "visit_expr_children_mut (RecordField l f path mids index) visit s = do {
     (mids, s) \<leftarrow> visit_mid_mut mids visit s; (index, s) \<leftarrow> visit_opt_mut index visit s;
     Some (RecordField l f path mids index, s) }"
| "visit_expr_children_mut (TransactorStateRecordField i f path mids index) visit s = do {
     (mids, s) \<leftarrow> visit_mid_mut mids visit s; (index, s) \<leftarrow> visit_opt_mut index visit s;
     Some (TransactorStateRecordField i f path mids index, s) }"
| "visit_expr_children_mut (TbFieldVecElement f index inner_index) visit s = do {
     (index, s) \<leftarrow> visit index s; (inner_index, s) \<leftarrow> visit_opt_mut inner_index visit s;
     Some (TbFieldVecElement f index inner_index, s) }"
| "visit_expr_children_mut (ComponentVecElement b f p index inner_index) visit s = do {
     (index, s) \<leftarrow> visit index s; (inner_index, s) \<leftarrow> visit_opt_mut inner_index visit s;
     Some (ComponentVecElement b f p index inner_index, s) }"
| "visit_expr_children_mut (PortSnapshotLane l port index) visit s = do {
     (port, s) \<leftarrow> visit_port_lane_expr_mut port visit s; (index, s) \<leftarrow> visit index s;
     Some (PortSnapshotLane l port index, s) }"
| "visit_expr_children_mut (SeqIndex l index inner_index) visit s = do {
     (index, s) \<leftarrow> visit index s; (inner_index, s) \<leftarrow> visit_opt_mut inner_index visit s;
     Some (SeqIndex l index inner_index, s) }"
| "visit_expr_children_mut (ComponentIdle b p k n) visit s = do {
     (n, s) \<leftarrow> visit n s; Some (ComponentIdle b p k n, s) }"
| "visit_expr_children_mut (TransactorIdle f t st k n) visit s = do {
     (n, s) \<leftarrow> visit n s; Some (TransactorIdle f t st k n, s) }"
| "visit_expr_children_mut (CovHookParam p f (Some index)) visit s = do {
     (index, s) \<leftarrow> visit index s; Some (CovHookParam p f (Some index), s) }"
| "visit_expr_children_mut (Call target args) visit s = do {
     (args, s) \<leftarrow> visit_exprs_mut args visit s; Some (Call target args, s) }"
| "visit_expr_children_mut e visit s = Some (e, s)"

fun visit_stmt_exprs_mut :: "Stmt \<Rightarrow> 's visitor_mut \<Rightarrow> 's \<Rightarrow> (Stmt \<times> 's) option" where
  "visit_stmt_exprs_mut (Assign l expr) visit s = do { (expr, s) \<leftarrow> visit expr s; Some (Assign l expr, s) }"
| "visit_stmt_exprs_mut (RecordWriteCb l b f off expr msk cb) visit s = do {
     (expr, s) \<leftarrow> visit expr s; Some (RecordWriteCb l b f off expr msk cb, s) }"
| "visit_stmt_exprs_mut (TbFieldWrite f expr) visit s = do {
     (expr, s) \<leftarrow> visit expr s; Some (TbFieldWrite f expr, s) }"
| "visit_stmt_exprs_mut (TbQueuePush f expr) visit s = do {
     (expr, s) \<leftarrow> visit expr s; Some (TbQueuePush f expr, s) }"
| "visit_stmt_exprs_mut (TransactorStateWrite i f expr) visit s = do {
     (expr, s) \<leftarrow> visit expr s; Some (TransactorStateWrite i f expr, s) }"
| "visit_stmt_exprs_mut (TransactorStateQueuePush i f expr) visit s = do {
     (expr, s) \<leftarrow> visit expr s; Some (TransactorStateQueuePush i f expr, s) }"
| "visit_stmt_exprs_mut (ComponentFieldWrite b f expr) visit s = do {
     (expr, s) \<leftarrow> visit expr s; Some (ComponentFieldWrite b f expr, s) }"
| "visit_stmt_exprs_mut (ComponentQueuePush b q expr) visit s = do {
     (expr, s) \<leftarrow> visit expr s; Some (ComponentQueuePush b q expr, s) }"
| "visit_stmt_exprs_mut (SeqPush l expr) visit s = do { (expr, s) \<leftarrow> visit expr s; Some (SeqPush l expr, s) }"
| "visit_stmt_exprs_mut (DutWrite port val) visit s = do {
     (port, s) \<leftarrow> visit_port_lane_expr_mut port visit s; (val, s) \<leftarrow> visit val s; Some (DutWrite port val, s) }"
| "visit_stmt_exprs_mut (DutRead l port) visit s = do {
     (port, s) \<leftarrow> visit_port_lane_expr_mut port visit s; Some (DutRead l port, s) }"
| "visit_stmt_exprs_mut (ProbeRelease port) visit s = do {
     (port, s) \<leftarrow> visit_port_lane_expr_mut port visit s; Some (ProbeRelease port, s) }"
| "visit_stmt_exprs_mut (RecordRead d l r addr) visit s = do {
     (addr, s) \<leftarrow> visit addr s; Some (RecordRead d l r addr, s) }"
| "visit_stmt_exprs_mut (RecordWrite l b r addr val) visit s = do {
     (addr, s) \<leftarrow> visit addr s; (val, s) \<leftarrow> visit val s; Some (RecordWrite l b r addr val, s) }"
| "visit_stmt_exprs_mut (RecordFieldWrite l f path mids index val) visit s = do {
     (mids, s) \<leftarrow> visit_mid_mut mids visit s; (index, s) \<leftarrow> visit_opt_mut index visit s; (val, s) \<leftarrow> visit val s;
     Some (RecordFieldWrite l f path mids index val, s) }"
| "visit_stmt_exprs_mut (TransactorStateRecordFieldWrite i f path mids index val) visit s = do {
     (mids, s) \<leftarrow> visit_mid_mut mids visit s; (index, s) \<leftarrow> visit_opt_mut index visit s; (val, s) \<leftarrow> visit val s;
     Some (TransactorStateRecordFieldWrite i f path mids index val, s) }"
| "visit_stmt_exprs_mut (TbFieldVecElementWrite f index inner val) visit s = do {
     (index, s) \<leftarrow> visit index s; (inner, s) \<leftarrow> visit_opt_mut inner visit s; (val, s) \<leftarrow> visit val s;
     Some (TbFieldVecElementWrite f index inner val, s) }"
| "visit_stmt_exprs_mut (LocalVecElementWrite l index inner val) visit s = do {
     (index, s) \<leftarrow> visit index s; (inner, s) \<leftarrow> visit_opt_mut inner visit s; (val, s) \<leftarrow> visit val s;
     Some (LocalVecElementWrite l index inner val, s) }"
| "visit_stmt_exprs_mut (ComponentVecElementWrite b f p index inner val) visit s = do {
     (index, s) \<leftarrow> visit index s; (inner, s) \<leftarrow> visit_opt_mut inner visit s; (val, s) \<leftarrow> visit val s;
     Some (ComponentVecElementWrite b f p index inner val, s) }"
| "visit_stmt_exprs_mut (Log level args attrs) visit s = do {
     (args, s) \<leftarrow> visit_fmt_mut args visit s; Some (Log level args attrs, s) }"
| "visit_stmt_exprs_mut (AssertCheck c on_fail) visit s = do {
     (c, s) \<leftarrow> visit c s; (on_fail, s) \<leftarrow> visit_fmt_mut on_fail visit s; Some (AssertCheck c on_fail, s) }"
| "visit_stmt_exprs_mut (AssumeCheck c on_fail) visit s = do {
     (c, s) \<leftarrow> visit c s; (on_fail, s) \<leftarrow> visit_fmt_mut on_fail visit s; Some (AssumeCheck c on_fail, s) }"
| "visit_stmt_exprs_mut (FailDiag guard args) visit s = do {
     (guard, s) \<leftarrow> visit_opt_mut guard visit s; (args, s) \<leftarrow> visit_fmt_mut args visit s;
     Some (FailDiag guard args, s) }"
| "visit_stmt_exprs_mut (Stmt.ScoreboardOp sb f op path) visit s =
     (case op of
        QueuePush q val \<Rightarrow> do { (val, s) \<leftarrow> visit val s; Some (Stmt.ScoreboardOp sb f (QueuePush q val) path, s) }
      | ScalarWrite q val \<Rightarrow> do { (val, s) \<leftarrow> visit val s; Some (Stmt.ScoreboardOp sb f (ScalarWrite q val) path, s) }
      | QueuePop q d \<Rightarrow> Some (Stmt.ScoreboardOp sb f op path, s))"
| "visit_stmt_exprs_mut (ComponentEmit b sub ev args) visit s = do {
     (args, s) \<leftarrow> visit_exprs_mut args visit s; Some (ComponentEmit b sub ev args, s) }"
| "visit_stmt_exprs_mut (EventEmit ev args) visit s = do {
     (args, s) \<leftarrow> visit_exprs_mut args visit s; Some (EventEmit ev args, s) }"
| "visit_stmt_exprs_mut (ComponentCall b c m f args d) visit s = do {
     (args, s) \<leftarrow> visit_exprs_mut args visit s; Some (ComponentCall b c m f args d, s) }"
| "visit_stmt_exprs_mut (TestbenchCall f args dut d) visit s = do {
     (args, s) \<leftarrow> visit_exprs_mut args visit s; Some (TestbenchCall f args dut d, s) }"
| "visit_stmt_exprs_mut (TransactorCall d call) visit s = do {
     (call, s) \<leftarrow> visit call s; Some (TransactorCall d call, s) }"
| "visit_stmt_exprs_mut (TransactorSelfCall d call) visit s = do {
     (call, s) \<leftarrow> visit call s; Some (TransactorSelfCall d call, s) }"
| "visit_stmt_exprs_mut (HelperCall call) visit s = do { (call, s) \<leftarrow> visit call s; Some (HelperCall call, s) }"
| "visit_stmt_exprs_mut (TlmFork desc) visit s = do {
     (args, s) \<leftarrow> visit_exprs_mut (tlm_args desc) visit s; Some (TlmFork (desc\<lparr>tlm_args := args\<rparr>), s) }"
| "visit_stmt_exprs_mut (TlmJoinAll pending) visit s = do {
     (pending, s) \<leftarrow> visit_forks_mut pending visit s; Some (TlmJoinAll pending, s) }"
| "visit_stmt_exprs_mut stmt visit s = Some (stmt, s)"

fun visit_terminator_exprs_mut :: "Terminator \<Rightarrow> 's visitor_mut \<Rightarrow> 's \<Rightarrow> (Terminator \<times> 's) option" where
  "visit_terminator_exprs_mut (Branch expr t e) visit s = do {
     (expr, s) \<leftarrow> visit expr s; Some (Branch expr t e, s) }"
| "visit_terminator_exprs_mut (WaitCycles expr clock b) visit s = do {
     (expr, s) \<leftarrow> visit expr s; Some (WaitCycles expr clock b, s) }"
| "visit_terminator_exprs_mut (WaitCyclesSync expr b) visit s = do {
     (expr, s) \<leftarrow> visit expr s; Some (WaitCyclesSync expr b, s) }"
| "visit_terminator_exprs_mut (WaitUntil preds mode b) visit s = do {
     (preds, s) \<leftarrow> visit_preds_mut preds visit s; Some (WaitUntil preds mode b, s) }"
| "visit_terminator_exprs_mut (WaitUntilTimeout preds mode cycles b b') visit s = do {
     (preds, s) \<leftarrow> visit_preds_mut preds visit s; (cycles, s) \<leftarrow> visit cycles s;
     Some (WaitUntilTimeout preds mode cycles b b', s) }"
| "visit_terminator_exprs_mut (Terminator.Fatal args) visit s = do {
     (args, s) \<leftarrow> visit_fmt_mut args visit s; Some (Terminator.Fatal args, s) }"
| "visit_terminator_exprs_mut t visit s = Some (t, s)"

section \<open>What is visited\<close>

definition fmt_exprs :: "FmtArgs \<Rightarrow> Expr list" where
  "fmt_exprs args = map fa_expr (fmt_args args)"

fun stmt_exprs :: "Stmt \<Rightarrow> Expr list" where
  "stmt_exprs (Assign _ e) = [e]"
| "stmt_exprs (DutWrite port val) = lane_exprs port @ [val]"
| "stmt_exprs (DutRead _ port) = lane_exprs port"
| "stmt_exprs (ProbeRelease port) = lane_exprs port"
| "stmt_exprs (RecordFieldWrite _ _ _ mids index val) = map snd mids @ opt_expr index @ [val]"
| "stmt_exprs (RecordRead _ _ _ addr) = [addr]"
| "stmt_exprs (RecordWrite _ _ _ addr val) = [addr, val]"
| "stmt_exprs (RecordWriteCb _ _ _ _ val _ _) = [val]"
| "stmt_exprs (TbFieldWrite _ val) = [val]"
| "stmt_exprs (TbFieldVecElementWrite _ index inner val) = index # opt_expr inner @ [val]"
| "stmt_exprs (LocalVecElementWrite _ index inner val) = index # opt_expr inner @ [val]"
| "stmt_exprs (TbQueuePush _ val) = [val]"
| "stmt_exprs (TransactorStateWrite _ _ val) = [val]"
| "stmt_exprs (TransactorStateRecordFieldWrite _ _ _ mids index val) = map snd mids @ opt_expr index @ [val]"
| "stmt_exprs (TransactorStateQueuePush _ _ val) = [val]"
| "stmt_exprs (Log _ args _) = fmt_exprs args"
| "stmt_exprs (AssertCheck c on_fail) = c # fmt_exprs on_fail"
| "stmt_exprs (AssumeCheck c on_fail) = c # fmt_exprs on_fail"
| "stmt_exprs (EventEmit _ args) = args"
| "stmt_exprs (TransactorCall _ call) = [call]"
| "stmt_exprs (TransactorSelfCall _ call) = [call]"
| "stmt_exprs (HelperCall call) = [call]"
| "stmt_exprs (FailDiag guard args) = opt_expr guard @ fmt_exprs args"
| "stmt_exprs (Stmt.ScoreboardOp _ _ op _) =
     (case op of QueuePush _ val \<Rightarrow> [val] | ScalarWrite _ val \<Rightarrow> [val] | QueuePop _ _ \<Rightarrow> [])"
| "stmt_exprs (ComponentFieldWrite _ _ val) = [val]"
| "stmt_exprs (ComponentVecElementWrite _ _ _ index inner val) = index # opt_expr inner @ [val]"
| "stmt_exprs (ComponentEmit _ _ _ args) = args"
| "stmt_exprs (ComponentCall _ _ _ _ args _) = args"
| "stmt_exprs (TestbenchCall _ args _ _) = args"
| "stmt_exprs (ComponentQueuePush _ _ val) = [val]"
| "stmt_exprs (SeqPush _ val) = [val]"
| "stmt_exprs (TlmFork desc) = tlm_args desc"
| "stmt_exprs (TlmJoinAll pending) = concat (map tlm_args pending)"
| "stmt_exprs _ = []"

fun terminator_exprs :: "Terminator \<Rightarrow> Expr list" where
  "terminator_exprs (Branch e _ _) = [e]"
| "terminator_exprs (WaitCycles e _ _) = [e]"
| "terminator_exprs (WaitCyclesSync e _) = [e]"
| "terminator_exprs (WaitUntil preds _ _) = map pred_expr preds"
| "terminator_exprs (WaitUntilTimeout preds _ cycles _ _) = map pred_expr preds @ [cycles]"
| "terminator_exprs (Terminator.Fatal args) = fmt_exprs args"
| "terminator_exprs _ = []"

lemma visit_fmt_exprs: "visit_fmt args v = visit_exprs (fmt_exprs args) v"
  by (simp add: visit_fmt_def fmt_exprs_def)

lemmas visit_exprs_simps = visit_opt_exprs visit_lane_exprs visit_fmt_exprs

lemma try_visit_stmt_exprs_exprs: "try_visit_stmt_exprs st v = visit_exprs (stmt_exprs st) v"
  by (cases st) (simp_all add: visit_exprs_simps split: ScoreboardOp.split)

lemma try_visit_terminator_exprs_exprs: "try_visit_terminator_exprs t v = visit_exprs (terminator_exprs t) v"
  by (cases t) (simp_all add: visit_exprs_simps)

text \<open>Replacing the visited expressions: a mutable visit that takes them from a list.\<close>

definition pop_expr :: "Expr list visitor_mut" where
  "pop_expr e es = (case es of [] \<Rightarrow> None | x # xs \<Rightarrow> Some (x, xs))"

definition with_children :: "Expr \<Rightarrow> Expr list \<Rightarrow> Expr" where
  "with_children e es = fst (the (visit_expr_children_mut e pop_expr es))"

definition with_stmt_exprs :: "Stmt \<Rightarrow> Expr list \<Rightarrow> Stmt" where
  "with_stmt_exprs st es = fst (the (visit_stmt_exprs_mut st pop_expr es))"

definition with_terminator_exprs :: "Terminator \<Rightarrow> Expr list \<Rightarrow> Terminator" where
  "with_terminator_exprs t es = fst (the (visit_terminator_exprs_mut t pop_expr es))"

lemma pop_expr_simps [simp]: "pop_expr e (x # xs) = Some (x, xs)" "pop_expr e [] = None"
  by (simp_all add: pop_expr_def)

lemma visit_exprs_mut_append:
  "visit_exprs_mut (xs @ ys) v s =
     do { (as, s) \<leftarrow> visit_exprs_mut xs v s; (bs, s) \<leftarrow> visit_exprs_mut ys v s; Some (as @ bs, s) }"
  by (induction xs arbitrary: s) (auto split: Option.bind_splits)

lemma visit_exprs_mut_length: "visit_exprs_mut xs v s = Some (es, s') \<Longrightarrow> length es = length xs"
  by (induction xs arbitrary: s es) (auto split: Option.bind_splits)

lemma visit_exprs_mut_pop:
  "length xs \<le> length es \<Longrightarrow> visit_exprs_mut xs pop_expr es = Some (take (length xs) es, drop (length xs) es)"
  by (induction xs arbitrary: es) (auto simp: Suc_le_length_iff)

lemma visit_exprs_mut_replay:
  "visit_exprs_mut xs v s = Some (es, s') \<Longrightarrow> visit_exprs_mut xs pop_expr (es @ r) = Some (es, r)"
  "visit_exprs_mut xs v s = Some (es, s') \<Longrightarrow> visit_exprs_mut xs pop_expr es = Some (es, [])"
  by (simp_all add: visit_exprs_mut_pop visit_exprs_mut_length)

lemma visit_exprs_mut_id: "visit_exprs_mut xs (\<lambda>e s. Some (e, f e s)) s = Some (xs, fold f xs s)"
  by (induction xs arbitrary: s) simp_all

lemma visit_exprs_infallible: "visit_exprs xs (infallible f) s = (Ok (), fold f xs s)"
  by (induction xs arbitrary: s) (simp_all add: visit_ok_def visit_then_def infallible_def)

lemma visit_opt_mut_exprs:
  "visit_opt_mut x v s = do { (es, s) \<leftarrow> visit_exprs_mut (opt_expr x) v s; Some (map_option (\<lambda>_. hd es) x, s) }"
  by (cases x) (auto simp: visit_opt_mut_def opt_expr_def split: Option.bind_splits)

lemma visit_lane_mut_exprs:
  "visit_port_lane_expr_mut p v s = do { (es, s) \<leftarrow> visit_exprs_mut (lane_exprs p) v s;
     Some (fst (the (visit_port_lane_expr_mut p pop_expr es)), s) }"
  by (cases p)
    (auto simp: visit_port_lane_expr_mut_def lane_exprs_def split: option.split LaneIndex.split Option.bind_splits)

lemma visit_expr_children_mut_exprs:
  "visit_expr_children_mut e v s =
     do { (es, s) \<leftarrow> visit_exprs_mut (expr_children e) v s; Some (with_children e es, s) }"
  by (cases "(e, v, s)" rule: visit_expr_children_mut.cases)
    (auto simp: with_children_def visit_opt_mut_exprs visit_mid_mut_def visit_exprs_mut_append
      visit_exprs_mut_replay opt_expr_def lane_exprs_def visit_port_lane_expr_mut_def
      split: Option.bind_splits option.splits LaneIndex.splits PortRef.splits)

fun with_fork_exprs :: "TlmForkDesc list \<Rightarrow> Expr list \<Rightarrow> TlmForkDesc list" where
  "with_fork_exprs [] es = []"
| "with_fork_exprs (d # ds) es =
     d\<lparr>tlm_args := take (length (tlm_args d)) es\<rparr> # with_fork_exprs ds (drop (length (tlm_args d)) es)"

lemma visit_forks_mut_exprs:
  "visit_forks_mut ds v s = do { (es, s) \<leftarrow> visit_exprs_mut (concat (map tlm_args ds)) v s;
     Some (with_fork_exprs ds es, s) }"
  by (induction ds arbitrary: s)
    (auto simp: visit_exprs_mut_append visit_exprs_mut_length split: Option.bind_splits)

lemmas visit_mut_simps = visit_opt_mut_exprs visit_mid_mut_def visit_fmt_mut_def visit_preds_mut_def
  visit_forks_mut_exprs visit_exprs_mut_append visit_exprs_mut_replay opt_expr_def lane_exprs_def fmt_exprs_def
  visit_port_lane_expr_mut_def

lemma visit_terminator_exprs_mut_exprs:
  "visit_terminator_exprs_mut t v s =
     do { (es, s) \<leftarrow> visit_exprs_mut (terminator_exprs t) v s; Some (with_terminator_exprs t es, s) }"
  by (cases t) (auto simp: with_terminator_exprs_def visit_mut_simps split: Option.bind_splits)

lemma visit_stmt_exprs_mut_exprs:
  "visit_stmt_exprs_mut st v s =
     do { (es, s) \<leftarrow> visit_exprs_mut (stmt_exprs st) v s; Some (with_stmt_exprs st es, s) }"
  by (cases st)
    (auto simp: with_stmt_exprs_def visit_mut_simps
      split: Option.bind_splits option.splits LaneIndex.splits PortRef.splits ScoreboardOp.splits)

lemma replaced_exprs [simp]:
  "length ps = length es \<Longrightarrow> map (pred_expr \<circ> (\<lambda>(p, e). p\<lparr>pred_expr := e\<rparr>)) (zip ps es) = es"
  "length fs = length es \<Longrightarrow> map (fa_expr \<circ> (\<lambda>(a, e). a\<lparr>fa_expr := e\<rparr>)) (zip fs es) = es"
  by (induction ps es rule: list_induct2; simp) (induction fs es rule: list_induct2; simp)

lemma replaced_forks [simp]:
  "length es = length (concat (map tlm_args ds)) \<Longrightarrow> concat (map tlm_args (with_fork_exprs ds es)) = es"
  by (induction ds arbitrary: es) simp_all

lemmas with_exprs_simps = visit_mut_simps visit_exprs_mut_pop zip_map_fst_snd

lemma expr_children_with: "length es = length (expr_children e) \<Longrightarrow> expr_children (with_children e es) = es"
proof (induction e rule: expr_children.induct)
  case (9 l f p mids index)
  then show ?case
    by (cases index) (auto simp: with_children_def with_exprs_simps length_Suc_conv_rev)
next
  case (10 i f p mids index)
  then show ?case
    by (cases index) (auto simp: with_children_def with_exprs_simps length_Suc_conv_rev)
qed (auto simp: with_children_def with_exprs_simps length_Suc_conv
      split: option.splits LaneIndex.splits PortRef.splits)

lemma terminator_exprs_with:
  "length es = length (terminator_exprs t) \<Longrightarrow> terminator_exprs (with_terminator_exprs t es) = es"
  by (cases t) (auto simp: with_terminator_exprs_def with_exprs_simps length_Suc_conv_rev)

lemma stmt_exprs_with: "length es = length (stmt_exprs st) \<Longrightarrow> stmt_exprs (with_stmt_exprs st es) = es"
proof (induction st rule: stmt_exprs.induct)
  case (5 l f p mids index val)
  then show ?case
    by (cases index) (auto simp: with_stmt_exprs_def with_exprs_simps length_Suc_conv_rev)
next
  case (14 i f p mids index val)
  then show ?case
    by (cases index) (auto simp: with_stmt_exprs_def with_exprs_simps length_Suc_conv_rev)
qed (auto simp: with_stmt_exprs_def with_exprs_simps length_Suc_conv
       split: option.splits LaneIndex.splits PortRef.splits ScoreboardOp.splits)

lemma replaced_preds_self [simp]: "map2 (\<lambda>p e. p\<lparr>pred_expr := e\<rparr>) ps (map pred_expr ps) = ps"
  by (induction ps) simp_all

lemma replaced_args_self [simp]: "map2 (\<lambda>a e. a\<lparr>fa_expr := e\<rparr>) fs (map fa_expr fs) = fs"
  by (induction fs) simp_all

lemma replaced_forks_self [simp]: "with_fork_exprs ds (concat (map tlm_args ds)) = ds"
  by (induction ds) simp_all

lemma with_children_self: "with_children e (expr_children e) = e"
  by (cases e)
    (auto simp: with_children_def with_exprs_simps split: option.splits LaneIndex.splits PortRef.splits)

lemma with_terminator_exprs_self: "with_terminator_exprs t (terminator_exprs t) = t"
  by (cases t) (auto simp: with_terminator_exprs_def with_exprs_simps)

lemma with_stmt_exprs_self: "with_stmt_exprs st (stmt_exprs st) = st"
  by (cases st)
    (auto simp: with_stmt_exprs_def with_exprs_simps
       split: option.splits LaneIndex.splits PortRef.splits ScoreboardOp.splits)

lemma replaced_twice [simp]:
  "length ps = length es \<Longrightarrow> length ps = length ds \<Longrightarrow>
     map2 (\<lambda>p e. p\<lparr>pred_expr := e\<rparr>) (map2 (\<lambda>p e. p\<lparr>pred_expr := e\<rparr>) ps es) ds = map2 (\<lambda>p e. p\<lparr>pred_expr := e\<rparr>) ps ds"
  "length fs = length es \<Longrightarrow> length fs = length ds \<Longrightarrow>
     map2 (\<lambda>p e. p\<lparr>fa_expr := e\<rparr>) (map2 (\<lambda>p e. p\<lparr>fa_expr := e\<rparr>) fs es) ds = map2 (\<lambda>p e. p\<lparr>fa_expr := e\<rparr>) fs ds"
  by (induction ps es arbitrary: ds rule: list_induct2; simp; case_tac ds; simp)
    (induction fs es arbitrary: ds rule: list_induct2; simp; case_tac ds; simp)

lemma replaced_forks_twice [simp]:
  "length es = length (concat (map tlm_args ds)) \<Longrightarrow> length es' = length es \<Longrightarrow>
     with_fork_exprs (with_fork_exprs ds es) es' = with_fork_exprs ds es'"
  by (induction ds arbitrary: es es') simp_all

lemma with_children_twice:
  "length es = length (expr_children e) \<Longrightarrow> length es' = length (expr_children e) \<Longrightarrow>
     with_children (with_children e es) es' = with_children e es'"
proof (induction e rule: expr_children.induct)
  case (9 l f p mids index)
  then show ?case
    by (cases index) (auto simp: with_children_def with_exprs_simps length_Suc_conv_rev)
next
  case (10 i f p mids index)
  then show ?case
    by (cases index) (auto simp: with_children_def with_exprs_simps length_Suc_conv_rev)
qed (auto simp: with_children_def with_exprs_simps length_Suc_conv
      split: option.splits LaneIndex.splits PortRef.splits)

lemma with_terminator_exprs_twice:
  "length es = length (terminator_exprs t) \<Longrightarrow> length es' = length (terminator_exprs t) \<Longrightarrow>
     with_terminator_exprs (with_terminator_exprs t es) es' = with_terminator_exprs t es'"
  by (cases t) (auto simp: with_terminator_exprs_def with_exprs_simps length_Suc_conv_rev)

lemma with_stmt_exprs_twice:
  "length es = length (stmt_exprs st) \<Longrightarrow> length es' = length (stmt_exprs st) \<Longrightarrow>
     with_stmt_exprs (with_stmt_exprs st es) es' = with_stmt_exprs st es'"
proof (induction st rule: stmt_exprs.induct)
  case (5 l f p mids index val)
  then show ?case
    by (cases index) (auto simp: with_stmt_exprs_def with_exprs_simps length_Suc_conv_rev)
next
  case (14 i f p mids index val)
  then show ?case
    by (cases index) (auto simp: with_stmt_exprs_def with_exprs_simps length_Suc_conv_rev)
qed (auto simp: with_stmt_exprs_def with_exprs_simps length_Suc_conv
       split: option.splits LaneIndex.splits PortRef.splits ScoreboardOp.splits)

section \<open>Traversals\<close>

text \<open>
  The contract of a node type: its expressions, a way to put others in their place, and the two visitors,
  which go over exactly these expressions in order.
\<close>

locale traversal =
  fixes exprs :: "'a \<Rightarrow> Expr list" and put :: "'a \<Rightarrow> Expr list \<Rightarrow> 'a"
    and try_visit :: "'a \<Rightarrow> ('s, 'e) visitor \<Rightarrow> 's \<Rightarrow> ('s, 'e) visit_result"
    and visit_mut :: "'a \<Rightarrow> 's visitor_mut \<Rightarrow> 's \<Rightarrow> ('a \<times> 's) option"
  assumes shared: "try_visit x v = visit_exprs (exprs x) v"
    and mutable: "visit_mut x w s = do { (es, s) \<leftarrow> visit_exprs_mut (exprs x) w s; Some (put x es, s) }"
    and exprs_put: "length es = length (exprs x) \<Longrightarrow> exprs (put x es) = es"
    and put_exprs: "put x (exprs x) = x"
    and put_put: "length es = length (exprs x) \<Longrightarrow> length es' = length (exprs x) \<Longrightarrow>
      put (put x es) es' = put x es'"
begin

text \<open>A mutable visit that changes no expression leaves the node alone and acts like the shared visit.\<close>

lemma reading_agrees:
  "visit_mut x (\<lambda>e s. Some (e, f e s)) s = Some (x, snd (try_visit x (infallible f) s))"
  by (simp add: mutable shared visit_exprs_mut_id visit_exprs_infallible put_exprs)

text \<open>A mutable visit changes nothing but the expressions.\<close>

lemma visit_mut_result:
  assumes "visit_mut x w s = Some (x', s')"
  shows "visit_exprs_mut (exprs x) w s = Some (exprs x', s') \<and> put x' (exprs x) = x"
proof -
  from assms obtain es where es: "visit_exprs_mut (exprs x) w s = Some (es, s')" "x' = put x es"
    by (auto simp: mutable split: Option.bind_splits)
  then have "length es = length (exprs x)" by (simp add: visit_exprs_mut_length)
  with es show ?thesis by (simp add: exprs_put put_put put_exprs)
qed

lemma visit_mut_returns: "visit_mut x w s = None \<longleftrightarrow> visit_exprs_mut (exprs x) w s = None"
  by (auto simp: mutable split: Option.bind_splits)

end

interpretation expr: traversal expr_children with_children try_visit_expr_children visit_expr_children_mut
  by unfold_locales
    (simp_all add: try_visit_expr_children_exprs visit_expr_children_mut_exprs expr_children_with
      with_children_self with_children_twice)

interpretation stmt: traversal stmt_exprs with_stmt_exprs try_visit_stmt_exprs visit_stmt_exprs_mut
  by unfold_locales
    (simp_all add: try_visit_stmt_exprs_exprs visit_stmt_exprs_mut_exprs stmt_exprs_with
      with_stmt_exprs_self with_stmt_exprs_twice)

interpretation termin: traversal terminator_exprs with_terminator_exprs try_visit_terminator_exprs
    visit_terminator_exprs_mut
  by unfold_locales
    (simp_all add: try_visit_terminator_exprs_exprs visit_terminator_exprs_mut_exprs terminator_exprs_with
      with_terminator_exprs_self with_terminator_exprs_twice)

section \<open>Walks\<close>

lemma visit_exprs_mut_mono [partial_function_mono]:
  assumes "\<And>e s. mono_option (\<lambda>f. v f e s)"
  shows "mono_option (\<lambda>f. visit_exprs_mut es (v f) s)"
proof (induction es arbitrary: s)
  case (Cons e es)
  show ?case
    unfolding visit_exprs_mut.simps
    by (intro bind_mono assms) (auto intro!: bind_mono Cons.IH option.const_mono split: prod.split)
qed (simp add: option.const_mono)

lemma visit_expr_children_mut_mono [partial_function_mono]:
  assumes "\<And>e s. mono_option (\<lambda>f. v f e s)"
  shows "mono_option (\<lambda>f. visit_expr_children_mut e (v f) s)"
  unfolding expr.mutable
  by (intro bind_mono visit_exprs_mut_mono assms) (auto intro: option.const_mono split: prod.split)

text \<open>
  \<^verbatim>\<open>visit(expr)\<close> may replace the node; its new children are walked.  The walk need not end, for instance when
  the visitor always wraps the node once more: the result is then \<^const>\<open>None\<close>.
\<close>

partial_function (option) walk_expr_mut :: "'s visitor_mut \<Rightarrow> Expr \<Rightarrow> 's \<Rightarrow> (Expr \<times> 's) option" where
  "walk_expr_mut visit expr s = do {
     (expr, s) \<leftarrow> visit expr s;
     visit_expr_children_mut expr (\<lambda>child s. walk_expr_mut visit child s) s
   }"

function preorder :: "Expr \<Rightarrow> Expr list" where
  "preorder e = e # concat (map preorder (expr_children e))"
  by pat_completeness auto

termination preorder
  by (relation "measure size") (simp_all add: size_expr_children)

declare preorder.simps [simp del]

lemma visit_exprs_concat_map: "visit_exprs (concat (map g xs)) v = visit_exprs xs (\<lambda>x. visit_exprs (g x) v)"
  by (induction xs) simp_all

lemma try_walk_preorder: "try_walk_expr e v = visit_exprs (preorder e) v"
proof (induction e rule: preorder.induct)
  case (1 e)
  have "try_walk_expr e v = visit_then (v e) (visit_exprs (expr_children e) (\<lambda>c. try_walk_expr c v))"
    by (subst try_walk_expr.simps) (simp add: try_visit_expr_children_exprs)
  also have "visit_exprs (expr_children e) (\<lambda>c. try_walk_expr c v) =
      visit_exprs (expr_children e) (\<lambda>c. visit_exprs (preorder c) v)"
    by (rule visit_exprs_cong) (simp_all add: 1)
  finally show ?case by (subst preorder.simps) (simp add: visit_exprs_concat_map)
qed

lemma walk_expr_fold: "walk_expr e f s = fold f (preorder e) s"
  by (simp add: walk_expr_def try_walk_preorder visit_exprs_infallible)

definition below :: "Expr \<Rightarrow> Expr \<Rightarrow> bool" where
  "below e c \<longleftrightarrow> c \<in> set (expr_children e)"

lemma preorder_below: "x \<in> set (preorder e) \<Longrightarrow> below\<^sup>*\<^sup>* e x"
proof (induction e rule: preorder.induct)
  case (1 e)
  from 1(2) consider "x = e" | c where "below e c" "x \<in> set (preorder c)"
    by (subst (asm) preorder.simps) (auto simp: below_def)
  then show ?case
  proof cases
    case 2
    with 1(1) [of c] show ?thesis by (simp add: below_def converse_rtranclp_into_rtranclp)
  qed simp
qed

lemma below_preorder: "below\<^sup>*\<^sup>* e x \<Longrightarrow> x \<in> set (preorder e)"
proof (induction rule: converse_rtranclp_induct)
  case base
  show ?case by (subst preorder.simps) simp
next
  case (step e c)
  then show ?case by (subst preorder.simps) (auto simp: below_def)
qed

text \<open>
  A walk visits the expression and all expressions below it, each before its children and left to right,
  and stops at the first error with that error.
\<close>

theorem walk_is_preorder:
  "try_walk_expr e v = visit_exprs (preorder e) v \<and> walk_expr e f s = fold f (preorder e) s \<and>
   set (preorder e) = {x. below\<^sup>*\<^sup>* e x}"
  using preorder_below below_preorder by (auto simp: try_walk_preorder walk_expr_fold)

lemma visit_exprs_mut_returns:
  "(\<And>x s. x \<in> set xs \<Longrightarrow> \<exists>r. v x s = Some r) \<Longrightarrow> \<exists>r. visit_exprs_mut xs v s = Some r"
proof (induction xs arbitrary: s)
  case (Cons x xs)
  from Cons.prems obtain e s1 where x: "v x s = Some (e, s1)" by fastforce
  from Cons.IH [of s1] Cons.prems obtain es s2 where "visit_exprs_mut xs v s1 = Some (es, s2)" by fastforce
  with x show ?case by simp
qed simp

lemma walk_expr_mut_step:
  "v e s = Some (e', s') \<Longrightarrow> walk_expr_mut v e s = visit_expr_children_mut e' (walk_expr_mut v) s'"
  by (subst walk_expr_mut.simps) simp

text \<open>
  C37.  A mutable walk returns for every visitor that returns and never replaces a node by a larger one.
\<close>

theorem walk_expr_mut_terminates:
  assumes "\<And>e s. \<exists>e' s'. v e s = Some (e', s') \<and> size e' \<le> size e"
  shows "\<exists>r. walk_expr_mut v e s = Some r"
proof (induction e arbitrary: s rule: measure_induct_rule [of size])
  case (less e)
  from assms obtain e' s' where v: "v e s = Some (e', s')" "size e' \<le> size e" by blast
  have "\<exists>r. walk_expr_mut v c t = Some r" if "c \<in> set (expr_children e')" for c t
    using less.IH size_expr_children [OF that] v(2) by (meson less_le_trans)
  then have "visit_exprs_mut (expr_children e') (walk_expr_mut v) s' \<noteq> None"
    using visit_exprs_mut_returns [of "expr_children e'" "walk_expr_mut v" s'] by auto
  then have "visit_expr_children_mut e' (walk_expr_mut v) s' \<noteq> None" unfolding expr.visit_mut_returns .
  then show ?case unfolding walk_expr_mut_step [of v e s, OF v(1)] by blast
qed

theorem walk_expr_mut_terminates_witness:
  "\<exists>r. walk_expr_mut (\<lambda>e (n :: nat). Some (case e of WidthCast _ _ _ inner \<Rightarrow> inner | _ \<Rightarrow> e, Suc n))
     (Binary Add (WidthCast Zext 8 None (Expr.Local 0)) (Expr.Local 1)) 0 = Some r"
  by (rule walk_expr_mut_terminates) (auto split: Expr.split)

lemma walk_expr_mut_reading: "walk_expr_mut (\<lambda>e s. Some (e, f e s)) e s = Some (e, fold f (preorder e) s)"
proof (induction e arbitrary: s rule: preorder.induct)
  case (1 e)
  have "visit_exprs_mut xs (walk_expr_mut (\<lambda>e s. Some (e, f e s))) s = Some (xs, fold f (concat (map preorder xs)) s)"
    if "set xs \<subseteq> set (expr_children e)" for xs s
    using that by (induction xs arbitrary: s) (simp_all add: 1)
  from this [OF subset_refl, of "f e s"] show ?case
    by (subst walk_expr_mut_step [OF refl], subst preorder.simps) (simp add: expr.mutable with_children_self)
qed

text \<open>A visitor that wraps every node it sees keeps the walk busy for ever.\<close>

lemma walk_expr_mut_diverges: "walk_expr_mut (\<lambda>e s. Some (Unary Neg e, s)) e s = None"
proof -
  have "v = (\<lambda>e s. Some (Unary Neg e, s)) \<longrightarrow> False" if "walk_expr_mut v e s = Some r" for v e s and r :: "Expr \<times> 'a"
    by (rule walk_expr_mut.raw_induct [OF _ that]) (auto split: Option.bind_splits, blast)
  from this [of "\<lambda>e s. Some (Unary Neg e, s)" e s] show ?thesis
    by (cases "walk_expr_mut (\<lambda>e s. Some (Unary Neg e, s)) e s") simp_all
qed

text \<open>
  C36.  A mutable visit or walk that changes no expression leaves the node alone and passes the captured state
  through the same expressions in the same order as the shared one, for expressions, statements and
  terminators.
\<close>

theorem mutable_visits_agree:
  "visit_expr_children_mut e (\<lambda>e s. Some (e, f e s)) s =
     Some (e, snd (try_visit_expr_children e (infallible f :: ('s, unit) visitor) s)) \<and>
   visit_stmt_exprs_mut st (\<lambda>e s. Some (e, f e s)) s =
     Some (st, snd (try_visit_stmt_exprs st (infallible f :: ('s, unit) visitor) s)) \<and>
   visit_terminator_exprs_mut t (\<lambda>e s. Some (e, f e s)) s =
     Some (t, snd (try_visit_terminator_exprs t (infallible f :: ('s, unit) visitor) s)) \<and>
   walk_expr_mut (\<lambda>e s. Some (e, f e s)) e s = Some (e, walk_expr e f s)"
  by (intro conjI expr.reading_agrees stmt.reading_agrees termin.reading_agrees)
    (simp add: walk_expr_mut_reading walk_expr_fold)

text \<open>
  C38.  A mutable visit hands every expression of the node to the visitor once, in order, and changes nothing
  else: putting the old expressions back gives the old node.
\<close>

theorem mutable_visits_change_exprs:
  "(visit_expr_children_mut e w s = Some (e', s') \<longrightarrow>
      visit_exprs_mut (expr_children e) w s = Some (expr_children e', s') \<and> with_children e' (expr_children e) = e) \<and>
   (visit_stmt_exprs_mut st w s = Some (st', s') \<longrightarrow>
      visit_exprs_mut (stmt_exprs st) w s = Some (stmt_exprs st', s') \<and> with_stmt_exprs st' (stmt_exprs st) = st) \<and>
   (visit_terminator_exprs_mut t w s = Some (t', s') \<longrightarrow>
      visit_exprs_mut (terminator_exprs t) w s = Some (terminator_exprs t', s') \<and>
      with_terminator_exprs t' (terminator_exprs t) = t)"
  by (intro conjI impI; (drule expr.visit_mut_result stmt.visit_mut_result termin.visit_mut_result, simp))

theorem mutable_visits_change_exprs_witness:
  "visit_exprs_mut (stmt_exprs (Assign 3 (Expr.Local 0))) (\<lambda>e n. Some (TbField ''x'', Suc n)) 0 =
     Some (stmt_exprs (Assign 3 (TbField ''x'')), 1)"
  using mutable_visits_change_exprs [of CycleCount "\<lambda>e n. Some (TbField ''x'', Suc n)" 0 CycleCount 1
      "Assign 3 (Expr.Local 0)" "Assign 3 (TbField ''x'')" Return Return]
  by simp

end
