(* ===== verification/Btree_Map.thy ===== *)
theory Btree_Map
  imports Harc_Prelude
begin

text \<open>
  Rust's \<^verbatim>\<open>BTreeMap\<close> as the association list of its entries in key order, which is the order the code
  iterates in, and the interface its clients rely on.
\<close>

fun bt_insert :: "'k::linorder \<Rightarrow> 'v \<Rightarrow> ('k \<times> 'v) list \<Rightarrow> ('k \<times> 'v) list" where
  "bt_insert k v [] = [(k, v)]"
| "bt_insert k v ((k', v') # m) =
     (if k < k' then (k, v) # (k', v') # m
      else if k = k' then (k, v) # m
      else (k', v') # bt_insert k v m)"

definition bt_ordered :: "('k::linorder \<times> 'v) list \<Rightarrow> bool" where
  "bt_ordered m \<longleftrightarrow> sorted_wrt (<) (map fst m)"

text \<open>A finite map with an iteration order on its keys.\<close>

locale ordered_map =
  fixes inv :: "'m \<Rightarrow> bool" and empty :: 'm and ins :: "'k::linorder \<Rightarrow> 'v \<Rightarrow> 'm \<Rightarrow> 'm"
    and look :: "'m \<Rightarrow> 'k \<rightharpoonup> 'v" and keys :: "'m \<Rightarrow> 'k list"
  assumes inv_empty: "inv empty"
    and inv_ins: "inv m \<Longrightarrow> inv (ins k v m)"
    and look_empty: "look empty k = None"
    and look_ins: "inv m \<Longrightarrow> look (ins k v m) = (look m)(k \<mapsto> v)"
    and keys_sorted: "inv m \<Longrightarrow> sorted (keys m) \<and> distinct (keys m)"
    and set_keys: "inv m \<Longrightarrow> set (keys m) = dom (look m)"
begin

definition ins_all :: "('k \<times> 'v) list \<Rightarrow> 'm \<Rightarrow> 'm" where
  "ins_all kvs m = fold (\<lambda>(k, v). ins k v) kvs m"

lemma inv_ins_all: "inv m \<Longrightarrow> inv (ins_all kvs m)"
  unfolding ins_all_def by (induction kvs arbitrary: m) (auto simp: inv_ins)

lemma look_ins_all: "inv m \<Longrightarrow> look (ins_all kvs m) = look m ++ map_of (rev kvs)"
  unfolding ins_all_def
  by (induction kvs arbitrary: m) (auto simp: look_ins inv_ins map_add_def fun_eq_iff split: option.split)

lemma look_empty_fun: "look empty = Map.empty"
  using look_empty by blast

lemma look_ins_all_distinct:
  assumes "distinct (map fst kvs)" shows "look (ins_all kvs empty) = map_of kvs"
proof -
  have "map_of (rev kvs) = map_of kvs"
    using assms map_of_inject_set [of "rev kvs" kvs] by (simp add: rev_map [symmetric])
  then show ?thesis by (simp add: look_ins_all inv_empty look_empty_fun)
qed

lemma keys_ins_all:
  "sorted (keys (ins_all kvs empty)) \<and> distinct (keys (ins_all kvs empty)) \<and>
   set (keys (ins_all kvs empty)) = fst ` set kvs"
proof -
  have "set (keys (ins_all kvs empty)) = fst ` set kvs"
    by (simp add: set_keys inv_ins_all inv_empty look_ins_all look_empty_fun dom_map_of_conv_image_fst)
  then show ?thesis using keys_sorted inv_ins_all inv_empty by blast
qed

end

lemma set_bt_insert: "set (map fst (bt_insert k v m)) = insert k (set (map fst m))"
  by (induction k v m rule: bt_insert.induct) auto

lemma bt_ordered_insert: "bt_ordered m \<Longrightarrow> bt_ordered (bt_insert k v m)"
proof (induction k v m rule: bt_insert.induct)
  case (2 k v k' v' m)
  then show ?case
    using set_bt_insert [of k v m] by (auto simp: bt_ordered_def simp del: set_map)
qed (simp add: bt_ordered_def)

lemma map_of_bt_insert: "bt_ordered m \<Longrightarrow> map_of (bt_insert k v m) = (map_of m)(k \<mapsto> v)"
  by (induction k v m rule: bt_insert.induct) (auto simp: bt_ordered_def fun_eq_iff)

interpretation bt: ordered_map bt_ordered "[]" bt_insert map_of "map fst"
  by unfold_locales
    (simp_all add: bt_ordered_insert map_of_bt_insert dom_map_of_conv_image_fst,
     simp_all add: bt_ordered_def strict_sorted_iff)

end
