(* ===== verification/Lower_Coroutine.thy ===== *)
theory Lower_Coroutine
  imports Ir_Syntax Btree_Map
begin

text \<open>
  The pass \<^verbatim>\<open>lower_coroutine\<close> (\<^verbatim>\<open>src/ir/passes/lower_coroutine.rs\<close>): it numbers the resume points of a
  function and collapses the \<^verbatim>\<open>Jump\<close>/\<^verbatim>\<open>Branch\<close> chains between suspensions into a transition table.

  Indexing a vector out of range panics; \<open>Panic\<close> is that outcome, beside the pass's own error.  The vectors
  \<^verbatim>\<open>guard\<close> and \<^verbatim>\<open>path\<close> that \<^verbatim>\<open>collapse\<close> pushes to and pops from are passed down by value, since every push is
  popped on the way back; \<^verbatim>\<open>out\<close> is threaded through.
\<close>

section \<open>The pass\<close>

type_synonym StateId = nat

record GuardTerm =
  cond :: Expr
  taken :: bool

datatype (plugins only: size code) Trigger =
    CyclesElapsed Expr "WaitClock option"
  | TimeElapsedPs int
  | PredsHold "PredSrc list" WaitMode
  | Timeout Expr
  | Solved ConstraintRef
  | Done
  | Fatal
  | LifecycleInlined FunctionId

record Transition =
  tr_from :: StateId
  guard :: "GuardTerm list"
  trigger :: Trigger
  tr_to :: "StateId option"

datatype LowerCoroutineError = UnsuspendedLoop FunctionId string BlockId

datatype abort = Panic | Failed LowerCoroutineError

record CoroutineMetadata =
  state_enum :: "(FunctionId \<times> BlockId list) list"
  transition_table :: "(FunctionId \<times> Transition list) list"

definition or_panic :: "'a option \<Rightarrow> (abort, 'a) result" where
  "or_panic x = (case x of None \<Rightarrow> Err Panic | Some v \<Rightarrow> Ok v)"

fun resume_successors :: "Terminator \<Rightarrow> BlockId list" where
  "resume_successors (WaitCycles _ _ succ) = [succ]"
| "resume_successors (WaitCyclesSync _ succ) = [succ]"
| "resume_successors (WaitTimePs _ succ) = [succ]"
| "resume_successors (WaitUntil _ _ succ) = [succ]"
| "resume_successors (WaitUntilTimeout _ _ _ on_fire on_timeout) = [on_fire, on_timeout]"
| "resume_successors (Randomize _ _ succ) = [succ]"
| "resume_successors (TbLifecycleCall _ succ) = [succ]"
| "resume_successors (Jump _) = []"
| "resume_successors (Branch _ _ _) = []"
| "resume_successors Return = []"
| "resume_successors (Terminator.Fatal _) = []"

text \<open>\<^verbatim>\<open>state_at\<close> of \<^verbatim>\<open>collapse\<close>: \<^verbatim>\<open>state_of[b.index()]\<close>.\<close>

definition state_at :: "StateId option list \<Rightarrow> BlockId \<Rightarrow> (abort, StateId option) result" where
  "state_at state_of b = or_panic (if b < length state_of then Some (state_of ! b) else None)"

definition push_to ::
  "StateId \<Rightarrow> GuardTerm list \<Rightarrow> StateId option list \<Rightarrow> Trigger \<Rightarrow> BlockId \<Rightarrow> Transition list \<Rightarrow>
   (abort, Transition list) result"
where
  "push_to from gs state_of tr succ out =
     try_bind (state_at state_of succ) (\<lambda>to.
       Ok (out @ [\<lparr>tr_from = from, guard = gs, trigger = tr, tr_to = to\<rparr>]))"

function collapse ::
  "TbFunction \<Rightarrow> StateId \<Rightarrow> BlockId \<Rightarrow> GuardTerm list \<Rightarrow> BlockId list \<Rightarrow> StateId option list \<Rightarrow>
   Transition list \<Rightarrow> (abort, Transition list) result"
where
  "collapse func from block gs path state_of out =
     (if block \<in> set path then Err (Failed (UnsuspendedLoop (fn_id func) (fn_name func) block))
      else case TbFunction_block func block of
        None \<Rightarrow> Err Panic
      | Some b \<Rightarrow>
          (let path = path @ [block] in
           case terminator b of
             Jump t \<Rightarrow> collapse func from t gs path state_of out
           | Branch c then_b else_b \<Rightarrow>
               try_bind (collapse func from then_b (gs @ [\<lparr>cond = c, taken = True\<rparr>]) path state_of out) (\<lambda>out.
                 collapse func from else_b (gs @ [\<lparr>cond = c, taken = False\<rparr>]) path state_of out)
           | WaitCycles cycles clock succ \<Rightarrow>
               push_to from gs state_of (CyclesElapsed cycles clock) succ out
           | WaitCyclesSync cycles succ \<Rightarrow>
               push_to from gs state_of (CyclesElapsed cycles None) succ out
           | WaitTimePs ps succ \<Rightarrow> push_to from gs state_of (TimeElapsedPs ps) succ out
           | WaitUntil preds mode succ \<Rightarrow> push_to from gs state_of (PredsHold preds mode) succ out
           | WaitUntilTimeout preds mode cycles on_fire on_timeout \<Rightarrow>
               try_bind (push_to from gs state_of (PredsHold preds mode) on_fire out) (\<lambda>out.
                 push_to from gs state_of (Timeout cycles) on_timeout out)
           | Randomize _ constraints succ \<Rightarrow> push_to from gs state_of (Solved constraints) succ out
           | TbLifecycleCall f succ \<Rightarrow> push_to from gs state_of (LifecycleInlined f) succ out
           | Return \<Rightarrow> Ok (out @ [\<lparr>tr_from = from, guard = gs, trigger = Done, tr_to = None\<rparr>])
           | Terminator.Fatal _ \<Rightarrow>
               Ok (out @ [\<lparr>tr_from = from, guard = gs, trigger = Trigger.Fatal, tr_to = None\<rparr>])))"
  by pat_completeness auto

text \<open>Every recursive call adds a block of the function to the path: the blocks off the path decrease.\<close>

lemma collapse_measure:
  assumes "block \<notin> set path" "TbFunction_block func block = Some b"
  shows "card ({..<length (blocks func)} - set (path @ [block])) < card ({..<length (blocks func)} - set path)"
proof -
  have "block \<in> {..<length (blocks func)} - set path"
    using assms by (simp add: TbFunction_block_def split: if_splits)
  then show ?thesis by (intro psubset_card_mono) auto
qed

termination collapse
  by (relation "measure (\<lambda>(func, _, _, _, path, _, _). card ({..<length (blocks func)} - set path))")
    (use collapse_measure in auto)

declare collapse.simps [simp del]

text \<open>\<^verbatim>\<open>for s in ... { is_resume[s.index()] = true; }\<close>\<close>

fun mark_resume :: "BlockId list \<Rightarrow> bool list \<Rightarrow> (abort, bool list) result" where
  "mark_resume [] is_resume = Ok is_resume"
| "mark_resume (s # ss) is_resume =
     try_bind (or_panic (set_at is_resume s True)) (\<lambda>is_resume. mark_resume ss is_resume)"

fun number_states :: "nat \<Rightarrow> BlockId list \<Rightarrow> StateId option list \<Rightarrow> (abort, StateId option list) result" where
  "number_states si [] state_of = Ok state_of"
| "number_states si (b # bs) state_of =
     try_bind (or_panic (set_at state_of b (Some si))) (\<lambda>state_of. number_states (Suc si) bs state_of)"

fun collapse_states ::
  "TbFunction \<Rightarrow> nat \<Rightarrow> BlockId list \<Rightarrow> StateId option list \<Rightarrow> Transition list \<Rightarrow> (abort, Transition list) result"
where
  "collapse_states func si [] state_of out = Ok out"
| "collapse_states func si (b # bs) state_of out =
     try_bind (collapse func si b [] [] state_of out) (\<lambda>out. collapse_states func (Suc si) bs state_of out)"

definition state_blocks :: "TbFunction \<Rightarrow> bool list \<Rightarrow> BlockId list" where
  "state_blocks func is_resume =
     entry func # filter (\<lambda>bi. is_resume ! bi \<and> bi \<noteq> entry func) [0..<length is_resume]"

definition tag_function :: "TbFunction \<Rightarrow> (abort, BlockId list \<times> Transition list) result" where
  "tag_function func =
     (let nblocks = length (blocks func) in
      try_bind (mark_resume [entry func] (replicate nblocks False)) (\<lambda>is_resume.
      try_bind (mark_resume (concat (map (\<lambda>b. resume_successors (terminator b)) (blocks func))) is_resume) (\<lambda>is_resume.
      let states = state_blocks func is_resume in
      try_bind (number_states 0 states (replicate nblocks None)) (\<lambda>state_of.
      try_bind (collapse_states func 0 states state_of []) (\<lambda>transitions.
        Ok (states, transitions))))))"

fun is_coroutine :: "FunctionKind \<Rightarrow> bool" where
  "is_coroutine (TestBody _ _ _) = True"
| "is_coroutine (SamplerAuto _) = True"
| "is_coroutine (TransactorBody _ _ _) = True"
| "is_coroutine _ = False"

fun run_functions :: "TbFunction list \<Rightarrow> CoroutineMetadata \<Rightarrow> (abort, CoroutineMetadata) result" where
  "run_functions [] meta = Ok meta"
| "run_functions (func # funcs) meta =
     (if \<not> is_coroutine (kind func) then run_functions funcs meta
      else try_bind (tag_function func) (\<lambda>(states, transitions).
        run_functions funcs
          \<lparr>state_enum = bt_insert (fn_id func) states (state_enum meta),
           transition_table = bt_insert (fn_id func) transitions (transition_table meta)\<rparr>))"

definition run :: "'s TbProgram \<Rightarrow> (abort, CoroutineMetadata) result" where
  "run prog = run_functions (prog_functions prog) \<lparr>state_enum = [], transition_table = []\<rparr>"

fun show_LowerCoroutineError :: "LowerCoroutineError \<Rightarrow> string" where
  "show_LowerCoroutineError (UnsuspendedLoop func name block) =
     ''lower_coroutine does not support loops without a suspension point: '' @
     ''fn'' @ show_nat func @ '' '' @ name @ '' has a control-flow cycle through b'' @ show_nat block @
     '' with no `wait` on it (add a `wait` inside the loop, or drop `--pass lower-coroutine`)''"

section \<open>Zero-time paths\<close>

text \<open>
  The reference reading of the control flow.  A block whose terminator neither suspends nor ends the function
  continues in zero time; the other terminators leave through their exits, each with its trigger.
\<close>

fun zero_succs :: "Terminator \<Rightarrow> BlockId list" where
  "zero_succs (Jump t) = [t]"
| "zero_succs (Branch _ t e) = [t, e]"
| "zero_succs _ = []"

definition zero_step :: "TbFunction \<Rightarrow> BlockId \<Rightarrow> BlockId \<Rightarrow> bool" where
  "zero_step f b c \<longleftrightarrow> (\<exists>blk. TbFunction_block f b = Some blk \<and> c \<in> set (zero_succs (terminator blk)))"

fun exits :: "Terminator \<Rightarrow> (Trigger \<times> BlockId option) list" where
  "exits (WaitCycles n clock b) = [(CyclesElapsed n clock, Some b)]"
| "exits (WaitCyclesSync n b) = [(CyclesElapsed n None, Some b)]"
| "exits (WaitTimePs ps b) = [(TimeElapsedPs ps, Some b)]"
| "exits (WaitUntil preds mode b) = [(PredsHold preds mode, Some b)]"
| "exits (WaitUntilTimeout preds mode n b b') = [(PredsHold preds mode, Some b), (Timeout n, Some b')]"
| "exits (Randomize _ c b) = [(Solved c, Some b)]"
| "exits (TbLifecycleCall g b) = [(LifecycleInlined g, Some b)]"
| "exits Return = [(Done, None)]"
| "exits (Terminator.Fatal _) = [(Trigger.Fatal, None)]"
| "exits (Jump _) = []"
| "exits (Branch _ _ _) = []"

inductive zero_path :: "TbFunction \<Rightarrow> BlockId \<Rightarrow> GuardTerm list \<Rightarrow> BlockId \<Rightarrow> bool" for f where
  stop: "TbFunction_block f b = Some blk \<Longrightarrow> zero_succs (terminator blk) = [] \<Longrightarrow> zero_path f b [] b"
| jump: "TbFunction_block f b = Some blk \<Longrightarrow> terminator blk = Jump t \<Longrightarrow> zero_path f t gs c \<Longrightarrow>
    zero_path f b gs c"
| branch: "TbFunction_block f b = Some blk \<Longrightarrow> terminator blk = Branch e t u \<Longrightarrow>
    zero_path f (if d then t else u) gs c \<Longrightarrow> zero_path f b (\<lparr>cond = e, taken = d\<rparr> # gs) c"

text \<open>A guard that follows a sequence of branch outcomes.\<close>

definition follows :: "(nat \<Rightarrow> bool) \<Rightarrow> GuardTerm list \<Rightarrow> bool" where
  "follows outcome gs \<longleftrightarrow> map taken gs = map outcome [0..<length gs]"

definition exit_edges ::
  "StateId option list \<Rightarrow> StateId \<Rightarrow> GuardTerm list \<Rightarrow> Terminator \<Rightarrow> (abort, Transition list) result"
where
  "exit_edges state_of from gs t =
     try_map (\<lambda>(tr, succ). case succ of
         None \<Rightarrow> Ok \<lparr>tr_from = from, guard = gs, trigger = tr, tr_to = None\<rparr>
       | Some b \<Rightarrow> try_bind (state_at state_of b) (\<lambda>to.
           Ok \<lparr>tr_from = from, guard = gs, trigger = tr, tr_to = to\<rparr>)) (exits t)"

lemma zero_succs_empty_cases:
  obtains (jump) b where "t = Jump b" | (branch) e b c where "t = Branch e b c" | (exit) "zero_succs t = []"
  by (cases t) simp_all

lemma collapse_loop [simp]:
  "block \<in> set path \<Longrightarrow>
     collapse f i block gs path so out = Err (Failed (UnsuspendedLoop (fn_id f) (fn_name f) block))"
  by (subst collapse.simps) simp

lemma collapse_range [simp]:
  "block \<notin> set path \<Longrightarrow> TbFunction_block f block = None \<Longrightarrow> collapse f i block gs path so out = Err Panic"
  by (subst collapse.simps) simp

lemma collapse_jump:
  "block \<notin> set path \<Longrightarrow> TbFunction_block f block = Some b \<Longrightarrow> terminator b = Jump t \<Longrightarrow>
     collapse f i block gs path so out = collapse f i t gs (path @ [block]) so out"
  by (subst collapse.simps) simp

lemma collapse_branch:
  "block \<notin> set path \<Longrightarrow> TbFunction_block f block = Some b \<Longrightarrow> terminator b = Branch e t u \<Longrightarrow>
     collapse f i block gs path so out =
       try_bind (collapse f i t (gs @ [\<lparr>cond = e, taken = True\<rparr>]) (path @ [block]) so out) (\<lambda>out.
         collapse f i u (gs @ [\<lparr>cond = e, taken = False\<rparr>]) (path @ [block]) so out)"
  by (subst collapse.simps) (simp add: Let_def)

lemma collapse_exit:
  "block \<notin> set path \<Longrightarrow> TbFunction_block f block = Some b \<Longrightarrow> zero_succs (terminator b) = [] \<Longrightarrow>
     collapse f i block gs path so out = try_bind (exit_edges so i gs (terminator b)) (\<lambda>es. Ok (out @ es))"
  by (subst collapse.simps, cases "terminator b")
    (auto simp: exit_edges_def push_to_def try_bind_def split: sum.splits)

text \<open>Induction on the calls of \<^const>\<open>collapse\<close>, with one case per kind of block.\<close>

lemma collapse_induct [case_names loop range jump branch exit]:
  assumes "\<And>block path gs out. block \<in> set path \<Longrightarrow> P block gs path out"
    and "\<And>block path gs out. block \<notin> set path \<Longrightarrow> TbFunction_block f block = None \<Longrightarrow> P block gs path out"
    and "\<And>block path gs out b t. block \<notin> set path \<Longrightarrow> TbFunction_block f block = Some b \<Longrightarrow>
      terminator b = Jump t \<Longrightarrow> P t gs (path @ [block]) out \<Longrightarrow> P block gs path out"
    and "\<And>block path gs out b e t u. block \<notin> set path \<Longrightarrow> TbFunction_block f block = Some b \<Longrightarrow>
      terminator b = Branch e t u \<Longrightarrow>
      P t (gs @ [\<lparr>cond = e, taken = True\<rparr>]) (path @ [block]) out \<Longrightarrow>
      (\<And>out'. collapse f i t (gs @ [\<lparr>cond = e, taken = True\<rparr>]) (path @ [block]) so out = Inr out' \<Longrightarrow>
         P u (gs @ [\<lparr>cond = e, taken = False\<rparr>]) (path @ [block]) out') \<Longrightarrow> P block gs path out"
    and "\<And>block path gs out b. block \<notin> set path \<Longrightarrow> TbFunction_block f block = Some b \<Longrightarrow>
      zero_succs (terminator b) = [] \<Longrightarrow> P block gs path out"
  shows "P block gs path out"
proof (induction "card ({..<length (blocks f)} - set path)" arbitrary: block gs path out rule: less_induct)
  case less
  note IH = less.hyps [OF collapse_measure]
  show ?case
  proof (cases "block \<in> set path")
    case False
    show ?thesis
    proof (cases "TbFunction_block f block")
      case (Some b)
      show ?thesis
      proof (cases "terminator b" rule: zero_succs_empty_cases)
        case (jump t)
        then show ?thesis using assms(3) [OF False Some] IH [OF False Some] by blast
      next
        case (branch e t u)
        then show ?thesis using assms(4) [OF False Some] IH [OF False Some] by blast
      next
        case exit
        then show ?thesis using assms(5) [OF False Some] by blast
      qed
    qed (use False assms(2) in blast)
  qed (rule assms(1))
qed

text \<open>
  What a successful call contributes for a block: its transitions lie on zero-time paths from the block, a
  path's guard selects exactly the exits of the path's end, and every sequence of branch outcomes has a path.
\<close>

definition table ::
  "TbFunction \<Rightarrow> StateId \<Rightarrow> StateId option list \<Rightarrow> BlockId \<Rightarrow> GuardTerm list \<Rightarrow> Transition list \<Rightarrow> bool"
where
  "table f i so b gs ts \<longleftrightarrow>
     (\<forall>t \<in> set ts. tr_from t = i \<and> (\<exists>ps c. guard t = gs @ ps \<and> zero_path f b ps c)) \<and>
     (\<forall>ps c. zero_path f b ps c \<longrightarrow> (\<exists>blk. TbFunction_block f c = Some blk \<and>
        exit_edges so i (gs @ ps) (terminator blk) = Ok (filter (\<lambda>t. guard t = gs @ ps) ts))) \<and>
     (\<forall>outcome. \<exists>ps c. zero_path f b ps c \<and> follows outcome ps)"

inductive_cases zero_path_from: "zero_path f b gs c"

lemma exit_edges_guard:
  "exit_edges so i gs t = Ok es \<Longrightarrow> list_all (\<lambda>e. tr_from e = i \<and> guard e = gs) es"
  by (cases t) (auto simp: exit_edges_def result_simps)

lemma table_exit:
  assumes "TbFunction_block f b = Some blk" "zero_succs (terminator blk) = []"
    and "exit_edges so i gs (terminator blk) = Ok es"
  shows "table f i so b gs es"
proof -
  have path: "zero_path f b ps c \<longleftrightarrow> ps = [] \<and> c = b" for ps c
    using assms by (auto elim: zero_path_from intro: zero_path.stop)
  show ?thesis
    using assms exit_edges_guard [OF assms(3)] unfolding table_def path
    by (auto simp: list_all_iff follows_def filter_id_conv)
qed

lemma table_jump:
  assumes "TbFunction_block f b = Some blk" "terminator blk = Jump t" "table f i so t gs ts"
  shows "table f i so b gs ts"
proof -
  have "zero_path f b ps c \<longleftrightarrow> zero_path f t ps c" for ps c
    using assms(1,2) by (auto elim: zero_path_from intro: zero_path.jump)
  then show ?thesis using assms(3) by (simp add: table_def)
qed

lemma follows_Cons: "follows outcome (g # gs) \<longleftrightarrow> taken g = outcome 0 \<and> follows (outcome \<circ> Suc) gs"
  unfolding follows_def by (simp add: upt_rec [of 0] map_Suc_upt [symmetric] del: upt_Suc)

lemma table_branch:
  assumes b: "TbFunction_block f b = Some blk" "terminator blk = Branch e t u"
    and t: "table f i so t (gs @ [\<lparr>cond = e, taken = True\<rparr>]) ts"
    and u: "table f i so u (gs @ [\<lparr>cond = e, taken = False\<rparr>]) us"
  shows "table f i so b gs (ts @ us)"
proof -
  have path: "zero_path f b ps c \<longleftrightarrow>
      (\<exists>d qs. ps = \<lparr>cond = e, taken = d\<rparr> # qs \<and> zero_path f (if d then t else u) qs c)" for ps c
  proof
    show "\<exists>d qs. ps = \<lparr>cond = e, taken = d\<rparr> # qs \<and> zero_path f (if d then t else u) qs c"
      if "zero_path f b ps c"
      using that by (cases rule: zero_path.cases) (use b in simp_all)
  qed (use zero_path.branch [OF b] in blast)
  show ?thesis
    unfolding table_def
  proof (intro conjI allI impI ballI)
    fix x assume x: "x \<in> set (ts @ us)"
    then show "tr_from x = i" using t u unfolding table_def by auto
    from x t u obtain d qs c where "guard x = (gs @ [\<lparr>cond = e, taken = d\<rparr>]) @ qs"
        "zero_path f (if d then t else u) qs c"
      unfolding table_def by (metis (full_types) UnE set_append)
    then show "\<exists>ps c. guard x = gs @ ps \<and> zero_path f b ps c" unfolding path by auto
  next
    fix ps c assume "zero_path f b ps c"
    then obtain d qs where ps: "ps = \<lparr>cond = e, taken = d\<rparr> # qs" "zero_path f (if d then t else u) qs c"
      unfolding path by blast
    have "filter (\<lambda>x. guard x = gs @ ps) (if d then us else ts) = []"
      using t u unfolding table_def filter_empty_conv ps(1) by (cases d) fastforce+
    then show "\<exists>blk. TbFunction_block f c = Some blk \<and>
        exit_edges so i (gs @ ps) (terminator blk) = Ok (filter (\<lambda>x. guard x = gs @ ps) (ts @ us))"
      using t u ps by (cases d) (simp_all add: table_def)
  next
    fix outcome
    from t u obtain qs c where "zero_path f (if outcome 0 then t else u) qs c" "follows (outcome \<circ> Suc) qs"
      unfolding table_def by metis
    then have "zero_path f b (\<lparr>cond = e, taken = outcome 0\<rparr> # qs) c \<and>
        follows outcome (\<lparr>cond = e, taken = outcome 0\<rparr> # qs)"
      unfolding path follows_Cons by auto
    then show "\<exists>ps c. zero_path f b ps c \<and> follows outcome ps" by blast
  qed
qed

lemma collapse_table:
  "collapse f i block gs path so out = Ok out' \<Longrightarrow> \<exists>ts. out' = out @ ts \<and> table f i so block gs ts"
proof (induction block gs path out arbitrary: out' rule: collapse_induct [where f = f and i = i and so = so])
  case (jump block path gs out b t)
  then show ?case by (auto simp: collapse_jump intro: table_jump)
next
  case (branch block path gs out b e t u)
  then show ?case by (fastforce simp: collapse_branch result_simps intro: table_branch)
next
  case (exit block path gs out b)
  then show ?case by (auto simp: collapse_exit result_simps intro: table_exit)
qed simp_all

lemma zero_path_deterministic:
  "zero_path f b gs c \<Longrightarrow> zero_path f b gs' c' \<Longrightarrow> follows outcome gs \<Longrightarrow> follows outcome gs' \<Longrightarrow>
     gs = gs' \<and> c = c'"
proof (induction arbitrary: gs' outcome rule: zero_path.induct)
  case (stop b blk)
  from stop.prems(1) show ?case by (cases rule: zero_path.cases) (use stop.hyps in simp_all)
next
  case (jump b blk t gs c)
  from jump.prems(1) show ?case by (cases rule: zero_path.cases) (use jump in auto)
next
  case (branch b blk e t u d gs c)
  from branch.prems(1) obtain d' qs where "gs' = \<lparr>cond = e, taken = d'\<rparr> # qs" "zero_path f (if d' then t else u) qs c'"
    by (cases rule: zero_path.cases) (use branch.hyps in auto)
  with branch.IH [of qs "outcome \<circ> Suc"] branch.prems(2,3) show ?case
    by (simp add: follows_Cons comp_def)
qed

section \<open>Zero-time cycles\<close>

lemma zero_stepI:
  "TbFunction_block f b = Some blk \<Longrightarrow> c \<in> set (zero_succs (terminator blk)) \<Longrightarrow> zero_step f b c"
  by (auto simp: zero_step_def)

lemma zero_step_iff:
  "TbFunction_block f b = Some blk \<Longrightarrow> zero_step f b c \<longleftrightarrow> c \<in> set (zero_succs (terminator blk))"
  by (auto simp: zero_step_def)

definition loop_free :: "TbFunction \<Rightarrow> BlockId set \<Rightarrow> BlockId \<Rightarrow> bool" where
  "loop_free f P b \<longleftrightarrow> (\<forall>c. (zero_step f)\<^sup>*\<^sup>* b c \<longrightarrow> c \<notin> P \<and> \<not> (zero_step f)\<^sup>+\<^sup>+ c c)"

lemma loop_freeI:
  assumes "block \<notin> set path" "\<And>t. zero_step f block t \<Longrightarrow> loop_free f (set (path @ [block])) t"
  shows "loop_free f (set path) block"
  unfolding loop_free_def
proof (intro allI impI)
  fix c assume "(zero_step f)\<^sup>*\<^sup>* block c"
  then show "c \<notin> set path \<and> \<not> (zero_step f)\<^sup>+\<^sup>+ c c"
  proof (cases rule: converse_rtranclpE)
    case base
    have "\<not> (zero_step f)\<^sup>+\<^sup>+ block block"
      using assms(2) unfolding loop_free_def by (fastforce dest: tranclpD)
    with base assms(1) show ?thesis by simp
  next
    case (step t)
    with assms(2) show ?thesis by (simp add: loop_free_def)
  qed
qed

lemma collapse_loop_free:
  "collapse f i block gs path so out = Ok out' \<Longrightarrow> loop_free f (set path) block"
proof (induction block gs path out arbitrary: out' rule: collapse_induct [where f = f and i = i and so = so])
  case (jump block path gs out b t)
  from jump.prems have *: "loop_free f (set (path @ [block])) t"
    unfolding collapse_jump [OF jump.hyps] by (rule jump.IH)
  show ?case by (rule loop_freeI [OF jump.hyps(1)]) (use jump.hyps * in \<open>simp_all add: zero_step_iff\<close>)
next
  case (branch block path gs out b e t u)
  from branch.prems obtain o1 where
    t: "collapse f i t (gs @ [\<lparr>cond = e, taken = True\<rparr>]) (path @ [block]) so out = Ok o1" and
    u: "collapse f i u (gs @ [\<lparr>cond = e, taken = False\<rparr>]) (path @ [block]) so o1 = Ok out'"
    using branch.hyps by (auto simp: collapse_branch result_simps)
  show ?case
    by (rule loop_freeI) (use branch.hyps branch.IH(1) [OF t] branch.IH(2) [OF t u] in \<open>auto simp: zero_step_iff\<close>)
next
  case (exit block path gs out b)
  show ?case by (rule loop_freeI) (use exit.hyps in \<open>simp_all add: zero_step_iff\<close>)
qed simp_all

text \<open>The functions the pass runs on: block ids in range, as \<^verbatim>\<open>verify_program\<close> guarantees.\<close>

definition blocks_in_range :: "TbFunction \<Rightarrow> bool" where
  "blocks_in_range f \<longleftrightarrow> entry f < length (blocks f) \<and>
     (\<forall>b \<in> set (blocks f). \<forall>s \<in> set (successors (terminator b)). s < length (blocks f))"

lemma block_at:
  "blocks_in_range f \<Longrightarrow> TbFunction_block f b = Some blk \<Longrightarrow> s \<in> set (successors (terminator blk)) \<Longrightarrow>
     s < length (blocks f)"
  by (auto simp: blocks_in_range_def TbFunction_block_def split: if_splits)

lemma exit_edges_in_range:
  "(\<forall>s \<in> set (successors t). s < length so) \<Longrightarrow>
     exit_edges so i gs t = Ok (map (\<lambda>(tr, s). \<lparr>tr_from = i, guard = gs, trigger = tr,
       tr_to = (case s of None \<Rightarrow> None | Some b \<Rightarrow> so ! b)\<rparr>) (exits t))"
  by (cases t) (simp_all add: exit_edges_def state_at_def or_panic_def)

lemma cycle_step:
  assumes "zero_step f block t" "(zero_step f)\<^sup>*\<^sup>* t c" "c \<in> set (path @ [block]) \<or> (zero_step f)\<^sup>+\<^sup>+ c c"
  shows "(zero_step f)\<^sup>*\<^sup>* block c \<and> (c \<in> set path \<or> (zero_step f)\<^sup>+\<^sup>+ c c)"
proof -
  have "(zero_step f)\<^sup>+\<^sup>+ c c" if "c = block"
    using assms(1,2) rtranclp_into_tranclp2 [of "zero_step f" block t] that by simp
  then show ?thesis
    using assms(3) converse_rtranclp_into_rtranclp [OF assms(1,2)] by auto
qed

lemma collapse_Err:
  assumes "blocks_in_range f" "length so = length (blocks f)"
  shows "collapse f i block gs path so out = Err e \<Longrightarrow> block < length (blocks f) \<Longrightarrow>
     \<exists>c. e = Failed (UnsuspendedLoop (fn_id f) (fn_name f) c) \<and> (zero_step f)\<^sup>*\<^sup>* block c \<and>
       (c \<in> set path \<or> (zero_step f)\<^sup>+\<^sup>+ c c)"
proof (induction block gs path out rule: collapse_induct [where f = f and i = i and so = so])
  case (range block path gs out)
  then show ?case by (simp add: TbFunction_block_def)
next
  case (exit block path gs out b)
  have "\<forall>s \<in> set (successors (terminator b)). s < length so"
    using block_at [OF assms(1) exit.hyps(2)] assms(2) by simp
  with exit show ?case by (simp add: collapse_exit exit_edges_in_range)
next
  case (jump block path gs out b t)
  have step: "zero_step f block t" and "t < length (blocks f)"
    using jump.hyps block_at [OF assms(1) jump.hyps(2)] by (simp_all add: zero_step_iff)
  then obtain c where c: "e = Failed (UnsuspendedLoop (fn_id f) (fn_name f) c)" "(zero_step f)\<^sup>*\<^sup>* t c"
      "c \<in> set (path @ [block]) \<or> (zero_step f)\<^sup>+\<^sup>+ c c"
    using jump.IH jump.prems(1) by (auto simp: collapse_jump [OF jump.hyps])
  from c(1) cycle_step [OF step c(2,3)] show ?case by blast
next
  case (branch block path gs out b e' t u)
  have step: "zero_step f block t" "zero_step f block u" and "t < length (blocks f)" "u < length (blocks f)"
    using branch.hyps block_at [OF assms(1) branch.hyps(2)] by (simp_all add: zero_step_iff)
  then obtain x c where "zero_step f block x" and c: "e = Failed (UnsuspendedLoop (fn_id f) (fn_name f) c)"
      "(zero_step f)\<^sup>*\<^sup>* x c" "c \<in> set (path @ [block]) \<or> (zero_step f)\<^sup>+\<^sup>+ c c"
    using branch.IH branch.prems(1) by (fastforce simp: collapse_branch [OF branch.hyps] result_simps)
  from c(1) cycle_step [OF this(1) c(2,3)] show ?case by blast
qed auto

section \<open>Tagging a function\<close>

definition resume_points :: "TbFunction \<Rightarrow> BlockId set" where
  "resume_points f = insert (entry f) (\<Union>b \<in> set (blocks f). set (resume_successors (terminator b)))"

lemma resume_successors_subset: "set (resume_successors t) \<subseteq> set (successors t)"
  by (cases t) simp_all

lemma mark_resume_val:
  "(\<forall>s \<in> set ss. s < length m) \<Longrightarrow>
     mark_resume ss m = Ok (map (\<lambda>i. m ! i \<or> i \<in> set ss) [0..<length m])"
proof (induction ss arbitrary: m)
  case Nil
  then show ?case by (simp add: map_nth)
next
  case (Cons s ss)
  then show ?case by (auto simp: set_at_def or_panic_def nth_list_update intro!: map_cong)
qed

lemma number_states_val:
  "distinct bs \<Longrightarrow> (\<forall>b \<in> set bs. b < length so) \<Longrightarrow> \<exists>so'. number_states k bs so = Ok so' \<and> length so' = length so \<and>
     (\<forall>j < length bs. so' ! (bs ! j) = Some (k + j)) \<and> (\<forall>b. b \<notin> set bs \<longrightarrow> b < length so \<longrightarrow> so' ! b = so ! b)"
proof (induction bs arbitrary: k so)
  case (Cons b bs)
  from Cons.IH [of "so[b := Some k]" "Suc k"] Cons.prems obtain so' where
    so': "number_states (Suc k) bs (so[b := Some k]) = Ok so'" "length so' = length so"
      "\<forall>j < length bs. so' ! (bs ! j) = Some (Suc k + j)"
      "\<forall>c. c \<notin> set bs \<longrightarrow> c < length so \<longrightarrow> so' ! c = so[b := Some k] ! c"
    by auto
  have "so' ! ((b # bs) ! j) = Some (k + j)" if "j < length (b # bs)" for j
    using that so'(3,4) Cons.prems by (cases j) auto
  moreover have "so' ! c = so ! c" if "c \<notin> set (b # bs)" "c < length so" for c
    using that so'(4) by auto
  ultimately show ?case using so'(1,2) Cons.prems by (simp add: set_at_def or_panic_def)
qed simp

lemma collapse_states_Ok:
  assumes "collapse_states f k bs so out = Ok out'"
  shows "\<exists>tss. length tss = length bs \<and> out' = out @ concat tss \<and>
    (\<forall>j < length bs. table f (k + j) so (bs ! j) [] (tss ! j) \<and> loop_free f {} (bs ! j))"
  using assms
proof (induction bs arbitrary: k out)
  case (Cons b bs)
  then obtain o1 where b: "collapse f k b [] [] so out = Ok o1" and bs: "collapse_states f (Suc k) bs so o1 = Ok out'"
    by (auto simp: result_simps)
  from collapse_table [OF b] obtain ts where ts: "o1 = out @ ts" "table f k so b [] ts" by blast
  from Cons.IH [OF bs] obtain tss where tss: "length tss = length bs" "out' = o1 @ concat tss"
    "\<forall>j < length bs. table f (Suc k + j) so (bs ! j) [] (tss ! j) \<and> loop_free f {} (bs ! j)"
    by blast
  have "table f (k + j) so ((b # bs) ! j) [] ((ts # tss) ! j) \<and> loop_free f {} ((b # bs) ! j)" if "j < length (b # bs)" for j
    using that ts(2) tss(3) collapse_loop_free [OF b] by (cases j) auto
  moreover have "length (ts # tss) = length (b # bs)" "out' = out @ concat (ts # tss)"
    using ts(1) tss(1,2) by simp_all
  ultimately show ?case by blast
qed simp

lemma collapse_states_Err:
  assumes "blocks_in_range f" "length so = length (blocks f)" "\<forall>b \<in> set bs. b < length (blocks f)"
    and "collapse_states f k bs so out = Err e"
  shows "\<exists>b \<in> set bs. \<exists>c. e = Failed (UnsuspendedLoop (fn_id f) (fn_name f) c) \<and>
    (zero_step f)\<^sup>*\<^sup>* b c \<and> (zero_step f)\<^sup>+\<^sup>+ c c"
  using assms(3,4)
proof (induction bs arbitrary: k out)
  case (Cons b bs)
  from Cons.prems(2) consider "collapse f k b [] [] so out = Err e"
    | o1 where "collapse_states f (Suc k) bs so o1 = Err e"
    by (auto simp: result_simps)
  then show ?case
  proof cases
    case 1
    from collapse_Err [OF assms(1,2) 1] Cons.prems(1) show ?thesis by auto
  next
    case 2
    with Cons.IH [OF _ 2] Cons.prems(1) show ?thesis by auto
  qed
qed simp

definition fsm_states :: "TbFunction \<Rightarrow> BlockId list" where
  "fsm_states f = entry f # filter (\<lambda>b. b \<in> resume_points f \<and> b \<noteq> entry f) [0..<length (blocks f)]"

definition state_index :: "BlockId list \<Rightarrow> BlockId \<Rightarrow> StateId" where
  "state_index states b = length (takeWhile (\<lambda>x. x \<noteq> b) states)"

lemma state_index_nth: "distinct states \<Longrightarrow> j < length states \<Longrightarrow> state_index states (states ! j) = j"
proof (induction states arbitrary: j)
  case (Cons x states)
  then show ?case by (cases j) (auto simp: state_index_def)
qed simp

lemma resume_points_in_range:
  assumes "blocks_in_range f" "b \<in> resume_points f" shows "b < length (blocks f)"
  using assms resume_successors_subset by (fastforce simp: blocks_in_range_def resume_points_def)

lemma fsm_states_props:
  assumes "blocks_in_range f"
  shows "set (fsm_states f) = resume_points f" "distinct (fsm_states f)" "sorted (tl (fsm_states f))"
  using resume_points_in_range [OF assms]
  by (auto simp: fsm_states_def resume_points_def sorted_wrt_filter intro: sorted_wrt_filter)

lemma tag_function_val:
  assumes "blocks_in_range f"
  obtains so where "length so = length (blocks f)"
    "\<And>b. b \<in> resume_points f \<Longrightarrow> so ! b = Some (state_index (fsm_states f) b)"
    "tag_function f = try_bind (collapse_states f 0 (fsm_states f) so []) (\<lambda>ts. Ok (fsm_states f, ts))"
proof -
  let ?ss = "concat (map (\<lambda>b. resume_successors (terminator b)) (blocks f))"
  let ?n = "length (blocks f)"
  have ss: "insert (entry f) (set ?ss) = resume_points f" by (auto simp: resume_points_def)
  have range: "entry f < ?n" "\<forall>s \<in> set ?ss. s < ?n"
    using resume_points_in_range [OF assms] ss by blast+
  from number_states_val [of "fsm_states f" "replicate ?n None" 0] fsm_states_props [OF assms]
  obtain so where so: "number_states 0 (fsm_states f) (replicate ?n None) = Ok so" "length so = ?n"
    "\<forall>j < length (fsm_states f). so ! (fsm_states f ! j) = Some j"
    using resume_points_in_range [OF assms] by auto
  have "so ! b = Some (state_index (fsm_states f) b)" if "b \<in> resume_points f" for b
    using that so(3) state_index_nth fsm_states_props [OF assms] by (metis in_set_conv_nth)
  moreover have "tag_function f = try_bind (collapse_states f 0 (fsm_states f) so []) (\<lambda>ts. Ok (fsm_states f, ts))"
  proof -
    define m1 where "m1 = map (\<lambda>i. replicate ?n False ! i \<or> i \<in> set [entry f]) [0..<?n]"
    define m2 where "m2 = map (\<lambda>i. m1 ! i \<or> i \<in> set ?ss) [0..<?n]"
    have "mark_resume [entry f] (replicate ?n False) = Ok m1"
      using mark_resume_val [of "[entry f]" "replicate ?n False"] range(1) by (simp add: m1_def)
    moreover have "mark_resume ?ss m1 = Ok m2"
      using mark_resume_val [of ?ss m1] range(2) by (simp add: m1_def m2_def)
    moreover have "state_blocks f m2 = fsm_states f"
      unfolding state_blocks_def fsm_states_def m2_def m1_def by (auto simp: resume_points_def intro!: filter_cong)
    ultimately show ?thesis
      using so(1) by (simp add: tag_function_def Let_def del: mark_resume.simps)
  qed
  ultimately show thesis using that so(2) by blast
qed

section \<open>An example\<close>

text \<open>
  \<^verbatim>\<open>while c { wait 2 cycles }\<close>: the condition in block 0, the body in block 1, the exit in block 2, the back
  edge in block 3; and the same loop without the \<^verbatim>\<open>wait\<close>.
\<close>

definition example_block :: "Terminator \<Rightarrow> BasicBlock" where
  "example_block t = \<lparr>stmts = [], terminator = t\<rparr>"

definition example_fn :: "Terminator list \<Rightarrow> TbFunction" where
  "example_fn ts = \<lparr>fn_id = 7, fn_name = ''run_T'', kind = TestBody 0 Run ''T'', params = [],
     locals = [\<lparr>local_name = ''c'', local_ty = Bool\<rparr>], blocks = map example_block ts, entry = 0,
     owner = None, testbench_record_locals = [], ret = None, implicit_returns = []\<rparr>"

definition example_program :: "TbFunction list \<Rightarrow> unit TbProgram" where
  "example_program fs =
     \<lparr>prog_functions = fs, property_checks = [], cover_checks = [], cycle_handlers = [], schemas = ()\<rparr>"

definition example_wait :: TbFunction where
  "example_wait = example_fn [Branch (Expr.Local 0) 1 2, WaitCycles (Literal 2 Unknown) None 3, Return, Jump 0]"

definition example_spin :: TbFunction where
  "example_spin = example_fn [Branch (Expr.Local 0) 1 2, Jump 0, Return]"

definition example_edge :: "StateId \<Rightarrow> bool \<Rightarrow> Trigger \<Rightarrow> StateId option \<Rightarrow> Transition" where
  "example_edge s d tr to = \<lparr>tr_from = s, guard = [\<lparr>cond = Expr.Local 0, taken = d\<rparr>], trigger = tr, tr_to = to\<rparr>"

definition example_table :: "Transition list" where
  "example_table =
    [example_edge 0 True (CyclesElapsed (Literal 2 Unknown) None) (Some 1), example_edge 0 False Done None,
     example_edge 1 True (CyclesElapsed (Literal 2 Unknown) None) (Some 1), example_edge 1 False Done None]"

lemma example_in_range: "blocks_in_range example_wait" "blocks_in_range example_spin"
  by (simp_all add: blocks_in_range_def example_wait_def example_spin_def example_fn_def example_block_def)

lemma example_tag: "tag_function example_wait = Ok ([0, 3], example_table)" by code_simp

lemma example_spin_tag: "tag_function example_spin = Err (Failed (UnsuspendedLoop 7 ''run_T'' 0))" by code_simp

section \<open>Properties of the pass\<close>

lemma tag_function_states:
  assumes "blocks_in_range f" "tag_function f = Ok (states, ts)" shows "states = fsm_states f"
proof -
  obtain so where "tag_function f = try_bind (collapse_states f 0 (fsm_states f) so []) (\<lambda>ts. Ok (fsm_states f, ts))"
    using tag_function_val [OF assms(1)] by blast
  with assms(2) show ?thesis by (auto simp: result_simps)
qed

text \<open>
  The states of a tagged function are its resume points, each once: the entry first, then the others in
  block order.
\<close>

theorem coroutine_states:
  assumes "blocks_in_range f" "tag_function f = Ok (states, ts)"
  shows "hd states = entry f \<and> distinct states \<and> set states = resume_points f \<and> sorted (tl states)"
  using tag_function_states [OF assms] fsm_states_props [OF assms(1)] by (simp add: fsm_states_def)

theorem coroutine_states_witness:
  "set [0, 3] = resume_points example_wait \<and> hd [0, 3] = entry example_wait"
  using coroutine_states [OF example_in_range(1) example_tag] by simp

lemma tag_function_verdict:
  assumes "blocks_in_range f"
  shows "((\<exists>r. tag_function f = Ok r) \<longleftrightarrow>
      \<not> (\<exists>s \<in> resume_points f. \<exists>c. (zero_step f)\<^sup>*\<^sup>* s c \<and> (zero_step f)\<^sup>+\<^sup>+ c c)) \<and>
    (\<forall>e. tag_function f = Err e \<longrightarrow> (\<exists>s \<in> resume_points f. \<exists>c.
      e = Failed (UnsuspendedLoop (fn_id f) (fn_name f) c) \<and> (zero_step f)\<^sup>*\<^sup>* s c \<and> (zero_step f)\<^sup>+\<^sup>+ c c))"
proof -
  note states = fsm_states_props [OF assms]
  obtain so where so: "length so = length (blocks f)"
    and tag: "tag_function f = try_bind (collapse_states f 0 (fsm_states f) so []) (\<lambda>ts. Ok (fsm_states f, ts))"
    using tag_function_val [OF assms] by blast
  have err: "\<exists>s \<in> resume_points f. \<exists>c. e = Failed (UnsuspendedLoop (fn_id f) (fn_name f) c) \<and>
      (zero_step f)\<^sup>*\<^sup>* s c \<and> (zero_step f)\<^sup>+\<^sup>+ c c" if "tag_function f = Err e" for e
    using that collapse_states_Err [OF assms so, of "fsm_states f" 0 "[]" e] states(1)
      resume_points_in_range [OF assms] by (auto simp: tag result_simps)
  have "\<not> (\<exists>s \<in> resume_points f. \<exists>c. (zero_step f)\<^sup>*\<^sup>* s c \<and> (zero_step f)\<^sup>+\<^sup>+ c c)" if ok: "tag_function f = Ok r" for r
  proof -
    from ok obtain ts where "collapse_states f 0 (fsm_states f) so [] = Ok ts" by (auto simp: tag result_simps)
    from collapse_states_Ok [OF this] have "\<forall>s \<in> set (fsm_states f). loop_free f {} s"
      by (metis in_set_conv_nth)
    with states(1) show ?thesis by (auto simp: loop_free_def)
  qed
  moreover have "(\<exists>r. tag_function f = Ok r) \<or> (\<exists>e. tag_function f = Err e)" by (metis sum.exhaust)
  ultimately show ?thesis using err by metis
qed

text \<open>
  C3.  On a function with block ids in range the pass returns a table exactly when no control-flow cycle
  without a suspension is reachable from a resume point; otherwise it reports a block on such a cycle, and it
  never panics.
\<close>

theorem coroutine_loop_check:
  assumes "blocks_in_range f"
  shows "((\<exists>r. tag_function f = Ok r) \<longleftrightarrow>
      \<not> (\<exists>s \<in> resume_points f. \<exists>c. (zero_step f)\<^sup>*\<^sup>* s c \<and> (zero_step f)\<^sup>+\<^sup>+ c c)) \<and>
    (\<forall>e. tag_function f = Err e \<longrightarrow> (\<exists>s \<in> resume_points f. \<exists>c.
      e = Failed (UnsuspendedLoop (fn_id f) (fn_name f) c) \<and> (zero_step f)\<^sup>*\<^sup>* s c \<and> (zero_step f)\<^sup>+\<^sup>+ c c))"
  using tag_function_verdict [OF assms] .

theorem coroutine_loop_check_witness:
  "tag_function example_spin = Err (Failed (UnsuspendedLoop 7 ''run_T'' 0)) \<and>
   (\<exists>s \<in> resume_points example_spin. (zero_step example_spin)\<^sup>*\<^sup>* s 0 \<and> (zero_step example_spin)\<^sup>+\<^sup>+ 0 0) \<and>
   \<not> (\<exists>s \<in> resume_points example_wait. \<exists>c. (zero_step example_wait)\<^sup>*\<^sup>* s c \<and> (zero_step example_wait)\<^sup>+\<^sup>+ c c)"
  using coroutine_loop_check [OF example_in_range(2)] coroutine_loop_check [OF example_in_range(1)]
    example_spin_tag example_tag by auto

lemma filter_concat_nth:
  assumes "\<forall>j < length xss. \<forall>x \<in> set (xss ! j). k x = n + j" "s < length xss"
  shows "filter (\<lambda>x. k x = n + s \<and> P x) (concat xss) = filter P (xss ! s)"
  using assms
proof (induction xss arbitrary: n s)
  case (Cons xs xss)
  have xs: "\<forall>x \<in> set xs. k x = n" using Cons.prems(1) by force
  have xss: "\<forall>j < length xss. \<forall>x \<in> set (xss ! j). k x = Suc n + j" using Cons.prems(1) by force
  show ?case
  proof (cases s)
    case 0
    have "filter (\<lambda>x. k x = n \<and> P x) (concat xss) = []"
      using xss by (force simp: filter_empty_conv in_set_conv_nth)
    with 0 xs show ?thesis by (auto intro: filter_cong)
  next
    case (Suc s')
    with xs have "filter (\<lambda>x. k x = n + s \<and> P x) xs = []" by (auto simp: filter_empty_conv)
    with Cons.IH [OF xss, of s'] Cons.prems(2) Suc show ?thesis by simp
  qed
qed simp

text \<open>The table of a tagged function: what its transitions are for each state.\<close>

lemma coroutine_table:
  assumes f: "blocks_in_range f" and tag: "tag_function f = Ok (states, ts)"
  obtains tss so where "ts = concat tss" "length tss = length states" "length so = length (blocks f)"
    "\<And>b. b \<in> resume_points f \<Longrightarrow> so ! b = Some (state_index states b)"
    "\<And>s. s < length states \<Longrightarrow> table f s so (states ! s) [] (tss ! s)"
proof -
  have st: "states = fsm_states f" using tag_function_states [OF f tag] .
  obtain so where so: "length so = length (blocks f)" "\<And>b. b \<in> resume_points f \<Longrightarrow> so ! b = Some (state_index states b)"
    "tag_function f = try_bind (collapse_states f 0 states so []) (\<lambda>ts. Ok (states, ts))"
    using tag_function_val [OF f] st by blast
  from tag have "collapse_states f 0 states so [] = Ok ts" unfolding so(3) try_eq_Inr_iff by simp
  from collapse_states_Ok [OF this] so(1,2) that show thesis by auto
qed

lemma resume_exits:
  "TbFunction_block f c = Some blk \<Longrightarrow> (tr, Some b) \<in> set (exits (terminator blk)) \<Longrightarrow> b \<in> resume_points f"
proof -
  assume "TbFunction_block f c = Some blk" and b: "(tr, Some b) \<in> set (exits (terminator blk))"
  then have "blk \<in> set (blocks f)" by (auto simp: TbFunction_block_def split: if_splits)
  moreover from b have "b \<in> set (resume_successors (terminator blk))" by (cases "terminator blk") auto
  ultimately show ?thesis by (auto simp: resume_points_def)
qed

lemma exit_edges_indexed:
  assumes "blocks_in_range f" "length so = length (blocks f)"
    and "\<And>b. b \<in> resume_points f \<Longrightarrow> so ! b = Some (state_index states b)"
    and "TbFunction_block f c = Some blk"
  shows "exit_edges so i gs (terminator blk) = Ok (map (\<lambda>(tr, b).
    \<lparr>tr_from = i, guard = gs, trigger = tr, tr_to = map_option (state_index states) b\<rparr>) (exits (terminator blk)))"
proof -
  have "\<forall>s \<in> set (successors (terminator blk)). s < length so"
    using block_at [OF assms(1,4)] assms(2) by simp
  then show ?thesis
    using assms(3) resume_exits [OF assms(4)] by (auto simp: exit_edges_in_range split: option.split)
qed

lemma coroutine_total:
  assumes f: "blocks_in_range f" and tag: "tag_function f = Ok (states, ts)" and s: "s < length states"
  shows "\<exists>!(gs, c). zero_path f (states ! s) gs c \<and> follows outcome gs"
proof -
  obtain tss so where "table f s so (states ! s) [] (tss ! s)" using coroutine_table [OF f tag] s by metis
  then obtain gs c where p: "zero_path f (states ! s) gs c" "follows outcome gs" by (metis table_def)
  have "q = (gs, c)" if "case q of (gs, c) \<Rightarrow> zero_path f (states ! s) gs c \<and> follows outcome gs" for q
    using that zero_path_deterministic [OF p(1) _ p(2)] by (cases q) blast
  with p show ?thesis by (intro ex1I [of _ "(gs, c)"]) simp_all
qed

lemma coroutine_edges:
  assumes f: "blocks_in_range f" and tag: "tag_function f = Ok (states, ts)" and s: "s < length states"
    and p: "zero_path f (states ! s) gs c"
  shows "\<exists>blk. TbFunction_block f c = Some blk \<and> filter (\<lambda>t. tr_from t = s \<and> guard t = gs) ts =
    map (\<lambda>(tr, b). \<lparr>tr_from = s, guard = gs, trigger = tr, tr_to = map_option (state_index states) b\<rparr>)
      (exits (terminator blk))"
proof -
  obtain tss so where ts: "ts = concat tss" "length tss = length states" and so: "length so = length (blocks f)"
    "\<And>b. b \<in> resume_points f \<Longrightarrow> so ! b = Some (state_index states b)"
    and tab: "\<And>s. s < length states \<Longrightarrow> table f s so (states ! s) [] (tss ! s)"
    using coroutine_table [OF f tag] by metis
  from tab [OF s] p obtain blk where blk: "TbFunction_block f c = Some blk"
    and edges: "exit_edges so s gs (terminator blk) = Ok (filter (\<lambda>t. guard t = gs) (tss ! s))"
    unfolding table_def by (metis append_Nil)
  have "\<forall>j < length tss. \<forall>t \<in> set (tss ! j). tr_from t = 0 + j" using tab ts(2) by (simp add: table_def)
  from filter_concat_nth [OF this, of s] s ts
  have "filter (\<lambda>t. tr_from t = s \<and> guard t = gs) ts = filter (\<lambda>t. guard t = gs) (tss ! s)" by simp
  with edges exit_edges_indexed [OF f so blk] blk show ?thesis by simp
qed

lemma coroutine_sources:
  assumes f: "blocks_in_range f" and tag: "tag_function f = Ok (states, ts)" and t: "t \<in> set ts"
  shows "tr_from t < length states \<and> (\<exists>c. zero_path f (states ! tr_from t) (guard t) c)"
proof -
  obtain tss so where ts: "ts = concat tss" "length tss = length states"
    and tab: "\<And>s. s < length states \<Longrightarrow> table f s so (states ! s) [] (tss ! s)"
    using coroutine_table [OF f tag] by metis
  from t ts(1) obtain xs where "xs \<in> set tss" "t \<in> set xs" by auto
  then obtain s where s: "s < length states" "t \<in> set (tss ! s)" using ts(2) by (metis in_set_conv_nth)
  from tab [OF s(1)] s(2) have "tr_from t = s \<and> (\<exists>c. zero_path f (states ! s) (guard t) c)"
    unfolding table_def by (metis append_Nil)
  with s(1) show ?thesis by auto
qed

lemma zero_path_exits: "zero_path f b gs c \<Longrightarrow> TbFunction_block f c = Some blk \<Longrightarrow> exits (terminator blk) \<noteq> []"
proof (induction rule: zero_path.induct)
  case (stop b blk')
  then show ?case by (cases "terminator blk") simp_all
qed simp_all

lemma coroutine_progress:
  assumes f: "blocks_in_range f" and tag: "tag_function f = Ok (states, ts)" and s: "s < length states"
  shows "\<exists>t \<in> set ts. tr_from t = s \<and> follows outcome (guard t)"
proof -
  from ex1_implies_ex [OF coroutine_total [OF assms, of outcome]] obtain gs c
    where p: "zero_path f (states ! s) gs c" "follows outcome gs" by auto
  from coroutine_edges [OF assms p(1)] zero_path_exits [OF p(1)]
  have "filter (\<lambda>t. tr_from t = s \<and> guard t = gs) ts \<noteq> []" by force
  with p(2) show ?thesis by (auto simp: filter_empty_conv)
qed

text \<open>
  C2.  The transition table is complete and deterministic.  Whatever the outcomes of the branch conditions
  after resuming in a state, exactly one guard of the state is met; the transitions with that guard are, in
  order, exactly the exits of the block where the zero-time path ends, each to the state of its resume block;
  and every transition of the table belongs to such a path of its source state.
\<close>

theorem coroutine_fsm:
  assumes f: "blocks_in_range f" and tag: "tag_function f = Ok (states, ts)"
  shows "(\<forall>s < length states. \<forall>outcome. \<exists>!(gs, c). zero_path f (states ! s) gs c \<and> follows outcome gs) \<and>
    (\<forall>s < length states. \<forall>gs c. zero_path f (states ! s) gs c \<longrightarrow>
      (\<exists>blk. TbFunction_block f c = Some blk \<and>
        filter (\<lambda>t. tr_from t = s \<and> guard t = gs) ts =
          map (\<lambda>(tr, b). \<lparr>tr_from = s, guard = gs, trigger = tr, tr_to = map_option (state_index states) b\<rparr>)
            (exits (terminator blk)))) \<and>
    (\<forall>t \<in> set ts. tr_from t < length states \<and> (\<exists>c. zero_path f (states ! tr_from t) (guard t) c))"
  using coroutine_total [OF assms] coroutine_edges [OF assms] coroutine_sources [OF assms] by blast

theorem coroutine_fsm_witness:
  "tag_function example_wait = Ok ([0, 3], example_table) \<and>
   (\<exists>!(gs, c). zero_path example_wait 3 gs c \<and> follows (\<lambda>_. True) gs) \<and>
   (\<exists>c. zero_path example_wait ([0, 3] ! tr_from (example_table ! 2)) (guard (example_table ! 2)) c)"
proof -
  note fsm = coroutine_fsm [OF example_in_range(1) example_tag]
  have "\<exists>!(gs, c). zero_path example_wait ([0, 3] ! 1) gs c \<and> follows (\<lambda>_. True) gs"
    by (rule fsm [THEN conjunct1, rule_format]) simp
  moreover have "example_table ! 2 \<in> set example_table" by (simp add: example_table_def)
  with fsm [THEN conjunct2, THEN conjunct2]
  have "\<exists>c. zero_path example_wait ([0, 3] ! tr_from (example_table ! 2)) (guard (example_table ! 2)) c" by blast
  ultimately show ?thesis using example_tag by simp
qed

section \<open>Execution\<close>

text \<open>
  One round of execution resumes, follows zero-time control flow under the guard \<open>gs\<close>, and leaves through a
  trigger.  The control-flow graph runs from block to block, the table from state to state; \<^const>\<open>None\<close> is the
  ended function.
\<close>

inductive cfg_run ::
  "TbFunction \<Rightarrow> BlockId option \<Rightarrow> (GuardTerm list \<times> Trigger) list \<Rightarrow> BlockId option \<Rightarrow> bool" for f
where
  cfg_refl: "cfg_run f x [] x"
| cfg_round: "zero_path f b gs c \<Longrightarrow> TbFunction_block f c = Some blk \<Longrightarrow> (tr, y) \<in> set (exits (terminator blk)) \<Longrightarrow>
    cfg_run f y w z \<Longrightarrow> cfg_run f (Some b) ((gs, tr) # w) z"

inductive fsm_run ::
  "Transition list \<Rightarrow> StateId option \<Rightarrow> (GuardTerm list \<times> Trigger) list \<Rightarrow> StateId option \<Rightarrow> bool" for ts
where
  fsm_refl: "fsm_run ts x [] x"
| fsm_round: "t \<in> set ts \<Longrightarrow> fsm_run ts (tr_to t) w z \<Longrightarrow>
    fsm_run ts (Some (tr_from t)) ((guard t, trigger t) # w) z"

lemma coroutine_round:
  assumes f: "blocks_in_range f" and tag: "tag_function f = Ok (states, ts)" and s: "s < length states"
  shows "(\<exists>t \<in> set ts. tr_from t = s \<and> guard t = gs \<and> trigger t = tr \<and> tr_to t = to) \<longleftrightarrow>
    (\<exists>c blk y. zero_path f (states ! s) gs c \<and> TbFunction_block f c = Some blk \<and>
      (tr, y) \<in> set (exits (terminator blk)) \<and> to = map_option (state_index states) y)" (is "?L \<longleftrightarrow> ?R")
proof -
  let ?e = "\<lambda>(tr, b). \<lparr>tr_from = s, guard = gs, trigger = tr, tr_to = map_option (state_index states) b\<rparr>"
  have filt: "(\<exists>t \<in> set ts. tr_from t = s \<and> guard t = gs \<and> trigger t = tr \<and> tr_to t = to) \<longleftrightarrow>
      (\<exists>y. (tr, y) \<in> set (exits (terminator blk)) \<and> to = map_option (state_index states) y)"
    if "zero_path f (states ! s) gs c" "TbFunction_block f c = Some blk" for c blk
  proof -
    from coroutine_edges [OF f tag s that(1)] that(2)
    have eq: "set (filter (\<lambda>t. tr_from t = s \<and> guard t = gs) ts) = ?e ` set (exits (terminator blk))" by simp
    have "(\<exists>t \<in> set ts. tr_from t = s \<and> guard t = gs \<and> trigger t = tr \<and> tr_to t = to) \<longleftrightarrow>
        (\<exists>t \<in> set (filter (\<lambda>t. tr_from t = s \<and> guard t = gs) ts). trigger t = tr \<and> tr_to t = to)" by auto
    also have "\<dots> \<longleftrightarrow> (\<exists>y. (tr, y) \<in> set (exits (terminator blk)) \<and> to = map_option (state_index states) y)"
      unfolding eq by force
    finally show ?thesis .
  qed
  show ?thesis
  proof
    assume L: ?L
    then obtain t where "t \<in> set ts" "tr_from t = s" "guard t = gs" by blast
    with coroutine_sources [OF f tag] obtain c where c: "zero_path f (states ! s) gs c" by blast
    with coroutine_edges [OF f tag s] obtain blk where "TbFunction_block f c = Some blk" by blast
    with L filt c show ?R by blast
  qed (use filt in blast)
qed

lemma state_index_in: "b \<in> set states \<Longrightarrow> state_index states b < length states \<and> states ! state_index states b = b"
  by (induction states) (auto simp: state_index_def)

lemma cfg_run_fsm:
  assumes f: "blocks_in_range f" and tag: "tag_function f = Ok (states, ts)"
  shows "cfg_run f x w z \<Longrightarrow> (\<forall>b. x = Some b \<longrightarrow> b \<in> set states) \<Longrightarrow>
    fsm_run ts (map_option (state_index states) x) w (map_option (state_index states) z)"
proof (induction rule: cfg_run.induct)
  case (cfg_round b gs c blk tr y w z)
  have st: "set states = resume_points f"
    using tag_function_states [OF f tag] fsm_states_props [OF f] by simp
  have b: "state_index states b < length states" "states ! state_index states b = b"
    using cfg_round.prems state_index_in by blast+
  with cfg_round.hyps coroutine_round [OF f tag b(1), of gs tr "map_option (state_index states) y"]
  obtain t where t: "t \<in> set ts" "tr_from t = state_index states b" "guard t = gs" "trigger t = tr"
    "tr_to t = map_option (state_index states) y"
    unfolding b(2) by blast
  have "\<forall>b'. y = Some b' \<longrightarrow> b' \<in> set states"
    using resume_exits cfg_round.hyps(2,3) st by blast
  with cfg_round.IH t(5) have "fsm_run ts (tr_to t) w (map_option (state_index states) z)" by simp
  from fsm_run.fsm_round [OF t(1) this] t show ?case by simp
qed (rule fsm_run.fsm_refl)

lemma fsm_run_cfg:
  assumes f: "blocks_in_range f" and tag: "tag_function f = Ok (states, ts)"
  shows "fsm_run ts x w z \<Longrightarrow> (\<forall>s. x = Some s \<longrightarrow> s < length states) \<Longrightarrow>
    \<exists>y. cfg_run f (map_option (nth states) x) w y \<and> z = map_option (state_index states) y"
proof (induction rule: fsm_run.induct)
  case (fsm_refl x)
  have "distinct states" using tag_function_states [OF f tag] fsm_states_props [OF f] by simp
  with fsm_refl show ?case
    by (intro exI [of _ "map_option (nth states) x"]) (cases x; simp add: cfg_run.cfg_refl state_index_nth)
next
  case (fsm_round t w z)
  have st: "set states = resume_points f"
    using tag_function_states [OF f tag] fsm_states_props [OF f] by simp
  have s: "tr_from t < length states" using fsm_round.prems by simp
  with fsm_round.hyps(1) coroutine_round [OF f tag s, of "guard t" "trigger t" "tr_to t"]
  obtain c blk y where r: "zero_path f (states ! tr_from t) (guard t) c" "TbFunction_block f c = Some blk"
    "(trigger t, y) \<in> set (exits (terminator blk))" "tr_to t = map_option (state_index states) y" by blast
  have y: "b \<in> set states" if "y = Some b" for b using resume_exits r(2,3) st that by blast
  then have "map_option (nth states) (tr_to t) = y" using r(4) state_index_in by (cases y) auto
  with fsm_round.IH r(4) y state_index_in obtain y' where "cfg_run f y w y'" "z = map_option (state_index states) y'"
    by fastforce
  with cfg_run.cfg_round [OF r(1-3)] show ?case by auto
qed

text \<open>
  C1.  Running the table from a state and running the control-flow graph from the state's resume block give
  the same sequences of guards and triggers, and end in corresponding places.
\<close>

theorem coroutine_refines_cfg:
  assumes f: "blocks_in_range f" and tag: "tag_function f = Ok (states, ts)" and s: "s < length states"
  shows "fsm_run ts (Some s) w z \<longleftrightarrow>
    (\<exists>y. cfg_run f (Some (states ! s)) w y \<and> z = map_option (state_index states) y)"
proof -
  have "state_index states (states ! s) = s"
    using state_index_nth s tag_function_states [OF f tag] fsm_states_props [OF f] by simp
  then show ?thesis
    using fsm_run_cfg [OF f tag, of "Some s" w z] cfg_run_fsm [OF f tag, of "Some (states ! s)" w] s by auto
qed

theorem coroutine_refines_cfg_witness:
  "\<exists>w. length w = 2 \<and> fsm_run example_table (Some 1) w None \<and> cfg_run example_wait (Some 3) w None"
proof -
  let ?t = "\<lambda>i. example_table ! i"
  let ?w = "[(guard (?t 2), trigger (?t 2)), (guard (?t 3), trigger (?t 3))]"
  have t: "?t 2 \<in> set example_table" "?t 3 \<in> set example_table"
    "tr_from (?t 2) = 1" "tr_to (?t 2) = Some 1" "tr_from (?t 3) = 1" "tr_to (?t 3) = None"
    by (simp_all add: example_table_def example_edge_def)
  have "fsm_run example_table (Some 1) ?w None"
    using fsm_run.fsm_round [OF t(1), of "[(guard (?t 3), trigger (?t 3))]" None]
      fsm_run.fsm_round [OF t(2), of "[]" None] fsm_run.fsm_refl [of example_table None] by (simp add: t(3-6))
  moreover from this have "cfg_run example_wait (Some 3) ?w None"
    using coroutine_refines_cfg [OF example_in_range(1) example_tag, of 1 ?w None] by simp
  ultimately show ?thesis by (intro exI [of _ ?w]) simp
qed

section \<open>The whole program\<close>

definition coroutines :: "TbFunction list \<Rightarrow> TbFunction list" where
  "coroutines fs = filter (\<lambda>f. is_coroutine (kind f)) fs"

lemma coroutines_Cons [simp]:
  "coroutines (f # fs) = (if is_coroutine (kind f) then f # coroutines fs else coroutines fs)"
  "coroutines [] = []"
  by (simp_all add: coroutines_def)

lemma run_functions_Ok:
  "run_functions fs meta = Ok meta' \<Longrightarrow>
     (\<exists>tags. list_all2 (\<lambda>f r. tag_function f = Ok r) (coroutines fs) tags \<and>
        state_enum meta' = bt.ins_all (zip (map fn_id (coroutines fs)) (map fst tags)) (state_enum meta) \<and>
        transition_table meta' = bt.ins_all (zip (map fn_id (coroutines fs)) (map snd tags)) (transition_table meta))"
proof (induction fs arbitrary: meta)
  case (Cons f fs)
  show ?case
  proof (cases "is_coroutine (kind f)")
    case True
    with Cons.prems obtain states ts where tag: "tag_function f = Ok (states, ts)"
      and "run_functions fs \<lparr>state_enum = bt_insert (fn_id f) states (state_enum meta),
        transition_table = bt_insert (fn_id f) ts (transition_table meta)\<rparr> = Ok meta'"
      by (auto simp: result_simps)
    from Cons.IH [OF this(2)] obtain tags where "list_all2 (\<lambda>f r. tag_function f = Ok r) (coroutines fs) tags"
      "state_enum meta' = bt.ins_all (zip (map fn_id (coroutines fs)) (map fst tags))
         (bt_insert (fn_id f) states (state_enum meta))"
      "transition_table meta' = bt.ins_all (zip (map fn_id (coroutines fs)) (map snd tags))
         (bt_insert (fn_id f) ts (transition_table meta))"
      by auto
    with True tag show ?thesis by (intro exI [of _ "(states, ts) # tags"]) (simp add: bt.ins_all_def)
  qed (use Cons in simp)
qed (simp add: bt.ins_all_def)

lemma run_functions_Err:
  "run_functions fs meta = Err e \<longleftrightarrow>
     (\<exists>f. find (\<lambda>f. isl (tag_function f)) (coroutines fs) = Some f \<and> tag_function f = Err e)"
proof (induction fs arbitrary: meta)
  case (Cons f fs)
  then show ?case by (cases "tag_function f") auto
qed simp

lemma keys_ins_all_zip:
  assumes "distinct ids" "length vs = length ids"
  shows "map fst (bt.ins_all (zip ids vs) []) = sort (ids :: nat list)"
proof (rule sorted_distinct_set_unique)
  have "map fst (zip ids vs) = ids" using assms(2) by simp
  then show "set (map fst (bt.ins_all (zip ids vs) [])) = set (sort ids)"
    using bt.keys_ins_all [of "zip ids vs"] by (metis set_map set_sort)
qed (use bt.keys_ins_all [of "zip ids vs"] assms(1) in simp_all)

lemma look_ins_all_zip:
  assumes "distinct ids" "length vs = length ids" "j < length ids"
  shows "map_of (bt.ins_all (zip ids vs) []) (ids ! j) = Some (vs ! j)"
  using assms by (simp add: bt.look_ins_all_distinct map_of_zip_nth)

lemma run_functions_tables:
  assumes "distinct (map fn_id fs)" "run_functions fs \<lparr>state_enum = [], transition_table = []\<rparr> = Ok meta"
  shows "map fst (state_enum meta) = sort (map fn_id (coroutines fs)) \<and>
    map fst (transition_table meta) = map fst (state_enum meta) \<and>
    (\<forall>f \<in> set (coroutines fs). \<exists>states ts. tag_function f = Ok (states, ts) \<and>
      map_of (state_enum meta) (fn_id f) = Some states \<and> map_of (transition_table meta) (fn_id f) = Some ts)"
proof -
  let ?ids = "map fn_id (coroutines fs)"
  from run_functions_Ok [OF assms(2)] obtain tags where
    tags: "list_all2 (\<lambda>f r. tag_function f = Ok r) (coroutines fs) tags" and
    meta: "state_enum meta = bt.ins_all (zip ?ids (map fst tags)) []"
      "transition_table meta = bt.ins_all (zip ?ids (map snd tags)) []" by auto
  have d: "distinct ?ids" using assms(1) by (simp add: coroutines_def distinct_map_filter)
  have len: "length tags = length (coroutines fs)" using tags by (simp add: list_all2_lengthD)
  have "\<exists>states ts. tag_function f = Ok (states, ts) \<and>
      map_of (state_enum meta) (fn_id f) = Some states \<and> map_of (transition_table meta) (fn_id f) = Some ts"
    if f: "f \<in> set (coroutines fs)" for f
  proof -
    from f obtain j where j: "j < length (coroutines fs)" "f = coroutines fs ! j" by (metis in_set_conv_nth)
    have "tag_function f = Ok (fst (tags ! j), snd (tags ! j))"
      using tags j by (simp add: list_all2_conv_all_nth)
    moreover have "map_of (state_enum meta) (fn_id f) = Some (fst (tags ! j))"
      using look_ins_all_zip [OF d, of "map fst tags" j] len j by (simp add: meta)
    moreover have "map_of (transition_table meta) (fn_id f) = Some (snd (tags ! j))"
      using look_ins_all_zip [OF d, of "map snd tags" j] len j by (simp add: meta)
    ultimately show ?thesis by blast
  qed
  then show ?thesis
    using keys_ins_all_zip [OF d, of "map fst tags"] keys_ins_all_zip [OF d, of "map snd tags"] len
    by (simp add: meta)
qed



end
