(* ===== verification/Placement.thy ===== *)
theory Placement
  imports Ir_Visit Btree_Map "HOL-Library.Product_Lexorder"
begin

text \<open>
  The pass \<^verbatim>\<open>placement\<close> (\<^verbatim>\<open>src/ir/passes/placement.rs\<close>): every block of every function but the helpers gets a
  placement tier and a timing class, and what a target profile cannot execute is diagnosed.

  The code scans a block with one match over its statements and one over its terminator, updating local variables;
  \<open>feature_scan\<close> is the record of those variables.  The specification is in terms of the expressions that the visitors
  of \<^verbatim>\<open>ir/visit.rs\<close> find.
\<close>

section \<open>Profiles and results\<close>

datatype PlacementTier = Tier0CoLocated | Tier1NearProcessor | Tier2HostService

datatype TimingClass = CycleExact | TimingTolerant | TimingUnknown

datatype SyncCost = Free | Cheap | Expensive

record TargetProfile =
  tp_name :: string
  has_tier0 :: bool
  tier1_cycle_locked :: bool
  reach_port :: bool
  reach_probe :: bool
  reach_force :: bool
  solve_device_rejection :: bool
  solve_replay_table :: bool
  solve_host_sync :: bool
  sync_cost :: SyncCost

definition single_site :: TargetProfile where
  "single_site = \<lparr>tp_name = ''single-site'', has_tier0 = True, tier1_cycle_locked = True, reach_port = True,
     reach_probe = True, reach_force = True, solve_device_rejection = True, solve_replay_table = True,
     solve_host_sync = True, sync_cost = Free\<rparr>"

definition split_strict :: TargetProfile where
  "split_strict = \<lparr>tp_name = ''split-strict'', has_tier0 = False, tier1_cycle_locked = False, reach_port = True,
     reach_probe = False, reach_force = False, solve_device_rejection = False, solve_replay_table = False,
     solve_host_sync = True, sync_cost = Expensive\<rparr>"

definition profile_by_name :: "string \<Rightarrow> TargetProfile option" where
  "profile_by_name name =
     (if name = ''single-site'' \<or> name = ''single_site'' then Some single_site
      else if name = ''split-strict'' \<or> name = ''split_strict'' then Some split_strict
      else None)"

fun reaches :: "TargetProfile \<Rightarrow> PortAccess \<Rightarrow> bool" where
  "reaches profile PortAccess.Port = reach_port profile"
| "reaches profile Probe = reach_probe profile"
| "reaches profile Force = reach_force profile"

record PlacementDiag =
  pd_func :: FunctionId
  pd_func_name :: string
  pd_block :: BlockId
  pd_message :: string

definition show_PlacementDiag :: "PlacementDiag \<Rightarrow> string" where
  "show_PlacementDiag d = ''fn'' @ show_nat (pd_func d) @ '' '' @ pd_func_name d @ '' b'' @ show_nat (pd_block d) @ '': '' @ pd_message d"

record PlacementTable =
  pt_blocks :: "((FunctionId \<times> BlockId) \<times> (PlacementTier \<times> TimingClass)) list"
  pt_diagnostics :: "PlacementDiag list"

record BlockFeatures =
  accesses :: "PortAccess list"
  has_pin_stmt :: bool
  host_service_only :: bool
  has_transactor_call :: bool
  suspends_cycles :: bool
  suspends_until :: bool
  solves :: bool

section \<open>Features of a block\<close>

record feature_scan =
  fs_accesses :: "PortAccess list"
  fs_transactor :: bool
  fs_pin_stmt :: bool
  fs_host_only :: bool

definition touch :: "PortAccess \<Rightarrow> feature_scan \<Rightarrow> feature_scan" where
  "touch a fs = (if a \<in> set (fs_accesses fs) then fs else fs\<lparr>fs_accesses := fs_accesses fs @ [a]\<rparr>)"

definition call_transactor :: "feature_scan \<Rightarrow> feature_scan" where
  "call_transactor fs = fs\<lparr>fs_transactor := True\<rparr>"

definition not_host_only :: "feature_scan \<Rightarrow> feature_scan" where
  "not_host_only fs = fs\<lparr>fs_host_only := False\<rparr>"

definition pin_stmt :: "PortRef \<Rightarrow> feature_scan \<Rightarrow> feature_scan" where
  "pin_stmt port fs = touch (access port) (fs\<lparr>fs_pin_stmt := True, fs_host_only := False\<rparr>)"

fun scan_node :: "Expr \<Rightarrow> feature_scan \<Rightarrow> feature_scan" where
  "scan_node (Expr.Port port) = touch (access port)"
| "scan_node (PortSnapshotLane _ port _) = touch (access port)"
| "scan_node (Call (TransactorMethod _ _ _) _) = call_transactor"
| "scan_node (RegRead _ _ _ _ reads_bus) = (if reads_bus then call_transactor else id)"
| "scan_node _ = id"

definition scan_expr :: "Expr \<Rightarrow> feature_scan \<Rightarrow> feature_scan" where
  "scan_expr e = walk_expr e scan_node"

definition scan_opt :: "Expr option \<Rightarrow> feature_scan \<Rightarrow> feature_scan" where
  "scan_opt x = (case x of None \<Rightarrow> id | Some e \<Rightarrow> scan_expr e)"

definition scan_fmt :: "FmtArgs \<Rightarrow> feature_scan \<Rightarrow> feature_scan" where
  "scan_fmt args = fold (\<lambda>a. scan_expr (fa_expr a)) (fmt_args args)"

definition scan_property :: "PropertyCheckSchema \<Rightarrow> feature_scan \<Rightarrow> feature_scan" where
  "scan_property schema fs =
     (let fs = (case pc_shape schema of
            Implies ante cons \<Rightarrow> scan_expr cons (scan_expr ante fs)
          | ImpliesNext ante cons \<Rightarrow> scan_expr cons (scan_expr ante fs)
          | Invariant expr \<Rightarrow> scan_expr expr fs);
          fs = fold (\<lambda>t. scan_expr (slot_inner t)) (pc_temporals schema) fs
      in case pc_message schema of None \<Rightarrow> fs | Some message \<Rightarrow> scan_fmt message fs)"

definition scan_cover :: "CoverCheckSchema \<Rightarrow> feature_scan \<Rightarrow> feature_scan" where
  "scan_cover schema fs = fold (\<lambda>t. scan_expr (slot_inner t)) (cc_temporals schema) (scan_expr (cc_cond schema) fs)"

definition scan_handler :: "CycleHandlerSchema \<Rightarrow> feature_scan \<Rightarrow> feature_scan" where
  "scan_handler schema = (case ch_kind schema of CTrigger trigger _ \<Rightarrow> scan_expr trigger | Periodic period \<Rightarrow> scan_expr period)"

definition scan_schema :: "('a \<Rightarrow> feature_scan \<Rightarrow> feature_scan) \<Rightarrow> 'a list \<Rightarrow> nat \<Rightarrow> feature_scan \<Rightarrow> feature_scan" where
  "scan_schema scan table i = (if i < length table then scan (table ! i) else id)"

fun scan_stmt :: "'s TbProgram \<Rightarrow> Stmt \<Rightarrow> feature_scan \<Rightarrow> feature_scan" where
  "scan_stmt prog (DutWrite port val) fs = scan_expr val (pin_stmt port fs)"
| "scan_stmt prog (DutRead _ port) fs = pin_stmt port fs"
| "scan_stmt prog (ProbeRelease port) fs = pin_stmt port fs"
| "scan_stmt prog (Assign _ e) fs = scan_expr e (not_host_only fs)"
| "scan_stmt prog (HelperCall call) fs = scan_expr call (not_host_only fs)"
| "scan_stmt prog (AssertCheck c on_fail) fs = scan_fmt on_fail (scan_expr c (not_host_only fs))"
| "scan_stmt prog (AssumeCheck c on_fail) fs = scan_fmt on_fail (scan_expr c (not_host_only fs))"
| "scan_stmt prog (Log _ args _) fs = scan_fmt args fs"
| "scan_stmt prog (FailDiag guard args) fs = scan_fmt args (scan_opt guard fs)"
| "scan_stmt prog (RecordInit _ _) fs = not_host_only fs"
| "scan_stmt prog (ComponentInit _ _ _) fs = not_host_only fs"
| "scan_stmt prog (AggregateInit _) fs = not_host_only fs"
| "scan_stmt prog (RecordRead _ _ _ addr) fs = scan_expr addr (not_host_only fs)"
| "scan_stmt prog (RecordWrite _ _ _ addr val) fs = scan_expr val (scan_expr addr (not_host_only fs))"
| "scan_stmt prog (RecordFieldWrite _ _ _ mid_indices index val) fs =
     scan_expr val (scan_opt index (fold (\<lambda>(_, idx). scan_expr idx) mid_indices (not_host_only fs)))"
| "scan_stmt prog (RecordWriteCb _ _ _ _ val _ _) fs = scan_expr val (not_host_only fs)"
| "scan_stmt prog (TransactorCall _ call) fs = scan_expr call (not_host_only fs)"
| "scan_stmt prog (TransactorSelfCall _ call) fs = scan_expr call (not_host_only fs)"
| "scan_stmt prog (TbFieldWrite _ val) fs = scan_expr val (not_host_only fs)"
| "scan_stmt prog (TbQueuePush _ val) fs = scan_expr val (not_host_only fs)"
| "scan_stmt prog (TransactorStateWrite _ _ val) fs = scan_expr val (not_host_only fs)"
| "scan_stmt prog (TransactorStateQueuePush _ _ val) fs = scan_expr val (not_host_only fs)"
| "scan_stmt prog (TransactorStateRecordFieldWrite _ _ _ mid_indices index val) fs =
     scan_expr val (scan_opt index (fold (\<lambda>(_, idx). scan_expr idx) mid_indices (not_host_only fs)))"
| "scan_stmt prog (TransactorStateQueuePop _ _ _) fs = not_host_only fs"
| "scan_stmt prog (TbQueuePop _ _) fs = not_host_only fs"
| "scan_stmt prog (CovReport _) fs = fs"
| "scan_stmt prog (EventSubscribe _ _ _) fs = not_host_only fs"
| "scan_stmt prog (MethodHookSubscribe _ _ _ _ _) fs = not_host_only fs"
| "scan_stmt prog (EventEmit _ _) fs = not_host_only fs"
| "scan_stmt prog (PropertyCheck i) fs = scan_schema scan_property (property_checks prog) i (not_host_only fs)"
| "scan_stmt prog (CoverCheck i) fs = scan_schema scan_cover (cover_checks prog) i (not_host_only fs)"
| "scan_stmt prog (CycleHandler i) fs = scan_schema scan_handler (cycle_handlers prog) i (not_host_only fs)"
| "scan_stmt prog (Stmt.ScoreboardOp _ _ op _) fs =
     (case op of
        QueuePush _ val \<Rightarrow> scan_expr val (not_host_only fs)
      | ScalarWrite _ val \<Rightarrow> scan_expr val (not_host_only fs)
      | QueuePop _ _ \<Rightarrow> not_host_only fs)"
| "scan_stmt prog (ComponentFieldWrite _ _ val) fs = scan_expr val (not_host_only fs)"
| "scan_stmt prog (ComponentVecElementWrite _ _ _ index inner_index val) fs =
     scan_expr val (scan_opt inner_index (scan_expr index (not_host_only fs)))"
| "scan_stmt prog (TbFieldVecElementWrite _ index inner_index val) fs =
     scan_expr val (scan_opt inner_index (scan_expr index (not_host_only fs)))"
| "scan_stmt prog (LocalVecElementWrite _ index inner_index val) fs =
     scan_expr val (scan_opt inner_index (scan_expr index (not_host_only fs)))"
| "scan_stmt prog (ComponentEmit _ _ _ args) fs = fold scan_expr args (not_host_only fs)"
| "scan_stmt prog (ComponentCall _ _ _ _ args _) fs = fold scan_expr args (not_host_only fs)"
| "scan_stmt prog (TestbenchCall _ args _ _) fs = fold scan_expr args (not_host_only fs)"
| "scan_stmt prog (SeqPush _ val) fs = scan_expr val (not_host_only fs)"
| "scan_stmt prog (ComponentQueuePush _ _ val) fs = scan_expr val (not_host_only fs)"
| "scan_stmt prog (ComponentQueuePop _ _ _) fs = not_host_only fs"
| "scan_stmt prog (ComponentSubAssign _ _ _) fs = not_host_only fs"
| "scan_stmt prog (ComponentAssign _ _) fs = not_host_only fs"
| "scan_stmt prog (TlmFork desc) fs = fold scan_expr (tlm_args desc) (call_transactor (not_host_only fs))"
| "scan_stmt prog (TlmJoinAll pending) fs =
     fold (\<lambda>p. fold scan_expr (tlm_args p)) pending (call_transactor (not_host_only fs))"
| "scan_stmt prog ErrorIncrement fs = fs"

fun scan_terminator :: "Terminator \<Rightarrow> feature_scan \<Rightarrow> feature_scan" where
  "scan_terminator (WaitCycles n _ _) fs = scan_expr n fs"
| "scan_terminator (WaitCyclesSync n _) fs = scan_expr n fs"
| "scan_terminator (WaitTimePs _ _) fs = fs"
| "scan_terminator (WaitUntil preds _ _) fs = fold (\<lambda>p. scan_expr (pred_expr p)) preds fs"
| "scan_terminator (WaitUntilTimeout preds _ cycles _ _) fs = scan_expr cycles (fold (\<lambda>p. scan_expr (pred_expr p)) preds fs)"
| "scan_terminator (Branch c _ _) fs = scan_expr c fs"
| "scan_terminator (Terminator.Fatal args) fs = scan_fmt args fs"
| "scan_terminator (Randomize _ _ _) fs = fs"
| "scan_terminator (TbLifecycleCall _ _) fs = fs"
| "scan_terminator (Jump _) fs = fs"
| "scan_terminator Return fs = fs"

fun term_suspends_cycles :: "Terminator \<Rightarrow> bool" where
  "term_suspends_cycles (WaitCycles _ _ _) = True"
| "term_suspends_cycles (WaitCyclesSync _ _) = True"
| "term_suspends_cycles (WaitTimePs _ _) = True"
| "term_suspends_cycles (TbLifecycleCall _ _) = True"
| "term_suspends_cycles _ = False"

fun term_suspends_until :: "Terminator \<Rightarrow> bool" where
  "term_suspends_until (WaitUntil _ _ _) = True"
| "term_suspends_until (WaitUntilTimeout _ _ _ _ _) = True"
| "term_suspends_until _ = False"

fun term_solves :: "Terminator \<Rightarrow> bool" where
  "term_solves (Randomize _ _ _) = True"
| "term_solves _ = False"

definition block_features :: "'s TbProgram \<Rightarrow> BasicBlock \<Rightarrow> BlockFeatures" where
  "block_features prog block =
     (let fs = \<lparr>fs_accesses = [], fs_transactor = False, fs_pin_stmt = False, fs_host_only = True\<rparr>;
          fs = fold (scan_stmt prog) (stmts block) fs;
          fs = scan_terminator (terminator block) fs
      in \<lparr>accesses = fs_accesses fs, has_pin_stmt = fs_pin_stmt fs, host_service_only = fs_host_only fs,
          has_transactor_call = fs_transactor fs,
          suspends_cycles = term_suspends_cycles (terminator block),
          suspends_until = term_suspends_until (terminator block),
          solves = term_solves (terminator block)\<rparr>)"

section \<open>Classification\<close>

definition classify_timing :: "BlockFeatures \<Rightarrow> TimingClass" where
  "classify_timing feat =
     (if has_pin_stmt feat \<and> suspends_cycles feat then CycleExact
      else if suspends_until feat \<or> has_transactor_call feat then TimingTolerant
      else if has_pin_stmt feat then TimingUnknown
      else TimingTolerant)"

definition classify_tier :: "BlockFeatures \<Rightarrow> TargetProfile \<Rightarrow> PlacementTier" where
  "classify_tier feat profile =
     (if has_pin_stmt feat \<or> accesses feat \<noteq> [] then (if has_tier0 profile then Tier0CoLocated else Tier1NearProcessor)
      else if solves feat then Tier2HostService
      else if host_service_only feat then Tier2HostService
      else Tier1NearProcessor)"

fun access_what :: "PortAccess \<Rightarrow> string" where
  "access_what PortAccess.Port = ''an architectural port''"
| "access_what Probe = ''a probe signal''"
| "access_what Force = ''a force point''"

fun debug_PortAccess :: "PortAccess \<Rightarrow> string" where
  "debug_PortAccess PortAccess.Port = ''Port''"
| "debug_PortAccess Probe = ''Probe''"
| "debug_PortAccess Force = ''Force''"

definition backtick :: "string \<Rightarrow> string" where
  "backtick s = [CHR 0x60] @ s @ [CHR 0x60]"

definition em_dash :: string where
  "em_dash = [CHR 0xE2, CHR 0x80, CHR 0x94]"

definition capability_check ::
  "TbFunction \<Rightarrow> BlockId \<Rightarrow> BlockFeatures \<Rightarrow> TimingClass \<Rightarrow> TargetProfile \<Rightarrow> PlacementDiag list \<Rightarrow> PlacementDiag list" where
  "capability_check func block feat timing profile out =
     (let diag = (\<lambda>msg. \<lparr>pd_func = fn_id func, pd_func_name = fn_name func, pd_block = block, pd_message = msg\<rparr>);
          out = fold (\<lambda>a out. if \<not> reaches profile a
              then out @ [diag (''accesses '' @ access_what a @ '', but profile '' @ backtick (tp_name profile) @ '' cannot reach ''
                @ debug_PortAccess a @ '' access on any tier (declare the resource on the target, or re-place this region)'')]
              else out) (accesses feat) out;
          out = (if timing = CycleExact \<and> \<not> tier1_cycle_locked profile \<and> \<not> has_tier0 profile
              then out @ [diag (''cycle-exact DUT interaction, but profile '' @ backtick (tp_name profile)
                @ '' has no cycle-locked execution site (Tier 1 is free-running and there is no Tier 0 to absorb it) ''
                @ em_dash @ '' route the pin-level half through a transactor'')]
              else out)
      in if solves feat \<and> \<not> solve_device_rejection profile \<and> \<not> solve_replay_table profile \<and> \<not> solve_host_sync profile
         then out @ [diag (''constraint solve ('' @ backtick ''randomize'' @ ''), but profile '' @ backtick (tp_name profile)
           @ '' offers no solve strategy (no device-rejection, replay-table, or host-sync) '' @ em_dash
           @ '' pre-solve the stimulus or re-place this region'')]
         else out)"

definition place_block :: "'s TbProgram \<Rightarrow> TargetProfile \<Rightarrow> TbFunction \<Rightarrow> nat \<times> BasicBlock \<Rightarrow> PlacementTable \<Rightarrow> PlacementTable" where
  "place_block prog profile func = (\<lambda>(bid, block) table.
     let feat = block_features prog block; timing = classify_timing feat; tier = classify_tier feat profile
     in \<lparr>pt_blocks = bt_insert (fn_id func, bid) (tier, timing) (pt_blocks table),
         pt_diagnostics = capability_check func bid feat timing profile (pt_diagnostics table)\<rparr>)"

definition placement_run :: "'s TbProgram \<Rightarrow> TargetProfile \<Rightarrow> PlacementTable" where
  "placement_run prog profile =
     fold (\<lambda>func table. if kind func = Helper then table
         else fold (place_block prog profile func) (enumerate 0 (blocks func)) table)
       (prog_functions prog) \<lparr>pt_blocks = [], pt_diagnostics = []\<rparr>"

section \<open>Display\<close>

fun tier_str :: "PlacementTier \<Rightarrow> string" where
  "tier_str Tier0CoLocated = ''tier0-co-located''"
| "tier_str Tier1NearProcessor = ''tier1-near-processor''"
| "tier_str Tier2HostService = ''tier2-host-service''"

fun timing_str :: "TimingClass \<Rightarrow> string" where
  "timing_str CycleExact = ''cycle-exact''"
| "timing_str TimingTolerant = ''timing-tolerant''"
| "timing_str TimingUnknown = ''unknown''"

text \<open>The lines of the blocks; a function's name is written before the first of its blocks in a row.\<close>

fun show_placements ::
  "'s TbProgram \<Rightarrow> FunctionId option \<Rightarrow> ((FunctionId \<times> BlockId) \<times> (PlacementTier \<times> TimingClass)) list \<Rightarrow> string list option" where
  "show_placements prog last_fn [] = Some []"
| "show_placements prog last_fn (((fid, bid), (tier, timing)) # rest) =
     (let line = ''    b'' @ show_nat bid @ '': '' @ tier_str tier @ '', '' @ timing_str timing in
      if last_fn \<noteq> Some fid
      then (case TbProgram_function prog fid of
          None \<Rightarrow> None
        | Some func \<Rightarrow> map_option (\<lambda>ls. (''  fn'' @ show_nat fid @ '' '' @ fn_name func) # line # ls)
            (show_placements prog (Some fid) rest))
      else map_option (\<lambda>ls. line # ls) (show_placements prog last_fn rest))"

definition show_PlacementTable :: "PlacementTable \<Rightarrow> 's TbProgram \<Rightarrow> TargetProfile \<Rightarrow> string list option" where
  "show_PlacementTable table prog profile =
     map_option (\<lambda>ls. [''placement [profile='' @ tp_name profile @ '']''] @ ls
       @ (if pt_diagnostics table = [] then [''  diagnostics: none'']
          else ''  diagnostics:'' # map (\<lambda>d. ''    '' @ show_PlacementDiag d) (pt_diagnostics table)))
     (show_placements prog None (pt_blocks table))"

section \<open>What the scan sees\<close>

fun port_of :: "Expr \<Rightarrow> PortRef option" where
  "port_of (Expr.Port port) = Some port"
| "port_of (PortSnapshotLane _ port _) = Some port"
| "port_of _ = None"

text \<open>The ports an expression reads, at any depth.\<close>

definition expr_ports :: "Expr \<Rightarrow> PortRef list" where
  "expr_ports e = List.map_filter port_of (preorder e)"

fun stmt_pins :: "Stmt \<Rightarrow> PortRef list" where
  "stmt_pins (DutWrite port _) = [port]"
| "stmt_pins (DutRead _ port) = [port]"
| "stmt_pins (ProbeRelease port) = [port]"
| "stmt_pins _ = []"

definition property_exprs :: "PropertyCheckSchema \<Rightarrow> Expr list" where
  "property_exprs s = (case pc_shape s of Implies a c \<Rightarrow> [a, c] | ImpliesNext a c \<Rightarrow> [a, c] | Invariant e \<Rightarrow> [e])
     @ map slot_inner (pc_temporals s) @ (case pc_message s of None \<Rightarrow> [] | Some m \<Rightarrow> fmt_exprs m)"

definition cover_exprs :: "CoverCheckSchema \<Rightarrow> Expr list" where
  "cover_exprs s = cc_cond s # map slot_inner (cc_temporals s)"

definition handler_exprs :: "CycleHandlerSchema \<Rightarrow> Expr list" where
  "handler_exprs s = (case ch_kind s of CTrigger e _ \<Rightarrow> [e] | Periodic e \<Rightarrow> [e])"

text \<open>The expressions of a statement, those of the check or handler it registers included.\<close>

fun schema_exprs :: "'s TbProgram \<Rightarrow> Stmt \<Rightarrow> Expr list" where
  "schema_exprs prog (PropertyCheck i) = (if i < length (property_checks prog) then property_exprs (property_checks prog ! i) else [])"
| "schema_exprs prog (CoverCheck i) = (if i < length (cover_checks prog) then cover_exprs (cover_checks prog ! i) else [])"
| "schema_exprs prog (CycleHandler i) = (if i < length (cycle_handlers prog) then handler_exprs (cycle_handlers prog ! i) else [])"
| "schema_exprs prog _ = []"

definition all_exprs :: "'s TbProgram \<Rightarrow> Stmt \<Rightarrow> Expr list" where
  "all_exprs prog st = stmt_exprs st @ schema_exprs prog st"

text \<open>The scan passes over the arguments of an event and the lane of a pin statement's own port.\<close>

fun seen_exprs :: "'s TbProgram \<Rightarrow> Stmt \<Rightarrow> Expr list" where
  "seen_exprs prog (DutWrite _ val) = [val]"
| "seen_exprs prog (DutRead _ _) = []"
| "seen_exprs prog (ProbeRelease _) = []"
| "seen_exprs prog (EventEmit _ _) = []"
| "seen_exprs prog st = all_exprs prog st"

fun prepare :: "Stmt \<Rightarrow> feature_scan \<Rightarrow> feature_scan" where
  "prepare (DutWrite port _) = pin_stmt port"
| "prepare (DutRead _ port) = pin_stmt port"
| "prepare (ProbeRelease port) = pin_stmt port"
| "prepare (Log _ _ _) = id"
| "prepare (FailDiag _ _) = id"
| "prepare (CovReport _) = id"
| "prepare ErrorIncrement = id"
| "prepare (TlmFork _) = call_transactor \<circ> not_host_only"
| "prepare (TlmJoinAll _) = call_transactor \<circ> not_host_only"
| "prepare _ = not_host_only"

definition scan_all :: "Expr list \<Rightarrow> feature_scan \<Rightarrow> feature_scan" where
  "scan_all es = fold scan_expr es"

lemma scan_all_simps [simp]:
  "scan_all [] fs = fs" "scan_all (e # es) fs = scan_all es (scan_expr e fs)" "scan_all (es @ es') fs = scan_all es' (scan_all es fs)"
  by (simp_all add: scan_all_def)

lemma scan_fold_all:
  "scan_opt x fs = scan_all (opt_expr x) fs" "scan_fmt args fs = scan_all (fmt_exprs args) fs"
  "fold (\<lambda>(_, idx). scan_expr idx) mids fs = scan_all (map snd mids) fs"
  "fold scan_expr es fs = scan_all es fs"
  "fold (\<lambda>t. scan_expr (slot_inner t)) ts fs = scan_all (map slot_inner ts) fs"
  "fold (\<lambda>p. scan_expr (pred_expr p)) ps fs = scan_all (map pred_expr ps) fs"
  "fold (\<lambda>d. fold scan_expr (tlm_args d)) ds fs = scan_all (concat (map tlm_args ds)) fs"
proof -
  show "scan_opt x fs = scan_all (opt_expr x) fs" by (simp add: scan_opt_def opt_expr_def split: option.split)
  show "fold (\<lambda>d. fold scan_expr (tlm_args d)) ds fs = scan_all (concat (map tlm_args ds)) fs"
    by (induction ds arbitrary: fs) (simp_all add: scan_all_def)
  show "fold (\<lambda>(_, idx). scan_expr idx) mids fs = scan_all (map snd mids) fs"
    by (induction mids arbitrary: fs) (auto simp: scan_all_def)
qed (simp_all add: scan_fmt_def fmt_exprs_def scan_all_def fold_map comp_def)

lemma scan_stmt_seen: "scan_stmt prog st fs = scan_all (seen_exprs prog st) (prepare st fs)"
  by (cases st)
    (simp_all add: scan_fold_all all_exprs_def scan_schema_def scan_property_def scan_cover_def scan_handler_def property_exprs_def
      cover_exprs_def handler_exprs_def Let_def split: ScoreboardOp.split PropertyShape.split CycleHandlerKind.split option.split)

lemma scan_terminator_seen: "scan_terminator t fs = scan_all (terminator_exprs t) fs"
  by (cases t) (simp_all add: scan_fold_all)

text \<open>Scanning adds the accesses of the ports it meets and changes nothing else but the transactor flag.\<close>

lemma touch_simps [simp]:
  "set (fs_accesses (touch a fs)) = insert a (set (fs_accesses fs))"
  "distinct (fs_accesses (touch a fs)) = distinct (fs_accesses fs)"
  "fs_transactor (touch a fs) = fs_transactor fs" "fs_pin_stmt (touch a fs) = fs_pin_stmt fs" "fs_host_only (touch a fs) = fs_host_only fs"
  by (auto simp: touch_def)

lemma scan_node_simps [simp]:
  "set (fs_accesses (scan_node e fs)) = set (fs_accesses fs) \<union> access ` set_option (port_of e)"
  "distinct (fs_accesses (scan_node e fs)) = distinct (fs_accesses fs)"
  "fs_pin_stmt (scan_node e fs) = fs_pin_stmt fs" "fs_host_only (scan_node e fs) = fs_host_only fs"
  by (cases e rule: scan_node.cases; simp add: call_transactor_def)+

lemma scan_expr_simps [simp]:
  "set (fs_accesses (scan_expr e fs)) = set (fs_accesses fs) \<union> access ` set (expr_ports e)"
  "distinct (fs_accesses (scan_expr e fs)) = distinct (fs_accesses fs)"
  "fs_pin_stmt (scan_expr e fs) = fs_pin_stmt fs" "fs_host_only (scan_expr e fs) = fs_host_only fs"
proof -
  have "set (fs_accesses (fold scan_node es fs)) = set (fs_accesses fs) \<union> access ` set (List.map_filter port_of es)"
    "distinct (fs_accesses (fold scan_node es fs)) = distinct (fs_accesses fs)"
    "fs_pin_stmt (fold scan_node es fs) = fs_pin_stmt fs" "fs_host_only (fold scan_node es fs) = fs_host_only fs" for es
    by (induction es arbitrary: fs) (auto simp: List.map_filter_simps split: option.split)
  then show "set (fs_accesses (scan_expr e fs)) = set (fs_accesses fs) \<union> access ` set (expr_ports e)"
    "distinct (fs_accesses (scan_expr e fs)) = distinct (fs_accesses fs)"
    "fs_pin_stmt (scan_expr e fs) = fs_pin_stmt fs" "fs_host_only (scan_expr e fs) = fs_host_only fs"
    by (simp_all add: scan_expr_def walk_expr_fold expr_ports_def)
qed

lemma scan_all_accesses [simp]:
  "set (fs_accesses (scan_all es fs)) = set (fs_accesses fs) \<union> access ` set (concat (map expr_ports es))"
  "distinct (fs_accesses (scan_all es fs)) = distinct (fs_accesses fs)"
  "fs_pin_stmt (scan_all es fs) = fs_pin_stmt fs" "fs_host_only (scan_all es fs) = fs_host_only fs"
  by (induction es arbitrary: fs) auto

lemma prepare_simps [simp]:
  "set (fs_accesses (prepare st fs)) = set (fs_accesses fs) \<union> access ` set (stmt_pins st)"
  "distinct (fs_accesses (prepare st fs)) = distinct (fs_accesses fs)"
  "fs_pin_stmt (prepare st fs) \<longleftrightarrow> fs_pin_stmt fs \<or> stmt_pins st \<noteq> []"
  by (cases st; simp add: pin_stmt_def call_transactor_def not_host_only_def)+


definition seen_ports :: "'s TbProgram \<Rightarrow> BasicBlock \<Rightarrow> PortRef list" where
  "seen_ports prog b = concat (map (\<lambda>st. stmt_pins st @ concat (map expr_ports (seen_exprs prog st))) (stmts b))
     @ concat (map expr_ports (terminator_exprs (terminator b)))"

lemma scan_stmts_simps [simp]:
  "set (fs_accesses (fold (scan_stmt prog) sts fs)) =
     set (fs_accesses fs) \<union> access ` set (concat (map (\<lambda>st. stmt_pins st @ concat (map expr_ports (seen_exprs prog st))) sts))"
  "distinct (fs_accesses (fold (scan_stmt prog) sts fs)) = distinct (fs_accesses fs)"
  "fs_pin_stmt (fold (scan_stmt prog) sts fs) \<longleftrightarrow> fs_pin_stmt fs \<or> (\<exists>st \<in> set sts. stmt_pins st \<noteq> [])"
  by (induction sts arbitrary: fs) (simp_all add: scan_stmt_seen image_Un Un_ac disj_ac)

lemma block_features_simps [simp]:
  "set (accesses (block_features prog b)) = access ` set (seen_ports prog b)"
  "distinct (accesses (block_features prog b))"
  "has_pin_stmt (block_features prog b) \<longleftrightarrow> (\<exists>st \<in> set (stmts b). stmt_pins st \<noteq> [])"
  "suspends_cycles (block_features prog b) = term_suspends_cycles (terminator b)"
  "solves (block_features prog b) = term_solves (terminator b)"
  by (simp_all add: block_features_def Let_def scan_terminator_seen seen_ports_def image_Un)

section \<open>Diagnostics\<close>

lemma fold_append_if: "fold (\<lambda>a out. if P a then out @ [f a] else out) xs out = out @ map f (filter P xs)"
  by (induction xs arbitrary: out) auto

definition block_diags :: "'s TbProgram \<Rightarrow> TargetProfile \<Rightarrow> TbFunction \<Rightarrow> nat \<times> BasicBlock \<Rightarrow> PlacementDiag list" where
  "block_diags prog profile func p =
     capability_check func (fst p) (block_features prog (snd p)) (classify_timing (block_features prog (snd p))) profile []"

lemma capability_check_append:
  "capability_check func bid feat timing profile out = out @ capability_check func bid feat timing profile []"
  by (simp add: capability_check_def Let_def fold_append_if)

lemma capability_check_Nil:
  "capability_check func bid feat timing profile [] = [] \<longleftrightarrow>
     (\<forall>a \<in> set (accesses feat). reaches profile a) \<and> (timing = CycleExact \<longrightarrow> tier1_cycle_locked profile \<or> has_tier0 profile) \<and>
     (solves feat \<longrightarrow> solve_device_rejection profile \<or> solve_replay_table profile \<or> solve_host_sync profile)"
  by (simp add: capability_check_def Let_def fold_append_if filter_empty_conv)

lemma place_blocks:
  "pt_diagnostics (fold (place_block prog profile func) ps table) =
     pt_diagnostics table @ concat (map (block_diags prog profile func) ps)"
  "pt_blocks (fold (place_block prog profile func) ps table) = fold (\<lambda>(k, v). bt_insert k v)
     (map (\<lambda>(i, b). ((fn_id func, i), (classify_tier (block_features prog b) profile, classify_timing (block_features prog b)))) ps)
     (pt_blocks table)"
proof (induction ps arbitrary: table)
  case (Cons p ps)
  { case 1
    show ?case using Cons.IH(1) [of "place_block prog profile func p table"]
      by (cases p) (simp add: place_block_def Let_def block_diags_def capability_check_append [of _ _ _ _ _ "pt_diagnostics table"]) }
  { case 2
    show ?case using Cons.IH(2) [of "place_block prog profile func p table"] by (cases p) (simp add: place_block_def Let_def) }
qed simp_all

lemma placement_diagnostics:
  "pt_diagnostics (placement_run prog profile) =
     concat (map (\<lambda>f. concat (map (block_diags prog profile f) (enumerate 0 (blocks f))))
       (filter (\<lambda>f. kind f \<noteq> Helper) (prog_functions prog)))"
proof -
  have "pt_diagnostics (fold (\<lambda>func table. if kind func = Helper then table
         else fold (place_block prog profile func) (enumerate 0 (blocks func)) table) fns table) =
      pt_diagnostics table @ concat (map (\<lambda>f. concat (map (block_diags prog profile f) (enumerate 0 (blocks f))))
       (filter (\<lambda>f. kind f \<noteq> Helper) fns))" for fns table
    by (induction fns arbitrary: table) (simp_all add: place_blocks)
  then show ?thesis by (simp add: placement_run_def)
qed

text \<open>What a profile must offer for a block, in terms of the block itself.\<close>

definition executable_on :: "TargetProfile \<Rightarrow> PortRef list \<Rightarrow> BasicBlock \<Rightarrow> bool" where
  "executable_on profile ports b \<longleftrightarrow>
     (\<forall>p \<in> set ports. reaches profile (access p)) \<and>
     ((\<exists>st \<in> set (stmts b). stmt_pins st \<noteq> []) \<and> term_suspends_cycles (terminator b) \<longrightarrow>
        tier1_cycle_locked profile \<or> has_tier0 profile) \<and>
     (term_solves (terminator b) \<longrightarrow> solve_device_rejection profile \<or> solve_replay_table profile \<or> solve_host_sync profile)"

lemma classify_CycleExact: "classify_timing feat = CycleExact \<longleftrightarrow> has_pin_stmt feat \<and> suspends_cycles feat"
  by (simp add: classify_timing_def)

lemma block_diags_Nil: "block_diags prog profile f p = [] \<longleftrightarrow> executable_on profile (seen_ports prog (snd p)) (snd p)"
  by (simp add: block_diags_def capability_check_Nil executable_on_def classify_CycleExact)

definition placed_blocks :: "'s TbProgram \<Rightarrow> BasicBlock set" where
  "placed_blocks prog = {b. \<exists>f \<in> set (prog_functions prog). kind f \<noteq> Helper \<and> b \<in> set (blocks f)}"

lemma diagnostics_Nil:
  "pt_diagnostics (placement_run prog profile) = [] \<longleftrightarrow> (\<forall>b \<in> placed_blocks prog. executable_on profile (seen_ports prog b) b)"
proof -
  have "snd ` set (enumerate 0 (blocks f)) = set (blocks f)" for f :: TbFunction
    unfolding set_map [symmetric] map_snd_enumerate ..
  then have "(\<forall>b \<in> set (blocks f). executable_on profile (seen_ports prog b) b) \<longleftrightarrow>
      (\<forall>b \<in> snd ` set (enumerate 0 (blocks f)). executable_on profile (seen_ports prog b) b)" for f :: TbFunction
    by (simp only:)
  then have "(\<forall>p \<in> set (enumerate 0 (blocks f)). block_diags prog profile f p = []) \<longleftrightarrow>
      (\<forall>b \<in> set (blocks f). executable_on profile (seen_ports prog b) b)" for f :: TbFunction
    by (simp add: block_diags_Nil)
  then show ?thesis by (auto simp: placement_diagnostics placed_blocks_def)
qed

text \<open>All the ports of a block, and the blocks where the scan sees them all.\<close>

definition block_ports :: "'s TbProgram \<Rightarrow> BasicBlock \<Rightarrow> PortRef list" where
  "block_ports prog b = concat (map (\<lambda>st. stmt_pins st @ concat (map expr_ports (all_exprs prog st))) (stmts b))
     @ concat (map expr_ports (terminator_exprs (terminator b)))"

fun fully_seen :: "Stmt \<Rightarrow> bool" where
  "fully_seen (DutWrite port _) = (lane_exprs port = [])"
| "fully_seen (DutRead _ port) = (lane_exprs port = [])"
| "fully_seen (ProbeRelease port) = (lane_exprs port = [])"
| "fully_seen (EventEmit _ args) = (args = [])"
| "fully_seen _ = True"

lemma seen_all_exprs: "fully_seen st \<Longrightarrow> seen_exprs prog st = all_exprs prog st"
  by (cases st) (auto simp: all_exprs_def)

lemma seen_ports_all: "list_all fully_seen (stmts b) \<Longrightarrow> seen_ports prog b = block_ports prog b"
  by (auto simp: seen_ports_def block_ports_def list_all_iff seen_all_exprs cong: map_cong)

section \<open>The annotation table\<close>

definition annotation :: "'s TbProgram \<Rightarrow> TargetProfile \<Rightarrow> BasicBlock \<Rightarrow> PlacementTier \<times> TimingClass" where
  "annotation prog profile b = (classify_tier (block_features prog b) profile, classify_timing (block_features prog b))"

definition fn_annotations ::
  "'s TbProgram \<Rightarrow> TargetProfile \<Rightarrow> TbFunction \<Rightarrow> ((FunctionId \<times> BlockId) \<times> (PlacementTier \<times> TimingClass)) list" where
  "fn_annotations prog profile f = (if kind f = Helper then []
     else map (\<lambda>(i, b). ((fn_id f, i), annotation prog profile b)) (enumerate 0 (blocks f)))"

lemma placement_table: "pt_blocks (placement_run prog profile) = bt.ins_all (concat (map (fn_annotations prog profile) (prog_functions prog))) []"
proof -
  have "pt_blocks (fold (\<lambda>func table. if kind func = Helper then table
         else fold (place_block prog profile func) (enumerate 0 (blocks func)) table) fns table) =
      fold (\<lambda>(k, v). bt_insert k v) (concat (map (fn_annotations prog profile) fns)) (pt_blocks table)" for fns table
    by (induction fns arbitrary: table) (simp_all add: place_blocks fn_annotations_def annotation_def)
  then show ?thesis by (simp add: placement_run_def bt.ins_all_def)
qed

lemma keys_fn_annotations: "map fst (fn_annotations prog profile f) = (if kind f = Helper then [] else map (Pair (fn_id f)) [0..<length (blocks f)])"
  by (auto simp: fn_annotations_def nth_enumerate_eq intro!: nth_equalityI)

lemma fst_fn_annotations: "fst ` set (fn_annotations prog profile f) \<subseteq> {fn_id f} \<times> UNIV"
  unfolding set_map [symmetric] keys_fn_annotations by auto

lemma fst_annotations: "fst ` set (concat (map (fn_annotations prog profile) fns)) \<subseteq> (fn_id ` set fns) \<times> UNIV"
  using fst_fn_annotations [of prog profile] by (induction fns) (simp, fastforce)

lemma map_of_enumerate: "map_of (map (\<lambda>(i, b). ((k, i), g b)) (enumerate n xs)) (k, n + i) = (if i < length xs then Some (g (xs ! i)) else None)"
proof (induction xs arbitrary: n i)
  case (Cons x xs)
  show ?case using Cons.IH [of "Suc n" "i - 1"] by (cases i) auto
qed simp

lemma map_of_fn_annotations:
  "map_of (fn_annotations prog profile f) (fn_id f, i) =
     (if kind f \<noteq> Helper \<and> i < length (blocks f) then Some (annotation prog profile (blocks f ! i)) else None)"
  using map_of_enumerate [of "fn_id f" "annotation prog profile" 0 "blocks f" i] by (simp add: fn_annotations_def)

lemma distinct_annotations:
  "distinct (map fn_id fns) \<Longrightarrow> distinct (map fst (concat (map (fn_annotations prog profile) fns)))"
proof (induction fns)
  case (Cons f fns)
  have "fst ` set (fn_annotations prog profile f) \<inter> fst ` set (concat (map (fn_annotations prog profile) fns)) = {}"
    using Cons.prems fst_fn_annotations [of prog profile f] fst_annotations [of prog profile fns] by auto
  moreover have "distinct (map fst (fn_annotations prog profile f))"
    by (simp only: keys_fn_annotations) (simp add: distinct_map inj_on_def)
  ultimately show ?case using Cons by simp
qed simp

lemma map_of_annotations:
  assumes "distinct (map fn_id fns)" "f \<in> set fns"
  shows "map_of (concat (map (fn_annotations prog profile) fns)) (fn_id f, i) = map_of (fn_annotations prog profile f) (fn_id f, i)"
  using assms
proof (induction fns)
  case (Cons g fns)
  have other: "map_of (fn_annotations prog profile h) (fn_id f, i) = None" if "fn_id h \<noteq> fn_id f" for h
    using fst_fn_annotations [of prog profile h] that by (auto simp: map_of_eq_None_iff)
  show ?case
  proof (cases "fn_id g = fn_id f")
    case True
    have "map_of (concat (map (fn_annotations prog profile) fns)) (fn_id f, i) = None"
      using Cons.prems True fst_annotations [of prog profile fns] by (auto simp: map_of_eq_None_iff simp del: set_concat)
    moreover have "f = g" using Cons.prems True by (auto simp: rev_image_eqI)
    ultimately show ?thesis by (simp add: map_add_def split: option.split)
  next
    case False
    then show ?thesis using Cons other [of g] by (auto simp: map_add_def split: option.split)
  qed
qed simp

text \<open>The classification in terms of the block itself.\<close>

fun host_stmt :: "Stmt \<Rightarrow> bool" where
  "host_stmt (Log _ _ _) = True"
| "host_stmt (FailDiag _ _) = True"
| "host_stmt (CovReport _) = True"
| "host_stmt ErrorIncrement = True"
| "host_stmt _ = False"

fun node_calls :: "Expr \<Rightarrow> bool" where
  "node_calls (Call (TransactorMethod _ _ _) _) = True"
| "node_calls (RegRead _ _ _ _ reads_bus) = reads_bus"
| "node_calls _ = False"

fun tlm_stmt :: "Stmt \<Rightarrow> bool" where
  "tlm_stmt (TlmFork _) = True"
| "tlm_stmt (TlmJoinAll _) = True"
| "tlm_stmt _ = False"

definition calls_transactor :: "Expr \<Rightarrow> bool" where
  "calls_transactor e = list_ex node_calls (preorder e)"

definition block_calls_transactor :: "'s TbProgram \<Rightarrow> BasicBlock \<Rightarrow> bool" where
  "block_calls_transactor prog b \<longleftrightarrow>
     list_ex (\<lambda>st. tlm_stmt st \<or> list_ex calls_transactor (all_exprs prog st)) (stmts b) \<or>
     list_ex calls_transactor (terminator_exprs (terminator b))"

definition spec_tier :: "'s TbProgram \<Rightarrow> TargetProfile \<Rightarrow> BasicBlock \<Rightarrow> PlacementTier" where
  "spec_tier prog profile b =
     (if block_ports prog b \<noteq> [] then (if has_tier0 profile then Tier0CoLocated else Tier1NearProcessor)
      else if term_solves (terminator b) \<or> list_all host_stmt (stmts b) then Tier2HostService
      else Tier1NearProcessor)"

definition spec_timing :: "'s TbProgram \<Rightarrow> BasicBlock \<Rightarrow> TimingClass" where
  "spec_timing prog b =
     (if list_all (\<lambda>st. stmt_pins st = []) (stmts b) then TimingTolerant
      else if term_suspends_cycles (terminator b) then CycleExact
      else if term_suspends_until (terminator b) \<or> block_calls_transactor prog b then TimingTolerant
      else TimingUnknown)"

lemma scan_expr_transactor [simp]: "fs_transactor (scan_expr e fs) \<longleftrightarrow> fs_transactor fs \<or> calls_transactor e"
proof -
  have "fs_transactor (scan_node x fs) \<longleftrightarrow> fs_transactor fs \<or> node_calls x" for x fs
    by (cases x rule: scan_node.cases) (auto simp: call_transactor_def)
  then have "fs_transactor (fold scan_node es fs) \<longleftrightarrow> fs_transactor fs \<or> list_ex node_calls es" for es
    by (induction es arbitrary: fs) auto
  then show ?thesis by (simp add: scan_expr_def walk_expr_fold calls_transactor_def)
qed

lemma scan_all_transactor [simp]: "fs_transactor (scan_all es fs) \<longleftrightarrow> fs_transactor fs \<or> list_ex calls_transactor es"
  by (induction es arbitrary: fs) auto

lemma prepare_flags [simp]:
  "fs_transactor (prepare st fs) \<longleftrightarrow> fs_transactor fs \<or> tlm_stmt st" "fs_host_only (prepare st fs) \<longleftrightarrow> fs_host_only fs \<and> host_stmt st"
  by (cases st; simp add: pin_stmt_def call_transactor_def not_host_only_def)+

lemma scan_stmts_flags [simp]:
  "fs_transactor (fold (scan_stmt prog) sts fs) \<longleftrightarrow>
     fs_transactor fs \<or> list_ex (\<lambda>st. tlm_stmt st \<or> list_ex calls_transactor (seen_exprs prog st)) sts"
  "fs_host_only (fold (scan_stmt prog) sts fs) \<longleftrightarrow> fs_host_only fs \<and> list_all host_stmt sts"
  by (induction sts arbitrary: fs) (auto simp: scan_stmt_seen)

lemma block_features_flags:
  "suspends_until (block_features prog b) = term_suspends_until (terminator b)"
  "host_service_only (block_features prog b) = list_all host_stmt (stmts b)"
  "list_all fully_seen (stmts b) \<Longrightarrow> has_transactor_call (block_features prog b) = block_calls_transactor prog b"
  by (auto simp: block_features_def Let_def scan_terminator_seen block_calls_transactor_def list_ex_iff list_all_iff seen_all_exprs)

lemma annotation_spec:
  assumes "list_all fully_seen (stmts b)"
  shows "annotation prog profile b = (spec_tier prog profile b, spec_timing prog b)"
proof -
  have "accesses (block_features prog b) = [] \<longleftrightarrow> block_ports prog b = []"
    using assms seen_ports_all by (metis block_features_simps(1) image_is_empty set_empty)
  moreover have "\<exists>st \<in> set (stmts b). stmt_pins st \<noteq> [] \<Longrightarrow> block_ports prog b \<noteq> []" by (auto simp: block_ports_def)
  ultimately show ?thesis using assms
    by (auto simp: annotation_def classify_tier_def classify_timing_def spec_tier_def spec_timing_def block_features_flags list_all_iff)
qed

section \<open>Concrete programs\<close>

definition placed_port :: "PortAccess \<Rightarrow> PortRef" where
  "placed_port a = PortRef ''dut'' Dut [''p''] False None None None None a None None"

definition placed_fn :: "BasicBlock list \<Rightarrow> TbFunction" where
  "placed_fn bs = \<lparr>fn_id = 3, fn_name = ''run_T'', kind = SamplerAuto 0, params = [], locals = [], blocks = bs, entry = 0,
     owner = None, testbench_record_locals = [], ret = None, implicit_returns = []\<rparr>"

definition placed_program :: "BasicBlock list \<Rightarrow> unit TbProgram" where
  "placed_program bs = \<lparr>prog_functions = [placed_fn bs], property_checks = [], cover_checks = [], cycle_handlers = [], schemas = ()\<rparr>"

definition pins_then_waits :: "BasicBlock list" where
  "pins_then_waits =
     [\<lparr>stmts = [DutWrite (placed_port Force) (Literal 1 Unknown)], terminator = WaitCycles (Literal 2 Unknown) None 1\<rparr>,
      \<lparr>stmts = [Log Debug \<lparr>fmt = ''x'', fmt_args = []\<rparr> \<lparr>verbosity = None, log_id = None\<rparr>], terminator = Return\<rparr>]"

lemma placed_blocks_program [simp]: "placed_blocks (placed_program bs) = set bs"
  by (simp add: placed_blocks_def placed_program_def placed_fn_def)

lemma pins_then_waits_seen: "\<forall>b \<in> placed_blocks (placed_program pins_then_waits). list_all fully_seen (stmts b)"
  by (simp add: pins_then_waits_def placed_port_def lane_exprs_def)

text \<open>A probe read in the argument of an event is passed over, and so is one that selects the lane of a pin statement.\<close>

definition emits_probe :: "BasicBlock list" where
  "emits_probe = [\<lparr>stmts = [EventEmit 0 [Expr.Port (placed_port Probe)]], terminator = Return\<rparr>]"

definition lane_probe :: "BasicBlock list" where
  "lane_probe = [\<lparr>stmts = [DutRead 0 (PortRef ''dut'' Dut [''p''] False None None None None PortAccess.Port None
     (Some (Var (Expr.Port (placed_port Probe)))))], terminator = Return\<rparr>]"

lemma emit_argument_not_scanned:
  "pt_diagnostics (placement_run (placed_program emits_probe) split_strict) = []"
  "\<not> executable_on split_strict (block_ports (placed_program emits_probe) (emits_probe ! 0)) (emits_probe ! 0)"
  "pt_blocks (placement_run (placed_program emits_probe) single_site) = [((3, 0), (Tier1NearProcessor, TimingTolerant))]"
  by code_simp+

lemma pin_lane_not_scanned:
  "pt_diagnostics (placement_run (placed_program lane_probe) split_strict) = []"
  "\<not> executable_on split_strict (block_ports (placed_program lane_probe) (lane_probe ! 0)) (lane_probe ! 0)"
  by code_simp+

section \<open>Properties\<close>

text \<open>
  C26. The pass reports nothing for a program exactly when the profile can execute every block of every function but
  the helpers: it reaches every port the block's statements, checks, handlers and terminator access, it has a
  cycle-locked site for pin statements before a counted wait, and a solver for a randomization.  This is for blocks whose
  pin statements have constant lanes and whose event emissions have no arguments; the scan does not look there.
\<close>

theorem placement_diagnoses_exactly:
  assumes "\<forall>b \<in> placed_blocks prog. list_all fully_seen (stmts b)"
  shows "pt_diagnostics (placement_run prog profile) = [] \<longleftrightarrow>
    (\<forall>b \<in> placed_blocks prog. executable_on profile (block_ports prog b) b)"
  using assms by (simp add: diagnostics_Nil seen_ports_all)

theorem placement_diagnoses_exactly_witness:
  "pt_diagnostics (placement_run (placed_program pins_then_waits) split_strict) \<noteq> [] \<and>
   pt_diagnostics (placement_run (placed_program pins_then_waits) (split_strict\<lparr>tier1_cycle_locked := True, reach_force := True\<rparr>)) = []"
proof -
  note exact = placement_diagnoses_exactly [OF pins_then_waits_seen]
  have "\<not> executable_on split_strict (block_ports (placed_program pins_then_waits) (pins_then_waits ! 0)) (pins_then_waits ! 0)"
    "list_all (\<lambda>b. executable_on (split_strict\<lparr>tier1_cycle_locked := True, reach_force := True\<rparr>)
       (block_ports (placed_program pins_then_waits) b) b) pins_then_waits"
    by code_simp+
  moreover have "pins_then_waits ! 0 \<in> set pins_then_waits" by (simp add: pins_then_waits_def)
  ultimately show ?thesis unfolding exact by (auto simp: list_all_iff)
qed



text \<open>On the single-site profile no program has a diagnostic.\<close>

theorem single_site_never_diagnoses: "pt_diagnostics (placement_run prog single_site) = []"
proof -
  have "reaches single_site a" for a by (cases a) (simp_all add: single_site_def)
  then show ?thesis by (simp add: diagnostics_Nil executable_on_def single_site_def)
qed

end
