(* ===== verification/Scalar_Evidence.thy ===== *)
theory Scalar_Evidence
  imports Ir_Syntax Exact_Mag
begin

text \<open>
  What the compiler knows of the value of a scalar expression without type annotations
  (\<^verbatim>\<open>src/ir/scalar.rs\<close>): a width, a signedness, the exact value of a constant and whether the width bounds
  the value as an unsigned number.

  \<^verbatim>\<open>i128\<close> values are integers, with the range check of the checked operations written out; \<^verbatim>\<open>n.leading_zeros()\<close>
  of a \<open>w\<close>-bit number is \<open>w\<close> less its bit length.  \<^verbatim>\<open>leaf_type\<close> is the closure the caller passes.
\<close>

unbundle bit_operations_syntax

section \<open>Widths of constants\<close>

datatype ScalarValueEvidence =
    EBool
  | Integer "nat option" "bool option" "int option" bool

definition I128_MIN :: int where
  "I128_MIN = - (2 ^ 127)"

definition in_i128 :: "int \<Rightarrow> bool" where
  "in_i128 v \<longleftrightarrow> - (2 ^ 127) \<le> v \<and> v < 2 ^ 127"

definition checked :: "int \<Rightarrow> int option" where
  "checked v = (if in_i128 v then Some v else None)"

definition checked_div :: "int \<Rightarrow> int \<Rightarrow> int option" where
  "checked_div a b = (if b = 0 then None else checked (a sdiv b))"

definition checked_rem :: "int \<Rightarrow> int \<Rightarrow> int option" where
  "checked_rem a b = (if b = 0 \<or> (a = I128_MIN \<and> b = - 1) then None else Some (a smod b))"

text \<open>The shifts check the shift amount only; a left shift drops the bits above the 128th.\<close>

definition checked_shl :: "int \<Rightarrow> nat \<Rightarrow> int option" where
  "checked_shl a n = (if n < 128 then Some (signed_take_bit 127 (push_bit n a)) else None)"

definition checked_shr :: "int \<Rightarrow> nat \<Rightarrow> int option" where
  "checked_shr a n = (if n < 128 then Some (drop_bit n a) else None)"

definition unsigned_value_bits :: "u64 \<Rightarrow> nat" where
  "unsigned_value_bits v = max (bit_len (unat v)) 1"

definition nonnegative_value_bits :: "int \<Rightarrow> nat" where
  "nonnegative_value_bits v = max (bit_len (nat v)) 1"

definition signed_value_bits :: "int \<Rightarrow> nat" where
  "signed_value_bits v =
     (if v \<ge> 0 then (if v = 0 then 1 else nonnegative_value_bits v + 1)
      else bit_len (nat (NOT v)) + 1)"

definition contextual_value_bits :: "int \<Rightarrow> bool \<Rightarrow> nat option" where
  "contextual_value_bits v sg =
     (if sg then Some (signed_value_bits v)
      else if v < 0 then None
      else Some (nonnegative_value_bits v))"

text \<open>The last word that is not zero decides; words are least significant first.\<close>

definition wide_literal_bits :: "u32 list \<Rightarrow> nat" where
  "wide_literal_bits words =
     (case find (\<lambda>(i, w). w \<noteq> 0) (rev (enumerate 0 words)) of
        None \<Rightarrow> 1
      | Some (index, w) \<Rightarrow> index * 32 + bit_len (unat w))"

section \<open>Evidence\<close>

fun common_evidence_sign :: "bool option \<Rightarrow> bool option \<Rightarrow> bool option" where
  "common_evidence_sign (Some False) _ = Some False"
| "common_evidence_sign _ (Some False) = Some False"
| "common_evidence_sign (Some True) (Some True) = Some True"
| "common_evidence_sign (Some sg) None = Some sg"
| "common_evidence_sign None (Some sg) = Some sg"
| "common_evidence_sign None None = None"

fun common_evidence_width :: "nat option \<Rightarrow> nat option \<Rightarrow> nat option" where
  "common_evidence_width (Some lhs) (Some rhs) = Some (max lhs rhs)"
| "common_evidence_width w None = w"
| "common_evidence_width None w = w"

definition opt_or :: "'a option \<Rightarrow> 'a option \<Rightarrow> 'a option" where
  "opt_or x y = (case x of None \<Rightarrow> y | Some v \<Rightarrow> Some v)"

definition evidence_width_for_sign ::
  "nat option \<Rightarrow> bool option \<Rightarrow> int option \<Rightarrow> bool \<Rightarrow> nat option"
where
  "evidence_width_for_sign w sg exact result_signed =
     (if sg = None
      then opt_or (Option.bind exact (\<lambda>v. contextual_value_bits v result_signed)) w
      else w)"

fun from_type :: "IrType \<Rightarrow> ScalarValueEvidence option" where
  "from_type Bool = Some EBool"
| "from_type (UInt w) = Some (Integer w (Some False) None (w \<noteq> None))"
| "from_type (SInt w) = Some (Integer w (Some True) None False)"
| "from_type _ = None"

type_synonym integer_evidence = "nat option \<times> bool option \<times> int option \<times> bool"

fun as_integer :: "ScalarValueEvidence \<Rightarrow> integer_evidence" where
  "as_integer EBool = (Some 1, Some False, None, True)"
| "as_integer (Integer w sg exact ub) = (w, sg, exact, ub)"

fun literal_evidence :: "u64 \<Rightarrow> IrType \<Rightarrow> ScalarValueEvidence option" where
  "literal_evidence v Bool = Some EBool"
| "literal_evidence v Unknown = Some (Integer (Some (unsigned_value_bits v)) None (Some (uint v)) True)"
| "literal_evidence v (UInt None) = Some (Integer (Some (unsigned_value_bits v)) None (Some (uint v)) True)"
| "literal_evidence v (SInt None) =
     (let exact = sint v in
      Some (Integer (contextual_value_bits exact (exact < 0)) None (Some exact) (exact \<ge> 0)))"
| "literal_evidence v ty = from_type ty"

definition is_comparison :: "BinOp \<Rightarrow> bool" where
  "is_comparison op \<longleftrightarrow> op \<in> {Eq, Ne, Lt, Le, Gt, Ge, And, Or}"

definition u32_of_i128 :: "int \<Rightarrow> nat option" where
  "u32_of_i128 v = (if 0 \<le> v \<and> v < 2 ^ 32 then Some (nat v) else None)"

definition checked_add_u32 :: "nat \<Rightarrow> nat \<Rightarrow> nat option" where
  "checked_add_u32 a b = (if a + b < 2 ^ 32 then Some (a + b) else None)"

definition shift_evidence :: "BinOp \<Rightarrow> integer_evidence \<Rightarrow> integer_evidence \<Rightarrow> ScalarValueEvidence" where
  "shift_evidence op l r =
     (case l of (lw, ls, le, lub) \<Rightarrow> (case r of (rw, rs, re, rub) \<Rightarrow>
       (let shift = Option.bind re u32_of_i128;
            (w, exact) =
              (case (op, ls, le, shift) of
                 (Shl, None, Some v, Some n) \<Rightarrow>
                   (let w = (if v = 0 then Some 1
                             else Option.bind (contextual_value_bits v (v < 0)) (\<lambda>w. checked_add_u32 w n));
                        exact = (case w of
                            Some k \<Rightarrow> if k \<le> (if v < 0 then 128 else 127) then checked_shl v n else None
                          | None \<Rightarrow> None)
                    in (w, exact))
               | (Shr, None, Some v, Some n) \<Rightarrow>
                   if n < 128 then
                     (let exact = checked_shr v n
                      in (Option.bind exact (\<lambda>v. contextual_value_bits v (v < 0)), exact))
                   else (lw, None)
               | _ \<Rightarrow> (lw, None))
        in Integer w ls exact lub)))"

definition exact_op :: "BinOp \<Rightarrow> int option \<Rightarrow> int option \<Rightarrow> int option" where
  "exact_op op le re =
     (case (op, le, re) of
        (Add, Some a, Some b) \<Rightarrow> checked (a + b)
      | (Sub, Some a, Some b) \<Rightarrow> checked (a - b)
      | (Mul, Some a, Some b) \<Rightarrow> checked (a * b)
      | (Div, Some a, Some b) \<Rightarrow> checked_div a b
      | (Mod, Some a, Some b) \<Rightarrow> checked_rem a b
      | (BitAnd, Some a, Some b) \<Rightarrow> Some (a AND b)
      | (BitOr, Some a, Some b) \<Rightarrow> Some (a OR b)
      | (BitXor, Some a, Some b) \<Rightarrow> Some (a XOR b)
      | _ \<Rightarrow> None)"

definition min_opt :: "nat list \<Rightarrow> nat option" where
  "min_opt ws = (case ws of [] \<Rightarrow> None | w # rest \<Rightarrow> Some (fold min rest w))"

definition bound_width :: "nat option \<Rightarrow> bool \<Rightarrow> nat list" where
  "bound_width w bound = (if bound then (case w of None \<Rightarrow> [] | Some k \<Rightarrow> [k]) else [])"

definition and_evidence ::
  "integer_evidence \<Rightarrow> integer_evidence \<Rightarrow> int option \<Rightarrow> ScalarValueEvidence"
where
  "and_evidence l r exact =
     (case l of (lw, ls, le, lub) \<Rightarrow> (case r of (rw, rs, re, rub) \<Rightarrow>
       (let w = opt_or (min_opt (bound_width lw lub @ bound_width rw rub)) (common_evidence_width lw rw);
            unsigned_bound = (w \<noteq> None \<and> (lub \<or> rub))
        in Integer w
             (opt_or (if unsigned_bound then Some False else None) (common_evidence_sign ls rs))
             exact unsigned_bound)))"

definition arith_evidence ::
  "integer_evidence \<Rightarrow> integer_evidence \<Rightarrow> int option \<Rightarrow> ScalarValueEvidence"
where
  "arith_evidence l r exact =
     (case l of (lw, ls, le, lub) \<Rightarrow> (case r of (rw, rs, re, rub) \<Rightarrow>
       (let sg = common_evidence_sign ls rs;
            result_signed = (case sg of None \<Rightarrow> False | Some b \<Rightarrow> b);
            w = opt_or
                  (if sg = None then Option.bind exact (\<lambda>v. contextual_value_bits v (v < 0)) else None)
                  (common_evidence_width
                    (evidence_width_for_sign lw ls le result_signed)
                    (evidence_width_for_sign rw rs re result_signed))
        in Integer w sg exact (sg = Some False \<and> w \<noteq> None))))"

definition ternary_evidence :: "ScalarValueEvidence \<Rightarrow> ScalarValueEvidence \<Rightarrow> ScalarValueEvidence" where
  "ternary_evidence t e =
     (if t = EBool \<and> e = EBool then EBool
      else case as_integer t of (tw, ts, te, tub) \<Rightarrow> (case as_integer e of (ew, es, ee, eub) \<Rightarrow>
       (let sg = common_evidence_sign ts es;
            result_signed = (case sg of None \<Rightarrow> False | Some b \<Rightarrow> b)
        in Integer
             (common_evidence_width
               (evidence_width_for_sign tw ts te result_signed)
               (evidence_width_for_sign ew es ee result_signed))
             sg (if te = ee then te else None) (tub \<and> eub))))"

definition unary_evidence :: "UnOp \<Rightarrow> ScalarValueEvidence \<Rightarrow> ScalarValueEvidence option" where
  "unary_evidence op evidence =
     (case evidence of
        EBool \<Rightarrow> None
      | Integer w sg exact ub \<Rightarrow>
          (let exact = (case (op, exact) of (Neg, Some v) \<Rightarrow> checked (- v) | _ \<Rightarrow> None);
               w = (if sg = None then (case exact of Some v \<Rightarrow> contextual_value_bits v (v < 0) | None \<Rightarrow> w) else w)
           in Some (Integer w sg exact (ub \<and> op \<noteq> Neg))))"

fun scalar_value_evidence :: "Expr \<Rightarrow> (Expr \<Rightarrow> IrType option) \<Rightarrow> ScalarValueEvidence option" where
  "scalar_value_evidence (Literal v ty) leaf_type = literal_evidence v ty"
| "scalar_value_evidence (WideLiteral words) leaf_type =
     Some (Integer (Some (wide_literal_bits words)) (Some False) None True)"
| "scalar_value_evidence (Binary op lhs rhs) leaf_type =
     (if is_comparison op then Some EBool
      else do {
        lhs \<leftarrow> scalar_value_evidence lhs leaf_type;
        rhs \<leftarrow> scalar_value_evidence rhs leaf_type;
        let l = as_integer lhs; r = as_integer rhs in
        if op = Shl \<or> op = Shr then Some (shift_evidence op l r)
        else
          (let exact = exact_op op (fst (snd (snd l))) (fst (snd (snd r))) in
           if op = BitAnd then Some (and_evidence l r exact) else Some (arith_evidence l r exact))
      })"
| "scalar_value_evidence (Ternary _ then_value else_value) leaf_type = do {
     t \<leftarrow> scalar_value_evidence then_value leaf_type;
     e \<leftarrow> scalar_value_evidence else_value leaf_type;
     Some (ternary_evidence t e)
   }"
| "scalar_value_evidence (Unary Not _) leaf_type = Some EBool"
| "scalar_value_evidence (Unary op inner) leaf_type = do {
     evidence \<leftarrow> scalar_value_evidence inner leaf_type;
     unary_evidence op evidence
   }"
| "scalar_value_evidence e leaf_type = Option.bind (leaf_type e) from_type"

section \<open>Least widths\<close>

definition fits_unsigned :: "int \<Rightarrow> nat \<Rightarrow> bool" where
  "fits_unsigned v w \<longleftrightarrow> 0 \<le> v \<and> v < 2 ^ w"

definition fits_signed :: "int \<Rightarrow> nat \<Rightarrow> bool" where
  "fits_signed v w \<longleftrightarrow> - (2 ^ (w - 1)) \<le> v \<and> v < 2 ^ (w - 1)"

lemma nat_less_pow_iff: "0 \<le> v \<Longrightarrow> nat v < 2 ^ w \<longleftrightarrow> v < 2 ^ w"
  by (metis nat_less_iff of_nat_numeral of_nat_power)

lemma bit_len_ge_1: "n \<noteq> 0 \<Longrightarrow> 1 \<le> bit_len n"
  by (metis One_nat_def Suc_leI bit_len_eq_0_iff gr0I)

lemma nonnegative_value_bits_le:
  "0 \<le> v \<Longrightarrow> 1 \<le> w \<Longrightarrow> nonnegative_value_bits v \<le> w \<longleftrightarrow> fits_unsigned v w"
  by (simp add: nonnegative_value_bits_def fits_unsigned_def bit_len_le_iff nat_less_pow_iff)

lemma signed_value_bits_le: "1 \<le> w \<Longrightarrow> signed_value_bits v \<le> w \<longleftrightarrow> fits_signed v w"
proof -
  assume w: "1 \<le> w"
  then obtain k where k: "w = Suc k" by (cases w) auto
  show ?thesis
  proof (cases "v < 0")
    case True
    then have "signed_value_bits v \<le> w \<longleftrightarrow> nat (NOT v) < 2 ^ k"
      by (simp add: signed_value_bits_def k bit_len_le_iff)
    also have "\<dots> \<longleftrightarrow> NOT v < 2 ^ k" using True by (intro nat_less_pow_iff) (simp add: not_int_def)
    finally show ?thesis using True by (auto simp: fits_signed_def k not_int_def intro: less_trans [of _ 0])
  next
    case False
    have "nonnegative_value_bits v = bit_len (nat v)" if "v \<noteq> 0"
      using that False bit_len_ge_1 [of "nat v"] by (simp add: nonnegative_value_bits_def)
    then show ?thesis
      using False by (auto simp: signed_value_bits_def fits_signed_def k bit_len_le_iff nat_less_pow_iff
          intro: order_trans [of _ 0])
  qed
qed

lemma contextual_value_bits_Some:
  "contextual_value_bits v sg = Some w \<Longrightarrow> 1 \<le> w"
  by (auto simp: contextual_value_bits_def signed_value_bits_def nonnegative_value_bits_def split: if_splits)

lemma wide_literal_bits_val: "wide_literal_bits ws = max (bit_len (mag_val ws)) 1"
proof (induction ws rule: rev_induct)
  case (snoc w ws)
  show ?case
  proof (cases "w = 0")
    case True
    with snoc show ?thesis by (simp add: wide_literal_bits_def enumerate_append_eq mag_val_append)
  next
    case False
    then have "normalized (ws @ [w])" by (simp add: normalized_def)
    then have "bit_len (mag_val (ws @ [w])) = mag_bit_len (ws @ [w])" by (simp add: mag_bit_len_val)
    moreover have "mag_bit_len (ws @ [w]) = length ws * 32 + bit_len (unat w)"
      by (simp add: mag_bit_len_def)
    moreover have "1 \<le> bit_len (unat w)" using False bit_len_ge_1 [of "unat w"] by (simp add: unat_eq_zero)
    ultimately show ?thesis using False by (simp add: wide_literal_bits_def enumerate_append_eq)
  qed
qed (simp add: wide_literal_bits_def)

text \<open>
  The width computed for a constant is the least positive width that holds it: as a signed number, as
  an unsigned number (a negative value has none), and for a literal of several words.
\<close>

theorem contextual_width_is_least:
  assumes "1 \<le> w"
  shows "(\<exists>k \<ge> 1. contextual_value_bits v True = Some k \<and> (k \<le> w \<longleftrightarrow> fits_signed v w)) \<and>
    (v < 0 \<longleftrightarrow> contextual_value_bits v False = None) \<and>
    (\<forall>k. contextual_value_bits v False = Some k \<longrightarrow> 1 \<le> k \<and> (k \<le> w \<longleftrightarrow> fits_unsigned v w)) \<and>
    1 \<le> wide_literal_bits ws \<and> (wide_literal_bits ws \<le> w \<longleftrightarrow> mag_val ws < 2 ^ w)"
proof -
  have "wide_literal_bits ws \<le> w \<longleftrightarrow> mag_val ws < 2 ^ w"
    using assms by (simp add: wide_literal_bits_val bit_len_le_iff)
  then show ?thesis
    using assms signed_value_bits_le [OF assms, of v] nonnegative_value_bits_le [of v w]
      contextual_value_bits_Some [of v True "signed_value_bits v"]
    by (auto simp: contextual_value_bits_def wide_literal_bits_val nonnegative_value_bits_def)
qed

theorem contextual_width_is_least_witness:
  "contextual_value_bits (- 128) True = Some 8 \<and> fits_signed (- 128) 8 \<and> \<not> fits_signed (- 129) 8 \<and>
   wide_literal_bits [0, 0, 1] = 65 \<and> mag_val [0, 0, 1] < 2 ^ 65"
proof -
  have "contextual_value_bits (- 128) True = Some 8" "contextual_value_bits (- 129) True = Some 9"
    "wide_literal_bits [0, 0, 1] = 65" by code_simp+
  with contextual_width_is_least [of 8 "- 128" "[]"] contextual_width_is_least [of 8 "- 129" "[]"]
    contextual_width_is_least [of 65 0 "[0, 0, 1]"] show ?thesis by auto
qed

section \<open>Exact values\<close>

text \<open>
  The integers an expression can denote when its operators are those of the unbounded integers; an expression
  that is not built from unsized literals may denote any.
\<close>

fun math_binary :: "BinOp \<Rightarrow> int \<Rightarrow> int \<Rightarrow> int option" where
  "math_binary Add x y = Some (x + y)"
| "math_binary Sub x y = Some (x - y)"
| "math_binary Mul x y = Some (x * y)"
| "math_binary Div x y = (if y = 0 then None else Some (x sdiv y))"
| "math_binary Mod x y = (if y = 0 then None else Some (x smod y))"
| "math_binary BitAnd x y = Some (x AND y)"
| "math_binary BitOr x y = Some (x OR y)"
| "math_binary BitXor x y = Some (x XOR y)"
| "math_binary Shl x y = (if y < 0 then None else Some (x * 2 ^ nat y))"
| "math_binary Shr x y = (if y < 0 then None else Some (x div 2 ^ nat y))"
| "math_binary Eq x y = Some (of_bool (x = y))"
| "math_binary Ne x y = Some (of_bool (x \<noteq> y))"
| "math_binary Lt x y = Some (of_bool (x < y))"
| "math_binary Le x y = Some (of_bool (x \<le> y))"
| "math_binary Gt x y = Some (of_bool (x > y))"
| "math_binary Ge x y = Some (of_bool (x \<ge> y))"
| "math_binary And x y = Some (of_bool (x \<noteq> 0 \<and> y \<noteq> 0))"
| "math_binary Or x y = Some (of_bool (x \<noteq> 0 \<or> y \<noteq> 0))"

fun math_values :: "Expr \<Rightarrow> int set" where
  "math_values (Literal v Unknown) = {uint v}"
| "math_values (Literal v (UInt None)) = {uint v}"
| "math_values (Literal v (SInt None)) = {sint v}"
| "math_values (Binary op a b) = {z. \<exists>x \<in> math_values a. \<exists>y \<in> math_values b. math_binary op x y = Some z}"
| "math_values (Unary Neg a) = uminus ` math_values a"
| "math_values (Unary BitNot a) = (NOT) ` math_values a"
| "math_values (Ternary _ a b) = math_values a \<union> math_values b"
| "math_values _ = UNIV"

lemma in_i128_iff: "in_i128 v \<longleftrightarrow> signed_take_bit 127 v = v"
  by (simp add: in_i128_def signed_take_bit_int_eq_self_iff)

lemma signed_take_bit_bitwise:
  fixes a b :: int
  shows "signed_take_bit n (a AND b) = signed_take_bit n a AND signed_take_bit n b"
    and "signed_take_bit n (a OR b) = signed_take_bit n a OR signed_take_bit n b"
    and "signed_take_bit n (a XOR b) = signed_take_bit n a XOR signed_take_bit n b"
  by (simp_all add: bit_eq_iff bit_simps)

lemma in_i128_bitwise:
  "in_i128 a \<Longrightarrow> in_i128 b \<Longrightarrow> in_i128 (a AND b) \<and> in_i128 (a OR b) \<and> in_i128 (a XOR b)"
  by (simp add: in_i128_iff signed_take_bit_bitwise)

lemma in_i128_smod:
  assumes "in_i128 a" shows "in_i128 (a smod b)"
proof -
  have "0 \<le> \<bar>a\<bar> mod \<bar>b\<bar>" "\<bar>a\<bar> mod \<bar>b\<bar> \<le> \<bar>a\<bar>"
    by (cases "b = 0"; simp) (simp add: zmod_le_nonneg_dividend)
  with assms show ?thesis
    by (cases "a < 0"; cases "a = 0") (simp_all add: in_i128_def signed_modulo_int_def)
qed

lemma contextual_sign_Some: "contextual_value_bits v (v < 0) \<noteq> None"
  by (simp add: contextual_value_bits_def)

text \<open>A width that holds a value of known sign.\<close>

definition value_fits :: "int \<Rightarrow> nat \<Rightarrow> bool" where
  "value_fits v w \<longleftrightarrow> 1 \<le> w \<and> (if v < 0 then - (2 ^ (w - 1)) \<le> v else v < 2 ^ w)"

lemma value_fits_iff: "value_fits v w \<longleftrightarrow> 1 \<le> w \<and> the (contextual_value_bits v (v < 0)) \<le> w"
  using signed_value_bits_le [of w v] nonnegative_value_bits_le [of v w]
  by (auto simp: value_fits_def contextual_value_bits_def fits_signed_def fits_unsigned_def intro: less_trans [of _ 0])

lemma value_fits_contextual: "contextual_value_bits v (v < 0) = Some w \<Longrightarrow> value_fits v w"
  using contextual_value_bits_Some [of v "v < 0" w] by (simp add: value_fits_iff)

lemma value_fits_mono: "value_fits v w \<Longrightarrow> w \<le> w' \<Longrightarrow> value_fits v w'"
  by (simp add: value_fits_iff)

text \<open>What evidence says of the values of an expression.\<close>

definition evidence_ok :: "int set \<Rightarrow> ScalarValueEvidence \<Rightarrow> bool" where
  "evidence_ok V ev \<longleftrightarrow> (case as_integer ev of (w, sg, exact, ub) \<Rightarrow>
     (\<forall>v. exact = Some v \<longrightarrow> V = {v} \<and> in_i128 v \<and> (sg = None \<longrightarrow> (\<exists>k. w = Some k \<and> value_fits v k))))"

lemma evidence_ok_EBool [simp]: "evidence_ok V EBool"
  by (simp add: evidence_ok_def)

lemma evidence_ok_Integer:
  "evidence_ok V (Integer w sg exact ub) \<longleftrightarrow>
     (\<forall>v. exact = Some v \<longrightarrow> V = {v} \<and> in_i128 v \<and> (sg = None \<longrightarrow> (\<exists>k. w = Some k \<and> value_fits v k)))"
  by (simp add: evidence_ok_def)

lemma from_type_ok: "from_type ty = Some ev \<Longrightarrow> evidence_ok V ev"
  by (cases ty) (auto simp: evidence_ok_def)

lemma uint_u64_bounds: "0 \<le> uint (v :: u64)" "uint (v :: u64) < 2 ^ 64"
  using uint_lt2p [of v] by simp_all

lemma sint_u64_bounds: "- (2 ^ 63) \<le> sint (v :: u64)" "sint (v :: u64) < 2 ^ 63"
  using sint_ge [of v] sint_lt [of v] by simp_all

lemma literal_evidence_ok:
  assumes "literal_evidence v ty = Some ev" shows "evidence_ok (math_values (Literal v ty)) ev"
proof -
  have u: "value_fits (uint v) (unsigned_value_bits v)"
    using value_fits_contextual [of "uint v"] uint_u64_bounds(1) [of v]
    by (simp add: contextual_value_bits_def nonnegative_value_bits_def unsigned_value_bits_def)
  have "- (2 ^ 127) \<le> uint v" by (rule order_trans [OF _ uint_u64_bounds(1)]) simp
  moreover have "uint v < 2 ^ 127" by (rule less_trans [OF uint_u64_bounds(2)]) simp
  ultimately have "in_i128 (uint v)" by (simp add: in_i128_def)
  moreover have "in_i128 (sint v)"
    using sint_u64_bounds [of v] by (simp add: in_i128_def)
  moreover obtain k where "contextual_value_bits (sint v) (sint v < 0) = Some k" using contextual_sign_Some by blast
  ultimately show ?thesis
    using assms u value_fits_contextual [of "sint v" k]
    by (cases "(v, ty)" rule: literal_evidence.cases)
      (auto simp: evidence_ok_Integer Let_def intro: from_type_ok)
qed

lemma value_fits_and:
  assumes "value_fits a j" "value_fits b k" shows "value_fits (a AND b) (max j k)"
proof -
  let ?m = "max j k"
  have a: "value_fits a ?m" and b: "value_fits b ?m"
    using assms by (auto elim: value_fits_mono)
  show ?thesis
  proof (cases "a < 0 \<and> b < 0")
    case True
    have "signed_take_bit (?m - 1) a = a" "signed_take_bit (?m - 1) b = b"
      using a b True by (auto simp: signed_take_bit_int_eq_self_iff value_fits_def intro: less_trans [of _ 0])
    then have "signed_take_bit (?m - 1) (a AND b) = a AND b" by (simp add: signed_take_bit_bitwise)
    with a True show ?thesis by (simp add: signed_take_bit_int_eq_self_iff value_fits_def)
  next
    case False
    have "a AND b < 2 ^ ?m"
    proof (cases "a < 0")
      case True
      with False have "a AND b \<le> b" by (simp add: AND_upper2)
      with True False b show ?thesis by (simp add: value_fits_def)
    next
      case nonneg: False
      then have "a AND b \<le> a" by (simp add: AND_upper1)
      with nonneg a show ?thesis by (simp add: value_fits_def)
    qed
    moreover have "\<not> a AND b < 0" using False by auto
    ultimately show ?thesis using a False by (auto simp: value_fits_def)
  qed
qed

lemma common_evidence_sign_None [simp]: "common_evidence_sign a b = None \<longleftrightarrow> a = None \<and> b = None"
  by (cases "(a, b)" rule: common_evidence_sign.cases) auto

lemma exact_op_ok:
  assumes "exact_op op (Some a) (Some b) = Some v" "in_i128 a" "in_i128 b"
  shows "math_binary op a b = Some v \<and> in_i128 v"
  using assms in_i128_bitwise [of a b]
  by (cases op)
    (auto simp: exact_op_def checked_def checked_div_def checked_rem_def in_i128_smod split: if_splits)

lemma exact_op_Some: "exact_op op le re = Some v \<Longrightarrow> \<exists>a b. le = Some a \<and> re = Some b"
  by (cases op; cases le; cases re) (simp_all add: exact_op_def)

lemma in_i128_shl:
  assumes w: "contextual_value_bits v (v < 0) = Some w" and le: "w + n \<le> (if v < 0 then 128 else 127)"
  shows "signed_take_bit 127 (push_bit n v) = v * 2 ^ n \<and> in_i128 (v * 2 ^ n) \<and> value_fits (v * 2 ^ n) (w + n)"
proof -
  have f: "value_fits v w" by (rule value_fits_contextual [OF w])
  have shifted: "value_fits (v * 2 ^ n) (w + n)"
  proof (cases "v < 0")
    case True
    have "- (2 ^ (w - 1)) \<le> v" using f True by (simp add: value_fits_def)
    then have "- (2 ^ (w - 1)) * 2 ^ n \<le> v * 2 ^ n" by (rule mult_right_mono) simp
    moreover have "- (2 ^ (w - 1)) * 2 ^ n = - (2 ^ (w + n - 1) :: int)"
      using f by (simp add: value_fits_def flip: power_add)
    ultimately show ?thesis
      using f True by (simp add: value_fits_def mult_less_0_iff)
  next
    case False
    then have "v * 2 ^ n < 2 ^ w * 2 ^ n" using f by (simp add: value_fits_def)
    with False f show ?thesis by (simp add: value_fits_def power_add mult_less_0_iff)
  qed
  have "in_i128 (v * 2 ^ n)"
    using value_fits_mono [OF shifted le]
    by (cases "v < 0") (auto simp: value_fits_def in_i128_def mult_less_0_iff intro: less_trans [of _ 0] order_trans [of _ 0])
  with shifted show ?thesis by (simp add: in_i128_iff push_bit_eq_mult)
qed

lemma in_i128_shr: "in_i128 v \<Longrightarrow> in_i128 (drop_bit n v)"
proof -
  assume "in_i128 v"
  then have "signed_take_bit 127 v = v" by (simp add: in_i128_iff)
  then have "bit v k = bit v (min 127 k)" for k by (metis bit_signed_take_bit_iff possible_bit_int)
  then have "bit v (n + min 127 k) = bit v (n + k)" for k
  proof -
    have "min 127 (n + min 127 k) = min 127 (n + k)" by (simp add: min_def)
    with \<open>\<And>k. bit v k = bit v (min 127 k)\<close> show ?thesis by metis
  qed
  then have "bit (drop_bit n v) (min 127 k) = bit (drop_bit n v) k" for k
    by (simp add: bit_drop_bit_eq)
  then have "signed_take_bit 127 (drop_bit n v) = drop_bit n v"
    by (simp add: bit_eq_iff bit_signed_take_bit_iff)
  then show ?thesis by (simp add: in_i128_iff)
qed

lemma shift_evidence_ok:
  assumes l: "evidence_ok V (Integer lw ls le lub)" and r: "evidence_ok W (Integer rw rs re rub)"
    and op: "op = Shl \<or> op = Shr"
  shows "evidence_ok {z. \<exists>x \<in> V. \<exists>y \<in> W. math_binary op x y = Some z}
    (shift_evidence op (lw, ls, le, lub) (rw, rs, re, rub))"
proof (cases "ls = None \<and> (\<exists>v k. le = Some v \<and> re = Some k \<and> u32_of_i128 k \<noteq> None)")
  case False
  then show ?thesis
    using op by (auto simp: shift_evidence_def evidence_ok_Integer bind_eq_Some_conv split: option.splits)
next
  case True
  then obtain v k n where eq: "ls = None" "le = Some v" "re = Some k" "u32_of_i128 k = Some n" by auto
  then have k: "0 \<le> k" "n = nat k" by (auto simp: u32_of_i128_def split: if_splits)
  have VW: "V = {v}" "W = {k}" "in_i128 v" using l r eq by (auto simp: evidence_ok_Integer)
  obtain w where w: "contextual_value_bits v (v < 0) = Some w" using contextual_sign_Some by blast
  from op show ?thesis
  proof
    assume [simp]: "op = Shl"
    show ?thesis
    proof (cases "v = 0")
      case True
      with k VW eq show ?thesis
        by (auto simp: shift_evidence_def evidence_ok_Integer checked_shl_def in_i128_def value_fits_def)
    next
      case False
      with k VW eq w in_i128_shl [OF w, of n] show ?thesis
        by (auto simp: shift_evidence_def evidence_ok_Integer checked_shl_def checked_add_u32_def split: if_splits)
    qed
  next
    assume [simp]: "op = Shr"
    obtain j where "contextual_value_bits (drop_bit n v) (drop_bit n v < 0) = Some j"
      using contextual_sign_Some by blast
    with k VW eq in_i128_shr [OF VW(3), of n] value_fits_contextual [of "drop_bit n v"] show ?thesis
      by (auto simp: shift_evidence_def evidence_ok_Integer checked_shr_def drop_bit_eq_div)
  qed
qed

lemma and_evidence_ok:
  assumes l: "evidence_ok V (Integer lw ls le lub)" and r: "evidence_ok W (Integer rw rs re rub)"
  shows "evidence_ok {z. \<exists>x \<in> V. \<exists>y \<in> W. math_binary BitAnd x y = Some z}
    (and_evidence (lw, ls, le, lub) (rw, rs, re, rub) (exact_op BitAnd le re))"
proof (cases "le = None \<or> re = None")
  case True
  then show ?thesis
    by (auto simp: and_evidence_def evidence_ok_Integer Let_def exact_op_def split: option.splits)
next
  case False
  then obtain a b where eq: "le = Some a" "re = Some b" by auto
  have VW: "V = {a}" "W = {b}" "in_i128 a" "in_i128 b"
    and f: "ls = None \<Longrightarrow> \<exists>k. lw = Some k \<and> value_fits a k" "rs = None \<Longrightarrow> \<exists>k. rw = Some k \<and> value_fits b k"
    using l r eq by (auto simp: evidence_ok_Integer)
  with eq in_i128_bitwise [of a b] show ?thesis
    by (cases "lub \<or> rub")
      (auto simp: and_evidence_def evidence_ok_Integer Let_def exact_op_def opt_or_def bound_width_def min_opt_def
        value_fits_and split: option.splits)
qed

lemma arith_evidence_ok:
  assumes l: "evidence_ok V (Integer lw ls le lub)" and r: "evidence_ok W (Integer rw rs re rub)"
  shows "evidence_ok {z. \<exists>x \<in> V. \<exists>y \<in> W. math_binary op x y = Some z}
    (arith_evidence (lw, ls, le, lub) (rw, rs, re, rub) (exact_op op le re))"
proof (cases "exact_op op le re")
  case None
  then show ?thesis by (simp add: arith_evidence_def evidence_ok_Integer Let_def)
next
  case (Some v)
  then obtain a b where eq: "le = Some a" "re = Some b" using exact_op_Some by blast
  have VW: "V = {a}" "W = {b}" "in_i128 a" "in_i128 b" using l r eq by (auto simp: evidence_ok_Integer)
  have "math_binary op a b = Some v \<and> in_i128 v"
    using Some VW by (intro exact_op_ok) (simp_all add: eq)
  moreover obtain w where "contextual_value_bits v (v < 0) = Some w" using contextual_sign_Some by blast
  ultimately show ?thesis
    using Some VW value_fits_contextual [of v w]
    by (auto simp: arith_evidence_def evidence_ok_Integer Let_def opt_or_def eq split: option.splits)
qed

lemma evidence_width_fits:
  assumes "value_fits v k"
  shows "\<exists>j. evidence_width_for_sign (Some k) None (Some v) False = Some j \<and> value_fits v j"
  using assms value_fits_contextual [of v]
  by (cases "v < 0") (auto simp: evidence_width_for_sign_def contextual_value_bits_def opt_or_def)

lemma ternary_evidence_ok:
  assumes t: "evidence_ok V t" and e: "evidence_ok W e"
  shows "evidence_ok (V \<union> W) (ternary_evidence t e)"
proof -
  obtain tw ts te tub where ti: "as_integer t = (tw, ts, te, tub)" by (cases "as_integer t")
  obtain ew es ee eub where ei: "as_integer e = (ew, es, ee, eub)" by (cases "as_integer e")
  have key: "V \<union> W = {v} \<and> in_i128 v \<and>
      (common_evidence_sign ts es = None \<longrightarrow>
        (\<exists>k. common_evidence_width (evidence_width_for_sign tw ts te False)
               (evidence_width_for_sign ew es ee False) = Some k \<and> value_fits v k))"
    if "te = Some v" "ee = Some v" for v
  proof -
    have "V = {v}" "W = {v}" "in_i128 v"
      and f: "ts = None \<Longrightarrow> \<exists>k. tw = Some k \<and> value_fits v k"
        "es = None \<Longrightarrow> \<exists>k. ew = Some k \<and> value_fits v k"
      using t e ti ei that by (auto simp: evidence_ok_def)
    moreover have "\<exists>k. common_evidence_width (evidence_width_for_sign tw ts te False)
               (evidence_width_for_sign ew es ee False) = Some k \<and> value_fits v k"
      if "common_evidence_sign ts es = None"
    proof -
      from that obtain i j where "tw = Some i" "ew = Some j" "value_fits v i" "value_fits v j"
        using f by auto
      with evidence_width_fits [of v i] evidence_width_fits [of v j] that \<open>te = Some v\<close> \<open>ee = Some v\<close>
      show ?thesis by (auto elim: value_fits_mono simp: max_def)
    qed
    ultimately show ?thesis by auto
  qed
  show ?thesis
    using key by (auto simp: ternary_evidence_def ti ei evidence_ok_Integer Let_def split: if_splits)
qed

lemma unary_evidence_ok:
  assumes e: "evidence_ok V ev" and u: "unary_evidence op ev = Some ev'" and V': "op = Neg \<Longrightarrow> V' = uminus ` V"
  shows "evidence_ok V' ev'"
proof (cases ev)
  case (Integer w sg exact ub)
  show ?thesis
  proof (cases "op = Neg \<and> exact \<noteq> None")
    case True
    then obtain v where v: "exact = Some v" by auto
    obtain j where "contextual_value_bits (- v) (- v < 0) = Some j" using contextual_sign_Some by blast
    with True v e u V' value_fits_contextual [of "- v" j] show ?thesis
      by (auto simp: Integer unary_evidence_def evidence_ok_Integer Let_def checked_def split: if_splits)
  next
    case False
    with u show ?thesis
      by (cases op; cases exact) (auto simp: Integer unary_evidence_def evidence_ok_Integer Let_def)
  qed
qed (use u in \<open>simp add: unary_evidence_def\<close>)

lemma evidence_ok_as_integer:
  "evidence_ok V ev \<longleftrightarrow> (case as_integer ev of (w, sg, exact, ub) \<Rightarrow> evidence_ok V (Integer w sg exact ub))"
  by (simp add: evidence_ok_def split: prod.splits)

lemma binary_evidence_ok:
  assumes a: "evidence_ok V ea" and b: "evidence_ok W eb"
    and "scalar_value_evidence a leaf = Some ea" "scalar_value_evidence b leaf = Some eb"
    and ev: "scalar_value_evidence (Binary op a b) leaf = Some ev"
  shows "evidence_ok {z. \<exists>x \<in> V. \<exists>y \<in> W. math_binary op x y = Some z} ev"
proof -
  obtain lw ls le lub where l: "as_integer ea = (lw, ls, le, lub)" by (cases "as_integer ea")
  obtain rw rs re rub where r: "as_integer eb = (rw, rs, re, rub)" by (cases "as_integer eb")
  have "evidence_ok V (Integer lw ls le lub)" "evidence_ok W (Integer rw rs re rub)"
    using a b evidence_ok_as_integer [of V ea] evidence_ok_as_integer [of W eb] by (simp_all add: l r)
  note ok = shift_evidence_ok [OF this] and_evidence_ok [OF this] arith_evidence_ok [OF this, of op]
  show ?thesis
    using ev assms(3,4) ok by (auto simp: l r Let_def split: if_splits)
qed

lemma scalar_value_evidence_ok:
  "scalar_value_evidence e leaf = Some ev \<Longrightarrow> evidence_ok (math_values e) ev"
proof (induction e leaf arbitrary: ev rule: scalar_value_evidence.induct)
  case (3 op a b leaf)
  show ?case
  proof (cases "is_comparison op")
    case False
    then obtain ea eb where "scalar_value_evidence a leaf = Some ea" "scalar_value_evidence b leaf = Some eb"
      using "3.prems" by (auto split: bind_splits)
    with binary_evidence_ok [OF _ _ this "3.prems"] "3.IH" False show ?thesis by simp
  qed (use "3.prems" in simp)
next
  case (4 c a b leaf)
  then show ?case by (auto split: bind_splits intro: ternary_evidence_ok)
qed (auto simp: evidence_ok_Integer literal_evidence_ok split: bind_splits intro: from_type_ok elim!: unary_evidence_ok)

text \<open>
  C25.  When the evidence of an expression carries an exact value, the expression has no other value over the
  unbounded integers: no step of the 128-bit arithmetic wrapped.  The value fits in an \<^verbatim>\<open>i128\<close>, and while the
  signedness is open the evidence also has a width that holds it.
\<close>

theorem exact_evidence_sound:
  assumes "scalar_value_evidence e leaf = Some (Integer w sg (Some v) ub)"
  shows "math_values e = {v} \<and> in_i128 v \<and> (sg = None \<longrightarrow> (\<exists>k. w = Some k \<and> value_fits v k))"
  using scalar_value_evidence_ok [OF assms] by (simp add: evidence_ok_Integer)

theorem exact_evidence_sound_witness:
  "math_values (Binary Shl (Literal 1 Unknown) (Literal 8 Unknown)) = {256} \<and>
   scalar_value_evidence (Binary Shl (Literal 1 Unknown) (Literal 8 Unknown)) (\<lambda>_. None) =
     Some (Integer (Some 9) None (Some 256) True)"
proof -
  have "scalar_value_evidence (Binary Shl (Literal 1 Unknown) (Literal 8 Unknown)) (\<lambda>_. None) =
      Some (Integer (Some 9) None (Some 256) True)"
  proof -
    have "contextual_value_bits 1 False = Some 1" by code_simp
    moreover have "signed_take_bit 127 (push_bit 8 1) = (256 :: int)"
      by (simp add: signed_take_bit_int_eq_self push_bit_eq_mult)
    ultimately show ?thesis
      by (simp add: shift_evidence_def is_comparison_def u32_of_i128_def checked_add_u32_def checked_shl_def)
  qed
  with exact_evidence_sound [OF this] show ?thesis by simp
qed

end
