(* ===== verification/Bit_Set.thy ===== *)
theory Bit_Set
  imports Ir_Types
begin

text \<open>
  The bit vectors of the definite-assignment check (\<^verbatim>\<open>src/ir/verify.rs\<close>): sets of locals as lists of 64-bit
  words.  Indices past the last word read as unset and are not written.
\<close>

section \<open>Operations\<close>

definition bit_words :: "nat \<Rightarrow> nat" where
  "bit_words nbits = div_ceil nbits 64"

definition full_bits :: "nat \<Rightarrow> u64 list" where
  "full_bits nbits =
     (let words = bit_words nbits; bits = replicate words (NOT 0); rem = nbits mod 64 in
      if rem \<noteq> 0 \<and> bits \<noteq> [] then bits[length bits - 1 := push_bit rem 1 - 1] else bits)"

definition zero_bits :: "nat \<Rightarrow> u64 list" where
  "zero_bits nbits = replicate (bit_words nbits) 0"

definition bit_get :: "u64 list \<Rightarrow> nat \<Rightarrow> bool" where
  "bit_get bits idx \<longleftrightarrow>
     idx div 64 < length bits \<and> (bits ! (idx div 64)) AND push_bit (idx mod 64) 1 \<noteq> 0"

definition bit_set :: "u64 list \<Rightarrow> nat \<Rightarrow> u64 list" where
  "bit_set bits idx =
     (if idx div 64 < length bits
      then bits[idx div 64 := (bits ! (idx div 64)) OR push_bit (idx mod 64) 1] else bits)"

text \<open>\<^verbatim>\<open>for (d, s) in dst.iter_mut().zip(src.iter()) { *d = f(*d, *s) }\<close>\<close>

fun zip_assign :: "(u64 \<Rightarrow> u64 \<Rightarrow> u64) \<Rightarrow> u64 list \<Rightarrow> u64 list \<Rightarrow> u64 list" where
  "zip_assign f (d # ds) (s # ss) = f d s # zip_assign f ds ss"
| "zip_assign f ds ss = ds"

definition bit_or_assign :: "u64 list \<Rightarrow> u64 list \<Rightarrow> u64 list" where
  "bit_or_assign = zip_assign (OR)"

definition bit_and_assign :: "u64 list \<Rightarrow> u64 list \<Rightarrow> u64 list" where
  "bit_and_assign = zip_assign (AND)"

section \<open>Sets of indices\<close>

named_theorems bit_set_simps \<open>bit vectors as sets of indices\<close>

definition members :: "u64 list \<Rightarrow> nat set" where
  "members bits = {i. bit_get bits i}"

lemma div_ceil_bounds: "i < n \<Longrightarrow> i div 64 < div_ceil n 64" "i div 64 < div_ceil n 64 \<Longrightarrow> i < 64 * div_ceil n 64"
  "n \<le> 64 * div_ceil n 64"
  unfolding div_ceil_def by auto

lemma bit_get_bit: "bit_get bits i \<longleftrightarrow> i div 64 < length bits \<and> bit (bits ! (i div 64)) (i mod 64)"
  by (simp add: bit_get_def and_exp_eq_0_iff_not_bit)

lemma length_zip_assign [simp]: "length (zip_assign f ds ss) = length ds"
  by (induction f ds ss rule: zip_assign.induct) simp_all

lemma nth_zip_assign:
  "length ds = length ss \<Longrightarrow> i < length ds \<Longrightarrow> zip_assign f ds ss ! i = f (ds ! i) (ss ! i)"
  by (induction f ds ss arbitrary: i rule: zip_assign.induct) (auto simp: nth_Cons split: nat.split)

lemma length_bits [simp]:
  "length (full_bits n) = bit_words n" "length (zero_bits n) = bit_words n"
  "length (bit_set bits i) = length bits" "length (bit_or_assign ds ss) = length ds"
  "length (bit_and_assign ds ss) = length ds"
  by (simp_all add: full_bits_def zero_bits_def bit_set_def bit_or_assign_def bit_and_assign_def Let_def)

lemma bit_low_mask: "bit (2 ^ k - 1 :: u64) j \<longleftrightarrow> j < 64 \<and> j < k"
  by (simp add: mask_eq_exp_minus_1 [symmetric] bit_mask_iff)

lemma members_zero_bits [simp, bit_set_simps]: "members (zero_bits n) = {}"
  by (simp add: members_def bit_get_bit zero_bits_def)

lemma members_bit_set [bit_set_simps]:
  "members (bit_set bits j) = (if j div 64 < length bits then insert j (members bits) else members bits)"
  by (auto simp: members_def bit_get_bit bit_set_def nth_list_update bit_simps)
     (metis div_mult_mod_eq)+

lemma members_or [bit_set_simps]:
  "length ds = length ss \<Longrightarrow> members (bit_or_assign ds ss) = members ds \<union> members ss"
  by (auto simp: members_def bit_get_bit bit_or_assign_def nth_zip_assign bit_simps)

lemma members_and [bit_set_simps]:
  "length ds = length ss \<Longrightarrow> members (bit_and_assign ds ss) = members ds \<inter> members ss"
  by (auto simp: members_def bit_get_bit bit_and_assign_def nth_zip_assign bit_simps)

lemma less_div_mod_64:
  "(i :: nat) < n \<longleftrightarrow> i div 64 < n div 64 \<or> i div 64 = n div 64 \<and> i mod 64 < n mod 64"
proof -
  have digits: "64 * a + b < 64 * c + d \<longleftrightarrow> a < c \<or> a = c \<and> b < d" if "b < 64" "d < 64" for a b c d :: nat
    using that by (cases a c rule: linorder_cases) linarith+
  show ?thesis using digits [of "i mod 64" "n mod 64" "i div 64" "n div 64"] by simp
qed

lemma members_full_bits [simp, bit_set_simps]: "members (full_bits n) = {..<n}"
proof -
  have "bit_get (full_bits n) i \<longleftrightarrow> i < n" for i
  proof (cases "n mod 64 = 0")
    case True
    then have "bit_words n = n div 64" by (auto simp: bit_words_def div_ceil_def)
    with True show ?thesis by (auto simp: bit_get_bit full_bits_def bit_simps)
  next
    case False
    then have "bit_words n = Suc (n div 64)" by (simp add: bit_words_def div_ceil_def)
    with False have "full_bits n = replicate (n div 64) (NOT 0) @ [2 ^ (n mod 64) - 1]"
      by (simp add: full_bits_def replicate_append_same [symmetric] list_update_append del: replicate_Suc)
        (simp add: replicate_append_same [symmetric] list_update_append)
    then show ?thesis
      using less_div_mod_64 [of i n] by (auto simp: bit_get_bit nth_append bit_low_mask bit_simps less_Suc_eq)
  qed
  then show ?thesis by (simp add: members_def set_eq_iff)
qed

lemma members_inject:
  assumes "length xs = length ys" shows "members xs = members ys \<longleftrightarrow> xs = ys"
proof
  assume eq: "members xs = members ys"
  show "xs = ys"
  proof (rule nth_equalityI [OF assms])
    fix k assume k: "k < length xs"
    show "xs ! k = ys ! k"
    proof (rule bit_word_eqI)
      fix j assume "j < LENGTH(64)"
      then have "(64 * k + j) div 64 = k" "(64 * k + j) mod 64 = j" by simp_all
      with eq k assms show "bit (xs ! k) j = bit (ys ! k) j"
        by (metis bit_get_bit mem_Collect_eq members_def)
    qed
  qed
qed simp

end
