(* ===== verification/Must_Flow.thy ===== *)
theory Must_Flow
  imports Harc_Prelude
begin

text \<open>
  Forward must-analysis over a control-flow graph, as sets: what holds on every path from the start.  Iterating
  the transfer function from above, one block at a time and in any order, ends in the meet over all paths.
\<close>

text \<open>\<open>D\<close> is the set of facts on some path from the start to the block.\<close>

inductive on_path :: "('b \<Rightarrow> 'b \<Rightarrow> bool) \<Rightarrow> 'b \<Rightarrow> 'l set \<Rightarrow> ('b \<Rightarrow> 'l set) \<Rightarrow> 'b \<Rightarrow> 'l set \<Rightarrow> bool"
  for step start E G
where
  on_path_start: "on_path step start E G start E"
| on_path_step: "on_path step start E G b D \<Longrightarrow> step b c \<Longrightarrow> on_path step start E G c (D \<union> G b)"

lemma on_path_start_le: "on_path step start E G b D \<Longrightarrow> E \<subseteq> D"
  by (induction rule: on_path.induct) auto

lemma on_path_reachable: "on_path step start E G b D \<Longrightarrow> step\<^sup>*\<^sup>* start b"
  by (induction rule: on_path.induct) auto

lemma reachable_on_path: "step\<^sup>*\<^sup>* start b \<Longrightarrow> \<exists>D. on_path step start E G b D"
proof (induction rule: rtranclp_induct)
  case base
  show ?case by (rule exI, rule on_path_start)
next
  case (step b c)
  then show ?case by (metis on_path_step)
qed

locale must_flow =
  fixes step :: "'b \<Rightarrow> 'b \<Rightarrow> bool" and start :: 'b and E :: "'l set" and G :: "'b \<Rightarrow> 'l set" and U :: "'l set"
  assumes finite_facts: "finite U" and start_facts: "E \<subseteq> U"
    and finite_blocks: "finite {b. step\<^sup>*\<^sup>* start b}"
begin

definition reach :: "'b set" where
  "reach = {b. step\<^sup>*\<^sup>* start b}"

definition mop :: "'b \<Rightarrow> 'l set" where
  "mop b = {l \<in> U. \<forall>D. on_path step start E G b D \<longrightarrow> l \<in> D}"

definition transfer :: "('b \<Rightarrow> 'l set) \<Rightarrow> 'b \<Rightarrow> 'l set" where
  "transfer ins b = (if b = start then E else {l \<in> U. \<forall>p \<in> reach. step p b \<longrightarrow> l \<in> ins p \<union> G p})"

definition above :: "('b \<Rightarrow> 'l set) \<Rightarrow> bool" where
  "above ins \<longleftrightarrow> ins start = E \<and>
     (\<forall>b \<in> reach. ins b \<subseteq> U \<and> mop b \<subseteq> ins b \<and> transfer ins b \<subseteq> ins b)"

definition weight :: "('b \<Rightarrow> 'l set) \<Rightarrow> nat" where
  "weight ins = (\<Sum>b \<in> reach. card (ins b))"

lemma reach_step: "b \<in> reach \<Longrightarrow> step b c \<Longrightarrow> c \<in> reach"
  by (auto simp: reach_def)

lemma start_reach: "start \<in> reach"
  by (simp add: reach_def)

lemma mop_start: "mop start = E"
  using start_facts on_path_start_le on_path_start by (fastforce simp: mop_def)

lemma mop_step: "step b c \<Longrightarrow> mop c \<subseteq> mop b \<union> G b"
  using on_path_step by (fastforce simp: mop_def)

lemma above_init: "above (\<lambda>b. if b = start then E else U)"
  using start_facts by (auto simp: above_def transfer_def mop_def mop_start [unfolded mop_def])

lemma mop_transfer:
  assumes "above ins" "b \<in> reach" shows "mop b \<subseteq> transfer ins b"
proof (cases "b = start")
  case False
  have "mop b \<subseteq> ins p \<union> G p" if "p \<in> reach" "step p b" for p
    using mop_step [OF that(2)] assms(1) that(1) by (auto simp: above_def)
  with False show ?thesis by (auto simp: transfer_def mop_def)
qed (simp add: transfer_def mop_start)

lemma transfer_mono: "(\<And>p. p \<in> reach \<Longrightarrow> ins p \<subseteq> ins' p) \<Longrightarrow> transfer ins b \<subseteq> transfer ins' b"
  unfolding transfer_def by auto

lemma above_cong:
  assumes "above ins" "\<And>b. b \<in> reach \<Longrightarrow> ins' b = ins b" shows "above ins'"
proof -
  have "transfer ins' b = transfer ins b" for b
    using transfer_mono [of ins ins' b] transfer_mono [of ins' ins b] assms(2) by auto
  then show ?thesis using assms start_reach by (simp add: above_def)
qed

lemma above_update:
  assumes "above ins" "b \<in> reach" shows "above (ins(b := transfer ins b))"
proof -
  let ?ins = "ins(b := transfer ins b)"
  have le: "?ins p \<subseteq> ins p" if "p \<in> reach" for p using assms that by (simp add: above_def)
  have "transfer ?ins c \<subseteq> ?ins c" if "c \<in> reach" for c
  proof -
    have "transfer ?ins c \<subseteq> transfer ins c" by (rule transfer_mono) (rule le)
    also have "\<dots> \<subseteq> ?ins c" using assms(1) that by (simp add: above_def)
    finally show ?thesis .
  qed
  moreover have "mop c \<subseteq> ?ins c" if "c \<in> reach" for c
    using mop_transfer [OF assms] assms(1) that by (simp add: above_def)
  moreover have "?ins c \<subseteq> U" if "c \<in> reach" for c
    by (rule order_trans [OF le [OF that]]) (use assms(1) that in \<open>simp add: above_def\<close>)
  moreover have "?ins start = E" using assms(1) by (simp add: above_def transfer_def)
  ultimately show ?thesis by (simp add: above_def)
qed

lemma weight_update:
  assumes "above ins" "b \<in> reach" "transfer ins b \<noteq> ins b"
  shows "weight (ins(b := transfer ins b)) < weight ins"
proof -
  have sub: "transfer ins b \<subset> ins b" and U: "ins b \<subseteq> U" using assms by (auto simp: above_def)
  then have "card (transfer ins b) < card (ins b)"
    using finite_facts finite_subset psubset_card_mono by metis
  moreover have "finite reach" using finite_blocks by (simp add: reach_def)
  ultimately show ?thesis
    unfolding weight_def using assms(2) by (intro sum_strict_mono_ex1) auto
qed

lemma fixpoint_mop:
  assumes ins: "above ins" and fixed: "\<And>b. b \<in> reach \<Longrightarrow> transfer ins b = ins b" and b: "b \<in> reach"
  shows "ins b = mop b"
proof -
  have "on_path step start E G b D \<Longrightarrow> ins b \<subseteq> D" for b D
  proof (induction rule: on_path.induct)
    case on_path_start
    then show ?case using ins by (simp add: above_def)
  next
    case (on_path_step b D c)
    have c: "b \<in> reach" "c \<in> reach"
      using on_path_reachable [OF on_path_step.hyps(1)] on_path_step.hyps(2) by (auto simp: reach_def)
    show ?case
    proof (cases "c = start")
      case True
      then show ?thesis using ins on_path_start_le [OF on_path_step.hyps(1)] by (auto simp: above_def)
    next
      case False
      then have "ins c \<subseteq> ins b \<union> G b"
        using fixed [OF c(2)] c(1) on_path_step.hyps(2) by (auto simp: transfer_def)
      then show ?thesis using on_path_step.IH by auto
    qed
  qed
  moreover have "ins b \<subseteq> U" "mop b \<subseteq> ins b" using ins b by (auto simp: above_def)
  ultimately show ?thesis by (auto simp: mop_def)
qed

lemma mop_complete: "b \<in> reach \<Longrightarrow> l \<in> U \<Longrightarrow> l \<notin> mop b \<Longrightarrow> \<exists>D. on_path step start E G b D \<and> l \<notin> D"
  by (auto simp: mop_def)

end

end
