(* ===== verification/Ir_Verify.thy ===== *)
theory Ir_Verify
  imports Ir_Visit Lower_Coroutine Bit_Set Must_Flow
begin

text \<open>
  The control-flow part of the testbench IR verifier (\<^verbatim>\<open>src/ir/verify.rs\<close>): successors and implicit returns
  resolve, every block is reachable, no block is an empty \<^verbatim>\<open>Fatal\<close> block, port snapshots have one definition,
  and every local is defined on all paths before it is read.

  The checks share a list of errors that only grows.  \<^const>\<open>None\<close> is a panic (an index out of range) or a loop that
  does not end.
\<close>

section \<open>Errors\<close>

datatype TbVerifyError =
    BadEntry FunctionId BlockId
  | UnreachableBlock FunctionId BlockId
  | BadLocal FunctionId BlockId LocalId
  | LocalUseBeforeDef FunctionId BlockId LocalId
  | BadSuccessor FunctionId BlockId BlockId
  | EmptyBlock FunctionId BlockId
  | BadCovgroup FunctionId BlockId CovgroupId
  | BadConcurrentCheck FunctionId BlockId string
  | TypeMismatch FunctionId BlockId LocalId IrType IrType
  | BadFormatArg FunctionId BlockId IrType
  | BadWidthCast FunctionId BlockId nat "nat option"
  | BadRecord FunctionId BlockId RecordId
  | BadRecordField FunctionId BlockId LocalId string
  | BadTbField FunctionId BlockId string
  | PortInDisallowedPosition FunctionId BlockId string
  | BadProbeAccess FunctionId BlockId string PortAccess
  | BadProbeRef FunctionId BlockId string
  | BadTransactorCall FunctionId BlockId string
  | BadScoreboard FunctionId BlockId string
  | BadProgramRef string
  | DanglingConstraintRef FunctionId BlockId string

section \<open>Successors, returns and reachability\<close>

definition block_successors :: "TbFunction \<Rightarrow> BlockId \<Rightarrow> BlockId list" where
  "block_successors func b = successors (terminator (blocks func ! b))"

fun is_return :: "Terminator \<Rightarrow> bool" where
  "is_return Return = True"
| "is_return _ = False"

fun is_fatal :: "Terminator \<Rightarrow> bool" where
  "is_fatal (Terminator.Fatal _) = True"
| "is_fatal _ = False"

definition verify_successors :: "TbFunction \<Rightarrow> TbVerifyError list" where
  "verify_successors func =
     concat (map (\<lambda>(bi, b). map (BadSuccessor (fn_id func) bi)
         (filter (\<lambda>s. s \<ge> length (blocks func)) (successors (terminator b))))
       (enumerate 0 (blocks func)))"

fun verify_implicit_returns :: "TbFunction \<Rightarrow> BlockId list \<Rightarrow> BlockId set \<Rightarrow> TbVerifyError list" where
  "verify_implicit_returns func [] seen = []"
| "verify_implicit_returns func (block # rest) seen =
     (let valid = (case TbFunction_block func block of None \<Rightarrow> False | Some basic \<Rightarrow> is_return (terminator basic));
          seen' = (if valid then insert block seen else seen)
      in (if \<not> valid \<or> block \<in> seen
          then [BadProgramRef (''fn'' @ show_nat (fn_id func) @ '' implicit return b'' @ show_nat block @
                 '' must name one distinct Return block'')]
          else []) @ verify_implicit_returns func rest seen')"

text \<open>The work list is a stack: \<^verbatim>\<open>pop\<close> and \<^verbatim>\<open>extend\<close> work at its end.\<close>

function reach_loop :: "TbFunction \<Rightarrow> BlockId list \<Rightarrow> bool list \<Rightarrow> bool list option" where
  "reach_loop func work reachable =
     (if work = [] then Some reachable
      else let b = last work; work = butlast work in
        if b \<ge> length reachable then None
        else if reachable ! b then reach_loop func work reachable
        else case TbFunction_block func b of
            None \<Rightarrow> None
          | Some blk \<Rightarrow> reach_loop func (work @ successors (terminator blk)) (reachable[b := True]))"
  by pat_completeness auto

lemma count_unset_update:
  assumes "b < length xs" "\<not> xs ! b" shows "length (filter (\<lambda>r. \<not> r) (xs[b := True])) < length (filter (\<lambda>r. \<not> r) xs)"
  using assms by (induction xs arbitrary: b) (auto simp: nth_Cons split: nat.splits)

termination reach_loop
  by (relation "measures [\<lambda>(func, work, reachable). length (filter (\<lambda>r. \<not> r) reachable), \<lambda>(func, work, reachable). length work]")
    (auto simp: count_unset_update)

declare reach_loop.simps [simp del]

definition verify_reachable :: "TbFunction \<Rightarrow> bool list \<Rightarrow> TbVerifyError list" where
  "verify_reachable func reachable =
     map (UnreachableBlock (fn_id func)) (map fst (filter (\<lambda>(bi, r). \<not> r) (enumerate 0 reachable)))"

definition verify_empty_blocks :: "TbFunction \<Rightarrow> TbVerifyError list" where
  "verify_empty_blocks func =
     map (EmptyBlock (fn_id func))
       (map fst (filter (\<lambda>(bi, b). stmts b = [] \<and> is_fatal (terminator b)) (enumerate 0 (blocks func))))"

fun defines_snapshot :: "LocalId \<Rightarrow> Stmt \<Rightarrow> bool" where
  "defines_snapshot snapshot (DutRead dest _) = (dest = snapshot)"
| "defines_snapshot snapshot (Assign dest _) = (dest = snapshot)"
| "defines_snapshot snapshot _ = False"

definition check_port_snapshot_definitions :: "TbFunction \<Rightarrow> FunctionId \<Rightarrow> TbVerifyError list" where
  "check_port_snapshot_definitions func fid =
     concat (map (\<lambda>(index, l).
       if local_ty l \<noteq> PortSnapshot then []
       else let definitions = length (filter (defines_snapshot index) (concat (map stmts (blocks func)))) in
         if definitions \<noteq> 1
         then [BadProgramRef (''fn'' @ show_nat fid @ '' ordered snapshot l'' @ show_nat index @
                '' must have exactly one Assign/DutRead definition (found '' @ show_nat definitions @ '')'')]
         else [])
       (enumerate 0 (locals func)))"

section \<open>Definite assignment\<close>

declare walk_expr_fold [code]

text \<open>The local an expression node itself names; \<^verbatim>\<open>for_each_local\<close> calls its argument on these.\<close>

fun node_local :: "Expr \<Rightarrow> LocalId option" where
  "node_local (Expr.Local l) = Some l"
| "node_local (SeqLen l) = Some l"
| "node_local (RecordField l _ _ _ _) = Some l"
| "node_local (RegRead mirror _ _ _ _) = Some mirror"
| "node_local (PortSnapshotLane snapshot _ _) = Some snapshot"
| "node_local (SeqIndex seq _ _) = Some seq"
| "node_local (ComponentValue (ComponentBase.Local l)) = Some l"
| "node_local (ComponentValue (LocalPath l _)) = Some l"
| "node_local (ComponentIdle (ComponentBase.Local l) _ _ _) = Some l"
| "node_local _ = None"

definition for_each_local :: "Expr \<Rightarrow> (LocalId \<Rightarrow> 's \<Rightarrow> 's) \<Rightarrow> 's \<Rightarrow> 's" where
  "for_each_local e f s =
     walk_expr e (\<lambda>expr s. case node_local expr of None \<Rightarrow> s | Some l \<Rightarrow> f l s) s"

text \<open>What the walk over one block captures: the number of locals, the function and the block.\<close>

record use_context =
  nlocals :: nat
  uc_func :: FunctionId
  uc_block :: BlockId

text \<open>\<^verbatim>\<open>if local.index() < nlocals && !bit_get(&defined, local.index()) { errs.push(...) }\<close>\<close>

definition use_local :: "use_context \<Rightarrow> u64 list \<Rightarrow> LocalId \<Rightarrow> TbVerifyError list \<Rightarrow> TbVerifyError list" where
  "use_local ctx defs l errs =
     (if l < nlocals ctx \<and> \<not> bit_get defs l
      then errs @ [LocalUseBeforeDef (uc_func ctx) (uc_block ctx) l] else errs)"

definition check_e :: "use_context \<Rightarrow> u64 list \<Rightarrow> Expr \<Rightarrow> TbVerifyError list \<Rightarrow> TbVerifyError list" where
  "check_e ctx defs e errs = for_each_local e (use_local ctx defs) errs"

definition check_es :: "use_context \<Rightarrow> u64 list \<Rightarrow> Expr list \<Rightarrow> TbVerifyError list \<Rightarrow> TbVerifyError list" where
  "check_es ctx defs es errs = fold (check_e ctx defs) es errs"

definition check_opt :: "use_context \<Rightarrow> u64 list \<Rightarrow> Expr option \<Rightarrow> TbVerifyError list \<Rightarrow> TbVerifyError list" where
  "check_opt ctx defs e errs = (case e of None \<Rightarrow> errs | Some e \<Rightarrow> check_e ctx defs e errs)"

definition check_fmt :: "use_context \<Rightarrow> u64 list \<Rightarrow> FmtArgs \<Rightarrow> TbVerifyError list \<Rightarrow> TbVerifyError list" where
  "check_fmt ctx defs args errs = fold (\<lambda>a. check_e ctx defs (fa_expr a)) (fmt_args args) errs"

definition set_opt :: "LocalId option \<Rightarrow> u64 list \<Rightarrow> u64 list" where
  "set_opt dest defs = (case dest of None \<Rightarrow> defs | Some l \<Rightarrow> bit_set defs l)"

fun use_base :: "use_context \<Rightarrow> u64 list \<Rightarrow> ComponentBase \<Rightarrow> TbVerifyError list \<Rightarrow> TbVerifyError list" where
  "use_base ctx defs (ComponentBase.Local l) errs = use_local ctx defs l errs"
| "use_base ctx defs (LocalPath l _) errs = use_local ctx defs l errs"
| "use_base ctx defs _ errs = errs"

definition check_property ::
  "use_context \<Rightarrow> u64 list \<Rightarrow> PropertyCheckSchema \<Rightarrow> TbVerifyError list \<Rightarrow> TbVerifyError list"
where
  "check_property ctx defs schema errs =
     (let errs = (case pc_shape schema of
            Implies ante cons \<Rightarrow> check_e ctx defs cons (check_e ctx defs ante errs)
          | ImpliesNext ante cons \<Rightarrow> check_e ctx defs cons (check_e ctx defs ante errs)
          | Invariant expr \<Rightarrow> check_e ctx defs expr errs);
          errs = fold (\<lambda>temporal. check_e ctx defs (slot_inner temporal)) (pc_temporals schema) errs
      in case pc_message schema of None \<Rightarrow> errs | Some message \<Rightarrow> check_fmt ctx defs message errs)"

definition get :: "'a list \<Rightarrow> nat \<Rightarrow> 'a option" where
  "get xs i = (if i < length xs then Some (xs ! i) else None)"

fun check_stmt ::
  "'s TbProgram \<Rightarrow> use_context \<Rightarrow> Stmt \<Rightarrow> u64 list \<times> TbVerifyError list \<Rightarrow> u64 list \<times> TbVerifyError list"
where
  "check_stmt prog ctx (HelperCall call) (defs, errs) = (defs, check_e ctx defs call errs)"
| "check_stmt prog ctx (Assign l e) (defs, errs) = (bit_set defs l, check_e ctx defs e errs)"
| "check_stmt prog ctx (DutRead l port) (defs, errs) =
     (bit_set defs l, visit_port_lane_expr port (check_e ctx defs) errs)"
| "check_stmt prog ctx (RecordInit l _) (defs, errs) = (bit_set defs l, errs)"
| "check_stmt prog ctx (AggregateInit l) (defs, errs) = (bit_set defs l, errs)"
| "check_stmt prog ctx (ComponentInit l _ _) (defs, errs) = (bit_set defs l, errs)"
| "check_stmt prog ctx (RecordRead dest local _ addr) (defs, errs) =
     (bit_set defs dest, check_e ctx defs addr (use_local ctx defs local errs))"
| "check_stmt prog ctx (RecordWrite local _ _ addr val) (defs, errs) =
     (defs, check_e ctx defs val (check_e ctx defs addr (use_local ctx defs local errs)))"
| "check_stmt prog ctx (RecordFieldWrite local _ _ _ _ val) (defs, errs) =
     (defs, check_e ctx defs val (use_local ctx defs local errs))"
| "check_stmt prog ctx (RecordWriteCb local _ _ _ val _ _) (defs, errs) =
     (defs, check_e ctx defs val (use_local ctx defs local errs))"
| "check_stmt prog ctx (TbFieldWrite _ val) (defs, errs) = (defs, check_e ctx defs val errs)"
| "check_stmt prog ctx (TbQueuePush _ val) (defs, errs) = (defs, check_e ctx defs val errs)"
| "check_stmt prog ctx (TbQueuePop _ dest) (defs, errs) = (bit_set defs dest, errs)"
| "check_stmt prog ctx (TransactorStateWrite _ _ val) (defs, errs) = (defs, check_e ctx defs val errs)"
| "check_stmt prog ctx (TransactorStateRecordFieldWrite _ _ _ mid_indices index val) (defs, errs) =
     (defs, check_e ctx defs val (check_opt ctx defs index (check_es ctx defs (map snd mid_indices) errs)))"
| "check_stmt prog ctx (TransactorStateQueuePush _ _ val) (defs, errs) = (defs, check_e ctx defs val errs)"
| "check_stmt prog ctx (TransactorStateQueuePop _ _ dest) (defs, errs) = (bit_set defs dest, errs)"
| "check_stmt prog ctx (DutWrite port e) (defs, errs) =
     (defs, check_e ctx defs e (visit_port_lane_expr port (check_e ctx defs) errs))"
| "check_stmt prog ctx (TransactorCall dest call) (defs, errs) =
     (set_opt dest defs, check_e ctx defs call errs)"
| "check_stmt prog ctx (TransactorSelfCall dest call) (defs, errs) =
     (set_opt dest defs, check_e ctx defs call errs)"
| "check_stmt prog ctx (Log _ args _) (defs, errs) = (defs, check_fmt ctx defs args errs)"
| "check_stmt prog ctx (AssertCheck c on_fail) (defs, errs) =
     (defs, check_fmt ctx defs on_fail (check_e ctx defs c errs))"
| "check_stmt prog ctx (AssumeCheck c on_fail) (defs, errs) =
     (defs, check_fmt ctx defs on_fail (check_e ctx defs c errs))"
| "check_stmt prog ctx (CovReport _) (defs, errs) = (defs, errs)"
| "check_stmt prog ctx (PropertyCheck i) (defs, errs) =
     (defs, case get (property_checks prog) i of None \<Rightarrow> errs | Some schema \<Rightarrow> check_property ctx defs schema errs)"
| "check_stmt prog ctx (CoverCheck i) (defs, errs) =
     (defs, case get (cover_checks prog) i of
         None \<Rightarrow> errs
       | Some schema \<Rightarrow>
           fold (\<lambda>temporal. check_e ctx defs (slot_inner temporal)) (cc_temporals schema)
             (check_e ctx defs (cc_cond schema) errs))"
| "check_stmt prog ctx (CycleHandler i) (defs, errs) =
     (defs, case get (cycle_handlers prog) i of
         None \<Rightarrow> errs
       | Some schema \<Rightarrow>
           (case ch_kind schema of
              CTrigger e _ \<Rightarrow> check_e ctx defs e errs
            | Periodic period \<Rightarrow> check_e ctx defs period errs))"
| "check_stmt prog ctx (EventSubscribe _ _ _) (defs, errs) = (defs, errs)"
| "check_stmt prog ctx (MethodHookSubscribe _ _ _ _ captures) (defs, errs) =
     (defs, fold (use_local ctx defs) captures errs)"
| "check_stmt prog ctx (EventEmit _ args) (defs, errs) = (defs, check_es ctx defs args errs)"
| "check_stmt prog ctx (ProbeRelease port) (defs, errs) =
     (defs, visit_port_lane_expr port (check_e ctx defs) errs)"
| "check_stmt prog ctx (FailDiag g args) (defs, errs) =
     (defs, check_fmt ctx defs args (check_opt ctx defs g errs))"
| "check_stmt prog ctx (Stmt.ScoreboardOp _ _ op _) (defs, errs) =
     (case op of
        QueuePush _ val \<Rightarrow> (defs, check_e ctx defs val errs)
      | ScalarWrite _ val \<Rightarrow> (defs, check_e ctx defs val errs)
      | QueuePop _ dest \<Rightarrow> (bit_set defs dest, errs))"
| "check_stmt prog ctx (ComponentFieldWrite _ _ val) (defs, errs) = (defs, check_e ctx defs val errs)"
| "check_stmt prog ctx (ComponentVecElementWrite _ _ _ index inner_index val) (defs, errs) =
     (defs, check_e ctx defs val (check_opt ctx defs inner_index (check_e ctx defs index errs)))"
| "check_stmt prog ctx (TbFieldVecElementWrite _ index inner_index val) (defs, errs) =
     (defs, check_e ctx defs val (check_opt ctx defs inner_index (check_e ctx defs index errs)))"
| "check_stmt prog ctx (LocalVecElementWrite local index inner_index val) (defs, errs) =
     (defs, check_e ctx defs val (check_opt ctx defs inner_index
       (check_e ctx defs index (use_local ctx defs local errs))))"
| "check_stmt prog ctx (ComponentEmit _ _ _ args) (defs, errs) = (defs, check_es ctx defs args errs)"
| "check_stmt prog ctx (ComponentCall base _ _ _ args dest) (defs, errs) =
     (set_opt dest defs, check_es ctx defs args (use_base ctx defs base errs))"
| "check_stmt prog ctx (TestbenchCall _ args _ dest) (defs, errs) =
     (set_opt dest defs, check_es ctx defs args errs)"
| "check_stmt prog ctx (SeqPush seq val) (defs, errs) =
     (defs, check_e ctx defs val (use_local ctx defs seq errs))"
| "check_stmt prog ctx (ComponentQueuePush _ _ val) (defs, errs) = (defs, check_e ctx defs val errs)"
| "check_stmt prog ctx (ComponentQueuePop _ _ dest) (defs, errs) = (bit_set defs dest, errs)"
| "check_stmt prog ctx (ComponentSubAssign dst _ src) (defs, errs) =
     (defs, use_base ctx defs src (use_base ctx defs dst errs))"
| "check_stmt prog ctx (ComponentAssign dst src) (defs, errs) =
     (defs, use_base ctx defs src (use_base ctx defs dst errs))"
| "check_stmt prog ctx (TlmFork desc) (defs, errs) =
     (set_opt (tlm_dest desc) defs, check_es ctx defs (tlm_args desc) errs)"
| "check_stmt prog ctx (TlmJoinAll pending) (defs, errs) =
     (fold (\<lambda>p. set_opt (tlm_dest p)) pending defs, errs)"
| "check_stmt prog ctx ErrorIncrement (defs, errs) = (defs, errs)"

text \<open>The set after a terminator is dropped with the block.\<close>

fun check_terminator ::
  "use_context \<Rightarrow> Terminator \<Rightarrow> u64 list \<times> TbVerifyError list \<Rightarrow> u64 list \<times> TbVerifyError list"
where
  "check_terminator ctx (Branch c _ _) (defs, errs) = (defs, check_e ctx defs c errs)"
| "check_terminator ctx (WaitCycles e _ _) (defs, errs) = (defs, check_e ctx defs e errs)"
| "check_terminator ctx (WaitCyclesSync e _) (defs, errs) = (defs, check_e ctx defs e errs)"
| "check_terminator ctx (WaitTimePs _ _) (defs, errs) = (defs, errs)"
| "check_terminator ctx (WaitUntil preds _ _) (defs, errs) =
     (defs, fold (\<lambda>p. check_e ctx defs (pred_expr p)) preds errs)"
| "check_terminator ctx (WaitUntilTimeout preds _ cycles _ _) (defs, errs) =
     (defs, check_e ctx defs cycles (fold (\<lambda>p. check_e ctx defs (pred_expr p)) preds errs))"
| "check_terminator ctx (Terminator.Fatal args) (defs, errs) = (defs, check_fmt ctx defs args errs)"
| "check_terminator ctx (Randomize target _ _) (defs, errs) = (bit_set defs target, errs)"
| "check_terminator ctx (TbLifecycleCall _ _) (defs, errs) = (defs, errs)"
| "check_terminator ctx (Jump _) (defs, errs) = (defs, errs)"
| "check_terminator ctx Return (defs, errs) = (defs, errs)"

text \<open>The locals a statement defines at its block's end, as the transfer function of the block counts them.\<close>

fun gen_local :: "Stmt \<Rightarrow> LocalId option" where
  "gen_local (Assign l _) = Some l"
| "gen_local (DutRead l _) = Some l"
| "gen_local (RecordInit l _) = Some l"
| "gen_local (AggregateInit l) = Some l"
| "gen_local (ComponentInit l _ _) = Some l"
| "gen_local (RecordRead dest _ _ _) = Some dest"
| "gen_local (TransactorCall dest _) = dest"
| "gen_local (TransactorSelfCall dest _) = dest"
| "gen_local (Stmt.ScoreboardOp _ _ op _) = (case op of QueuePop _ dest \<Rightarrow> Some dest | _ \<Rightarrow> None)"
| "gen_local (ComponentCall _ _ _ _ _ dest) = dest"
| "gen_local (TestbenchCall _ _ _ dest) = dest"
| "gen_local (ComponentQueuePop _ _ dest) = Some dest"
| "gen_local (TransactorStateQueuePop _ _ dest) = Some dest"
| "gen_local (TbQueuePop _ dest) = Some dest"
| "gen_local _ = None"

definition block_gens :: "nat \<Rightarrow> BasicBlock \<Rightarrow> u64 list" where
  "block_gens n b = fold (\<lambda>s. set_opt (gen_local s)) (stmts b) (zero_bits n)"

fun is_sequence :: "IrType \<Rightarrow> bool" where
  "is_sequence (RecordSeq _) = True"
| "is_sequence (Seq _) = True"
| "is_sequence _ = False"

definition entry_defined :: "TbFunction \<Rightarrow> u64 list" where
  "entry_defined func =
     (let n = length (locals func);
          bits = fold (\<lambda>i bits. bit_set bits i) [0..<min (length (params func)) n] (zero_bits n)
      in fold (\<lambda>(i, l) bits. if is_sequence (local_ty l) then bit_set bits i else bits)
           (enumerate 0 (locals func)) bits)"

text \<open>\<^verbatim>\<open>preds[s.index()].push(bi)\<close> for the successors of every block.\<close>

fun add_preds :: "nat \<Rightarrow> BlockId list \<Rightarrow> nat list list \<Rightarrow> nat list list option" where
  "add_preds bi [] preds = Some preds"
| "add_preds bi (s # ss) preds =
     (if s < length preds then add_preds bi ss (preds[s := preds ! s @ [bi]]) else None)"

fun collect_preds :: "(nat \<times> BasicBlock) list \<Rightarrow> nat list list \<Rightarrow> nat list list option" where
  "collect_preds [] preds = Some preds"
| "collect_preds ((bi, b) # bs) preds =
     Option.bind (add_preds bi (successors (terminator b)) preds) (collect_preds bs)"

text \<open>The data the iteration reads: it is fixed before the loop.\<close>

record flow_data =
  fd_nlocals :: nat
  fd_entry :: BlockId
  fd_entry_in :: "u64 list"
  fd_reachable :: "bool list"
  fd_preds :: "nat list list"
  fd_gens :: "u64 list list"

definition new_in :: "flow_data \<Rightarrow> u64 list list \<Rightarrow> nat \<Rightarrow> u64 list" where
  "new_in d ins bi =
     (if bi = fd_entry d then fd_entry_in d
      else let ps = filter (\<lambda>p. fd_reachable d ! p) (fd_preds d ! bi) in
        if ps = [] then zero_bits (fd_nlocals d)
        else fold (\<lambda>p acc. bit_and_assign acc (bit_or_assign (ins ! p) (fd_gens d ! p))) ps
               (full_bits (fd_nlocals d)))"

definition sweep_block :: "flow_data \<Rightarrow> nat \<Rightarrow> u64 list list \<times> bool \<Rightarrow> u64 list list \<times> bool" where
  "sweep_block d bi st =
     (case st of (ins, changed) \<Rightarrow>
       if \<not> fd_reachable d ! bi then (ins, changed)
       else let new = new_in d ins bi in
         if new \<noteq> ins ! bi then (ins[bi := new], True) else (ins, changed))"

definition sweep :: "flow_data \<Rightarrow> u64 list list \<Rightarrow> u64 list list \<times> bool" where
  "sweep d ins = fold (sweep_block d) [0..<length ins] (ins, False)"

partial_function (option) fixpoint :: "flow_data \<Rightarrow> u64 list list \<Rightarrow> u64 list list option" where
  "fixpoint d ins = (case sweep d ins of (ins', changed) \<Rightarrow> if changed then fixpoint d ins' else Some ins')"

lemma fixpoint_code [code]:
  "fixpoint d ins = (if snd (sweep d ins) then fixpoint d (fst (sweep d ins)) else Some (fst (sweep d ins)))"
  by (subst fixpoint.simps) (simp split: prod.split)

definition check_block_uses ::
  "'s TbProgram \<Rightarrow> use_context \<Rightarrow> BasicBlock \<Rightarrow> u64 list \<Rightarrow> TbVerifyError list \<Rightarrow> TbVerifyError list"
where
  "check_block_uses prog ctx b defs errs =
     snd (check_terminator ctx (terminator b) (fold (check_stmt prog ctx) (stmts b) (defs, errs)))"

text \<open>
  A \<^verbatim>\<open>reachable\<close> vector shorter than the blocks panics in the first round of the loop; the sets of locals all
  have the same number of words.
\<close>

definition check_def_before_use ::
  "'s TbProgram \<Rightarrow> TbFunction \<Rightarrow> FunctionId \<Rightarrow> bool list \<Rightarrow> TbVerifyError list \<Rightarrow> TbVerifyError list option"
where
  "check_def_before_use prog func fid reachable errs =
     (let n = length (locals func); nblocks = length (blocks func) in
      if nblocks = 0 then Some errs
      else do {
        ins \<leftarrow> set_at (replicate nblocks (full_bits n)) (entry func) (entry_defined func);
        preds \<leftarrow> collect_preds (enumerate 0 (blocks func)) (replicate nblocks []);
        if length reachable < nblocks then None
        else do {
          ins \<leftarrow> fixpoint \<lparr>fd_nlocals = n, fd_entry = entry func, fd_entry_in = entry_defined func,
                    fd_reachable = reachable, fd_preds = preds,
                    fd_gens = map (block_gens n) (blocks func)\<rparr> ins;
          Some (fold (\<lambda>(bi, b) errs.
              if \<not> reachable ! bi then errs
              else check_block_uses prog \<lparr>nlocals = n, uc_func = fid, uc_block = bi\<rparr> b (ins ! bi) errs)
            (enumerate 0 (blocks func)) errs)
        }
      })"

definition verify_entry :: "TbFunction \<Rightarrow> TbVerifyError list" where
  "verify_entry func = (if entry func \<ge> length (blocks func) then [BadEntry (fn_id func) (entry func)] else [])"

text \<open>
  The checks of \<^verbatim>\<open>verify_function\<close> that concern control flow and definitions, with its early returns.  The
  checks of types and references between them (among them \<^verbatim>\<open>Checker::check_block\<close>, run on every block) are left out: they only add errors of
  other kinds.
\<close>

definition verify_control_flow :: "'s TbProgram \<Rightarrow> TbFunction \<Rightarrow> TbVerifyError list option" where
  "verify_control_flow prog func =
     (let nblocks = length (blocks func); errs = verify_entry func in
      if errs \<noteq> [] then Some errs
      else let errs = verify_successors func in
        if errs \<noteq> [] then Some errs
        else let errs = verify_implicit_returns func (implicit_returns func) {} in
          if errs \<noteq> [] then Some errs
          else do {
            reachable \<leftarrow> reach_loop func [entry func] (replicate nblocks False);
            check_def_before_use prog func (fn_id func) reachable
              (verify_reachable func reachable @ verify_empty_blocks func @
               check_port_snapshot_definitions func (fn_id func))
          })"

section \<open>Reachability\<close>

definition cfg_step :: "TbFunction \<Rightarrow> BlockId \<Rightarrow> BlockId \<Rightarrow> bool" where
  "cfg_step f b c \<longleftrightarrow> b < length (blocks f) \<and> c \<in> set (block_successors f b)"

lemma cfg_step_range: "blocks_in_range f \<Longrightarrow> cfg_step f b c \<Longrightarrow> b < length (blocks f) \<and> c < length (blocks f)"
  by (auto simp: blocks_in_range_def cfg_step_def block_successors_def)

lemma cfg_reach_range:
  assumes "blocks_in_range f" "(cfg_step f)\<^sup>*\<^sup>* (entry f) b" shows "b < length (blocks f)"
  using assms(2)
proof (induction rule: rtranclp_induct)
  case base
  show ?case using assms(1) by (simp add: blocks_in_range_def)
qed (simp add: cfg_step_range [OF assms(1)])

lemma reach_loop_steps:
  "reach_loop f [] r = Some r"
  "b < length r \<Longrightarrow> r ! b \<Longrightarrow> reach_loop f (work @ [b]) r = reach_loop f work r"
  "b < length r \<Longrightarrow> \<not> r ! b \<Longrightarrow> b < length (blocks f) \<Longrightarrow>
     reach_loop f (work @ [b]) r = reach_loop f (work @ block_successors f b) (r[b := True])"
  by (simp_all add: reach_loop.simps [of f "[]"] reach_loop.simps [of f "work @ [b]"] TbFunction_block_def
      block_successors_def)

lemma reach_loop_correct:
  "blocks_in_range f \<Longrightarrow> length r = length (blocks f) \<Longrightarrow> (\<forall>w \<in> set work. w < length (blocks f) \<and> (cfg_step f)\<^sup>*\<^sup>* s w) \<Longrightarrow>
    (\<forall>b < length r. r ! b \<longrightarrow> (cfg_step f)\<^sup>*\<^sup>* s b \<and> (\<forall>c. cfg_step f b c \<longrightarrow> r ! c \<or> c \<in> set work)) \<Longrightarrow>
    s < length r \<Longrightarrow> s \<in> set work \<or> r ! s \<Longrightarrow>
    reach_loop f work r = Some (map (\<lambda>b. (cfg_step f)\<^sup>*\<^sup>* s b) [0..<length (blocks f)])"
proof (induction f work r rule: reach_loop.induct)
  case (1 f work r)
  note f = "1.prems"(1)
  show ?case
  proof (cases work rule: rev_cases)
    case Nil
    have "r ! b \<and> b < length r" if "(cfg_step f)\<^sup>*\<^sup>* s b" for b
      using that
    proof (induction rule: rtranclp_induct)
      case base
      show ?case using "1.prems"(5,6) Nil by simp
    next
      case (step b c)
      then show ?case using "1.prems"(2,4) Nil cfg_step_range [OF f step.hyps(2)] by auto
    qed
    then have "r ! b \<longleftrightarrow> (cfg_step f)\<^sup>*\<^sup>* s b" if "b < length r" for b using "1.prems"(4) that by blast
    then have "r = map (\<lambda>b. (cfg_step f)\<^sup>*\<^sup>* s b) [0..<length (blocks f)]"
      by (intro nth_equalityI) (simp_all add: "1.prems"(2))
    then show ?thesis by (simp add: Nil reach_loop_steps)
  next
    case (snoc rest b)
    have b: "b < length r" "b < length (blocks f)" "(cfg_step f)\<^sup>*\<^sup>* s b" using "1.prems"(2,3) snoc by auto
    have work: "work \<noteq> []" "last work = b" "butlast work = rest" by (simp_all add: snoc)
    have rest: "\<forall>w \<in> set rest. w < length (blocks f) \<and> (cfg_step f)\<^sup>*\<^sup>* s w" using "1.prems"(3) snoc by simp
    show ?thesis
    proof (cases "r ! b")
      case True
      have closed: "\<forall>b < length r. r ! b \<longrightarrow> (cfg_step f)\<^sup>*\<^sup>* s b \<and> (\<forall>c. cfg_step f b c \<longrightarrow> r ! c \<or> c \<in> set rest)"
        using "1.prems"(4) True by (auto simp: snoc)
      have "s \<in> set rest \<or> r ! s" using "1.prems"(6) True by (auto simp: snoc)
      with "1.IH"(1) [OF work(1) refl refl, unfolded work] b True "1.prems"(1,2,5) rest closed
      show ?thesis by (simp add: snoc reach_loop_steps)
    next
      case False
      let ?work = "rest @ block_successors f b" and ?r = "r[b := True]"
      have succ: "cfg_step f b c \<longleftrightarrow> c \<in> set (block_successors f b)" for c
        using b(2) by (simp add: cfg_step_def)
      have "\<forall>w \<in> set ?work. w < length (blocks f) \<and> (cfg_step f)\<^sup>*\<^sup>* s w"
        using rest b(3) succ cfg_step_range [OF f] by (auto intro: rtranclp.rtrancl_into_rtrancl)
      moreover have "\<forall>x < length ?r. ?r ! x \<longrightarrow> (cfg_step f)\<^sup>*\<^sup>* s x \<and>
          (\<forall>c. cfg_step f x c \<longrightarrow> ?r ! c \<or> c \<in> set ?work)"
        using "1.prems"(4) b by (auto simp: nth_list_update succ snoc)
      moreover have "s \<in> set ?work \<or> ?r ! s" using "1.prems"(5,6) b(1) by (cases "b = s") (auto simp: snoc)
      ultimately show ?thesis
        using "1.IH"(2) [OF work(1) refl refl, unfolded work, of "blocks f ! b"] b False "1.prems"(1,2,5)
        by (simp add: snoc reach_loop_steps TbFunction_block_def block_successors_def)
    qed
  qed
qed

lemma reach_from_entry:
  assumes "blocks_in_range f"
  shows "reach_loop f [entry f] (replicate (length (blocks f)) False) =
    Some (map (\<lambda>b. (cfg_step f)\<^sup>*\<^sup>* (entry f) b) [0..<length (blocks f)])"
  using assms by (intro reach_loop_correct) (simp_all add: blocks_in_range_def)

section \<open>The flow of definitions\<close>

text \<open>What is defined at the entry, and what a block adds, as sets of locals.\<close>

definition entry_defs :: "TbFunction \<Rightarrow> LocalId set" where
  "entry_defs f = {l. l < length (locals f) \<and> (l < length (params f) \<or> is_sequence (local_ty (locals f ! l)))}"

definition block_defs :: "TbFunction \<Rightarrow> BlockId \<Rightarrow> LocalId set" where
  "block_defs f b = {l. \<exists>s \<in> set (stmts (blocks f ! b)). gen_local s = Some l}"

lemma length_set_opt [simp]: "length (set_opt x bits) = length bits"
  by (simp add: set_opt_def split: option.split)

lemma fold_length: "(\<And>x y. length (g x y) = length y) \<Longrightarrow> length (fold g xs y) = length y"
  by (induction xs arbitrary: y) simp_all

lemma length_block_gens [simp]: "length (block_gens n b) = bit_words n"
  unfolding block_gens_def by (subst fold_length) simp_all

lemma length_entry_defined [simp]: "length (entry_defined f) = bit_words (length (locals f))"
  unfolding entry_defined_def Let_def by (subst fold_length; (subst fold_length)?) (auto split: if_splits)

lemma word_index: "i < n \<Longrightarrow> i div 64 < bit_words n"
  by (simp add: bit_words_def div_ceil_bounds(1))

lemma members_set_opt:
  assumes "length bits = bit_words n"
  shows "members (set_opt x bits) \<inter> {..<n} = (members bits \<union> set_option x) \<inter> {..<n}"
  using assms word_index by (cases x) (auto simp: set_opt_def members_bit_set)

lemma members_fold_set_opt:
  "length bits = bit_words n \<Longrightarrow>
     members (fold (\<lambda>s. set_opt (g s)) ss bits) \<inter> {..<n} = (members bits \<union> {l. \<exists>s \<in> set ss. g s = Some l}) \<inter> {..<n}"
proof (induction ss arbitrary: bits)
  case (Cons s ss)
  then show ?case using members_set_opt [OF Cons.prems, of "g s"] by (auto simp: elem_set)
qed simp

lemma members_block_gens: "members (block_gens n (blocks f ! b)) \<inter> {..<n} = block_defs f b \<inter> {..<n}"
  unfolding block_gens_def block_defs_def by (subst members_fold_set_opt) simp_all

lemma members_fold_bit_set:
  "(\<forall>i \<in> set xs. i < n) \<Longrightarrow> length bits = bit_words n \<Longrightarrow>
     members (fold (\<lambda>i bits. bit_set bits i) xs bits) = members bits \<union> set xs"
  by (induction xs arbitrary: bits) (auto simp: members_bit_set word_index)

lemma members_fold_bit_set_if:
  "(\<forall>(i, l) \<in> set xs. i < n) \<Longrightarrow> length bits = bit_words n \<Longrightarrow>
     members (fold (\<lambda>(i, l) bits. if P l then bit_set bits i else bits) xs bits) =
       members bits \<union> {i. \<exists>l. (i, l) \<in> set xs \<and> P l}"
proof (induction xs arbitrary: bits)
  case (Cons x xs)
  obtain i l where x: "x = (i, l)" by fastforce
  then have "members (if P l then bit_set bits i else bits) = members bits \<union> (if P l then {i} else {})"
    using Cons.prems by (auto simp: members_bit_set word_index)
  with Cons.IH [of "if P l then bit_set bits i else bits"] Cons.prems x show ?case by auto
qed simp

lemma members_entry_defined: "members (entry_defined f) = entry_defs f"
proof -
  let ?n = "length (locals f)"
  have "length (fold (\<lambda>i bits. bit_set bits i) xs (zero_bits ?n)) = bit_words ?n" for xs
    by (subst fold_length) simp_all
  then show ?thesis
    unfolding entry_defined_def Let_def
    by (subst members_fold_bit_set_if [where n = ?n])
      (auto simp: members_fold_bit_set [where n = ?n] entry_defs_def in_set_enumerate_eq)
qed

interpretation flow: must_flow "cfg_step f" "entry f" "entry_defs f" "block_defs f" "{..<length (locals f)}" for f
proof
  have "{b. (cfg_step f)\<^sup>*\<^sup>* (entry f) b} \<subseteq>
      insert (entry f) (\<Union>b \<in> set (blocks f). set (successors (terminator b)))"
  proof
    fix b assume "b \<in> {b. (cfg_step f)\<^sup>*\<^sup>* (entry f) b}"
    then have "(cfg_step f)\<^sup>*\<^sup>* (entry f) b" by simp
    then show "b \<in> insert (entry f) (\<Union>b \<in> set (blocks f). set (successors (terminator b)))"
      by (cases rule: rtranclp.cases) (auto simp: cfg_step_def block_successors_def)
  qed
  then show "finite {b. (cfg_step f)\<^sup>*\<^sup>* (entry f) b}" by (rule finite_subset) simp
qed (auto simp: entry_defs_def)

text \<open>The bit vectors of the iteration as a map from blocks to sets.\<close>

definition flow_sets :: "u64 list list \<Rightarrow> BlockId \<Rightarrow> LocalId set" where
  "flow_sets ins b = (if b < length ins then members (ins ! b) else {})"

definition flow_shape :: "TbFunction \<Rightarrow> u64 list list \<Rightarrow> bool" where
  "flow_shape f ins \<longleftrightarrow> length ins = length (blocks f) \<and> (\<forall>bits \<in> set ins. length bits = bit_words (length (locals f)))"

definition flow_input :: "TbFunction \<Rightarrow> flow_data \<Rightarrow> bool" where
  "flow_input f d \<longleftrightarrow>
     fd_nlocals d = length (locals f) \<and> fd_entry d = entry f \<and> fd_entry_in d = entry_defined f \<and>
     (\<forall>b < length (blocks f). fd_reachable d ! b \<longleftrightarrow> (cfg_step f)\<^sup>*\<^sup>* (entry f) b) \<and>
     (\<forall>b < length (blocks f). set (fd_preds d ! b) = {p. cfg_step f p b}) \<and>
     fd_gens d = map (block_gens (length (locals f))) (blocks f)"

lemma members_fold_and:
  "length acc = k \<Longrightarrow> (\<forall>p \<in> set ps. length (g p) = k) \<Longrightarrow>
     length (fold (\<lambda>p acc. bit_and_assign acc (g p)) ps acc) = k \<and>
     members (fold (\<lambda>p acc. bit_and_assign acc (g p)) ps acc) = members acc \<inter> (\<Inter>p \<in> set ps. members (g p))"
  by (induction ps arbitrary: acc) (auto simp: members_and)

lemma new_in_transfer:
  assumes f: "blocks_in_range f" and d: "flow_input f d" and ins: "flow_shape f ins"
    and b: "(cfg_step f)\<^sup>*\<^sup>* (entry f) b"
  shows "length (new_in d ins b) = bit_words (length (locals f)) \<and>
    members (new_in d ins b) = flow.transfer f (flow_sets ins) b"
proof (cases "b = entry f")
  case True
  then show ?thesis using d by (simp add: flow_input_def new_in_def flow.transfer_def members_entry_defined)
next
  case False
  let ?n = "length (locals f)" and ?nb = "length (blocks f)"
  let ?ps = "filter (\<lambda>p. fd_reachable d ! p) (fd_preds d ! b)"
  let ?out = "\<lambda>p. bit_or_assign (ins ! p) (fd_gens d ! p)"
  have range: "p < ?nb" if "cfg_step f p b" for p using that by (simp add: cfg_step_def)
  have ps: "set ?ps = {p. cfg_step f p b \<and> (cfg_step f)\<^sup>*\<^sup>* (entry f) p}"
    using d range cfg_reach_range [OF f b] by (auto simp: flow_input_def)
  have len: "length (ins ! p) = bit_words ?n" "length (fd_gens d ! p) = bit_words ?n" if "p < ?nb" for p
    using that ins d by (auto simp: flow_shape_def flow_input_def)
  have out: "members (?out p) \<inter> {..<?n} = (flow_sets ins p \<union> block_defs f p) \<inter> {..<?n}" if "p < ?nb" for p
    using that len [OF that] d ins members_block_gens [of ?n f p]
    by (auto simp: members_or flow_input_def flow_sets_def flow_shape_def)
  obtain p where "cfg_step f p b" "(cfg_step f)\<^sup>*\<^sup>* (entry f) p"
    using b False by (cases rule: rtranclp.cases) auto
  then have "p \<in> set ?ps" unfolding ps by simp
  then have "?ps \<noteq> []" by (metis empty_iff list.set(1))
  then have new: "new_in d ins b = fold (\<lambda>p acc. bit_and_assign acc (?out p)) ?ps (full_bits ?n)"
    using False d by (simp add: new_in_def flow_input_def)
  have "\<forall>p \<in> set ?ps. length (?out p) = bit_words ?n" using ps range len by simp
  from members_fold_and [OF _ this, of "full_bits ?n"]
  have "length (new_in d ins b) = bit_words ?n" "members (new_in d ins b) = {..<?n} \<inter> (\<Inter>p \<in> set ?ps. members (?out p))"
    unfolding new by simp_all
  moreover have "{..<?n} \<inter> (\<Inter>p \<in> set ?ps. members (?out p)) = flow.transfer f (flow_sets ins) b"
    unfolding ps flow.transfer_def flow.reach_def using False out range by auto
  ultimately show ?thesis by simp
qed

text \<open>The invariant of the iteration, and what one block and one sweep do to it.\<close>

definition flow_inv :: "TbFunction \<Rightarrow> u64 list list \<Rightarrow> bool" where
  "flow_inv f ins \<longleftrightarrow> flow_shape f ins \<and> flow.above f (flow_sets ins)"

definition flow_fixed :: "TbFunction \<Rightarrow> u64 list list \<Rightarrow> BlockId \<Rightarrow> bool" where
  "flow_fixed f ins b \<longleftrightarrow> ((cfg_step f)\<^sup>*\<^sup>* (entry f) b \<longrightarrow> flow.transfer f (flow_sets ins) b = flow_sets ins b)"

lemma flow_shape_update:
  "flow_shape f ins \<Longrightarrow> length bits = bit_words (length (locals f)) \<Longrightarrow> flow_shape f (ins[b := bits])"
  using set_update_subset_insert [of ins b bits] by (auto simp: flow_shape_def)

lemma flow_sets_update: "b < length ins \<Longrightarrow> flow_sets (ins[b := bits]) = (flow_sets ins)(b := members bits)"
  by (auto simp: flow_sets_def fun_eq_iff)

lemma sweep_block_step:
  assumes f: "blocks_in_range f" and d: "flow_input f d" and ins: "flow_inv f ins" and b: "b < length (blocks f)"
    and step: "sweep_block d b (ins, ch) = (ins', ch')"
  shows "flow_inv f ins' \<and>
    (ch' = ch \<and> ins' = ins \<and> flow_fixed f ins b \<or> ch' \<and> flow.weight f (flow_sets ins') < flow.weight f (flow_sets ins))"
proof (cases "fd_reachable d ! b")
  case False
  then have "(ins', ch') = (ins, ch)" using step by (simp add: sweep_block_def)
  then show ?thesis using ins False d b by (simp add: flow_fixed_def flow_input_def)
next
  case True
  have b': "(cfg_step f)\<^sup>*\<^sup>* (entry f) b" using True d b by (simp add: flow_input_def)
  have sh: "flow_shape f ins" "flow.above f (flow_sets ins)" "b < length ins" "length (ins ! b) = bit_words (length (locals f))"
    using ins b by (auto simp: flow_inv_def flow_shape_def)
  note new = new_in_transfer [OF f d sh(1) b']
  have eq: "new_in d ins b = ins ! b \<longleftrightarrow> flow.transfer f (flow_sets ins) b = flow_sets ins b"
    using new sh(3,4) members_inject [of "new_in d ins b" "ins ! b"] by (simp add: flow_sets_def)
  show ?thesis
  proof (cases "new_in d ins b = ins ! b")
    case same: True
    then have "(ins', ch') = (ins, ch)" using step True by (simp add: sweep_block_def)
    then show ?thesis using ins same eq by (simp add: flow_fixed_def)
  next
    case changed: False
    then have ins': "ins' = ins[b := new_in d ins b]" "ch'" using step True by (auto simp: sweep_block_def)
    have sets: "flow_sets ins' = (flow_sets ins)(b := flow.transfer f (flow_sets ins) b)"
      using new sh(3) by (simp add: ins' flow_sets_update)
    have reach: "b \<in> flow.reach f" using b' by (simp add: flow.reach_def)
    have "flow_inv f ins'"
      unfolding flow_inv_def sets using flow.above_update [OF sh(2) reach] flow_shape_update [OF sh(1)] new
      by (simp add: ins')
    moreover have "flow.weight f (flow_sets ins') < flow.weight f (flow_sets ins)"
      unfolding sets using flow.weight_update [OF sh(2) reach] changed eq by simp
    ultimately show ?thesis using ins'(2) by simp
  qed
qed

lemma sweep_blocks:
  assumes f: "blocks_in_range f" and d: "flow_input f d"
  shows "flow_inv f ins \<Longrightarrow> (\<forall>b \<in> set bs. b < length (blocks f)) \<Longrightarrow>
    fold (sweep_block d) bs (ins, ch) = (ins', ch') \<Longrightarrow>
    flow_inv f ins' \<and>
    (ch' = ch \<and> ins' = ins \<and> (\<forall>b \<in> set bs. flow_fixed f ins b) \<or>
     ch' \<and> flow.weight f (flow_sets ins') < flow.weight f (flow_sets ins))"
proof (induction bs arbitrary: ins ch)
  case (Cons b bs)
  obtain ins1 ch1 where one: "sweep_block d b (ins, ch) = (ins1, ch1)" by fastforce
  have b: "b < length (blocks f)" using Cons.prems(2) by simp
  note step = sweep_block_step [OF f d Cons.prems(1) b one]
  have "fold (sweep_block d) bs (ins1, ch1) = (ins', ch')" using Cons.prems(3) by (simp add: one)
  with Cons.IH [of ins1 ch1] step Cons.prems(2) show ?case by auto
qed simp

lemma fixpoint_returns:
  assumes f: "blocks_in_range f" and d: "flow_input f d"
  shows "flow_inv f ins \<Longrightarrow>
    \<exists>ins'. fixpoint d ins = Some ins' \<and> flow_inv f ins' \<and> (\<forall>b < length (blocks f). flow_fixed f ins' b)"
proof (induction "flow.weight f (flow_sets ins)" arbitrary: ins rule: less_induct)
  case less
  obtain ins1 ch where one: "sweep d ins = (ins1, ch)" by fastforce
  have len: "length ins = length (blocks f)" using less.prems by (simp add: flow_inv_def flow_shape_def)
  from one have "fold (sweep_block d) [0..<length (blocks f)] (ins, False) = (ins1, ch)"
    by (simp add: sweep_def len)
  from sweep_blocks [OF f d less.prems _ this]
  have inv: "flow_inv f ins1" and
    cases: "\<not> ch \<and> ins1 = ins \<and> (\<forall>b < length (blocks f). flow_fixed f ins b) \<or>
      ch \<and> flow.weight f (flow_sets ins1) < flow.weight f (flow_sets ins)" by auto
  have unfold: "fixpoint d ins = (if ch then fixpoint d ins1 else Some ins1)"
    by (subst fixpoint.simps) (simp add: one)
  show ?case
  proof (cases ch)
    case True
    then show ?thesis using less.hyps [OF _ inv] cases unfold by auto
  qed (use inv cases unfold in auto)
qed

lemma fixpoint_sets_mop:
  assumes f: "blocks_in_range f" and "flow_inv f ins" and "\<forall>b < length (blocks f). flow_fixed f ins b"
    and b: "(cfg_step f)\<^sup>*\<^sup>* (entry f) b"
  shows "flow_sets ins b = flow.mop f b"
proof (rule flow.fixpoint_mop)
  show "flow.above f (flow_sets ins)" using assms(2) by (simp add: flow_inv_def)
  show "flow.transfer f (flow_sets ins) c = flow_sets ins c" if "c \<in> flow.reach f" for c
    using that assms(3) cfg_reach_range [OF f] by (auto simp: flow.reach_def flow_fixed_def)
  show "b \<in> flow.reach f" using b by (simp add: flow.reach_def)
qed

lemma add_preds_val:
  "(\<forall>s \<in> set ss. s < length preds) \<Longrightarrow>
     \<exists>r. add_preds bi ss preds = Some r \<and> length r = length preds \<and>
       (\<forall>b < length preds. set (r ! b) = set (preds ! b) \<union> {p. p = bi \<and> b \<in> set ss})"
proof (induction ss arbitrary: preds)
  case (Cons s ss)
  from Cons.IH [of "preds[s := preds ! s @ [bi]]"] Cons.prems show ?case
    by (auto simp: nth_list_update)
qed simp

lemma collect_preds_val:
  "(\<forall>(bi, b) \<in> set bs. \<forall>s \<in> set (successors (terminator b)). s < length preds) \<Longrightarrow>
     \<exists>r. collect_preds bs preds = Some r \<and> length r = length preds \<and>
       (\<forall>b < length preds. set (r ! b) = set (preds ! b) \<union>
         {p. \<exists>blk. (p, blk) \<in> set bs \<and> b \<in> set (successors (terminator blk))})"
proof (induction bs arbitrary: preds)
  case (Cons x bs)
  obtain bi blk where x: "x = (bi, blk)" by fastforce
  from Cons.prems x add_preds_val [of "successors (terminator blk)" preds bi]
  obtain r1 where r1: "add_preds bi (successors (terminator blk)) preds = Some r1" "length r1 = length preds"
    "\<forall>b < length preds. set (r1 ! b) = set (preds ! b) \<union> {p. p = bi \<and> b \<in> set (successors (terminator blk))}" by auto
  from Cons.IH [of r1] Cons.prems r1(2) obtain r where r: "collect_preds bs r1 = Some r" "length r = length preds"
    "\<forall>b < length preds. set (r ! b) = set (r1 ! b) \<union>
         {p. \<exists>blk. (p, blk) \<in> set bs \<and> b \<in> set (successors (terminator blk))}" by auto
  have "set (r ! b) = set (preds ! b) \<union> {p. \<exists>blk. (p, blk) \<in> set (x # bs) \<and> b \<in> set (successors (terminator blk))}"
    if "b < length preds" for b using that r(3) r1(3) by (auto simp: x)
  then show ?case using r(1,2) r1(1) by (simp add: x)
qed simp

lemma collect_preds_steps:
  assumes "blocks_in_range f"
  shows "\<exists>r. collect_preds (enumerate 0 (blocks f)) (replicate (length (blocks f)) []) = Some r \<and>
    (\<forall>b < length (blocks f). set (r ! b) = {p. cfg_step f p b})"
proof -
  have "\<forall>(bi, b) \<in> set (enumerate 0 (blocks f)). \<forall>s \<in> set (successors (terminator b)).
      s < length (replicate (length (blocks f)) ([] :: nat list))"
    using assms by (auto simp: blocks_in_range_def in_set_enumerate_eq)
  from collect_preds_val [OF this] show ?thesis
    by (auto simp: cfg_step_def block_successors_def in_set_enumerate_eq)
qed

lemma flow_inv_init:
  assumes f: "blocks_in_range f"
  shows "flow_inv f ((replicate (length (blocks f)) (full_bits (length (locals f))))[entry f := entry_defined f])"
proof -
  let ?ins = "(replicate (length (blocks f)) (full_bits (length (locals f))))[entry f := entry_defined f]"
  have "flow_shape f ?ins" by (rule flow_shape_update) (simp_all add: flow_shape_def)
  moreover have "flow_sets ?ins b = (if b = entry f then entry_defs f else {..<length (locals f)})" if "b \<in> flow.reach f" for b
    using cfg_reach_range [OF f, of b] that f
    by (auto simp: flow_sets_def flow.reach_def members_entry_defined blocks_in_range_def)
  ultimately show ?thesis
    unfolding flow_inv_def using flow.above_cong [OF flow.above_init] by blast
qed

section \<open>What the check reads\<close>

definition expr_locals :: "Expr \<Rightarrow> LocalId list" where
  "expr_locals e = List.map_filter node_local (preorder e)"

fun base_locals :: "ComponentBase \<Rightarrow> LocalId list" where
  "base_locals (ComponentBase.Local l) = [l]"
| "base_locals (LocalPath l _) = [l]"
| "base_locals _ = []"

text \<open>The locals a statement names outside its expressions, apart from those it defines.\<close>

fun named_locals :: "Stmt \<Rightarrow> LocalId list" where
  "named_locals (RecordRead _ l _ _) = [l]"
| "named_locals (RecordWrite l _ _ _ _) = [l]"
| "named_locals (RecordFieldWrite l _ _ _ _ _) = [l]"
| "named_locals (RecordWriteCb l _ _ _ _ _ _) = [l]"
| "named_locals (LocalVecElementWrite l _ _ _) = [l]"
| "named_locals (SeqPush l _) = [l]"
| "named_locals (MethodHookSubscribe _ _ _ _ captures) = captures"
| "named_locals (ComponentCall base _ _ _ _ _) = base_locals base"
| "named_locals (ComponentSubAssign dst _ src) = base_locals dst @ base_locals src"
| "named_locals (ComponentAssign dst src) = base_locals dst @ base_locals src"
| "named_locals _ = []"

fun shape_exprs :: "PropertyShape \<Rightarrow> Expr list" where
  "shape_exprs (Implies a c) = [a, c]"
| "shape_exprs (ImpliesNext a c) = [a, c]"
| "shape_exprs (Invariant e) = [e]"

fun handler_exprs :: "CycleHandlerKind \<Rightarrow> Expr list" where
  "handler_exprs (CTrigger e _) = [e]"
| "handler_exprs (Periodic e) = [e]"

text \<open>
  The expressions a statement's reads are collected from: those the visitor of the statement visits, and for a
  registration those of the registered check.  The indices of a record field write and the arguments repeated
  at a join are left out.
\<close>

fun read_exprs :: "'s TbProgram \<Rightarrow> Stmt \<Rightarrow> Expr list" where
  "read_exprs prog (RecordFieldWrite _ _ _ _ _ val) = [val]"
| "read_exprs prog (TlmJoinAll _) = []"
| "read_exprs prog (PropertyCheck i) =
     (case get (property_checks prog) i of
        None \<Rightarrow> []
      | Some c \<Rightarrow> shape_exprs (pc_shape c) @ map slot_inner (pc_temporals c) @
          (case pc_message c of None \<Rightarrow> [] | Some m \<Rightarrow> fmt_exprs m))"
| "read_exprs prog (CoverCheck i) =
     (case get (cover_checks prog) i of None \<Rightarrow> [] | Some c \<Rightarrow> cc_cond c # map slot_inner (cc_temporals c))"
| "read_exprs prog (CycleHandler i) =
     (case get (cycle_handlers prog) i of None \<Rightarrow> [] | Some h \<Rightarrow> handler_exprs (ch_kind h))"
| "read_exprs prog s = stmt_exprs s"

definition stmt_reads :: "'s TbProgram \<Rightarrow> Stmt \<Rightarrow> LocalId list" where
  "stmt_reads prog s = named_locals s @ concat (map expr_locals (read_exprs prog s))"

fun stmt_defs :: "Stmt \<Rightarrow> LocalId list" where
  "stmt_defs (TlmFork desc) = (case tlm_dest desc of None \<Rightarrow> [] | Some l \<Rightarrow> [l])"
| "stmt_defs (TlmJoinAll pending) = List.map_filter tlm_dest pending"
| "stmt_defs s = (case gen_local s of None \<Rightarrow> [] | Some l \<Rightarrow> [l])"

definition terminator_reads :: "Terminator \<Rightarrow> LocalId list" where
  "terminator_reads t = concat (map expr_locals (terminator_exprs t))"

text \<open>The errors of reading some locals under one set of definitions.\<close>

definition use_locals :: "use_context \<Rightarrow> u64 list \<Rightarrow> LocalId list \<Rightarrow> TbVerifyError list \<Rightarrow> TbVerifyError list" where
  "use_locals ctx defs ls errs = fold (use_local ctx defs) ls errs"

lemma use_locals_simps [simp]:
  "use_locals ctx defs [] errs = errs"
  "use_locals ctx defs (l # ls) errs = use_locals ctx defs ls (use_local ctx defs l errs)"
  "use_locals ctx defs (ls @ ms) errs = use_locals ctx defs ms (use_locals ctx defs ls errs)"
  by (simp_all add: use_locals_def)

lemma use_locals_errs:
  "use_locals ctx defs ls errs =
     errs @ map (LocalUseBeforeDef (uc_func ctx) (uc_block ctx)) (filter (\<lambda>l. l < nlocals ctx \<and> \<not> bit_get defs l) ls)"
  by (induction ls arbitrary: errs) (simp_all add: use_local_def)

lemma fold_map_filter: "fold (\<lambda>x s. case g x of None \<Rightarrow> s | Some l \<Rightarrow> h l s) xs s = fold h (List.map_filter g xs) s"
  by (induction xs arbitrary: s) (simp_all add: map_filter_simps split: option.split)

lemma check_e_use: "check_e ctx defs e errs = use_locals ctx defs (expr_locals e) errs"
  by (simp add: check_e_def for_each_local_def walk_expr_fold fold_map_filter expr_locals_def use_locals_def)

lemma fold_check_e: "fold (\<lambda>x. check_e ctx defs (g x)) xs errs = use_locals ctx defs (concat (map (\<lambda>x. expr_locals (g x)) xs)) errs"
  by (induction xs arbitrary: errs) (simp_all add: check_e_use)

lemma visit_lane_use:
  "visit_port_lane_expr port (check_e ctx defs) errs =
     use_locals ctx defs (concat (map expr_locals (lane_exprs port))) errs"
  by (simp add: visit_port_lane_expr_def try_visit_port_lane_expr_def infallible_def visit_ok_def lane_exprs_def
      check_e_use split: option.split LaneIndex.split)

lemma use_base_use: "use_base ctx defs base errs = use_locals ctx defs (base_locals base) errs"
  by (cases base) simp_all

lemmas use_simps = check_e_use check_es_def check_opt_def check_fmt_def fold_check_e visit_lane_use use_base_use
  check_property_def fmt_exprs_def opt_expr_def fold_check_e [where g = "\<lambda>x. x"] comp_def

lemma fold_set_opt: "fold (\<lambda>p. set_opt (g p)) ps defs = fold (\<lambda>l bits. bit_set bits l) (List.map_filter g ps) defs"
  by (induction ps arbitrary: defs) (simp_all add: map_filter_simps set_opt_def split: option.split)

lemma check_stmt_reads:
  "check_stmt prog ctx s (defs, errs) =
     (fold (\<lambda>l bits. bit_set bits l) (stmt_defs s) defs, use_locals ctx defs (stmt_reads prog s) errs)"
proof (cases s)
  case (PropertyCheck i)
  then show ?thesis
    by (simp add: stmt_reads_def use_simps split: option.split PropertyShape.split)
next
  case (CycleHandler i)
  then show ?thesis by (simp add: stmt_reads_def use_simps split: option.split CycleHandlerKind.split)
next
  case (ScoreboardOp sb field op path)
  then show ?thesis by (simp add: stmt_reads_def use_simps split: ScoreboardOp.split)
qed (simp_all add: stmt_reads_def use_simps set_opt_def fold_set_opt use_locals_def [symmetric] split: option.split)

lemma check_terminator_reads:
  "snd (check_terminator ctx t (defs, errs)) = use_locals ctx defs (terminator_reads t) errs"
  by (cases t) (simp_all add: terminator_reads_def use_simps)

text \<open>The reads of a block that find their local undefined, in order, starting from the definitions \<open>D\<close>.\<close>

fun undefined_reads :: "'s TbProgram \<Rightarrow> LocalId set \<Rightarrow> Stmt list \<Rightarrow> Terminator \<Rightarrow> LocalId list" where
  "undefined_reads prog D [] t = filter (\<lambda>l. l \<notin> D) (terminator_reads t)"
| "undefined_reads prog D (s # ss) t =
     filter (\<lambda>l. l \<notin> D) (stmt_reads prog s) @ undefined_reads prog (D \<union> set (stmt_defs s)) ss t"

lemma members_fold_defs:
  "length bits = bit_words n \<Longrightarrow>
     members (fold (\<lambda>l bits. bit_set bits l) ls bits) \<inter> {..<n} = (members bits \<union> set ls) \<inter> {..<n} \<and>
     length (fold (\<lambda>l bits. bit_set bits l) ls bits) = bit_words n"
  using word_index by (induction ls arbitrary: bits) (auto simp: members_bit_set)

lemma bit_get_members: "bit_get bits l \<longleftrightarrow> l \<in> members bits"
  by (simp add: members_def)

lemma filter_undefined:
  assumes "members defs \<inter> {..<n} = D \<inter> {..<n}"
  shows "filter (\<lambda>l. l < n \<and> \<not> bit_get defs l) ls = filter (\<lambda>l. l < n) (filter (\<lambda>l. l \<notin> D) ls)"
proof -
  have "l \<in> members defs \<longleftrightarrow> l \<in> D" if "l < n" for l using assms that by blast
  then show ?thesis by (auto simp: bit_get_members intro!: filter_cong)
qed

lemma check_block_uses_errs:
  assumes n: "nlocals ctx = n"
  shows "length defs = bit_words n \<Longrightarrow> members defs \<inter> {..<n} = D \<inter> {..<n} \<Longrightarrow>
    snd (check_terminator ctx t (fold (check_stmt prog ctx) ss (defs, errs))) =
      errs @ map (LocalUseBeforeDef (uc_func ctx) (uc_block ctx)) (filter (\<lambda>l. l < n) (undefined_reads prog D ss t))"
proof (induction ss arbitrary: defs errs D)
  case Nil
  then show ?case by (simp add: check_terminator_reads use_locals_errs n filter_undefined del: filter_filter)
next
  case (Cons s ss)
  note defs = members_fold_defs [OF Cons.prems(1), of "stmt_defs s"]
  have "members (fold (\<lambda>l bits. bit_set bits l) (stmt_defs s) defs) \<inter> {..<n} = (D \<union> set (stmt_defs s)) \<inter> {..<n}"
    using defs Cons.prems(2) by auto
  note IH = Cons.IH [OF conjunct2 [OF defs] this]
  show ?case
    by (simp add: check_stmt_reads use_locals_errs n IH filter_undefined [OF Cons.prems(2)] del: filter_filter)
qed

text \<open>Reading a local before it is defined, along the statements of a block.\<close>

definition reads_undefined :: "'s TbProgram \<Rightarrow> LocalId set \<Rightarrow> BasicBlock \<Rightarrow> LocalId \<Rightarrow> bool" where
  "reads_undefined prog D b l \<longleftrightarrow>
     (\<exists>pre s post. stmts b = pre @ s # post \<and> l \<in> set (stmt_reads prog s) \<and>
        l \<notin> D \<union> (\<Union>s' \<in> set pre. set (stmt_defs s'))) \<or>
     l \<in> set (terminator_reads (terminator b)) \<and> l \<notin> D \<union> (\<Union>s' \<in> set (stmts b). set (stmt_defs s'))"

lemma set_undefined_reads:
  "l \<in> set (undefined_reads prog D ss t) \<longleftrightarrow>
     (\<exists>pre s post. ss = pre @ s # post \<and> l \<in> set (stmt_reads prog s) \<and> l \<notin> D \<union> (\<Union>s' \<in> set pre. set (stmt_defs s'))) \<or>
     l \<in> set (terminator_reads t) \<and> l \<notin> D \<union> (\<Union>s' \<in> set ss. set (stmt_defs s'))"
proof (induction ss arbitrary: D)
  case (Cons x ss)
  have "(\<exists>pre s post. x # ss = pre @ s # post \<and> P pre s) \<longleftrightarrow> P [] x \<or> (\<exists>pre s post. ss = pre @ s # post \<and> P (x # pre) s)" for P
    by (auto simp: Cons_eq_append_conv)
  then show ?case by (simp add: Cons.IH)
qed simp

lemma undefined_on_mop:
  assumes b: "(cfg_step f)\<^sup>*\<^sup>* (entry f) b" and l: "l < length (locals f)"
  shows "l \<in> set (undefined_reads prog (flow.mop f b) (stmts blk) (terminator blk)) \<longleftrightarrow>
    (\<exists>D. on_path (cfg_step f) (entry f) (entry_defs f) (block_defs f) b D \<and> reads_undefined prog D blk l)"
proof -
  have "l \<notin> flow.mop f b \<longleftrightarrow> (\<exists>D. on_path (cfg_step f) (entry f) (entry_defs f) (block_defs f) b D \<and> l \<notin> D)"
    using l by (auto simp: flow.mop_def)
  then show ?thesis unfolding set_undefined_reads reads_undefined_def by blast
qed

section \<open>The verdict\<close>

definition use_errors :: "'s TbProgram \<Rightarrow> TbFunction \<Rightarrow> FunctionId \<Rightarrow> BlockId \<Rightarrow> TbVerifyError list" where
  "use_errors prog f fid b =
     (if (cfg_step f)\<^sup>*\<^sup>* (entry f) b
      then map (LocalUseBeforeDef fid b) (filter (\<lambda>l. l < length (locals f))
        (undefined_reads prog (flow.mop f b) (stmts (blocks f ! b)) (terminator (blocks f ! b))))
      else [])"

lemma fold_append_map:
  "(\<And>x errs. x \<in> set xs \<Longrightarrow> g x errs = errs @ h x) \<Longrightarrow> fold g xs errs = errs @ concat (map h xs)"
  by (induction xs arbitrary: errs) simp_all

lemma check_def_before_use_val:
  assumes f: "blocks_in_range f" and r: "reachable = map (\<lambda>b. (cfg_step f)\<^sup>*\<^sup>* (entry f) b) [0..<length (blocks f)]"
  shows "check_def_before_use prog f fid reachable errs =
    Some (errs @ concat (map (use_errors prog f fid) [0..<length (blocks f)]))"
proof -
  let ?n = "length (locals f)" and ?nb = "length (blocks f)"
  let ?ins = "(replicate ?nb (full_bits ?n))[entry f := entry_defined f]"
  have entry: "entry f < ?nb" using f by (simp add: blocks_in_range_def)
  obtain preds where preds: "collect_preds (enumerate 0 (blocks f)) (replicate ?nb []) = Some preds"
    "\<forall>b < ?nb. set (preds ! b) = {p. cfg_step f p b}" using collect_preds_steps [OF f] by blast
  define d where "d = \<lparr>fd_nlocals = ?n, fd_entry = entry f, fd_entry_in = entry_defined f,
    fd_reachable = reachable, fd_preds = preds, fd_gens = map (block_gens ?n) (blocks f)\<rparr>"
  have d: "flow_input f d" using preds(2) by (simp add: flow_input_def d_def r)
  obtain ins where ins: "fixpoint d ?ins = Some ins" "flow_inv f ins" "\<forall>b < ?nb. flow_fixed f ins b"
    using fixpoint_returns [OF f d flow_inv_init [OF f]] by blast
  have len: "length ins = ?nb" "\<forall>b < ?nb. length (ins ! b) = bit_words ?n"
    using ins(2) by (auto simp: flow_inv_def flow_shape_def)
  have mop: "members (ins ! b) = flow.mop f b" if "(cfg_step f)\<^sup>*\<^sup>* (entry f) b" for b
    using fixpoint_sets_mop [OF f ins(2,3) that] cfg_reach_range [OF f that] len(1) by (simp add: flow_sets_def)
  have block: "(if \<not> reachable ! bi then errs
      else check_block_uses prog \<lparr>nlocals = ?n, uc_func = fid, uc_block = bi\<rparr> b (ins ! bi) errs) =
      errs @ use_errors prog f fid bi" if "(bi, b) \<in> set (enumerate 0 (blocks f))" for bi b errs
    using that len(2) mop [of bi]
      check_block_uses_errs [of "\<lparr>nlocals = ?n, uc_func = fid, uc_block = bi\<rparr>" ?n "ins ! bi" "flow.mop f bi" "terminator b" prog "stmts b" errs]
    by (auto simp: use_errors_def check_block_uses_def in_set_enumerate_eq r)
  have "fold (\<lambda>(bi, b) errs. if \<not> reachable ! bi then errs
        else check_block_uses prog \<lparr>nlocals = ?n, uc_func = fid, uc_block = bi\<rparr> b (ins ! bi) errs)
      (enumerate 0 (blocks f)) errs = errs @ concat (map (\<lambda>(bi, b). use_errors prog f fid bi) (enumerate 0 (blocks f)))"
    using block by (intro fold_append_map) auto
  also have "map (\<lambda>(bi, b). use_errors prog f fid bi) (enumerate 0 (blocks f)) = map (use_errors prog f fid) [0..<?nb]"
    by (rule nth_equalityI) (simp_all add: nth_enumerate_eq)
  finally have uses: "fold (\<lambda>(bi, b) errs. if \<not> reachable ! bi then errs
        else check_block_uses prog \<lparr>nlocals = ?n, uc_func = fid, uc_block = bi\<rparr> b (ins ! bi) errs)
      (enumerate 0 (blocks f)) errs = errs @ concat (map (use_errors prog f fid) [0..<?nb])" .
  have "?nb \<noteq> 0" "length reachable = ?nb" using entry by (auto simp: r)
  then show ?thesis
    unfolding check_def_before_use_def Let_def set_at_def
    using entry preds(1) ins(1) [unfolded d_def] by (simp add: uses)
qed

lemma set_use_errors:
  "e \<in> set (use_errors prog f fid b) \<longleftrightarrow>
     (\<exists>l D. e = LocalUseBeforeDef fid b l \<and> l < length (locals f) \<and>
        on_path (cfg_step f) (entry f) (entry_defs f) (block_defs f) b D \<and> reads_undefined prog D (blocks f ! b) l)"
proof (cases "(cfg_step f)\<^sup>*\<^sup>* (entry f) b")
  case True
  then show ?thesis using undefined_on_mop [OF True, of _ prog "blocks f ! b"] by (auto simp: use_errors_def)
next
  case False
  then show ?thesis using on_path_reachable by (fastforce simp: use_errors_def)
qed

text \<open>
  The check on its own sets: it returns, and adds the reads for which some path from the entry to the block, and through the
  block to the read, does not define the local.
\<close>

lemma def_use_paths:
  assumes "blocks_in_range f" "reach_loop f [entry f] (replicate (length (blocks f)) False) = Some reachable"
  shows "\<exists>new. check_def_before_use prog f fid reachable errs = Some (errs @ new) \<and>
    set new = {LocalUseBeforeDef fid b l | b l. l < length (locals f) \<and>
      (\<exists>D. on_path (cfg_step f) (entry f) (entry_defs f) (block_defs f) b D \<and> reads_undefined prog D (blocks f ! b) l)}"
proof -
  have "reachable = map (\<lambda>b. (cfg_step f)\<^sup>*\<^sup>* (entry f) b) [0..<length (blocks f)]"
    using assms(2) reach_from_entry [OF assms(1)] by simp
  note val = check_def_before_use_val [OF assms(1) this, of prog fid errs]
  have "b < length (blocks f)" if "on_path (cfg_step f) (entry f) (entry_defs f) (block_defs f) b D" for b D
    using cfg_reach_range [OF assms(1) on_path_reachable [OF that]] .
  then have "set (concat (map (use_errors prog f fid) [0..<length (blocks f)])) =
      {LocalUseBeforeDef fid b l | b l. l < length (locals f) \<and>
        (\<exists>D. on_path (cfg_step f) (entry f) (entry_defs f) (block_defs f) b D \<and> reads_undefined prog D (blocks f ! b) l)}"
    by (auto simp: set_use_errors)
  with val show ?thesis by blast
qed

section \<open>Reads and definitions along a path\<close>

text \<open>
  What the check is for, written down without its tables: every local an expression node names, a component
  receiver that is a local included; every local a statement or terminator reads or assigns, the destinations of a fork and of
  its join and the target of a randomisation included.  A registration reads what the registered check reads.  The arguments a
  join repeats were read at its fork, and the channel of an event is declared and never assigned, so neither is a
  read; the local a function returns is not counted either.
\<close>

fun node_uses :: "Expr \<Rightarrow> LocalId list" where
  "node_uses (Expr.Local l) = [l]"
| "node_uses (SeqLen l) = [l]"
| "node_uses (SeqIndex l _ _) = [l]"
| "node_uses (RecordField l _ _ _ _) = [l]"
| "node_uses (RegRead l _ _ _ _) = [l]"
| "node_uses (PortSnapshotLane l _ _) = [l]"
| "node_uses (ComponentValue base) = base_locals base"
| "node_uses (ComponentField base _) = base_locals base"
| "node_uses (ComponentVecElement base _ _ _ _) = base_locals base"
| "node_uses (ComponentQueueQuery base _) = base_locals base"
| "node_uses (ComponentIdle base _ _ _) = base_locals base"
| "node_uses _ = []"

definition expr_uses :: "Expr \<Rightarrow> LocalId list" where
  "expr_uses e = concat (map node_uses (preorder e))"

fun stmt_receivers :: "Stmt \<Rightarrow> ComponentBase list" where
  "stmt_receivers (ComponentFieldWrite base _ _) = [base]"
| "stmt_receivers (ComponentVecElementWrite base _ _ _ _ _) = [base]"
| "stmt_receivers (ComponentEmit base _ _ _) = [base]"
| "stmt_receivers (ComponentCall base _ _ _ _ _) = [base]"
| "stmt_receivers (ComponentQueuePush base _ _) = [base]"
| "stmt_receivers (ComponentQueuePop base _ _) = [base]"
| "stmt_receivers (ComponentSubAssign dst _ src) = [dst, src]"
| "stmt_receivers (ComponentAssign dst src) = [dst, src]"
| "stmt_receivers (EventSubscribe _ (EComponent base _ _ _) _) = [base]"
| "stmt_receivers (MethodHookSubscribe _ (MComponent base _ _) _ _ _) = [base]"
| "stmt_receivers _ = []"

fun stmt_targets :: "Stmt \<Rightarrow> LocalId list" where
  "stmt_targets (RecordRead _ mirror _ _) = [mirror]"
| "stmt_targets (RecordWrite mirror _ _ _ _) = [mirror]"
| "stmt_targets (RecordFieldWrite record_local _ _ _ _ _) = [record_local]"
| "stmt_targets (RecordWriteCb mirror _ _ _ _ _ _) = [mirror]"
| "stmt_targets (LocalVecElementWrite vec _ _ _) = [vec]"
| "stmt_targets (SeqPush seq _) = [seq]"
| "stmt_targets (MethodHookSubscribe _ _ _ _ captures) = captures"
| "stmt_targets _ = []"

fun used_exprs :: "'s TbProgram \<Rightarrow> Stmt \<Rightarrow> Expr list" where
  "used_exprs prog (PropertyCheck i) =
     (if i < length (property_checks prog)
      then let c = property_checks prog ! i in
        shape_exprs (pc_shape c) @ map slot_inner (pc_temporals c) @
        (case pc_message c of None \<Rightarrow> [] | Some m \<Rightarrow> map fa_expr (fmt_args m))
      else [])"
| "used_exprs prog (CoverCheck i) =
     (if i < length (cover_checks prog)
      then cc_cond (cover_checks prog ! i) # map slot_inner (cc_temporals (cover_checks prog ! i)) else [])"
| "used_exprs prog (CycleHandler i) =
     (if i < length (cycle_handlers prog) then handler_exprs (ch_kind (cycle_handlers prog ! i)) else [])"
| "used_exprs prog (TlmJoinAll _) = []"
| "used_exprs prog s = stmt_exprs s"

definition stmt_uses :: "'s TbProgram \<Rightarrow> Stmt \<Rightarrow> LocalId set" where
  "stmt_uses prog s = set (stmt_targets s) \<union> (\<Union>base \<in> set (stmt_receivers s). set (base_locals base)) \<union>
     (\<Union>e \<in> set (used_exprs prog s). set (expr_uses e))"

definition terminator_uses :: "Terminator \<Rightarrow> LocalId set" where
  "terminator_uses t = (\<Union>e \<in> set (terminator_exprs t). set (expr_uses e))"

fun stmt_assigns :: "Stmt \<Rightarrow> LocalId set" where
  "stmt_assigns (Assign l _) = {l}"
| "stmt_assigns (DutRead l _) = {l}"
| "stmt_assigns (RecordInit l _) = {l}"
| "stmt_assigns (AggregateInit l) = {l}"
| "stmt_assigns (ComponentInit l _ _) = {l}"
| "stmt_assigns (RecordRead l _ _ _) = {l}"
| "stmt_assigns (TbQueuePop _ l) = {l}"
| "stmt_assigns (TransactorStateQueuePop _ _ l) = {l}"
| "stmt_assigns (ComponentQueuePop _ _ l) = {l}"
| "stmt_assigns (Stmt.ScoreboardOp _ _ (QueuePop _ l) _) = {l}"
| "stmt_assigns (TransactorCall dest _) = set_option dest"
| "stmt_assigns (TransactorSelfCall dest _) = set_option dest"
| "stmt_assigns (ComponentCall _ _ _ _ _ dest) = set_option dest"
| "stmt_assigns (TestbenchCall _ _ _ dest) = set_option dest"
| "stmt_assigns (TlmFork desc) = set_option (tlm_dest desc)"
| "stmt_assigns (TlmJoinAll pending) = (\<Union>p \<in> set pending. set_option (tlm_dest p))"
| "stmt_assigns _ = {}"

fun terminator_assigns :: "Terminator \<Rightarrow> LocalId set" where
  "terminator_assigns (Randomize target _ _) = {target}"
| "terminator_assigns _ = {}"

text \<open>\<open>reaches f b i D\<close>: some path arrives before statement \<open>i\<close> of block \<open>b\<close> having defined the locals \<open>D\<close>.\<close>

inductive reaches :: "TbFunction \<Rightarrow> BlockId \<Rightarrow> nat \<Rightarrow> LocalId set \<Rightarrow> bool" for f where
  reaches_entry: "reaches f (entry f) 0 (entry_defs f)"
| reaches_stmt: "reaches f b i D \<Longrightarrow> i < length (stmts (blocks f ! b)) \<Longrightarrow>
    reaches f b (Suc i) (D \<union> stmt_assigns (stmts (blocks f ! b) ! i))"
| reaches_block: "reaches f b (length (stmts (blocks f ! b))) D \<Longrightarrow> b < length (blocks f) \<Longrightarrow>
    c \<in> set (successors (terminator (blocks f ! b))) \<Longrightarrow>
    reaches f c 0 (D \<union> terminator_assigns (terminator (blocks f ! b)))"

definition used_at :: "'s TbProgram \<Rightarrow> BasicBlock \<Rightarrow> nat \<Rightarrow> LocalId set" where
  "used_at prog blk i =
     (if i < length (stmts blk) then stmt_uses prog (stmts blk ! i) else terminator_uses (terminator blk))"

definition used_undefined :: "'s TbProgram \<Rightarrow> TbFunction \<Rightarrow> BlockId \<Rightarrow> LocalId \<Rightarrow> bool" where
  "used_undefined prog f b l \<longleftrightarrow> (\<exists>i D. reaches f b i D \<and> l \<in> used_at prog (blocks f ! b) i \<and> l \<notin> D)"

text \<open>
  What the check leaves out.  Reads: the indices of a record field write, and a local that is the receiver of a component operation
  other than a call, an assignment and a plain value.  Definitions a later block relies on: the destinations of forks and
  joins, and the target of a randomisation.
\<close>

fun node_checked :: "Expr \<Rightarrow> bool" where
  "node_checked (ComponentField base _) = (base_locals base = [])"
| "node_checked (ComponentVecElement base _ _ _ _) = (base_locals base = [])"
| "node_checked (ComponentQueueQuery base _) = (base_locals base = [])"
| "node_checked (ComponentIdle (LocalPath _ _) _ _ _) = False"
| "node_checked _ = True"

definition expr_checked :: "Expr \<Rightarrow> bool" where
  "expr_checked e \<longleftrightarrow> list_all node_checked (preorder e)"

fun stmt_checked :: "Stmt \<Rightarrow> bool" where
  "stmt_checked (RecordFieldWrite _ _ _ mid_indices index _) =
     list_all (\<lambda>e. expr_uses e = []) (map snd mid_indices @ opt_expr index)"
| "stmt_checked (ComponentFieldWrite base _ _) = (base_locals base = [])"
| "stmt_checked (ComponentVecElementWrite base _ _ _ _ _) = (base_locals base = [])"
| "stmt_checked (ComponentEmit base _ _ _) = (base_locals base = [])"
| "stmt_checked (ComponentQueuePush base _ _) = (base_locals base = [])"
| "stmt_checked (ComponentQueuePop base _ _) = (base_locals base = [])"
| "stmt_checked (EventSubscribe _ (EComponent base _ _ _) _) = (base_locals base = [])"
| "stmt_checked (MethodHookSubscribe _ (MComponent base _ _) _ _ _) = (base_locals base = [])"
| "stmt_checked _ = True"

definition reads_checked :: "'s TbProgram \<Rightarrow> TbFunction \<Rightarrow> bool" where
  "reads_checked prog f \<longleftrightarrow> list_all (\<lambda>blk.
     list_all (\<lambda>s. stmt_checked s \<and> list_all expr_checked (used_exprs prog s)) (stmts blk) \<and>
     list_all expr_checked (terminator_exprs (terminator blk))) (blocks f)"

fun forks_result :: "Stmt \<Rightarrow> bool" where
  "forks_result (TlmFork desc) = (tlm_dest desc \<noteq> None)"
| "forks_result (TlmJoinAll pending) = list_ex (\<lambda>p. tlm_dest p \<noteq> None) pending"
| "forks_result _ = False"

definition definitions_kept :: "TbFunction \<Rightarrow> bool" where
  "definitions_kept f \<longleftrightarrow>
     (\<forall>b < length (blocks f). list_all (\<lambda>s. \<not> forks_result s) (stmts (blocks f ! b)) \<and>
        (\<forall>D. reaches f b (length (stmts (blocks f ! b))) D \<longrightarrow> terminator_assigns (terminator (blocks f ! b)) \<subseteq> D))"

lemma node_local_uses: "set_option (node_local e) \<subseteq> set (node_uses e)"
  by (cases e rule: node_local.cases) simp_all

lemma node_checked_uses: "node_checked e \<Longrightarrow> set (node_uses e) = set_option (node_local e)"
proof (cases e)
  case (ComponentIdle base p k i)
  then show "node_checked e \<Longrightarrow> set (node_uses e) = set_option (node_local e)" by (cases base) simp_all
next
  case (ComponentValue base)
  then show "node_checked e \<Longrightarrow> set (node_uses e) = set_option (node_local e)" by (cases base) simp_all
qed simp_all

lemma set_map_filter_Some: "set (List.map_filter g xs) = {y. \<exists>x \<in> set xs. g x = Some y}"
  by (induction xs) (auto simp: map_filter_simps split: option.splits)

lemma set_expr_locals: "set (expr_locals e) = (\<Union>n \<in> set (preorder e). set_option (node_local n))"
  by (auto simp: expr_locals_def set_map_filter_Some elem_set)

lemma expr_locals_uses: "set (expr_locals e) \<subseteq> set (expr_uses e)"
  unfolding set_expr_locals expr_uses_def using node_local_uses by (auto simp del: elem_set)

lemma expr_checked_uses: "expr_checked e \<Longrightarrow> set (expr_uses e) = set (expr_locals e)"
  unfolding set_expr_locals expr_uses_def expr_checked_def list_all_iff using node_checked_uses by auto

lemma stmt_assigns_defs: "stmt_assigns s = set (stmt_defs s)"
  by (cases s rule: stmt_assigns.cases)
    (auto simp: elem_set set_map_filter_Some split: option.splits ScoreboardOp.splits)

lemma read_exprs_used: "set (read_exprs prog s) \<subseteq> set (used_exprs prog s)"
  by (cases s) (auto simp: get_def Let_def fmt_exprs_def split: option.splits if_splits)

lemma named_locals_uses: "set (named_locals s) \<subseteq> stmt_uses prog s"
  by (cases s) (auto simp: stmt_uses_def)

lemma stmt_reads_uses: "set (stmt_reads prog s) \<subseteq> stmt_uses prog s"
proof -
  have "(\<Union>e \<in> set (read_exprs prog s). set (expr_locals e)) \<subseteq> stmt_uses prog s"
    unfolding stmt_uses_def using read_exprs_used [of prog s] expr_locals_uses by fastforce
  then show ?thesis using named_locals_uses [of s prog] by (auto simp: stmt_reads_def)
qed

lemma checked_named: "stmt_checked s \<Longrightarrow>
    set (stmt_targets s) \<union> (\<Union>base \<in> set (stmt_receivers s). set (base_locals base)) \<subseteq> set (named_locals s)"
  by (cases s rule: stmt_checked.cases) auto

lemma checked_exprs: "stmt_checked s \<Longrightarrow> e \<in> set (used_exprs prog s) \<Longrightarrow> e \<in> set (read_exprs prog s) \<or> expr_uses e = []"
  by (cases s) (auto simp: get_def Let_def fmt_exprs_def list_all_iff split: option.splits if_splits)

lemma stmt_uses_reads:
  assumes "stmt_checked s" "list_all expr_checked (used_exprs prog s)"
  shows "stmt_uses prog s \<subseteq> set (stmt_reads prog s)"
proof -
  have "set (expr_uses e) \<subseteq> set (stmt_reads prog s)" if "e \<in> set (used_exprs prog s)" for e
    using checked_exprs [OF assms(1) that] expr_checked_uses [of e] assms(2) that
    by (auto simp: list_all_iff stmt_reads_def)
  then show ?thesis using checked_named [OF assms(1)] by (auto simp: stmt_uses_def stmt_reads_def)
qed

lemma terminator_reads_uses: "set (terminator_reads t) \<subseteq> terminator_uses t"
  unfolding terminator_reads_def terminator_uses_def using expr_locals_uses by fastforce

lemma terminator_uses_reads: "list_all expr_checked (terminator_exprs t) \<Longrightarrow> terminator_uses t \<subseteq> set (terminator_reads t)"
  unfolding terminator_reads_def terminator_uses_def using expr_checked_uses by (fastforce simp: list_all_iff)

text \<open>Positions of a block, and the paths of the flow analysis.\<close>

definition before_at :: "BasicBlock \<Rightarrow> nat \<Rightarrow> LocalId set" where
  "before_at blk i = (\<Union>s \<in> set (take i (stmts blk)). stmt_assigns s)"

definition reads_at :: "'s TbProgram \<Rightarrow> BasicBlock \<Rightarrow> nat \<Rightarrow> LocalId set" where
  "reads_at prog blk i =
     (if i < length (stmts blk) then set (stmt_reads prog (stmts blk ! i)) else set (terminator_reads (terminator blk)))"

lemma before_at_Suc: "i < length (stmts blk) \<Longrightarrow> before_at blk (Suc i) = before_at blk i \<union> stmt_assigns (stmts blk ! i)"
  by (simp add: before_at_def take_Suc_conv_app_nth Un_commute)

lemma reads_undefined_at:
  "reads_undefined prog D blk l \<longleftrightarrow> (\<exists>i \<le> length (stmts blk). l \<in> reads_at prog blk i \<and> l \<notin> D \<union> before_at blk i)"
proof -
  have split: "(\<exists>pre s post. xs = pre @ s # post \<and> P pre s) \<longleftrightarrow> (\<exists>i < length xs. P (take i xs) (xs ! i))" for P and xs :: "Stmt list"
  proof
    assume "\<exists>pre s post. xs = pre @ s # post \<and> P pre s"
    then obtain pre s post where "xs = pre @ s # post" "P pre s" by blast
    then show "\<exists>i < length xs. P (take i xs) (xs ! i)" by (intro exI [of _ "length pre"]) simp
  qed (use id_take_nth_drop in blast)
  show ?thesis
    unfolding reads_undefined_def split reads_at_def before_at_def stmt_assigns_defs
    by (auto simp: le_less)
qed

lemma reaches_path:
  assumes "reaches f b i D"
  shows "i \<le> length (stmts (blocks f ! b)) \<and> (\<exists>D0. on_path (cfg_step f) (entry f) (entry_defs f) (block_defs f) b D0 \<and>
    D0 \<union> before_at (blocks f ! b) i \<subseteq> D)"
  using assms
proof (induction rule: reaches.induct)
  case reaches_entry
  then show ?case by (intro conjI exI [of _ "entry_defs f"] on_path_start) (simp_all add: before_at_def)
next
  case (reaches_stmt b i D)
  then show ?case by (auto simp: before_at_Suc)
next
  case (reaches_block b D c)
  then obtain D0 where D0: "on_path (cfg_step f) (entry f) (entry_defs f) (block_defs f) b D0"
    "D0 \<union> before_at (blocks f ! b) (length (stmts (blocks f ! b))) \<subseteq> D" by auto
  have "cfg_step f b c" using reaches_block.hyps by (simp add: cfg_step_def block_successors_def)
  note on_path_step [OF D0(1) this]
  moreover have "block_defs f b \<subseteq> before_at (blocks f ! b) (length (stmts (blocks f ! b)))"
  proof -
    have "gen_local s = Some l \<Longrightarrow> l \<in> stmt_assigns s" for s l
      by (cases s) (auto simp: stmt_assigns_defs)
    then show ?thesis by (auto simp: block_defs_def before_at_def)
  qed
  ultimately show ?case using D0(2)
    by (intro conjI exI [of _ "D0 \<union> block_defs f b"]) (auto simp: before_at_def)
qed

lemma reaches_at: "reaches f b 0 D \<Longrightarrow> i \<le> length (stmts (blocks f ! b)) \<Longrightarrow> reaches f b i (D \<union> before_at (blocks f ! b) i)"
proof (induction i)
  case (Suc i)
  then show ?case using reaches.reaches_stmt [of f b i "D \<union> before_at (blocks f ! b) i"]
    by (simp add: before_at_Suc Un_assoc)
qed (simp add: before_at_def)

lemma path_reaches:
  assumes f: "definitions_kept f" and "on_path (cfg_step f) (entry f) (entry_defs f) (block_defs f) b D"
  shows "reaches f b 0 D"
  using assms(2)
proof (induction rule: on_path.induct)
  case on_path_start
  then show ?case by (rule reaches.reaches_entry)
next
  case (on_path_step b D c)
  let ?blk = "blocks f ! b" and ?E = "D \<union> before_at (blocks f ! b) (length (stmts (blocks f ! b)))"
  have b: "b < length (blocks f)" "c \<in> set (successors (terminator ?blk))"
    using on_path_step.hyps(2) by (simp_all add: cfg_step_def block_successors_def)
  have reach: "reaches f b (length (stmts ?blk)) ?E" by (rule reaches_at [OF on_path_step.IH order_refl])
  have kept: "terminator_assigns (terminator ?blk) \<subseteq> ?E" "list_all (\<lambda>s. \<not> forks_result s) (stmts ?blk)"
    using f b(1) reach by (auto simp: definitions_kept_def)
  have "stmt_assigns s = set_option (gen_local s)" if "\<not> forks_result s" for s
    using that by (cases s) (auto simp: stmt_assigns_defs set_map_filter_Some list_ex_iff split: option.splits)
  then have "before_at ?blk (length (stmts ?blk)) = block_defs f b"
    using kept(2) by (auto simp: before_at_def block_defs_def list_all_iff elem_set)
  then have "?E \<union> terminator_assigns (terminator ?blk) = D \<union> block_defs f b" using kept(1) by auto
  then show ?case using reaches.reaches_block [OF reach b] by simp
qed

lemma undefined_reported:
  assumes f: "blocks_in_range f" "reads_checked prog f" and l: "used_undefined prog f b l"
  shows "\<exists>D. on_path (cfg_step f) (entry f) (entry_defs f) (block_defs f) b D \<and> reads_undefined prog D (blocks f ! b) l"
proof -
  obtain i D where i: "reaches f b i D" "l \<in> used_at prog (blocks f ! b) i" "l \<notin> D"
    using l by (auto simp: used_undefined_def)
  obtain D0 where D0: "i \<le> length (stmts (blocks f ! b))" "on_path (cfg_step f) (entry f) (entry_defs f) (block_defs f) b D0"
    "D0 \<union> before_at (blocks f ! b) i \<subseteq> D" using reaches_path [OF i(1)] by blast
  have "b < length (blocks f)" using cfg_reach_range [OF f(1) on_path_reachable [OF D0(2)]] .
  then have chk: "\<forall>s \<in> set (stmts (blocks f ! b)). stmt_checked s \<and> list_all expr_checked (used_exprs prog s)"
    "list_all expr_checked (terminator_exprs (terminator (blocks f ! b)))"
    using f(2) nth_mem [of b "blocks f"] unfolding reads_checked_def list_all_iff by blast+
  then have "used_at prog (blocks f ! b) i \<subseteq> reads_at prog (blocks f ! b) i"
    using stmt_uses_reads [of "stmts (blocks f ! b) ! i" prog] terminator_uses_reads by (auto simp: used_at_def reads_at_def)
  then show ?thesis using i D0 unfolding reads_undefined_at by blast
qed

lemma reported_undefined:
  assumes f: "definitions_kept f" and D: "on_path (cfg_step f) (entry f) (entry_defs f) (block_defs f) b D"
    and l: "reads_undefined prog D (blocks f ! b) l"
  shows "used_undefined prog f b l"
proof -
  obtain i where i: "i \<le> length (stmts (blocks f ! b))" "l \<in> reads_at prog (blocks f ! b) i" "l \<notin> D \<union> before_at (blocks f ! b) i"
    using l unfolding reads_undefined_at by blast
  have "l \<in> used_at prog (blocks f ! b) i"
    using i(2) stmt_reads_uses terminator_reads_uses by (fastforce simp: used_at_def reads_at_def split: if_splits)
  then show ?thesis
    unfolding used_undefined_def using reaches_at [OF path_reaches [OF f D] i(1)] i(3) by blast
qed


text \<open>
  C4.  On a function whose block ids are in range, with the vector of its reachable blocks, the definite
  assignment check returns: the iteration ends and no index is out of range.  It keeps the errors it is given and
  adds use-before-definition errors.  Measured against the paths of the function, with reads and definitions collected
  independently of the tables of the check: every local that some path uses before defining it is reported, provided the
  function has none of the reads the check skips (a local in the index of a record field write; a local that is the receiver of a component's
  field, vector element, queue, event or subscription, or of an idle query through a path); and nothing else is
  reported, provided no result of a fork or join is kept in a local and a randomised record is defined before
  the randomisation, since these definitions do not reach the next block.  The value a function returns is not counted as a read.
\<close>

theorem def_use_exact:
  assumes "blocks_in_range f" "reach_loop f [entry f] (replicate (length (blocks f)) False) = Some reachable"
  shows "\<exists>new. check_def_before_use prog f fid reachable errs = Some (errs @ new) \<and>
    (\<forall>e \<in> set new. \<exists>b l. e = LocalUseBeforeDef fid b l \<and> l < length (locals f)) \<and>
    (reads_checked prog f \<longrightarrow>
      (\<forall>b l. l < length (locals f) \<and> used_undefined prog f b l \<longrightarrow> LocalUseBeforeDef fid b l \<in> set new)) \<and>
    (definitions_kept f \<longrightarrow> (\<forall>b l. LocalUseBeforeDef fid b l \<in> set new \<longrightarrow> used_undefined prog f b l))"
proof -
  obtain new where new: "check_def_before_use prog f fid reachable errs = Some (errs @ new)"
    "set new = {LocalUseBeforeDef fid b l | b l. l < length (locals f) \<and>
      (\<exists>D. on_path (cfg_step f) (entry f) (entry_defs f) (block_defs f) b D \<and> reads_undefined prog D (blocks f ! b) l)}"
    using def_use_paths [OF assms, of prog fid errs] by (elim exE conjE)
  have "LocalUseBeforeDef fid b l \<in> set new \<longleftrightarrow> l < length (locals f) \<and>
      (\<exists>D. on_path (cfg_step f) (entry f) (entry_defs f) (block_defs f) b D \<and> reads_undefined prog D (blocks f ! b) l)" for b l
    by (simp add: new(2))
  then have "reads_checked prog f \<longrightarrow>
      (\<forall>b l. l < length (locals f) \<and> used_undefined prog f b l \<longrightarrow> LocalUseBeforeDef fid b l \<in> set new)"
    "definitions_kept f \<longrightarrow> (\<forall>b l. LocalUseBeforeDef fid b l \<in> set new \<longrightarrow> used_undefined prog f b l)"
    using undefined_reported [OF assms(1), of prog] reported_undefined [of f _ _ prog] by metis+
  moreover have "\<forall>e \<in> set new. \<exists>b l. e = LocalUseBeforeDef fid b l \<and> l < length (locals f)" by (auto simp: new(2))
  ultimately show ?thesis using new(1) by blast
qed

definition example_flow :: "TypedLocal list \<Rightarrow> BasicBlock list \<Rightarrow> TbFunction" where
  "example_flow ls bs = (example_fn [])\<lparr>locals := ls, blocks := bs\<rparr>"

definition example_locals :: "IrType list \<Rightarrow> TypedLocal list" where
  "example_locals tys = map (\<lambda>ty. \<lparr>local_name = ''x'', local_ty = ty\<rparr>) tys"

text \<open>A local that only one arm of a branch defines, read where the arms join.\<close>

definition example_join :: TbFunction where
  "example_join = example_flow (example_locals [UInt (Some 8)])
     [\<lparr>stmts = [], terminator = Branch (Literal 1 Bool) 1 2\<rparr>,
      \<lparr>stmts = [Assign 0 (Literal 5 Unknown)], terminator = Jump 3\<rparr>,
      \<lparr>stmts = [], terminator = Jump 3\<rparr>,
      \<lparr>stmts = [TbFieldWrite ''y'' (Expr.Local 0)], terminator = Return\<rparr>]"

lemmas example_flow_defs = example_flow_def example_locals_def example_fn_def example_join_def

lemma example_join_in_range: "blocks_in_range example_join"
  by (simp add: blocks_in_range_def example_flow_defs)

lemma example_join_use: "used_undefined prog example_join 3 0"
proof -
  have start: "reaches example_join 0 0 {}"
  proof -
    have "entry_defs example_join = {}" "entry example_join = 0" by (auto simp: entry_defs_def example_flow_defs)
    then show ?thesis using reaches_entry [of example_join] by simp
  qed
  have "reaches example_join 2 0 {}"
    using reaches_block [of example_join 0 "{}" 2] start by (simp add: example_flow_defs)
  then have "reaches example_join 3 0 {}"
    using reaches_block [of example_join 2 "{}" 3] by (simp add: example_flow_defs)
  moreover have "0 \<in> used_at prog (blocks example_join ! 3) 0"
    by (simp add: used_at_def example_flow_defs stmt_uses_def expr_uses_def preorder.simps)
  ultimately show ?thesis unfolding used_undefined_def by blast
qed

theorem def_use_exact_witness:
  "\<exists>new. check_def_before_use (example_program []) example_join 7 [True, True, True, True] [] = Some new \<and>
     LocalUseBeforeDef 7 3 0 \<in> set new"
proof -
  have "reach_loop example_join [entry example_join] (replicate (length (blocks example_join)) False) =
      Some [True, True, True, True]"
    by (simp add: example_flow_defs reach_loop.simps TbFunction_block_def)
  note exact = def_use_exact [OF example_join_in_range this, of "example_program []" 7 "[]"]
  have "reads_checked (example_program []) example_join" by code_simp
  moreover have "0 < length (locals example_join)" by (simp add: example_flow_defs)
  ultimately show ?thesis using exact example_join_use by fastforce
qed

section \<open>Accepted functions\<close>

definition implicit_returns_ok :: "TbFunction \<Rightarrow> bool" where
  "implicit_returns_ok f \<longleftrightarrow> distinct (implicit_returns f) \<and>
     (\<forall>b \<in> set (implicit_returns f). b < length (blocks f) \<and> is_return (terminator (blocks f ! b)))"

definition snapshots_ok :: "TbFunction \<Rightarrow> bool" where
  "snapshots_ok f \<longleftrightarrow> (\<forall>i < length (locals f). local_ty (locals f ! i) = PortSnapshot \<longrightarrow>
     length (filter (defines_snapshot i) (concat (map stmts (blocks f)))) = 1)"

definition control_flow_ok :: "'s TbProgram \<Rightarrow> TbFunction \<Rightarrow> bool" where
  "control_flow_ok prog f \<longleftrightarrow> blocks_in_range f \<and> implicit_returns_ok f \<and> snapshots_ok f \<and>
     (\<forall>b < length (blocks f). (cfg_step f)\<^sup>*\<^sup>* (entry f) b \<and>
        \<not> (stmts (blocks f ! b) = [] \<and> is_fatal (terminator (blocks f ! b)))) \<and>
     (\<forall>b D l. on_path (cfg_step f) (entry f) (entry_defs f) (block_defs f) b D \<longrightarrow> l < length (locals f) \<longrightarrow>
        \<not> reads_undefined prog D (blocks f ! b) l)"

lemma verify_successors_Nil:
  "verify_successors f = [] \<longleftrightarrow> (\<forall>b \<in> set (blocks f). \<forall>s \<in> set (successors (terminator b)). s < length (blocks f))"
proof -
  have "verify_successors f = [] \<longleftrightarrow>
      (\<forall>b \<in> snd ` set (enumerate 0 (blocks f)). \<forall>s \<in> set (successors (terminator b)). s < length (blocks f))"
    by (auto simp: verify_successors_def filter_empty_conv not_le)
  also have "snd ` set (enumerate 0 (blocks f)) = set (blocks f)" by (metis map_snd_enumerate set_map)
  finally show ?thesis .
qed

lemma verify_implicit_returns_Nil:
  "verify_implicit_returns f bs seen = [] \<longleftrightarrow> distinct bs \<and> set bs \<inter> seen = {} \<and>
     (\<forall>b \<in> set bs. b < length (blocks f) \<and> is_return (terminator (blocks f ! b)))"
  by (induction bs arbitrary: seen) (auto simp: TbFunction_block_def Let_def)

lemma filter_enumerate_Nil:
  "filter (\<lambda>(i, x). P i x) (enumerate 0 xs) = [] \<longleftrightarrow> (\<forall>i < length xs. \<not> P i (xs ! i))"
  by (auto simp: filter_empty_conv in_set_enumerate_eq)

lemma concat_enumerate_Nil:
  "concat (map (\<lambda>(i, x). g i x) (enumerate 0 xs)) = [] \<longleftrightarrow> (\<forall>i < length xs. g i (xs ! i) = [])"
proof -
  have "map (\<lambda>(i, x). g i x) (enumerate 0 xs) = map (\<lambda>i. g i (xs ! i)) [0..<length xs]"
    by (rule nth_equalityI) (simp_all add: nth_enumerate_eq)
  then show ?thesis by auto
qed

lemma check_port_snapshot_definitions_Nil: "check_port_snapshot_definitions f fid = [] \<longleftrightarrow> snapshots_ok f"
  unfolding check_port_snapshot_definitions_def snapshots_ok_def concat_enumerate_Nil by (auto simp: Let_def)

lemma use_errors_Nil:
  assumes "blocks_in_range f"
  shows "concat (map (use_errors prog f fid) [0..<length (blocks f)]) = [] \<longleftrightarrow>
    (\<forall>b D l. on_path (cfg_step f) (entry f) (entry_defs f) (block_defs f) b D \<longrightarrow> l < length (locals f) \<longrightarrow>
      \<not> reads_undefined prog D (blocks f ! b) l)"
proof -
  have "use_errors prog f fid b = [] \<longleftrightarrow> (\<forall>l D. l < length (locals f) \<longrightarrow>
      on_path (cfg_step f) (entry f) (entry_defs f) (block_defs f) b D \<longrightarrow> \<not> reads_undefined prog D (blocks f ! b) l)" for b
  proof -
    have "use_errors prog f fid b = [] \<longleftrightarrow> (\<forall>e. e \<notin> set (use_errors prog f fid b))" by (simp add: ex_in_conv [symmetric])
    then show ?thesis unfolding set_use_errors by blast
  qed
  moreover have "b < length (blocks f)" if "on_path (cfg_step f) (entry f) (entry_defs f) (block_defs f) b D" for b D
    using cfg_reach_range [OF assms on_path_reachable [OF that]] .
  ultimately show ?thesis unfolding concat_eq_Nil_conv set_map ball_simps by (auto simp: atLeast0LessThan) 
qed

lemma verify_control_flow_in_range:
  assumes f: "blocks_in_range f" and i: "implicit_returns_ok f"
  shows "\<exists>errs. verify_control_flow prog f = Some errs \<and> (errs = [] \<longleftrightarrow> control_flow_ok prog f)"
proof -
  let ?r = "map (\<lambda>b. (cfg_step f)\<^sup>*\<^sup>* (entry f) b) [0..<length (blocks f)]"
  let ?u = "concat (map (use_errors prog f (fn_id f)) [0..<length (blocks f)])"
  have "verify_successors f = []" "verify_implicit_returns f (implicit_returns f) {} = []" "entry f < length (blocks f)"
    using f i by (auto simp: verify_successors_Nil verify_implicit_returns_Nil blocks_in_range_def implicit_returns_ok_def)
  then have "verify_control_flow prog f = Some ((verify_reachable f ?r @ verify_empty_blocks f @
      check_port_snapshot_definitions f (fn_id f)) @ ?u)"
    by (simp add: verify_control_flow_def verify_entry_def Let_def reach_from_entry [OF f] check_def_before_use_val [OF f refl])
  moreover have "verify_reachable f ?r = [] \<longleftrightarrow> (\<forall>b < length (blocks f). (cfg_step f)\<^sup>*\<^sup>* (entry f) b)"
    by (simp add: verify_reachable_def filter_enumerate_Nil)
  moreover have "verify_empty_blocks f = [] \<longleftrightarrow>
      (\<forall>b < length (blocks f). \<not> (stmts (blocks f ! b) = [] \<and> is_fatal (terminator (blocks f ! b))))"
    by (simp add: verify_empty_blocks_def filter_enumerate_Nil)
  ultimately show ?thesis
    using f i use_errors_Nil [OF f, of prog "fn_id f"]
    by (auto simp: control_flow_ok_def check_port_snapshot_definitions_Nil simp del: concat_eq_Nil_conv)
qed

lemma verify_control_flow_verdict:
  "\<exists>errs. verify_control_flow prog f = Some errs \<and> (errs = [] \<longleftrightarrow> control_flow_ok prog f)"
proof (cases "blocks_in_range f \<and> implicit_returns_ok f")
  case True
  then show ?thesis using verify_control_flow_in_range by blast
next
  case False
  then have "\<not> control_flow_ok prog f" by (auto simp: control_flow_ok_def)
  then show ?thesis
    using False verify_successors_Nil [of f] verify_implicit_returns_Nil [of f "implicit_returns f" "{}"]
    by (auto simp: verify_control_flow_def verify_entry_def Let_def blocks_in_range_def implicit_returns_ok_def)
qed

definition structure_ok :: "TbFunction \<Rightarrow> bool" where
  "structure_ok f \<longleftrightarrow> blocks_in_range f \<and> implicit_returns_ok f \<and> snapshots_ok f \<and>
     (\<forall>b < length (blocks f). (cfg_step f)\<^sup>*\<^sup>* (entry f) b \<and>
        \<not> (stmts (blocks f ! b) = [] \<and> is_fatal (terminator (blocks f ! b))))"

definition uses_defined :: "'s TbProgram \<Rightarrow> TbFunction \<Rightarrow> bool" where
  "uses_defined prog f \<longleftrightarrow> (\<forall>b l. used_undefined prog f b l \<longrightarrow> length (locals f) \<le> l)"

text \<open>
  C5.  For every function the control-flow checks return a list of errors, without a panic or an endless
  loop.  If the list is empty, the block ids resolve, the implicit returns are distinct returns, every block
  is reachable, no \<^verbatim>\<open>Fatal\<close> block is empty and every port snapshot is defined once; and no path uses a local
  before it is defined, provided the function has none of the reads the check skips (record field write indices and
  the component receivers named at the definite assignment check).  Conversely a function with all these qualities is accepted, provided no fork or join result is kept
  in a local and randomised records are defined before.
\<close>

theorem control_flow_verdict:
  "\<exists>errs. verify_control_flow prog f = Some errs \<and>
    (errs = [] \<longrightarrow> structure_ok f \<and> (reads_checked prog f \<longrightarrow> uses_defined prog f)) \<and>
    (structure_ok f \<and> definitions_kept f \<and> uses_defined prog f \<longrightarrow> errs = [])"
proof -
  obtain errs where errs: "verify_control_flow prog f = Some errs" "errs = [] \<longleftrightarrow> control_flow_ok prog f"
    using verify_control_flow_verdict by blast
  have "control_flow_ok prog f \<Longrightarrow> structure_ok f \<and> (reads_checked prog f \<longrightarrow> uses_defined prog f)"
    using undefined_reported [of f prog] unfolding control_flow_ok_def structure_ok_def uses_defined_def by (meson not_le)
  moreover have "structure_ok f \<and> definitions_kept f \<and> uses_defined prog f \<Longrightarrow> control_flow_ok prog f"
    using reported_undefined [of f _ _ prog] unfolding control_flow_ok_def structure_ok_def uses_defined_def by (meson not_le)
  ultimately show ?thesis using errs by blast
qed

definition example_swap :: TbFunction where
  "example_swap = example_flow (example_locals [UInt (Some 8)])
     [\<lparr>stmts = [Assign 0 (Literal 5 Unknown)], terminator = Jump 1\<rparr>,
      \<lparr>stmts = [TbFieldWrite ''y'' (Expr.Local 0)], terminator = Return\<rparr>]"

theorem control_flow_verdict_witness:
  "verify_control_flow (example_program []) example_swap = Some [] \<and> uses_defined (example_program []) example_swap"
proof -
  have ok: "verify_control_flow (example_program []) example_swap = Some []" by code_simp
  have "reads_checked (example_program []) example_swap" by code_simp
  with ok control_flow_verdict [of "example_program []" example_swap] show ?thesis by auto
qed

text \<open>
  The index of a record field write is not among the reads: a local that nothing defines passes the check there,
  although the visitors of the IR visit the index.
\<close>

definition example_index :: TbFunction where
  "example_index = example_flow (example_locals [Record 0, UInt (Some 8)])
     [\<lparr>stmts = [RecordInit 0 0, RecordFieldWrite 0 ''data'' [] [] (Some (Expr.Local 1)) (Literal 5 Unknown)],
       terminator = Return\<rparr>]"

lemma record_index_unchecked:
  "verify_control_flow (example_program []) example_index = Some [] \<and>
   Expr.Local 1 \<in> set (stmt_exprs (stmts (blocks example_index ! 0) ! 1))"
  by code_simp

text \<open>
  The transfer function of a block leaves out the destination of a fork: a local that a fork defines and a
  later block reads is reported.
\<close>

definition example_fork :: TbFunction where
  "example_fork = example_flow (example_locals [UInt (Some 8)])
     [\<lparr>stmts = [TlmFork \<lparr>bus_field = ''b'', tlm_target = BoundBus, tlm_method = ''read'', tlm_args = [],
         tlm_dest = Some 0, has_ret = True, tlm_tag = None\<rparr>],
       terminator = WaitCycles (Literal 1 Unknown) None 1\<rparr>,
      \<lparr>stmts = [TbFieldWrite ''y'' (Expr.Local 0)], terminator = Return\<rparr>]"

lemma fork_result_reported:
  "verify_control_flow (example_program []) example_fork = Some [LocalUseBeforeDef 7 1 0]"
  by code_simp

end
