(* ===== verification/Literal_Fit.thy ===== *)
theory Literal_Fit
  imports Exact_Int Ir_Syntax
begin

text \<open>
  Untyped literals (\<^verbatim>\<open>src/ir/lower/exprs.rs\<close> and the verifier's side of them in \<^verbatim>\<open>src/ir/verify.rs\<close>): an expression built
  from literals that declare no width is evaluated exactly, and has to fit the type it meets.  Lowering and the verifier
  each have their own test of what such an expression is.

  The exact integers of \<^verbatim>\<open>exact_int.rs\<close> compute the values; a panic of one of their loops is \<open>Panicked\<close>.
  The evaluation is modelled with bit counts in the naturals and, with the suffix 32, with the \<^verbatim>\<open>u32\<close> counts of the source,
  whose overflow is a panic too; they agree on trees whose values have less than \<open>2\<^sup>3\<^sup>2 - 2\<close> bits.
\<close>

section \<open>Evaluation\<close>

definition MAX_WIDTH_METHOD_BITS :: nat where
  "MAX_WIDTH_METHOD_BITS = 1024"

datatype eval_error = Rejected string | Panicked

definition or_panic :: "'a option \<Rightarrow> (eval_error, 'a) result" where
  "or_panic x = (case x of None \<Rightarrow> Err Panicked | Some y \<Rightarrow> Ok y)"

fun untyped_width :: "IrType \<Rightarrow> bool" where
  "untyped_width Unknown = True"
| "untyped_width (UInt None) = True"
| "untyped_width (SInt None) = True"
| "untyped_width _ = False"

definition is_value_op :: "BinOp \<Rightarrow> bool" where
  "is_value_op op \<longleftrightarrow> op \<notin> {BinOp.Eq, BinOp.Ne, BinOp.Lt, BinOp.Le, BinOp.Gt, BinOp.Ge, BinOp.And, BinOp.Or}"

fun expr_is_untyped_literal :: "Expr \<Rightarrow> bool" where
  "expr_is_untyped_literal (Literal _ ty) = untyped_width ty"
| "expr_is_untyped_literal (WideLiteral _) = True"
| "expr_is_untyped_literal (Unary op inner) = (op \<noteq> UnOp.Not \<and> expr_is_untyped_literal inner)"
| "expr_is_untyped_literal (Binary op a b) = (is_value_op op \<and> expr_is_untyped_literal a \<and> expr_is_untyped_literal b)"
| "expr_is_untyped_literal (Ternary _ a b) = (expr_is_untyped_literal a \<and> expr_is_untyped_literal b)"
| "expr_is_untyped_literal _ = False"

fun literal_exact :: "u64 \<Rightarrow> IrType \<Rightarrow> ExactInt option" where
  "literal_exact v (SInt None) = Some (from_bits v True)"
| "literal_exact v Unknown = Some (from_bits v (uint v \<le> 2 ^ 63 - 1))"
| "literal_exact v (UInt None) = Some (from_bits v False)"
| "literal_exact v _ = None"

definition literal_shift :: "ExactInt \<Rightarrow> (eval_error, nat) result" where
  "literal_shift y =
     (if is_negative y then
        try_bind (or_panic (to_string y)) (\<lambda>s. Err (Rejected (''negative shift amount ('' @ s @ '')'')))
      else case to_u32 y of
          Some n \<Rightarrow>
            if unat n \<le> MAX_WIDTH_METHOD_BITS then Ok (unat n)
            else try_bind (or_panic (to_string y)) (\<lambda>s. Err (Rejected (''shift amount '' @ s @
              '' is out of range (shift amounts must be 0..='' @ show_nat MAX_WIDTH_METHOD_BITS @ '')'')))
        | None \<Rightarrow> try_bind (or_panic (to_string y)) (\<lambda>s. Err (Rejected (''shift amount '' @ s @
              '' is out of range (shift amounts must be 0..='' @ show_nat MAX_WIDTH_METHOD_BITS @ '')''))))"

definition literal_div_rem :: "string \<Rightarrow> ExactInt \<Rightarrow> ExactInt \<Rightarrow> (eval_error, ExactInt \<times> ExactInt) result" where
  "literal_div_rem label x y =
     try_bind (or_panic (div_rem x y)) (\<lambda>r. case r of None \<Rightarrow> Err (Rejected (label @ '' by zero'')) | Some qr \<Rightarrow> Ok qr)"

fun literal_binary :: "BinOp \<Rightarrow> ExactInt \<Rightarrow> ExactInt \<Rightarrow> (eval_error, ExactInt option) result" where
  "literal_binary BinOp.Add x y = Ok (Some (ExactInt_add x y))"
| "literal_binary BinOp.Sub x y = Ok (Some (ExactInt_sub x y))"
| "literal_binary BinOp.Mul x y = try_bind (or_panic (ExactInt_mul x y)) (\<lambda>z. Ok (Some z))"
| "literal_binary BinOp.Div x y = try_bind (literal_div_rem ''division'' x y) (\<lambda>(q, r). Ok (Some q))"
| "literal_binary BinOp.Mod x y = try_bind (literal_div_rem ''modulo'' x y) (\<lambda>(q, r). Ok (Some r))"
| "literal_binary BinOp.BitAnd x y = Ok (Some (ExactInt_and x y))"
| "literal_binary BinOp.BitOr x y = Ok (Some (ExactInt_or x y))"
| "literal_binary BinOp.BitXor x y = Ok (Some (ExactInt_xor x y))"
| "literal_binary BinOp.Shl x y = try_bind (literal_shift y) (\<lambda>n. Ok (Some (ExactInt_shl x n)))"
| "literal_binary BinOp.Shr x y = try_bind (literal_shift y) (\<lambda>n. Ok (Some (ExactInt_shr x n)))"
| "literal_binary _ x y = Ok None"

fun literal_unary :: "UnOp \<Rightarrow> ExactInt \<Rightarrow> ExactInt" where
  "literal_unary UnOp.Neg v = ExactInt_neg v"
| "literal_unary _ v = ExactInt_not v"

fun untyped_literal_eval :: "Expr \<Rightarrow> (eval_error, ExactInt option) result" where
  "untyped_literal_eval (Literal v ty) = Ok (literal_exact v ty)"
| "untyped_literal_eval (WideLiteral ws) = Ok (Some (from_words ws))"
| "untyped_literal_eval (Unary op inner) =
     (if op = UnOp.Not then Ok None
      else try_bind (untyped_literal_eval inner) (\<lambda>v. Ok (map_option (literal_unary op) v)))"
| "untyped_literal_eval (Binary op a b) =
     try_bind (untyped_literal_eval a) (\<lambda>x. try_bind (untyped_literal_eval b) (\<lambda>y.
       case (x, y) of (Some x, Some y) \<Rightarrow> literal_binary op x y | _ \<Rightarrow> Ok None))"
| "untyped_literal_eval _ = Ok None"

definition untyped_literal_exact :: "Expr \<Rightarrow> ExactInt option option" where
  "untyped_literal_exact e = (case untyped_literal_eval e of Inr v \<Rightarrow> Some v | Inl (Rejected _) \<Rightarrow> Some None | Inl Panicked \<Rightarrow> None)"

definition untyped_literal_expr :: "ExactInt \<Rightarrow> Expr" where
  "untyped_literal_expr v =
     (if is_negative v \<and> fits_i64 v then Literal (low_u64 v) (SInt None)
      else if \<not> is_negative v \<and> fits_u64 v then Literal (low_u64 v) Unknown
      else let magnitude = (if is_negative v then ExactInt_neg v else v);
               wide = WideLiteral (pattern_words magnitude (max (magnitude_bits magnitude) 65))
           in if is_negative v then Unary UnOp.Neg wide else wide)"

definition untyped_literal_value :: "Expr \<Rightarrow> u128 option option" where
  "untyped_literal_value e = map_option (\<lambda>v. Option.bind v to_i128) (untyped_literal_exact e)"

section \<open>Evaluation with 32-bit counts\<close>

text \<open>
  A shift amount of too many bits overflows when it is read as a number or printed; every path counts it.
\<close>

definition literal_shift32 :: "ExactInt \<Rightarrow> (eval_error, nat) result" where
  "literal_shift32 y = try_bind (or_panic (magnitude_bits32 y)) (\<lambda>_. literal_shift y)"

definition literal_div_rem32 :: "string \<Rightarrow> ExactInt \<Rightarrow> ExactInt \<Rightarrow> (eval_error, ExactInt \<times> ExactInt) result" where
  "literal_div_rem32 label x y =
     try_bind (or_panic (div_rem32 x y)) (\<lambda>r. case r of None \<Rightarrow> Err (Rejected (label @ '' by zero'')) | Some qr \<Rightarrow> Ok qr)"

fun literal_binary32 :: "BinOp \<Rightarrow> ExactInt \<Rightarrow> ExactInt \<Rightarrow> (eval_error, ExactInt option) result" where
  "literal_binary32 BinOp.Div x y = try_bind (literal_div_rem32 ''division'' x y) (\<lambda>(q, r). Ok (Some q))"
| "literal_binary32 BinOp.Mod x y = try_bind (literal_div_rem32 ''modulo'' x y) (\<lambda>(q, r). Ok (Some r))"
| "literal_binary32 BinOp.BitAnd x y = try_bind (or_panic (bitwise32 x y (AND))) (\<lambda>z. Ok (Some z))"
| "literal_binary32 BinOp.BitOr x y = try_bind (or_panic (bitwise32 x y (OR))) (\<lambda>z. Ok (Some z))"
| "literal_binary32 BinOp.BitXor x y = try_bind (or_panic (bitwise32 x y (XOR))) (\<lambda>z. Ok (Some z))"
| "literal_binary32 BinOp.Shl x y = try_bind (literal_shift32 y) (\<lambda>n. Ok (Some (ExactInt_shl x n)))"
| "literal_binary32 BinOp.Shr x y = try_bind (literal_shift32 y) (\<lambda>n. Ok (Some (ExactInt_shr x n)))"
| "literal_binary32 op x y = literal_binary op x y"

fun untyped_literal_eval32 :: "Expr \<Rightarrow> (eval_error, ExactInt option) result" where
  "untyped_literal_eval32 (Literal v ty) = Ok (literal_exact v ty)"
| "untyped_literal_eval32 (WideLiteral ws) = Ok (Some (from_words ws))"
| "untyped_literal_eval32 (Unary op inner) =
     (if op = UnOp.Not then Ok None
      else try_bind (untyped_literal_eval32 inner) (\<lambda>v. Ok (map_option (literal_unary op) v)))"
| "untyped_literal_eval32 (Binary op a b) =
     try_bind (untyped_literal_eval32 a) (\<lambda>x. try_bind (untyped_literal_eval32 b) (\<lambda>y.
       case (x, y) of (Some x, Some y) \<Rightarrow> literal_binary32 op x y | _ \<Rightarrow> Ok None))"
| "untyped_literal_eval32 _ = Ok None"

definition untyped_literal_expr32 :: "ExactInt \<Rightarrow> Expr option" where
  "untyped_literal_expr32 v = do {
     n \<leftarrow> magnitude_bits32 v;
     Some (if is_negative v \<and> fits_i64 v then Literal (low_u64 v) (SInt None)
       else if \<not> is_negative v \<and> fits_u64 v then Literal (low_u64 v) Unknown
       else let magnitude = (if is_negative v then ExactInt_neg v else v);
                wide = WideLiteral (pattern_words magnitude (max (unat n) 65))
            in if is_negative v then Unary UnOp.Neg wide else wide)
   }"

section \<open>Strict fit\<close>

fun untyped_literal_misfit :: "Expr \<Rightarrow> nat \<Rightarrow> bool \<Rightarrow> (eval_error, ExactInt option) result" where
  "untyped_literal_misfit (Ternary c t f) width sg =
     (if \<not> expr_is_untyped_literal (Ternary c t f) then Ok None
      else try_bind (untyped_literal_misfit t width sg) (\<lambda>r. case r of
          Some v \<Rightarrow> Ok (Some v)
        | None \<Rightarrow> untyped_literal_misfit f width sg))"
| "untyped_literal_misfit e width sg =
     (if \<not> expr_is_untyped_literal e then Ok None
      else try_bind (untyped_literal_eval e) (\<lambda>r. Ok (case r of
          None \<Rightarrow> None
        | Some v \<Rightarrow> if \<not> fits v width sg then Some v else None)))"

definition literal_width_spelling :: "ExactInt \<Rightarrow> string" where
  "literal_width_spelling v =
     (if is_negative v then ''a signed '' @ show_nat (literal_width v) @ ''-bit value''
      else ''a '' @ show_nat (literal_width v) @ ''-bit value'')"

text \<open>The lower bound of \<^verbatim>\<open>sint<0>\<close> would be computed at width \<open>-1\<close>, which panics.\<close>

definition scalar_range_spelling :: "nat \<Rightarrow> bool \<Rightarrow> string option" where
  "scalar_range_spelling width sg =
     (if sg \<and> width = 0 then None
      else do {
        lo \<leftarrow> (if sg then to_string (ExactInt_neg (pow2 (width - 1))) else Some ''0'');
        hi \<leftarrow> to_string (ExactInt_sub (pow2 (if sg then width - 1 else width)) (from_i128 1));
        Some ([CHR 0x60] @ (if sg then ''sint<'' else ''uint<'') @ show_nat width @ ''>'' @ [CHR 0x60] @
          '' (range '' @ lo @ ''..='' @ hi @ '')'') })"

text \<open>The verifier's test, which leaves out conditionals.\<close>

definition is_literal_op :: "BinOp \<Rightarrow> bool" where
  "is_literal_op op \<longleftrightarrow> op \<in> {BinOp.Add, BinOp.Sub, BinOp.Mul, BinOp.Div, BinOp.Mod, BinOp.BitAnd, BinOp.BitOr, BinOp.BitXor,
     BinOp.Shl, BinOp.Shr}"

fun is_untyped_literal_value :: "Expr \<Rightarrow> bool" where
  "is_untyped_literal_value (Literal _ ty) = untyped_width ty"
| "is_untyped_literal_value (WideLiteral _) = True"
| "is_untyped_literal_value (Unary op inner) = (op \<in> {UnOp.Neg, UnOp.BitNot, UnOp.BitNotHost} \<and> is_untyped_literal_value inner)"
| "is_untyped_literal_value (Binary op a b) = (is_literal_op op \<and> is_untyped_literal_value a \<and> is_untyped_literal_value b)"
| "is_untyped_literal_value _ = False"

definition untyped_literal_fits :: "IrType \<Rightarrow> Expr \<Rightarrow> bool option" where
  "untyped_literal_fits expected e =
     (if \<not> is_untyped_literal_value e then Some False
      else map_option (\<lambda>exact. case expected of
          UInt (Some w) \<Rightarrow> (case exact of None \<Rightarrow> False | Some v \<Rightarrow> fits v w False)
        | SInt (Some w) \<Rightarrow> (case exact of None \<Rightarrow> False | Some v \<Rightarrow> fits v w True)
        | UInt None \<Rightarrow> True
        | SInt None \<Rightarrow> True
        | _ \<Rightarrow> False) (untyped_literal_exact e))"

section \<open>The integer meaning of a literal tree\<close>

datatype fault = ZeroDivisor string | NegativeShift int | WideShift int

fun fault_text :: "fault \<Rightarrow> string" where
  "fault_text (ZeroDivisor label) = label @ '' by zero''"
| "fault_text (NegativeShift k) = ''negative shift amount ('' @ show_int k @ '')''"
| "fault_text (WideShift k) = ''shift amount '' @ show_int k @ '' is out of range (shift amounts must be 0..=1024)''"

fun lit_binary :: "BinOp \<Rightarrow> int \<Rightarrow> int \<Rightarrow> (fault, int option) result" where
  "lit_binary BinOp.Add x y = Ok (Some (x + y))"
| "lit_binary BinOp.Sub x y = Ok (Some (x - y))"
| "lit_binary BinOp.Mul x y = Ok (Some (x * y))"
| "lit_binary BinOp.Div x y = (if y = 0 then Err (ZeroDivisor ''division'') else Ok (Some (x sdiv y)))"
| "lit_binary BinOp.Mod x y = (if y = 0 then Err (ZeroDivisor ''modulo'') else Ok (Some (x smod y)))"
| "lit_binary BinOp.BitAnd x y = Ok (Some (x AND y))"
| "lit_binary BinOp.BitOr x y = Ok (Some (x OR y))"
| "lit_binary BinOp.BitXor x y = Ok (Some (x XOR y))"
| "lit_binary BinOp.Shl x y =
     (if y < 0 then Err (NegativeShift y) else if 1024 < y then Err (WideShift y) else Ok (Some (x * 2 ^ nat y)))"
| "lit_binary BinOp.Shr x y =
     (if y < 0 then Err (NegativeShift y) else if 1024 < y then Err (WideShift y) else Ok (Some (x div 2 ^ nat y)))"
| "lit_binary _ x y = Ok None"

fun lit_literal :: "u64 \<Rightarrow> IrType \<Rightarrow> int option" where
  "lit_literal v (SInt None) = Some (sint v)"
| "lit_literal v Unknown = Some (uint v)"
| "lit_literal v (UInt None) = Some (uint v)"
| "lit_literal v _ = None"

fun lit_int :: "Expr \<Rightarrow> (fault, int option) result" where
  "lit_int (Literal v ty) = Ok (lit_literal v ty)"
| "lit_int (WideLiteral ws) = Ok (Some (int (mag_val ws)))"
| "lit_int (Unary op inner) =
     (if op = UnOp.Not then Ok None
      else try_bind (lit_int inner) (\<lambda>k. Ok (map_option (\<lambda>k. if op = UnOp.Neg then - k else - k - 1) k)))"
| "lit_int (Binary op a b) =
     try_bind (lit_int a) (\<lambda>x. try_bind (lit_int b) (\<lambda>y.
       case (x, y) of (Some x, Some y) \<Rightarrow> lit_binary op x y | _ \<Rightarrow> Ok None))"
| "lit_int _ = Ok None"

definition computes :: "(eval_error, ExactInt option) result \<Rightarrow> (fault, int option) result \<Rightarrow> bool" where
  "computes r s = (case s of
     Inl f \<Rightarrow> r = Inl (Rejected (fault_text f))
   | Inr None \<Rightarrow> r = Inr None
   | Inr (Some k) \<Rightarrow> (\<exists>v. r = Inr (Some v) \<and> wf_exact v \<and> exact_val v = k))"

lemma computes_simps [simp]:
  "computes r (Inl f) \<longleftrightarrow> r = Inl (Rejected (fault_text f))" "computes r (Inr None) \<longleftrightarrow> r = Inr None"
  "computes r (Inr (Some k)) \<longleftrightarrow> (\<exists>v. r = Inr (Some v) \<and> wf_exact v \<and> exact_val v = k)"
  by (simp_all add: computes_def)

lemma or_panic_simps [simp]: "or_panic None = Inl Panicked" "or_panic (Some x) = Inr x"
  by (simp_all add: or_panic_def)

lemma sint_eq_uint: "uint v \<le> 2 ^ 63 - 1 \<Longrightarrow> sint (v :: u64) = uint v"
  by (simp add: sint_uint signed_take_bit_int_eq_self_iff) (rule order_trans [OF _ uint_ge_0]; simp)

lemma literal_exact_computes: "computes (Inr (literal_exact v ty)) (Inr (lit_literal v ty))"
proof -
  have "wf_exact (from_bits v sg)" for sg by (simp add: from_bits_def)
  then show ?thesis by (cases "(v, ty)" rule: literal_exact.cases) (auto simp: val_from_bits sint_eq_uint)
qed

lemma literal_shift_computes:
  assumes "wf_exact y"
  shows "literal_shift y =
    (if exact_val y < 0 then Inl (Rejected (fault_text (NegativeShift (exact_val y))))
     else if 1024 < exact_val y then Inl (Rejected (fault_text (WideShift (exact_val y))))
     else Inr (nat (exact_val y)))"
proof -
  have digits: "show_nat 1024 = ''1024''" by code_simp
  have s: "to_string y = Some (show_int (exact_val y))" using assms by (rule to_string_val)
  have n: "unat (word_of_int (exact_val y) :: u32) = nat (exact_val y)" if "0 \<le> exact_val y" "exact_val y < 2 ^ 32"
    using that by (simp add: unat_eq_nat_uint uint_word_of_int)
  show ?thesis
    using assms n by (auto simp: literal_shift_def is_negative_iff s to_u32_val MAX_WIDTH_METHOD_BITS_def digits)
qed

lemma literal_div_rem_computes:
  assumes "wf_exact x" "wf_exact y"
  shows "if exact_val y = 0 then literal_div_rem label x y = Inl (Rejected (fault_text (ZeroDivisor label)))
    else \<exists>q r. literal_div_rem label x y = Inr (q, r) \<and> wf_exact q \<and> wf_exact r \<and>
      exact_val q = exact_val x sdiv exact_val y \<and> exact_val r = exact_val x smod exact_val y"
  using div_rem_val [OF assms] by (auto simp: literal_div_rem_def split: if_splits)

lemma literal_binary_computes:
  assumes "wf_exact x" "wf_exact y"
  shows "computes (literal_binary op x y) (lit_binary op (exact_val x) (exact_val y))"
proof -
  have wf: "wf_exact (ExactInt_and x y)" "wf_exact (ExactInt_or x y)" "wf_exact (ExactInt_xor x y)"
    by (simp_all add: ExactInt_and_def ExactInt_or_def ExactInt_xor_def)
  show ?thesis
  proof (cases op)
    case Mul
    then show ?thesis using mul_val [of x y] by auto
  next
    case Div
    then show ?thesis using literal_div_rem_computes [OF assms, of "''division''"] by (auto split: if_splits)
  next
    case Mod
    then show ?thesis using literal_div_rem_computes [OF assms, of "''modulo''"] by (auto split: if_splits)
  qed (use assms wf in \<open>auto simp: exact_simps literal_shift_computes\<close>)
qed

lemma computes_bind:
  assumes "computes r s" "\<And>v. r = Inr (Some v) \<Longrightarrow> wf_exact v \<Longrightarrow> computes (g (Some v)) (h (Some (exact_val v)))"
    and "r = Inr None \<Longrightarrow> computes (g None) (h None)"
  shows "computes (try_bind r g) (try_bind s h)"
proof (cases s)
  case (Inr x)
  then show ?thesis using assms by (cases x) auto
qed (use assms(1) in simp)

lemma untyped_literal_eval_computes: "computes (untyped_literal_eval e) (lit_int e)"
proof (induction e rule: untyped_literal_eval.induct)
  case (1 v ty)
  then show ?case using literal_exact_computes by simp
next
  case (2 ws)
  then show ?case by (simp add: from_words_def limbs.signed_of_def)
next
  case (3 op inner)
  show ?case
  proof (cases "op = UnOp.Not")
    case False
    have u: "wf_exact (literal_unary op v) \<and> exact_val (literal_unary op v) = (if op = UnOp.Neg then - exact_val v else - exact_val v - 1)"
      if "wf_exact v" for v
      using that False by (cases op) (simp_all add: exact_simps ExactInt_not_def not_int_def)
    then show ?thesis using False 3 by (auto intro!: computes_bind)
  qed simp
next
  case (4 op a b)
  then show ?case by (auto intro!: computes_bind literal_binary_computes)
qed simp_all

lemma eval_never_panics: "untyped_literal_eval e \<noteq> Inl Panicked"
  using untyped_literal_eval_computes [of e] by (cases "lit_int e"; cases "projr (lit_int e)") auto

section \<open>Literals for exact values\<close>

lemma magnitude_lt: "\<bar>exact_val x\<bar> < 2 ^ magnitude_bits x"
proof -
  have "int (mag_val (mag x)) < int (2 ^ mag_bit_len (mag x))" using mag_val_less_pow_bit_len [of "mag x"] by (simp only: of_nat_less_iff)
  then show "\<bar>exact_val x\<bar> < 2 ^ magnitude_bits x" by (simp add: exact_val_def magnitude_bits_def)
qed

lemma wide_literal_computes:
  assumes "wf_exact v" "0 \<le> exact_val v"
  shows "from_words (pattern_words v (max (magnitude_bits v) 65)) = v"
proof -
  have "exact_val v < 2 ^ max (magnitude_bits v) 65"
  proof -
    have "(2 :: int) ^ magnitude_bits v \<le> 2 ^ max (magnitude_bits v) 65" by (rule power_increasing) simp_all
    then show ?thesis using magnitude_lt [of v] by linarith
  qed
  then have "exact_val (from_words (pattern_words v (max (magnitude_bits v) 65))) = exact_val v"
    using assms(2) by (simp add: from_words_def limbs.signed_of_def pattern_words_val)
  moreover have "wf_exact (from_words ws)" for ws by (simp add: from_words_def)
  ultimately show ?thesis using assms(1) exact_val_eq_iff by blast
qed

lemma sint_word_of_int_i64: "- (2 ^ 63) \<le> k \<Longrightarrow> k < 2 ^ 63 \<Longrightarrow> sint (word_of_int k :: u64) = k"
  by (simp add: signed_of_int signed_take_bit_int_eq_self_iff)

lemma literal_expr_computes:
  assumes "wf_exact v"
  shows "untyped_literal_eval (untyped_literal_expr v) = Inr (Some v)"
proof (cases "is_negative v \<and> fits_i64 v \<or> \<not> is_negative v \<and> fits_u64 v")
  case True
  then obtain ty where e: "untyped_literal_expr v = Literal (low_u64 v) ty" "lit_literal (low_u64 v) ty = Some (exact_val v)"
    using assms
    by (auto simp: untyped_literal_expr_def is_negative_iff fits_i64_iff fits_u64_iff low_u64_val uint_word_of_int
        sint_word_of_int_i64)
  then show ?thesis using literal_exact_computes [of "low_u64 v" ty] assms by (auto simp: exact_val_eq_iff)
next
  case False
  show ?thesis
  proof (cases "is_negative v")
    case True
    have "0 \<le> exact_val (ExactInt_neg v)" using True assms by (simp add: is_negative_iff exact_simps)
    moreover have "ExactInt_neg (ExactInt_neg v) = v"
      using exact_val_eq_iff [of "ExactInt_neg (ExactInt_neg v)" v] assms by (simp add: exact_simps)
    ultimately show ?thesis using False True wide_literal_computes [of "ExactInt_neg v"] by (simp add: untyped_literal_expr_def Let_def)
  next
    case nonneg: False
    then have "0 \<le> exact_val v" using assms by (simp add: is_negative_iff)
    then show ?thesis using False nonneg assms wide_literal_computes [of v] by (simp add: untyped_literal_expr_def Let_def)
  qed
qed

section \<open>Fit\<close>

definition in_range :: "nat \<Rightarrow> bool \<Rightarrow> int \<Rightarrow> bool" where
  "in_range w sg k \<longleftrightarrow> (if sg then - (2 ^ (w - 1)) \<le> k \<and> k < 2 ^ (w - 1) else 0 \<le> k \<and> k < 2 ^ w)"

lemma in_range_mono: "w \<le> w' \<Longrightarrow> in_range w sg k \<Longrightarrow> in_range w' sg k"
proof -
  assume w: "w \<le> w'"
  have "(2 :: int) ^ w \<le> 2 ^ w'" "(2 :: int) ^ (w - 1) \<le> 2 ^ (w' - 1)" using w by (simp_all add: diff_le_mono)
  then show "in_range w sg k \<Longrightarrow> in_range w' sg k" unfolding in_range_def by (smt (verit))
qed

lemma fits_in_range: "wf_exact v \<Longrightarrow> 0 < w \<Longrightarrow> fits v w sg \<longleftrightarrow> in_range w sg (exact_val v)"
  by (simp add: fits_iff in_range_def)

lemma literal_op_cases: "is_literal_op op \<longleftrightarrow> is_value_op op"
  by (cases op) (simp_all add: is_literal_op_def is_value_op_def)

lemma literal_value_is_untyped: "is_untyped_literal_value e \<Longrightarrow> expr_is_untyped_literal e"
  by (induction e rule: is_untyped_literal_value.induct) (auto simp: literal_op_cases)

lemma literal_value_has_value: "is_untyped_literal_value e \<Longrightarrow> lit_int e \<noteq> Inr None"
proof (induction e rule: is_untyped_literal_value.induct)
  case (1 v ty)
  then show ?case by (cases ty rule: untyped_width.cases) simp_all
next
  case (4 op a b)
  have "is_value_op op \<Longrightarrow> lit_binary op x y \<noteq> Inr None" for x y by (cases op) (simp_all add: is_value_op_def)
  then show ?case using 4 by (cases "lit_int a"; cases "lit_int b") (auto simp: literal_op_cases split: option.splits)
next
  case (3 op inner)
  then show ?case by (cases "lit_int inner") auto
qed simp_all

lemma misfit_no_ternary:
  assumes "is_untyped_literal_value e"
  shows "untyped_literal_misfit e w sg = try_bind (untyped_literal_eval e) (\<lambda>r. Ok (case r of
      None \<Rightarrow> None | Some v \<Rightarrow> if \<not> fits v w sg then Some v else None))"
  using assms literal_value_is_untyped [OF assms] by (cases e) simp_all

lemma literal_value_verdict:
  assumes "is_untyped_literal_value e"
  shows "(\<exists>k v. lit_int e = Inr (Some k) \<and> untyped_literal_eval e = Inr (Some v) \<and> wf_exact v \<and> exact_val v = k) \<or>
    (\<exists>f. lit_int e = Inl f \<and> untyped_literal_eval e = Inl (Rejected (fault_text f)))"
  using untyped_literal_eval_computes [of e] literal_value_has_value [OF assms]
  by (cases "lit_int e") (auto simp: not_None_eq)

section \<open>Bit counts at their width\<close>

text \<open>The operands of a tree, as integers, have few enough bits to be counted in 32 bits, with two to spare.\<close>

fun countable_tree :: "Expr \<Rightarrow> bool" where
  "countable_tree (Unary op inner) = countable_tree inner"
| "countable_tree (Binary op a b) =
     (countable_tree a \<and> countable_tree b \<and>
      list_all (\<lambda>e. case lit_int e of Inr (Some k) \<Rightarrow> bit_len (nat \<bar>k\<bar>) + 2 < 2 ^ 32 | _ \<Rightarrow> True) [a, b])"
| "countable_tree _ = True"

lemma literal_width_bound:
  assumes "wf_exact x" shows "literal_width x \<le> bit_len (nat \<bar>exact_val x\<bar>) + 1"
proof (cases "exact_val x < 0")
  case True
  have "bit_len (nat (- exact_val x - 1)) \<le> bit_len (nat (- exact_val x))" by (intro bit_len_mono) simp
  with True show ?thesis by (simp add: literal_width_neg [OF assms])
qed (simp add: literal_width_nonneg [OF assms])

lemma literal_binary32_eq:
  assumes "wf_exact x" "wf_exact y" "bit_len (nat \<bar>exact_val x\<bar>) + 2 < 2 ^ 32" "bit_len (nat \<bar>exact_val y\<bar>) + 2 < 2 ^ 32"
  shows "literal_binary32 op x y = literal_binary op x y"
proof -
  have bits: "magnitude_bits x < 2 ^ 32" "magnitude_bits y < 2 ^ 32"
    using assms by (simp_all add: magnitude_bits_val)
  have w: "literal_width x + 1 < 2 ^ 32" "literal_width y + 1 < 2 ^ 32"
    using assms literal_width_bound [of x] literal_width_bound [of y] by auto
  show ?thesis
    using bits bitwise32_eq [OF w] magnitude_bits32_eq
    by (cases op) (simp_all add: literal_shift32_def literal_div_rem32_def literal_div_rem_def div_rem32_eq
        ExactInt_and_def ExactInt_or_def ExactInt_xor_def)
qed

lemma untyped_literal_eval32_eq: "countable_tree e \<Longrightarrow> untyped_literal_eval32 e = untyped_literal_eval e"
proof (induction e rule: untyped_literal_eval32.induct)
  case (4 op a b)
  show ?case
  proof (cases "untyped_literal_eval a")
    case (Inr x)
    show ?thesis
    proof (cases "untyped_literal_eval b")
      case b: (Inr y)
      have "literal_binary32 op u v = literal_binary op u v" if "x = Some u" "y = Some v" for u v
        using 4(3) that Inr b untyped_literal_eval_computes [of a] untyped_literal_eval_computes [of b]
        by (intro literal_binary32_eq) (auto simp: computes_def split: sum.splits option.splits)
      then show ?thesis using 4 Inr b by (auto split: option.splits)
    qed (use 4 Inr in simp)
  qed (use 4 in simp)
qed simp_all


lemma untyped_literal_expr32_eq:
  assumes "wf_exact v" "magnitude_bits v < 2 ^ 32" shows "untyped_literal_expr32 v = Some (untyped_literal_expr v)"
proof -
  have "magnitude_bits (ExactInt_neg v) = magnitude_bits v"
    using assms(1) by (simp add: magnitude_bits_val exact_simps)
  then show ?thesis
    using magnitude_bits32_eq [OF assms(2)] assms(2)
    by (simp add: untyped_literal_expr32_def untyped_literal_expr_def Let_def unat_of_nat32)
qed

section \<open>Properties\<close>

text \<open>
  C12. The evaluation of an untyped literal tree, bit counts in checked \<^verbatim>\<open>u32\<close> arithmetic, is arithmetic on the integers for a tree in
  which every operand of a binary operator has a value of less than \<open>2\<^sup>3\<^sup>2 - 2\<close> bits: it returns the tree's value as
  a canonical exact integer, no value for a tree that is not a literal or depends on a condition, and an error
  exactly for a zero divisor or a shift amount outside 0 to 1024.  No count overflows and no limb loop panics.
\<close>

theorem literal_eval_is_integer_arithmetic:
  assumes "countable_tree e"
  shows "case lit_int e of
     Inl f \<Rightarrow> untyped_literal_eval32 e = Err (Rejected (fault_text f))
   | Inr None \<Rightarrow> untyped_literal_eval32 e = Ok None
   | Inr (Some k) \<Rightarrow> (\<exists>v. untyped_literal_eval32 e = Ok (Some v) \<and> wf_exact v \<and> exact_val v = k)"
  unfolding untyped_literal_eval32_eq [OF assms] using untyped_literal_eval_computes [of e] by (simp add: computes_def)

definition division_example :: Expr where
  "division_example = Binary BinOp.Div (Unary UnOp.Neg (Literal 7 Unknown)) (Binary BinOp.BitAnd (Literal 6 Unknown) (Literal 3 Unknown))"

theorem literal_eval_is_integer_arithmetic_witness:
  "\<exists>v. untyped_literal_eval32 division_example = Ok (Some v) \<and> exact_val v = - 3"
proof -
  have "lit_int division_example = Inr (Some (- 3))" by code_simp
  moreover have "countable_tree division_example"
    by (simp add: division_example_def bit_len.simps and_int_unfold)
  note literal_eval_is_integer_arithmetic [OF this]
  ultimately show ?thesis by auto
qed

text \<open>
  C14. Writing an exact value of less than \<open>2\<^sup>3\<^sup>2\<close> bits as a literal and evaluating the literal gives the value back, for
  either sign, without an overflow of the bit count; both lowering and the verifier take the written expression for an untyped literal.
\<close>

theorem literal_expr_reads_back:
  assumes "wf_exact v" "magnitude_bits v < 2 ^ 32"
  shows "\<exists>e. untyped_literal_expr32 v = Some e \<and> untyped_literal_eval32 e = Ok (Some v) \<and>
    expr_is_untyped_literal e \<and> is_untyped_literal_value e"
proof -
  let ?e = "untyped_literal_expr v"
  have "is_untyped_literal_value ?e" "countable_tree ?e" by (simp_all add: untyped_literal_expr_def Let_def)
  then show ?thesis
    using untyped_literal_expr32_eq [OF assms] literal_expr_computes [OF assms(1)] untyped_literal_eval32_eq
      literal_value_is_untyped by auto
qed

theorem literal_expr_reads_back_witness:
  "\<exists>e. untyped_literal_expr32 (from_parts True [0, 0, 1]) = Some e \<and> untyped_literal_eval32 e = Ok (Some (from_parts True [0, 0, 1]))"
proof -
  have "magnitude_bits (from_parts True [0, 0, 1]) < 2 ^ 32"
    by (simp add: magnitude_bits_def mag_bit_len_def trim.simps bit_len.simps)
  from literal_expr_reads_back [OF _ this] show ?thesis by auto
qed

text \<open>
  C13. Lowering and the verifier agree on what fits: for a literal tree without conditionals, the verifier accepts it for a
  scalar type exactly when lowering finds no misfit, and that is when the tree has a value in the range of the type.
\<close>

theorem strict_fit_agrees:
  assumes "is_untyped_literal_value e" "0 < w"
  shows "untyped_literal_fits (if sg then SInt (Some w) else UInt (Some w)) e = Some (untyped_literal_misfit e w sg = Ok None) \<and>
    (untyped_literal_misfit e w sg = Ok None \<longleftrightarrow> (\<exists>k. lit_int e = Ok (Some k) \<and> in_range w sg k))"
  using literal_value_verdict [OF assms(1)] assms fits_in_range [OF _ assms(2)]
  by (auto simp: untyped_literal_fits_def untyped_literal_exact_def misfit_no_ternary split: if_splits)

definition fit_example :: Expr where
  "fit_example = Binary BinOp.Sub (Binary BinOp.Shl (Literal 1 Unknown) (Literal 8 Unknown)) (Literal 1 Unknown)"

theorem strict_fit_agrees_witness:
  "untyped_literal_fits (UInt (Some 8)) fit_example = Some True \<and> untyped_literal_fits (SInt (Some 8)) fit_example = Some False"
proof -
  have ok: "is_untyped_literal_value fit_example" and k: "lit_int fit_example = Inr (Some 255)" by code_simp+
  have "untyped_literal_misfit fit_example 8 False = Ok None \<longleftrightarrow> in_range 8 False 255"
    "untyped_literal_misfit fit_example 8 True = Ok None \<longleftrightarrow> in_range 8 True 255"
    using strict_fit_agrees [OF ok, of 8 False] strict_fit_agrees [OF ok, of 8 True] k by simp_all
  then show ?thesis
    using strict_fit_agrees [OF ok, of 8 False] strict_fit_agrees [OF ok, of 8 True] by (simp add: in_range_def)
qed

end
