(* ===== verification/Verify_Types.thy ===== *)
theory Verify_Types
  imports Literal_Fit
begin

text \<open>
  The verifier's judgements on types and stored values (\<^verbatim>\<open>src/ir/verify.rs\<close>, with the rules it asks of
  \<^verbatim>\<open>src/ir/lower/components_impl.rs\<close>): which types a slot may have, which defaults are values of their field, and which type
  may flow into which.
\<close>

section \<open>Shapes of types\<close>

fun field_scalar_width_ok :: "IrType \<Rightarrow> bool" where
  "field_scalar_width_ok (UInt (Some w)) = (w \<le> MAX_WIDTH_METHOD_BITS)"
| "field_scalar_width_ok (SInt (Some w)) = (w \<le> MAX_WIDTH_METHOD_BITS)"
| "field_scalar_width_ok _ = True"

fun cover_scalar_type :: "IrType \<Rightarrow> bool" where
  "cover_scalar_type (UInt _) = True"
| "cover_scalar_type (SInt _) = True"
| "cover_scalar_type Bool = True"
| "cover_scalar_type Unknown = True"
| "cover_scalar_type _ = False"

fun fixed_vec_elem_valid :: "IrType \<Rightarrow> bool" where
  "fixed_vec_elem_valid Bool = True"
| "fixed_vec_elem_valid (UInt (Some w)) = (0 < w \<and> field_scalar_width_ok (UInt (Some w)))"
| "fixed_vec_elem_valid (SInt (Some w)) = (0 < w \<and> field_scalar_width_ok (SInt (Some w)))"
| "fixed_vec_elem_valid (FixedVec elem _) = fixed_vec_elem_valid elem"
| "fixed_vec_elem_valid _ = False"

fun persistent_fixed_vec_elem_valid :: "IrType \<Rightarrow> bool" where
  "persistent_fixed_vec_elem_valid Bool = True"
| "persistent_fixed_vec_elem_valid (Record _) = True"
| "persistent_fixed_vec_elem_valid (UInt (Some width)) = (0 < width)"
| "persistent_fixed_vec_elem_valid (SInt (Some width)) = (0 < width)"
| "persistent_fixed_vec_elem_valid (FixedVec elem _) = persistent_fixed_vec_elem_valid elem"
| "persistent_fixed_vec_elem_valid _ = False"

fun helper_fixed_vec_elem_valid :: "IrType \<Rightarrow> nat \<Rightarrow> bool" where
  "helper_fixed_vec_elem_valid (Record record) record_count = (record < record_count)"
| "helper_fixed_vec_elem_valid (FixedVec elem _) record_count = helper_fixed_vec_elem_valid elem record_count"
| "helper_fixed_vec_elem_valid scalar _ = fixed_vec_elem_valid scalar"

fun component_fixed_vec_elem_valid :: "IrType \<Rightarrow> nat \<Rightarrow> bool" where
  "component_fixed_vec_elem_valid (Record record) record_count = (record < record_count)"
| "component_fixed_vec_elem_valid (FixedVec elem _) record_count = component_fixed_vec_elem_valid elem record_count"
| "component_fixed_vec_elem_valid scalar _ = fixed_vec_elem_valid scalar"

fun queue_fixed_vec_elem_valid :: "IrType \<Rightarrow> nat \<Rightarrow> bool" where
  "queue_fixed_vec_elem_valid (Record record) record_count = (record < record_count)"
| "queue_fixed_vec_elem_valid (FixedVec elem _) record_count = queue_fixed_vec_elem_valid elem record_count"
| "queue_fixed_vec_elem_valid scalar _ = fixed_vec_elem_valid scalar"

fun sequence_elem_valid :: "IrType \<Rightarrow> nat \<Rightarrow> bool" where
  "sequence_elem_valid (FixedVec elem n) record_count = helper_fixed_vec_elem_valid (FixedVec elem n) record_count"
| "sequence_elem_valid (UInt _) _ = True"
| "sequence_elem_valid (SInt _) _ = True"
| "sequence_elem_valid Bool _ = True"
| "sequence_elem_valid _ _ = False"

fun helper_abi_type_valid :: "IrType \<Rightarrow> nat \<Rightarrow> bool" where
  "helper_abi_type_valid (RecordSeq record) record_count = (record < record_count)"
| "helper_abi_type_valid (Seq elem) record_count = sequence_elem_valid elem record_count"
| "helper_abi_type_valid (FixedVec elem _) record_count = helper_fixed_vec_elem_valid elem record_count"
| "helper_abi_type_valid IrType.String _ = True"
| "helper_abi_type_valid other _ = cover_scalar_type other"

fun callable_aggregate_type_valid :: "IrType \<Rightarrow> nat \<Rightarrow> bool" where
  "callable_aggregate_type_valid (RecordSeq record) record_count = (record < record_count)"
| "callable_aggregate_type_valid (Seq elem) record_count = sequence_elem_valid elem record_count"
| "callable_aggregate_type_valid (FixedVec elem n) record_count = component_fixed_vec_elem_valid (FixedVec elem n) record_count"
| "callable_aggregate_type_valid _ _ = True"

fun ir_type_contains_string :: "IrType \<Rightarrow> bool" where
  "ir_type_contains_string IrType.String = True"
| "ir_type_contains_string (Seq elem) = ir_type_contains_string elem"
| "ir_type_contains_string (FixedVec elem _) = ir_type_contains_string elem"
| "ir_type_contains_string _ = False"

definition ir_type_is_nested_string :: "IrType \<Rightarrow> bool" where
  "ir_type_is_nested_string ty \<longleftrightarrow> ty \<noteq> IrType.String \<and> ir_type_contains_string ty"

fun queue_elem_contains_string :: "QueueElem \<Rightarrow> bool" where
  "queue_elem_contains_string (QScalar ty) = ir_type_contains_string ty"
| "queue_elem_contains_string (QFixedVec elem _) = ir_type_contains_string elem"
| "queue_elem_contains_string (QList elem) = ir_type_contains_string elem"
| "queue_elem_contains_string (QRecord _) = False"

section \<open>Assignment\<close>

fun sized_assign :: "IrType \<Rightarrow> IrType \<Rightarrow> bool" where
  "sized_assign (UInt (Some ew)) (UInt (Some aw)) = (aw \<le> ew)"
| "sized_assign (SInt (Some ew)) (SInt (Some aw)) = (aw \<le> ew)"
| "sized_assign (UInt (Some ew)) Bool = (1 \<le> ew)"
| "sized_assign (SInt (Some ew)) Bool = (1 \<le> ew)"
| "sized_assign _ _ = False"

definition assign_compatible :: "IrType \<Rightarrow> IrType \<Rightarrow> bool" where
  "assign_compatible expected actual =
     (if (expected = IrType.String) \<noteq> (actual = IrType.String) then False
      else if expected = Unknown \<or> actual = Unknown then True
      else if expected = actual then True
      else if widthless expected \<or> widthless actual then True
      else sized_assign expected actual)"

definition string_value_compatible :: "IrType \<Rightarrow> IrType \<Rightarrow> bool" where
  "string_value_compatible expected actual \<longleftrightarrow> (expected = IrType.String) = (actual = IrType.String)"

definition aggregate_assignment_compatible :: "IrType \<Rightarrow> IrType \<Rightarrow> bool" where
  "aggregate_assignment_compatible expected actual =
     (case (expected, actual) of
        (Record e, Record a) \<Rightarrow> e = a
      | (Record _, _) \<Rightarrow> False
      | (_, Record _) \<Rightarrow> False
      | (RecordSeq e, RecordSeq a) \<Rightarrow> e = a
      | (RecordSeq _, _) \<Rightarrow> False
      | (_, RecordSeq _) \<Rightarrow> False
      | (Seq e, Seq a) \<Rightarrow> sequence_element_compatible e a
      | (Seq _, _) \<Rightarrow> False
      | (_, Seq _) \<Rightarrow> False
      | _ \<Rightarrow> assign_compatible expected actual)"

definition is_aggregate :: "IrType \<Rightarrow> bool" where
  "is_aggregate ty = (case ty of Record _ \<Rightarrow> True | RecordSeq _ \<Rightarrow> True | Seq _ \<Rightarrow> True | FixedVec _ _ \<Rightarrow> True | _ \<Rightarrow> False)"

definition call_argument_type_compatible :: "IrType \<Rightarrow> IrType \<Rightarrow> bool" where
  "call_argument_type_compatible expected actual =
     (case (expected, actual) of
        (IrType.Component e, IrType.Component a) \<Rightarrow> e = a
      | (IrType.Component _, _) \<Rightarrow> False
      | (_, IrType.Component _) \<Rightarrow> False
      | _ \<Rightarrow> if is_aggregate expected \<or> is_aggregate actual then aggregate_assignment_compatible expected actual
             else string_value_compatible expected actual)"

fun fixed_vec_abi_compatible :: "IrType \<Rightarrow> IrType \<Rightarrow> bool" where
  "fixed_vec_abi_compatible (FixedVec expected_elem expected_len) (FixedVec actual_elem actual_len) =
     (case (value_abi_class expected_elem, value_abi_class actual_elem) of
        (Some expected_class, Some actual_class) \<Rightarrow> expected_len = actual_len \<and> expected_class = actual_class
      | _ \<Rightarrow> False)"
| "fixed_vec_abi_compatible _ _ = False"

definition cover_call_compatible :: "IrType \<Rightarrow> IrType \<Rightarrow> bool" where
  "cover_call_compatible expected actual =
     (let whole = (\<lambda>ty. case ty of FixedVec _ _ \<Rightarrow> True | RecordSeq _ \<Rightarrow> True | Seq _ \<Rightarrow> True | _ \<Rightarrow> False) in
      if whole expected \<or> whole actual then expected = actual
      else cover_scalar_type expected \<and> cover_scalar_type actual \<and>
           (expected = Unknown \<or> actual = Unknown \<or> assign_compatible expected actual))"

definition queue_elem_accepts_type :: "QueueElem \<Rightarrow> IrType \<Rightarrow> bool" where
  "queue_elem_accepts_type elem actual \<longleftrightarrow> actual = Unknown \<or> assign_compatible (QueueElem_ir_type elem) actual"

definition queue_elem_fits_dest :: "QueueElem \<Rightarrow> IrType \<Rightarrow> bool" where
  "queue_elem_fits_dest elem dest \<longleftrightarrow> dest = Unknown \<or> assign_compatible dest (QueueElem_ir_type elem)"

section \<open>Event payloads across a connection\<close>

definition BUILTIN_SCALAR_BITS :: nat where
  "BUILTIN_SCALAR_BITS = 128"

fun scalar_storage_rank :: "IrType \<Rightarrow> nat" where
  "scalar_storage_rank (UInt (Some w)) = (if w > BUILTIN_SCALAR_BITS then div_ceil w 32 else if w > 64 then 1 else 0)"
| "scalar_storage_rank (SInt (Some w)) = (if w > BUILTIN_SCALAR_BITS then div_ceil w 32 else if w > 64 then 1 else 0)"
| "scalar_storage_rank _ = 0"

definition connect_delivery_is_faithful :: "IrType \<Rightarrow> IrType \<Rightarrow> bool" where
  "connect_delivery_is_faithful src sink \<longleftrightarrow> scalar_storage_rank src \<le> scalar_storage_rank sink"

fun connect_payload_matches_ir_type :: "EventPayload \<Rightarrow> IrType \<Rightarrow> bool" where
  "connect_payload_matches_ir_type _ Unknown = True"
| "connect_payload_matches_ir_type (Scalar _ _ _) (UInt _) = True"
| "connect_payload_matches_ir_type (Scalar _ _ _) (SInt _) = True"
| "connect_payload_matches_ir_type (Scalar _ _ _) Bool = True"
| "connect_payload_matches_ir_type (PRecord source) (Record sink) = (source = sink)"
| "connect_payload_matches_ir_type (PFixedVec e n) (FixedVec e' n') = (value_ir_type (PFixedVec e n) = Some (FixedVec e' n'))"
| "connect_payload_matches_ir_type _ _ = False"

definition connect_payload_reaches_param :: "EventPayload \<Rightarrow> IrType \<Rightarrow> bool" where
  "connect_payload_reaches_param payload ty =
     (if \<not> connect_payload_matches_ir_type payload ty then False
      else case scalar_ir_type payload of Some src \<Rightarrow> connect_delivery_is_faithful src ty | None \<Rightarrow> True)"

fun event_payloads_agree_in_shape :: "EventPayload \<Rightarrow> EventPayload \<Rightarrow> bool" where
  "event_payloads_agree_in_shape (Scalar _ _ _) (Scalar _ _ _) = True"
| "event_payloads_agree_in_shape (PRecord a) (PRecord b) = (a = b)"
| "event_payloads_agree_in_shape (PFixedVec e n) (PFixedVec e' n') = (PFixedVec e n = PFixedVec e' n')"
| "event_payloads_agree_in_shape _ _ = False"

definition connect_payloads_bridge :: "EventPayload \<Rightarrow> EventPayload \<Rightarrow> bool" where
  "connect_payloads_bridge src sink =
     (if \<not> event_payloads_agree_in_shape src sink then False
      else case (scalar_ir_type src, scalar_ir_type sink) of
          (Some s, Some k) \<Rightarrow> connect_delivery_is_faithful s k
        | _ \<Rightarrow> True)"

definition event_payload_handler_matches_type :: "EventPayload \<Rightarrow> IrType \<Rightarrow> bool" where
  "event_payload_handler_matches_type payload ty \<longleftrightarrow> value_ir_type payload = Some ty"

section \<open>Scalar defaults\<close>

datatype ScalarDefault = Narrow u64 | Wide "u32 list"

definition ScalarDefault_low_u64 :: "ScalarDefault \<Rightarrow> u64" where
  "ScalarDefault_low_u64 d = (case d of
     Narrow v \<Rightarrow> v
   | Wide ws \<Rightarrow>
       let lo = ucast (case ws of w # _ \<Rightarrow> w | [] \<Rightarrow> 0); hi = ucast (if 1 < length ws then ws ! 1 else 0)
       in lo OR push_bit 32 hi)"

definition wide_bit :: "u32 list \<Rightarrow> nat \<Rightarrow> u32" where
  "wide_bit ws i = drop_bit (i mod 32) (ws ! (i div 32)) AND 1"

text \<open>
  The width of the carrier is a natural; the code computes it in \<^verbatim>\<open>u32\<close>, which holds it for widths up to \<open>2\<^sup>3\<^sup>2 - 32\<close>.
\<close>

definition wide_default_valid :: "IrType \<Rightarrow> u32 list \<Rightarrow> bool" where
  "wide_default_valid ty ws =
     (case (case ty of UInt (Some w) \<Rightarrow> if w > 64 then Some (w, False) else None
           | SInt (Some w) \<Rightarrow> if w > 64 then Some (w, True) else None
           | _ \<Rightarrow> None) of
        None \<Rightarrow> False
      | Some (width, sg) \<Rightarrow>
          let carrier = (if width \<le> 128 then 4 else div_ceil width 32) in
          if length ws \<noteq> carrier then False
          else let total = carrier * 32 in
            if sg then list_all (\<lambda>i. wide_bit ws i = wide_bit ws (width - 1)) [width..<total]
            else list_all (\<lambda>i. wide_bit ws i = 0) [width..<total])"

fun narrow_default_valid :: "IrType \<Rightarrow> u64 \<Rightarrow> bool" where
  "narrow_default_valid Bool v = (uint v \<le> 1)"
| "narrow_default_valid (UInt (Some width)) v =
     (if width > 64 then uint v \<le> 2 ^ 63 - 1 else if width < 64 then v < push_bit width 1 else True)"
| "narrow_default_valid (UInt None) v = True"
| "narrow_default_valid (SInt (Some width)) v =
     (if width > 64 then uint v \<le> 2 ^ 63 - 1
      else if 1 \<le> width \<and> width < 64 then - (2 ^ (width - 1)) \<le> sint v \<and> sint v < 2 ^ (width - 1)
      else True)"
| "narrow_default_valid (SInt None) v = True"
| "narrow_default_valid _ v = False"

definition scalar_default_valid :: "IrType \<Rightarrow> ScalarDefault \<Rightarrow> bool option" where
  "scalar_default_valid ty d =
     (if \<not> (case ty of Bool \<Rightarrow> True | UInt _ \<Rightarrow> True | SInt _ \<Rightarrow> True | _ \<Rightarrow> False) then None
      else Some (case d of Narrow v \<Rightarrow> narrow_default_valid ty v | Wide ws \<Rightarrow> wide_default_valid ty ws))"

section \<open>Values of a type\<close>

text \<open>The integers a sized scalar type stands for.\<close>

fun type_values :: "IrType \<Rightarrow> int set" where
  "type_values Bool = {0, 1}"
| "type_values (UInt (Some w)) = {k. in_range w False k}"
| "type_values (SInt (Some w)) = {k. in_range w True k}"
| "type_values _ = {}"

fun sized :: "IrType \<Rightarrow> bool" where
  "sized Bool = True"
| "sized (UInt (Some w)) = (0 < w)"
| "sized (SInt (Some w)) = (0 < w)"
| "sized _ = False"

lemma sized_cases:
  assumes "sized ty"
  obtains (bool) "ty = Bool" | (uint) w where "ty = UInt (Some w)" "0 < w" | (sint) w where "ty = SInt (Some w)" "0 < w"
  using assms by (cases ty rule: sized.cases) auto

lemma bool_range: "0 < w \<Longrightarrow> in_range w sg 0" "0 < w \<Longrightarrow> in_range w False 1" "1 < w \<Longrightarrow> in_range w True 1"
proof -
  show "0 < w \<Longrightarrow> in_range w sg 0" by (simp add: in_range_def)
  show "0 < w \<Longrightarrow> in_range w False 1" by (simp add: in_range_def one_less_power)
  show "1 < w \<Longrightarrow> in_range w True 1" by (simp add: in_range_def) (smt (verit) one_less_power zero_less_diff)
qed

lemma assign_sized:
  assumes "sized e" "sized a"
  shows "assign_compatible e a \<longleftrightarrow> e = a \<or> sized_assign e a"
  using assms by (auto simp: assign_compatible_def widthless_def)

lemma assign_compatible_values:
  assumes "sized e" "sized a" "assign_compatible e a" "\<not> (e = SInt (Some 1) \<and> a = Bool)"
  shows "type_values a \<subseteq> type_values e"
  using assms(1)
proof (cases rule: sized_cases)
  case bool
  then show ?thesis using assms by (auto simp: assign_sized)
next
  case (uint w)
  show ?thesis using assms(2)
    by (cases rule: sized_cases) (use uint assms in \<open>auto simp: assign_sized bool_range intro: in_range_mono\<close>)
next
  case (sint w)
  show ?thesis using assms(2)
    by (cases rule: sized_cases) (use sint assms in \<open>auto simp: assign_sized bool_range intro: in_range_mono\<close>)
qed

lemma assign_compatible_trans:
  assumes "sized a" "sized b" "sized c" "assign_compatible a b" "assign_compatible b c"
  shows "assign_compatible a c"
  using assms by (auto simp: assign_sized elim!: sized_assign.elims)

text \<open>The truth value \<open>1\<close> is accepted into a \<^verbatim>\<open>sint<1>\<close>, which does not have it.\<close>

lemma bool_into_sint1: "assign_compatible (SInt (Some 1)) Bool" "1 \<in> type_values Bool" "1 \<notin> type_values (SInt (Some 1))"
  by (simp_all add: assign_compatible_def widthless_def in_range_def)

section \<open>Values of a default\<close>

fun default_value :: "nat \<Rightarrow> bool \<Rightarrow> ScalarDefault \<Rightarrow> int" where
  "default_value w sg (Narrow v) = (if sg \<and> w \<le> 64 then sint v else uint v)"
| "default_value w sg (Wide ws) = (if sg then signed_take_bit (32 * length ws - 1) (int (mag_val ws)) else int (mag_val ws))"

fun default_carried :: "nat \<Rightarrow> ScalarDefault \<Rightarrow> bool" where
  "default_carried w (Narrow v) = (w \<le> 64 \<or> uint v < 2 ^ 63)"
| "default_carried w (Wide ws) = (64 < w \<and> length ws = (if w \<le> 128 then 4 else div_ceil w 32))"

lemma wide_bit_eq: "i < 32 * length ws \<Longrightarrow> wide_bit ws i = of_bool (bit (int (mag_val ws)) i)"
proof -
  assume "i < 32 * length ws"
  then have "bit (int (mag_val ws)) i \<longleftrightarrow> bit (ws ! (i div 32)) (i mod 32)" by (simp add: bit_of_nat_iff_bit bit_mag_val less_mult_imp_div_less)
  then show ?thesis by (simp add: wide_bit_def and_one_eq bit_iff_odd_drop_bit odd_iff_mod_2_eq_one)
qed

lemma unsigned_fits_bits:
  assumes "0 \<le> m" "m < 2 ^ t" "w \<le> t"
  shows "(\<forall>i \<in> {w..<t}. \<not> bit m i) \<longleftrightarrow> m < (2 :: int) ^ w"
proof -
  have high: "\<not> bit m i" if "t \<le> i" for i
    using assms(1,2) that by (metis bit_take_bit_iff leD take_bit_int_eq_self_iff)
  have "m < 2 ^ w \<longleftrightarrow> take_bit w m = m" using assms(1) by (simp add: take_bit_int_eq_self_iff)
  also have "\<dots> \<longleftrightarrow> (\<forall>i. bit m i \<longrightarrow> i < w)" by (auto simp: bit_eq_iff bit_take_bit_iff)
  also have "\<dots> \<longleftrightarrow> (\<forall>i \<in> {w..<t}. \<not> bit m i)" using high by (metis atLeastLessThan_iff leD leI)
  finally show ?thesis by simp
qed

lemma signed_fits_bits:
  assumes "0 < w" "w \<le> t"
  shows "(\<forall>i \<in> {w..<t}. bit m i = bit m (w - 1)) \<longleftrightarrow> in_range w True (signed_take_bit (t - 1) m)"
proof -
  let ?k = "signed_take_bit (t - 1) m"
  have k: "bit ?k i = bit m (min i (t - 1))" for i by (simp add: bit_signed_take_bit_iff min.commute)
  have "in_range w True ?k \<longleftrightarrow> signed_take_bit (w - 1) ?k = ?k"
    by (simp only: in_range_def if_True signed_take_bit_int_eq_self_iff)
  also have "\<dots> \<longleftrightarrow> (\<forall>i. bit m (min (min i (w - 1)) (t - 1)) = bit m (min i (t - 1)))"
    by (simp add: bit_eq_iff bit_signed_take_bit_iff k ac_simps)
  also have "\<dots> \<longleftrightarrow> (\<forall>i \<in> {w..<t}. bit m i = bit m (w - 1))"
  proof
    assume all: "\<forall>i. bit m (min (min i (w - 1)) (t - 1)) = bit m (min i (t - 1))"
    show "\<forall>i \<in> {w..<t}. bit m i = bit m (w - 1)"
    proof
      fix i assume "i \<in> {w..<t}"
      then show "bit m i = bit m (w - 1)" using all [rule_format, of i] assms by (simp add: min_def split: if_splits)
    qed
  next
    assume all: "\<forall>i \<in> {w..<t}. bit m i = bit m (w - 1)"
    show "\<forall>i. bit m (min (min i (w - 1)) (t - 1)) = bit m (min i (t - 1))"
    proof
      fix i show "bit m (min (min i (w - 1)) (t - 1)) = bit m (min i (t - 1))"
      proof (cases "i < w")
        case True
        then show ?thesis using assms by (simp add: min_absorb1)
      next
        case False
        then have "min i (w - 1) = w - 1" "min (w - 1) (t - 1) = w - 1" using assms by simp_all
        moreover have "min i (t - 1) \<in> {w..<t} \<or> min i (t - 1) = w - 1" using False assms by auto
        ultimately show ?thesis using all by metis
      qed
    qed
  qed
  finally show ?thesis by simp
qed

lemma carrier_bits: "64 < w \<Longrightarrow> w \<le> 32 * (if w \<le> 128 then 4 else div_ceil w 32)"
  by (simp add: div_ceil_def) presburger

lemma wide_default_in_range:
  assumes "0 < w"
  shows "wide_default_valid (if sg then SInt (Some w) else UInt (Some w)) ws \<longleftrightarrow>
    default_carried w (Wide ws) \<and> in_range w sg (default_value w sg (Wide ws))"
proof (cases "64 < w \<and> length ws = (if w \<le> 128 then 4 else div_ceil w 32)")
  case True
  let ?t = "32 * length ws" and ?m = "int (mag_val ws)"
  have t: "w \<le> ?t" using True carrier_bits [of w] by simp
  have "?m < int (2 ^ ?t)" using mag_val_less [of ws] by (simp only: of_nat_less_iff)
  then have m: "0 \<le> ?m" "?m < 2 ^ ?t" by simp_all
  have bits: "wide_bit ws i = of_bool (bit ?m i)" if "i < ?t" for i using that by (rule wide_bit_eq)
  have "wide_default_valid (UInt (Some w)) ws \<longleftrightarrow> (\<forall>i \<in> {w..<?t}. \<not> bit ?m i)"
    using True bits by (auto simp: wide_default_valid_def list_all_iff mult.commute)
  moreover have "wide_default_valid (SInt (Some w)) ws \<longleftrightarrow> (\<forall>i \<in> {w..<?t}. bit ?m i = bit ?m (w - 1))"
    using True bits [of "w - 1"] bits t assms by (auto simp: wide_default_valid_def list_all_iff mult.commute)
  ultimately show ?thesis
    using True unsigned_fits_bits [OF m t] signed_fits_bits [OF assms t, of ?m] m(1) by (simp add: in_range_def)
next
  case False
  then show ?thesis by (auto simp: wide_default_valid_def)
qed

lemma narrow_default_in_range:
  assumes "0 < w"
  shows "narrow_default_valid (if sg then SInt (Some w) else UInt (Some w)) v \<longleftrightarrow>
    default_carried w (Narrow v) \<and> in_range w sg (default_value w sg (Narrow v))"
proof (cases "64 < w")
  case True
  have "(2 :: int) ^ 63 \<le> 2 ^ (w - 1)" "(2 :: int) ^ 63 \<le> 2 ^ w" using True by (intro power_increasing; simp)+
  moreover have "- ((2 :: int) ^ (w - 1)) \<le> 0" by simp
  ultimately have "in_range w sg (uint v)" if "uint v < 2 ^ 63"
    using that uint_ge_0 [of v] unfolding in_range_def by (smt (verit))
  then show ?thesis using True by auto
next
  case False
  have "v < push_bit w 1 \<longleftrightarrow> uint v < 2 ^ w" if "w < 64"
  proof -
    have "uint (push_bit w (1 :: u64)) = 2 ^ w"
      using that by (simp only: unsigned_push_bit_eq) (simp add: take_bit_int_eq_self push_bit_eq_mult)
    then show ?thesis by (simp add: word_less_def)
  qed
  moreover have "uint v < 2 ^ 64" "- (2 ^ 63) \<le> sint v" "sint v < 2 ^ 63" using uint_bounded [of v] sint_ge [of v] sint_lt [of v] by simp_all
  ultimately show ?thesis using False assms by (cases "w = 64") (auto simp: in_range_def)
qed

section \<open>Storage of a delivered payload\<close>

fun storage_bits :: "IrType \<Rightarrow> nat" where
  "storage_bits (UInt (Some w)) = (if w > 128 then 32 * div_ceil w 32 else if w > 64 then 128 else 64)"
| "storage_bits (SInt (Some w)) = (if w > 128 then 32 * div_ceil w 32 else if w > 64 then 128 else 64)"
| "storage_bits _ = 64"

lemma storage_bits_rank:
  "storage_bits ty = (if scalar_storage_rank ty = 0 then 64 else if scalar_storage_rank ty = 1 then 128 else 32 * scalar_storage_rank ty) \<and>
   (1 < scalar_storage_rank ty \<longrightarrow> 4 < scalar_storage_rank ty)"
proof -
  have "4 < div_ceil w 32" if "128 < w" for w using that by (simp add: div_ceil_def) presburger
  then show ?thesis by (cases ty rule: storage_bits.cases) (force simp: BUILTIN_SCALAR_BITS_def)+
qed

lemma delivery_storage: "connect_delivery_is_faithful src sink \<longleftrightarrow> storage_bits src \<le> storage_bits sink"
  using storage_bits_rank [of src] storage_bits_rank [of sink] by (auto simp: connect_delivery_is_faithful_def split: if_splits)

section \<open>Properties\<close>

text \<open>
  C15. A scalar default is accepted exactly when it fills the carrier of its field and the value it stands for lies in the
  range of the declared type: a 64-bit pattern read with the field's sign up to 64 bits, and beyond that the words of the carrier
  in two's complement, or a pattern below \<open>2\<^sup>6\<^sup>3\<close>.
\<close>

theorem scalar_default_exact:
  assumes "0 < w"
  shows "scalar_default_valid (if sg then SInt (Some w) else UInt (Some w)) d =
    Some (default_carried w d \<and> in_range w sg (default_value w sg d))"
  using narrow_default_in_range [OF assms, of sg] wide_default_in_range [OF assms, of sg]
  by (cases d) (simp_all add: scalar_default_valid_def del: default_value.simps default_carried.simps narrow_default_valid.simps)

theorem scalar_default_exact_witness:
  "scalar_default_valid (SInt (Some 8)) (Narrow (- 128)) = Some True \<and> scalar_default_valid (SInt (Some 8)) (Narrow 128) = Some False \<and>
   scalar_default_valid (UInt (Some 65)) (Wide [0, 0, 1, 0]) = Some True \<and>
   scalar_default_valid (UInt (Some 65)) (Wide [0, 0, 2, 0]) = Some False"
  using scalar_default_exact [of 8 True "Narrow (- 128)"] scalar_default_exact [of 8 True "Narrow 128"]
    scalar_default_exact [of 65 False "Wide [0, 0, 1, 0]"] scalar_default_exact [of 65 False "Wide [0, 0, 2, 0]"]
  by (simp add: in_range_def)

text \<open>
  C16. A value that the verifier lets into a queue of sized scalars and out of it again keeps its value: every value of the
  pushed type is one of the element type and of the destination type.  The exception is a truth value on its way through
  \<^verbatim>\<open>sint<1>\<close>.
\<close>

theorem queue_keeps_values:
  assumes "sized a" "sized t" "sized d"
    and "queue_elem_accepts_type (QScalar t) a" "queue_elem_fits_dest (QScalar t) d"
    and "a = Bool \<longrightarrow> t \<noteq> SInt (Some 1) \<and> d \<noteq> SInt (Some 1)"
  shows "assign_compatible d a \<and> type_values a \<subseteq> type_values t \<and> type_values t \<subseteq> type_values d"
proof -
  have t: "assign_compatible t a" and d: "assign_compatible d t"
    using assms by (auto simp: queue_elem_accepts_type_def queue_elem_fits_dest_def)
  have "t = Bool \<Longrightarrow> a = Bool" using t assms(1,2) by (auto simp: assign_sized elim!: sized_assign.elims)
  then show ?thesis
    using assms t d assign_compatible_trans [OF assms(3,2,1) d t] assign_compatible_values [of t a] assign_compatible_values [of d t] by blast
qed

theorem queue_keeps_values_witness:
  "type_values Bool \<subseteq> type_values (SInt (Some 2)) \<and> type_values (SInt (Some 2)) \<subseteq> type_values (SInt (Some 9))"
  using queue_keeps_values [of Bool "SInt (Some 2)" "SInt (Some 9)"]
  by (simp add: queue_elem_accepts_type_def queue_elem_fits_dest_def assign_compatible_def widthless_def)

text \<open>
  A connection is accepted exactly when the payloads have the same shape and the storage of the receiving side has at
  least the bits of the sending side's: no notification is truncated, and none that fits is refused.
\<close>

theorem connections_keep_bits:
  "connect_payloads_bridge src sink \<longleftrightarrow>
     event_payloads_agree_in_shape src sink \<and>
     (case (scalar_ir_type src, scalar_ir_type sink) of (Some s, Some k) \<Rightarrow> storage_bits s \<le> storage_bits k | _ \<Rightarrow> True)"
  by (simp add: connect_payloads_bridge_def delivery_storage split: option.split)

end
