(* ===== verification/Arch_Width.thy ===== *)
theory Arch_Width
  imports Literal_Fit Scalar_Evidence
begin

text \<open>
  The static width of an expression (\<^verbatim>\<open>arch_shape\<close> of \<^verbatim>\<open>src/ir/lower/exprs.rs\<close> and the check on it in \<^verbatim>\<open>stmts.rs\<close>): sums get
  one bit more than the wider operand, products the sum of the widths.  The declared type of a leaf comes from
  the function's context; it is the parameter \<open>leaf\<close>, the code's \<^verbatim>\<open>scalar_assignment_type\<close>.

  Widths are naturals: \<^verbatim>\<open>u32\<close> would overflow only for an expression with millions of leaves.
\<close>

section \<open>Shapes\<close>

datatype ArchShape = Typed nat bool | Lit nat | Widthless | Other

text \<open>
  Widths are naturals; the code keeps them in \<^verbatim>\<open>u32\<close>, where a literal or a sum of more than \<open>2\<^sup>3\<^sup>2 - 32\<close> bits would not fit.
\<close>

definition value_bits :: "u64 \<Rightarrow> nat" where
  "value_bits v = max (bit_len (unat v)) 1"

definition lower_wide_literal_bits :: "u32 list \<Rightarrow> nat" where
  "lower_wide_literal_bits words =
     (case find (\<lambda>(i, w). w \<noteq> 0) (rev (enumerate 0 words)) of
        None \<Rightarrow> 1
      | Some (idx, w) \<Rightarrow> idx * 32 + bit_len (unat w))"

fun shape_of_type :: "IrType option \<Rightarrow> ArchShape" where
  "shape_of_type (Some (UInt (Some width))) = Typed width False"
| "shape_of_type (Some (SInt (Some width))) = Typed width True"
| "shape_of_type (Some (UInt None)) = Widthless"
| "shape_of_type (Some (SInt None)) = Widthless"
| "shape_of_type _ = Other"

text \<open>The leading zeros of a complement are what its bit length leaves of 64.\<close>

definition literal_shape :: "u64 \<Rightarrow> IrType \<Rightarrow> IrType option \<Rightarrow> ArchShape" where
  "literal_shape v ty declared =
     (case ty of
        Unknown \<Rightarrow> Lit (value_bits v)
      | UInt None \<Rightarrow> Lit (value_bits v)
      | SInt None \<Rightarrow> if sint v < 0 then Lit (65 - min (64 - bit_len (unat (NOT v))) 64) else Lit (value_bits v)
      | _ \<Rightarrow> shape_of_type declared)"

fun operand :: "ArchShape \<Rightarrow> (nat \<times> bool option) option" where
  "operand (Typed width sg) = Some (width, Some sg)"
| "operand (Lit width) = Some (width, None)"
| "operand _ = None"

definition narrow_mask :: "nat \<Rightarrow> bool option \<Rightarrow> nat \<Rightarrow> bool option \<Rightarrow> bool" where
  "narrow_mask lw ls rw rs \<longleftrightarrow> lw < rw \<and> ls \<noteq> Some True \<or> rw < lw \<and> rs \<noteq> Some True"

fun binary_width :: "BinOp \<Rightarrow> nat \<Rightarrow> bool option \<Rightarrow> nat \<Rightarrow> bool option \<Rightarrow> nat option" where
  "binary_width BinOp.Add lw _ rw _ = Some (max lw rw + 1)"
| "binary_width BinOp.Sub lw _ rw _ = Some (max lw rw + 1)"
| "binary_width BinOp.Mul lw _ rw _ = Some (lw + rw)"
| "binary_width BinOp.Div lw _ rw _ = Some lw"
| "binary_width BinOp.Mod lw _ rw _ = Some lw"
| "binary_width BinOp.Shl lw _ rw _ = Some lw"
| "binary_width BinOp.Shr lw _ rw _ = Some lw"
| "binary_width BinOp.BitOr lw _ rw _ = Some (max lw rw)"
| "binary_width BinOp.BitXor lw _ rw _ = Some (max lw rw)"
| "binary_width BinOp.BitAnd lw ls rw rs =
     Some (if lw < rw \<and> ls \<noteq> Some True then lw else if rw < lw \<and> rs \<noteq> Some True then rw else max lw rw)"
| "binary_width _ lw _ rw _ = None"

definition binary_shape :: "BinOp \<Rightarrow> ArchShape \<Rightarrow> ArchShape \<Rightarrow> ArchShape" where
  "binary_shape op a b =
     (case (operand a, operand b) of
        (Some (lw, ls), Some (rw, rs)) \<Rightarrow>
          (case binary_width op lw ls rw rs of
             None \<Rightarrow> Other
           | Some width \<Rightarrow>
               if op = BinOp.Shl \<or> op = BinOp.Shr then (case ls of Some sg \<Rightarrow> Typed width sg | None \<Rightarrow> Lit width)
               else if op = BinOp.BitAnd \<and> narrow_mask lw ls rw rs \<and> (ls \<noteq> None \<or> rs \<noteq> None) then Typed width False
               else case (ls, rs) of
                   (None, None) \<Rightarrow> Lit width
                 | (Some s, None) \<Rightarrow> Typed width s
                 | (None, Some s) \<Rightarrow> Typed width s
                 | (Some l, Some r) \<Rightarrow> Typed width (l \<and> r))
      | _ \<Rightarrow> if a = Widthless \<or> b = Widthless then Widthless else Other)"

definition ternary_shape :: "ArchShape \<Rightarrow> ArchShape \<Rightarrow> ArchShape" where
  "ternary_shape t f =
     (case (t, f) of
        (Widthless, _) \<Rightarrow> Widthless
      | (_, Widthless) \<Rightarrow> Widthless
      | (Typed a sa, Typed b sb) \<Rightarrow> Typed (max a b) (sa \<and> sb)
      | (Typed width sg, Lit l) \<Rightarrow> Typed (max width l) sg
      | (Lit l, Typed width sg) \<Rightarrow> Typed (max width l) sg
      | (Lit a, Lit b) \<Rightarrow> Lit (max a b)
      | _ \<Rightarrow> Other)"

fun arch_shape :: "(Expr \<Rightarrow> IrType option) \<Rightarrow> Expr \<Rightarrow> ArchShape" where
  "arch_shape leaf (Literal v ty) = literal_shape v ty (leaf (Literal v ty))"
| "arch_shape leaf (WideLiteral words) = Lit (lower_wide_literal_bits words)"
| "arch_shape leaf (Unary op inner) =
     (if op = UnOp.Not then Other
      else if op \<in> {UnOp.Neg, UnOp.BitNot} then arch_shape leaf inner
      else shape_of_type (leaf (Unary op inner)))"
| "arch_shape leaf (Binary op a b) =
     (if \<not> is_value_op op then Other else binary_shape op (arch_shape leaf a) (arch_shape leaf b))"
| "arch_shape leaf (Ternary c t f) = ternary_shape (arch_shape leaf t) (arch_shape leaf f)"
| "arch_shape leaf e = shape_of_type (leaf e)"

fun composed :: "Expr \<Rightarrow> bool" where
  "composed (Binary _ _ _) = True"
| "composed (Unary _ _) = True"
| "composed (Ternary _ _ _) = True"
| "composed _ = False"

definition arch_composed_type :: "(Expr \<Rightarrow> IrType option) \<Rightarrow> Expr \<Rightarrow> (nat \<times> bool) option" where
  "arch_composed_type leaf e =
     (if \<not> composed e then None else case arch_shape leaf e of Typed width sg \<Rightarrow> Some (width, sg) | _ \<Rightarrow> None)"

definition arch_result_width :: "(Expr \<Rightarrow> IrType option) \<Rightarrow> Expr \<Rightarrow> nat option" where
  "arch_result_width leaf e = (case arch_shape leaf e of Typed width _ \<Rightarrow> Some width | _ \<Rightarrow> None)"

fun inferable :: "Expr \<Rightarrow> bool" where
  "inferable (Binary op _ _) = is_value_op op"
| "inferable (Unary op _) = (op \<in> {UnOp.Neg, UnOp.BitNot})"
| "inferable (Ternary _ _ _) = True"
| "inferable _ = False"

definition arch_inferred_type :: "(Expr \<Rightarrow> IrType option) \<Rightarrow> Expr \<Rightarrow> IrType option" where
  "arch_inferred_type leaf e =
     (if \<not> inferable e \<or> expr_is_untyped_literal e then None
      else case arch_shape leaf e of
          Typed width sg \<Rightarrow>
            if (case leaf e of Some (UInt (Some old)) \<Rightarrow> width < old | Some (SInt (Some old)) \<Rightarrow> width < old | _ \<Rightarrow> False)
            then None
            else Some (if sg then SInt (Some width) else UInt (Some width))
        | _ \<Rightarrow> None)"

definition check_arch_result_width :: "(Expr \<Rightarrow> IrType option) \<Rightarrow> Expr \<Rightarrow> nat \<Rightarrow> string \<Rightarrow> (string, unit) result" where
  "check_arch_result_width leaf e dest_width what =
     (if \<not> composed e then Ok ()
      else case arch_result_width leaf e of
          None \<Rightarrow> Ok ()
        | Some rw \<Rightarrow>
            if rw \<le> dest_width then Ok ()
            else let q = (\<lambda>s. [CHR 0x60] @ s @ [CHR 0x60]);
                     wrap = (if dest_width \<le> 64
                       then ''a wrapping operator ('' @ q ''+%'' @ '', '' @ q ''-%'' @ '', '' @ q ''*%'' @ ''), '' else [])
                 in Err (''assignment to '' @ what @ '', declared '' @ show_nat dest_width @ '' bits, narrows: the result widens to ''
                   @ show_nat rw @ '' bits ('' @ q ''+'' @ ''/'' @ q ''-'' @ '' add one bit to the wider operand, '' @ q ''*''
                   @ '' sums the operand widths). Widths must not shrink implicitly '' @ [CHR 0xE2, CHR 0x80, CHR 0x94]
                   @ '' use '' @ wrap @ q (''.trunc<'' @ show_nat dest_width @ ''>()'') @ '', or widen the declaration to ''
                   @ show_nat rw @ '' bits.''))"

section \<open>Values\<close>

text \<open>The exact value of an expression, where it has one; the leaves and the conditions are given.\<close>

definition binary_value :: "BinOp \<Rightarrow> int \<Rightarrow> int \<Rightarrow> int option" where
  "binary_value op x y = (case lit_binary op x y of Inl _ \<Rightarrow> None | Inr k \<Rightarrow> k)"

fun exact_value :: "(Expr \<Rightarrow> int) \<Rightarrow> (Expr \<Rightarrow> bool) \<Rightarrow> Expr \<Rightarrow> int option" where
  "exact_value env cond (Literal v ty) = Some (case lit_literal v ty of Some k \<Rightarrow> k | None \<Rightarrow> env (Literal v ty))"
| "exact_value env cond (WideLiteral ws) = Some (int (mag_val ws))"
| "exact_value env cond (Unary op inner) =
     (if op = UnOp.Neg then map_option uminus (exact_value env cond inner)
      else if op = UnOp.BitNot then map_option (\<lambda>k. - k - 1) (exact_value env cond inner)
      else Some (env (Unary op inner)))"
| "exact_value env cond (Binary op a b) =
     (if is_value_op op then do { x \<leftarrow> exact_value env cond a; y \<leftarrow> exact_value env cond b; binary_value op x y }
      else Some (env (Binary op a b)))"
| "exact_value env cond (Ternary c t f) = (if cond c then exact_value env cond t else exact_value env cond f)"
| "exact_value env cond e = Some (env e)"

text \<open>
  The expressions whose width is claimed to be enough: declared leaves and literals that fit their peer, under operators that
  cannot leave the width by design.  Negation and complement, a left shift, an unsigned difference and a signed quotient
  keep a width that their exact value may leave.
\<close>

fun plain_literal :: "Expr \<Rightarrow> int option" where
  "plain_literal (Literal v Unknown) = Some (uint v)"
| "plain_literal (Literal v (UInt None)) = Some (uint v)"
| "plain_literal (WideLiteral ws) = Some (int (mag_val ws))"
| "plain_literal _ = None"

definition fits_peer :: "Expr \<Rightarrow> ArchShape \<Rightarrow> bool" where
  "fits_peer e s = (case (plain_literal e, s) of (Some k, Typed w sg) \<Rightarrow> in_range w sg k | _ \<Rightarrow> False)"

fun shape_sign :: "ArchShape \<Rightarrow> bool option" where
  "shape_sign (Typed _ sg) = Some sg"
| "shape_sign _ = None"

fun widening :: "BinOp \<Rightarrow> bool \<Rightarrow> bool" where
  "widening BinOp.Sub sg = sg"
| "widening BinOp.Div sg = (\<not> sg)"
| "widening op sg = (op \<in> {BinOp.Add, BinOp.Mul, BinOp.Mod, BinOp.BitAnd, BinOp.BitOr, BinOp.BitXor})"

definition widening_shape :: "BinOp \<Rightarrow> ArchShape \<Rightarrow> bool" where
  "widening_shape op s = (case s of Typed _ sg \<Rightarrow> widening op sg | _ \<Rightarrow> False)"

definition leaf_judged :: "ArchShape \<Rightarrow> bool" where
  "leaf_judged s = (case s of Typed w _ \<Rightarrow> 0 < w | _ \<Rightarrow> False)"

fun judged :: "(Expr \<Rightarrow> IrType option) \<Rightarrow> Expr \<Rightarrow> bool" where
  "judged leaf (Literal v ty) = (lit_literal v ty = None \<and> leaf_judged (shape_of_type (leaf (Literal v ty))))"
| "judged leaf (WideLiteral _) = False"
| "judged leaf (Unary _ _) = False"
| "judged leaf (Binary op a b) =
     (if op = BinOp.Shr then judged leaf a \<and> operand (arch_shape leaf b) \<noteq> None
      else judged leaf a \<and> judged leaf b \<and> shape_sign (arch_shape leaf a) = shape_sign (arch_shape leaf b) \<and>
             widening_shape op (arch_shape leaf a)
         \<or> judged leaf a \<and> fits_peer b (arch_shape leaf a) \<and> widening_shape op (arch_shape leaf a)
         \<or> fits_peer a (arch_shape leaf b) \<and> judged leaf b \<and> widening_shape op (arch_shape leaf b) \<and>
             (op \<in> {BinOp.Div, BinOp.Mod} \<longrightarrow> shape_sign (arch_shape leaf b) = Some False))"
| "judged leaf (Ternary c t f) =
     (judged leaf t \<and> judged leaf f \<and> shape_sign (arch_shape leaf t) = shape_sign (arch_shape leaf f)
      \<or> judged leaf t \<and> fits_peer f (arch_shape leaf t)
      \<or> fits_peer t (arch_shape leaf f) \<and> judged leaf f)"
| "judged leaf e = leaf_judged (shape_of_type (leaf e))"

section \<open>Ranges of results\<close>

lemma in_range_unsigned: "in_range w False k \<longleftrightarrow> take_bit w k = k"
  by (simp add: in_range_def take_bit_int_eq_self_iff)

lemma in_range_signed: "in_range w True k \<longleftrightarrow> signed_take_bit (w - 1) k = k"
  by (simp only: in_range_def if_True signed_take_bit_int_eq_self_iff)

lemma in_range_bitwise:
  assumes "in_range w sg x" "in_range w sg y"
  shows "in_range w sg (x AND y)" "in_range w sg (x OR y)" "in_range w sg (x XOR y)"
proof -
  have u: "in_range w False (x AND y)" "in_range w False (x OR y)" "in_range w False (x XOR y)" if "\<not> sg"
    using assms that by (simp_all only: in_range_unsigned take_bit_and take_bit_or take_bit_xor if_False)
  have s: "in_range w True (x AND y)" "in_range w True (x OR y)" "in_range w True (x XOR y)" if sg
    using assms that by (simp_all only: in_range_signed signed_take_bit_bitwise)
  show "in_range w sg (x AND y)" "in_range w sg (x OR y)" "in_range w sg (x XOR y)" using u s by (metis (full_types))+
qed

lemma in_range_mask:
  assumes "in_range w False x" shows "in_range w False (x AND y)" "in_range w False (y AND x)"
proof -
  have x: "0 \<le> x" "x < 2 ^ w" using assms by (simp_all add: in_range_def)
  then have "0 \<le> x AND y" "x AND y \<le> x" by (simp_all add: AND_lower AND_upper1)
  then show "in_range w False (x AND y)" using x by (simp add: in_range_def)
  then show "in_range w False (y AND x)" by (simp add: and.commute)
qed

lemma in_range_add:
  assumes "0 < a" "0 < b" "in_range a sg x" "in_range b sg y"
  shows "in_range (max a b + 1) sg (x + y)"
proof -
  let ?m = "max a b"
  have r: "in_range ?m sg x" "in_range ?m sg y" using assms in_range_mono by (meson max.cobounded1, meson assms(4) in_range_mono max.cobounded2)
  have "(2 :: int) ^ (?m + 1) = 2 * 2 ^ ?m" "(2 :: int) ^ ?m = 2 * 2 ^ (?m - 1)"
    using assms(1) by (simp, metis max.strict_coboundedI1 power_minus_mult mult.commute)
  then show ?thesis using r unfolding in_range_def by (smt (verit) add_diff_cancel_right')
qed

lemma in_range_diff:
  assumes "0 < a" "0 < b" "in_range a True x" "in_range b True y"
  shows "in_range (max a b + 1) True (x - y)"
proof -
  let ?m = "max a b"
  have r: "in_range ?m True x" "in_range ?m True y" using assms in_range_mono by (meson max.cobounded1, meson assms(4) in_range_mono max.cobounded2)
  have "(2 :: int) ^ ?m = 2 * 2 ^ (?m - 1)" using assms(1) by (metis max.strict_coboundedI1 power_minus_mult mult.commute)
  then show ?thesis using r unfolding in_range_def by (smt (verit) add_diff_cancel_right')
qed

lemma in_range_mul_unsigned:
  assumes "in_range a False x" "in_range b False y" shows "in_range (a + b) False (x * y)"
  using assms by (auto simp: in_range_def power_add intro: mult_strict_mono)

lemma abs_mult_bound:
  fixes x y :: int assumes "\<bar>x\<bar> \<le> p" "\<bar>y\<bar> \<le> q" shows "\<bar>x * y\<bar> \<le> p * q"
  using assms by (simp add: abs_mult mult_mono')

lemma in_range_mul_signed:
  assumes "0 < a" "0 < b" "in_range a True x" "in_range b True y" shows "in_range (a + b) True (x * y)"
proof -
  have "\<bar>x\<bar> \<le> 2 ^ (a - 1)" "\<bar>y\<bar> \<le> 2 ^ (b - 1)" using assms(3,4) by (auto simp: in_range_def)
  then have "\<bar>x * y\<bar> \<le> 2 ^ (a - 1) * 2 ^ (b - 1)" by (rule abs_mult_bound)
  moreover have "(2 :: int) ^ (a + b - 1) = 2 * (2 ^ (a - 1) * 2 ^ (b - 1))"
    using assms(1,2) by (cases a; cases b) (simp_all add: power_add)
  moreover have "0 < (2 :: int) ^ (a - 1) * 2 ^ (b - 1)" by simp
  ultimately show ?thesis unfolding in_range_def by (smt (verit))
qed

lemma in_range_mul_literal:
  assumes "0 < a" "in_range a True x" "0 \<le> y" "y < 2 ^ b" shows "in_range (a + b) True (x * y)"
proof -
  have "\<bar>x\<bar> \<le> 2 ^ (a - 1)" "\<bar>y\<bar> \<le> 2 ^ b - 1" using assms(2-4) by (auto simp: in_range_def)
  then have "\<bar>x * y\<bar> \<le> 2 ^ (a - 1) * (2 ^ b - 1)" by (rule abs_mult_bound)
  moreover have "(2 :: int) ^ (a + b - 1) = 2 ^ (a - 1) * 2 ^ b" using assms(1) by (cases a) (simp_all add: power_add)
  moreover have "(2 :: int) ^ (a - 1) * (2 ^ b - 1) < 2 ^ (a - 1) * 2 ^ b" by simp
  ultimately show ?thesis unfolding in_range_def by (smt (verit))
qed

lemma smod_abs: "(x :: int) smod y = sgn x * (\<bar>x\<bar> mod \<bar>y\<bar>)"
  by (cases x "0 :: int" rule: linorder_cases; cases y "0 :: int" rule: linorder_cases)
    (simp_all add: signed_modulo_int_def signed_divide_int_def minus_div_mult_eq_mod algebra_simps)

lemma in_range_smod: "in_range w sg x \<Longrightarrow> in_range w sg (x smod y)"
proof -
  assume x: "in_range w sg x"
  have "0 \<le> \<bar>x\<bar> mod \<bar>y\<bar>" "\<bar>x\<bar> mod \<bar>y\<bar> \<le> \<bar>x\<bar>" by (cases "y = 0"; simp add: zmod_le_nonneg_dividend)+
  then have "0 \<le> x \<Longrightarrow> 0 \<le> x smod y \<and> x smod y \<le> x" "x < 0 \<Longrightarrow> x \<le> x smod y \<and> x smod y \<le> 0" by (auto simp: smod_abs sgn_if)
  then show ?thesis using x unfolding in_range_def by (smt (verit))
qed

lemma div_bounds:
  fixes x y :: int assumes "0 < y"
  shows "0 \<le> x \<Longrightarrow> 0 \<le> x div y \<and> x div y \<le> x" "x < 0 \<Longrightarrow> x \<le> x div y \<and> x div y < 0"
proof -
  show "0 \<le> x div y \<and> x div y \<le> x" if "0 \<le> x"
    using assms that zdiv_mono2 [of x 1 y] by (simp add: pos_imp_zdiv_nonneg_iff)
  show "x \<le> x div y \<and> x div y < 0" if "x < 0"
    using assms that zdiv_mono2_neg [of x 1 y] by (simp add: pos_imp_zdiv_neg_iff)
qed

lemma in_range_sdiv:
  assumes "in_range w False x" "0 \<le> y" "y \<noteq> 0" shows "in_range w False (x sdiv y)"
  using assms div_bounds(1) [of y x] by (simp add: in_range_def sdiv_nonneg)

lemma in_range_shr: "in_range w sg x \<Longrightarrow> in_range w sg (x div 2 ^ n)"
  using div_bounds [of "2 ^ n" x] unfolding in_range_def by (smt (verit) zero_less_power)

section \<open>Widths of operations\<close>

text \<open>An operand holds a value: a declared one in the range of its type, a literal in its own number of bits.\<close>

definition operand_holds :: "bool \<Rightarrow> nat \<Rightarrow> bool option \<Rightarrow> int \<Rightarrow> bool" where
  "operand_holds sg w s k \<longleftrightarrow> 0 < w \<and> (if s = None then 0 \<le> k \<and> k < 2 ^ w else s = Some sg \<and> in_range w sg k)"

lemma operand_unsigned: "operand_holds sg w s k \<Longrightarrow> s = None \<or> \<not> sg \<Longrightarrow> in_range w False k"
  by (auto simp: operand_holds_def in_range_def split: if_splits)

lemma operand_in_max:
  assumes "operand_holds sg lw ls x" "ls = None \<Longrightarrow> in_range rw sg x"
  shows "in_range (max lw rw) sg x" "in_range (max rw lw) sg x"
  using assms in_range_mono [of lw "max lw rw" sg x] in_range_mono [of rw "max lw rw" sg x]
  by (auto simp: operand_holds_def max.commute split: if_splits)

lemma binary_shape_typed:
  assumes "operand a = Some (lw, ls)" "operand b = Some (rw, rs)" "ls \<noteq> None \<or> rs \<noteq> None"
    and "operand_holds sg lw ls x" "operand_holds sg rw rs y" "binary_width op lw ls rw rs = Some w"
    and "op \<notin> {BinOp.Shl, BinOp.Shr}"
  shows "binary_shape op a b = Typed w (sg \<and> \<not> (op = BinOp.BitAnd \<and> narrow_mask lw ls rw rs))"
  using assms by (auto simp: binary_shape_def operand_holds_def split: if_splits option.splits)

lemma product_in_range:
  assumes "operand_holds sg lw ls x" "operand_holds sg rw rs y" "ls \<noteq> None \<or> rs \<noteq> None"
  shows "in_range (lw + rw) sg (x * y)"
proof (cases sg)
  case False
  then show ?thesis using assms operand_unsigned in_range_mul_unsigned by (metis (full_types))
next
  case True
  then show ?thesis using assms in_range_mul_signed [of lw rw x y] in_range_mul_literal [of lw x y rw]
      in_range_mul_literal [of rw y x lw]
    by (cases "ls = None"; cases "rs = None") (simp_all add: operand_holds_def ac_simps)
qed

lemma mask_in_range:
  assumes "operand_holds sg lw ls x" "operand_holds sg rw rs y"
    and "in_range (max lw rw) sg x" "in_range (max lw rw) sg y" "binary_width BinOp.BitAnd lw ls rw rs = Some w"
  shows "in_range w (sg \<and> \<not> narrow_mask lw ls rw rs) (x AND y)"
proof (cases "narrow_mask lw ls rw rs")
  case True
  have w: "w = (if lw < rw \<and> ls \<noteq> Some True then lw else if rw < lw \<and> rs \<noteq> Some True then rw else max lw rw)"
    using assms(5) by (simp only: binary_width.simps option.inject)
  with True consider "lw < rw" "ls \<noteq> Some True" "w = lw" | "rw < lw" "rs \<noteq> Some True" "w = rw"
    by (cases "lw < rw") (simp_all add: narrow_mask_def)
  then show ?thesis
  proof cases
    case 1
    then have "ls = None \<or> \<not> sg" using assms(1) by (auto simp: operand_holds_def split: if_splits)
    with assms(1) have "in_range lw False x" by (rule operand_unsigned)
    then show ?thesis using 1 True in_range_mask(1) by simp
  next
    case 2
    then have "rs = None \<or> \<not> sg" using assms(2) by (auto simp: operand_holds_def split: if_splits)
    with assms(2) have "in_range rw False y" by (rule operand_unsigned)
    then show ?thesis using 2 True in_range_mask(2) by simp
  qed
next
  case False
  then have "w = max lw rw" using assms(5) unfolding narrow_mask_def binary_width.simps option.inject by (metis (full_types))
  then show ?thesis using False in_range_bitwise(1) [OF assms(3,4)] by simp
qed

lemma binary_in_range:
  assumes a: "operand a = Some (lw, ls)" "operand_holds sg lw ls x" "ls = None \<Longrightarrow> in_range rw sg x"
    and b: "operand b = Some (rw, rs)" "operand_holds sg rw rs y" "rs = None \<Longrightarrow> in_range lw sg y"
    and typed: "ls \<noteq> None \<or> rs \<noteq> None" and op: "widening op sg" "op \<in> {BinOp.Div, BinOp.Mod} \<Longrightarrow> ls = None \<Longrightarrow> \<not> sg"
    and k: "binary_value op x y = Some k"
  shows "\<exists>w s. binary_shape op a b = Typed w s \<and> 0 < w \<and> in_range w s k"
proof -
  note shape = binary_shape_typed [OF a(1) b(1) typed a(2) b(2)]
  have w: "0 < lw" "0 < rw" using a(2) b(2) by (simp_all add: operand_holds_def)
  have m: "in_range (max lw rw) sg x" "in_range (max lw rw) sg y"
    using operand_in_max(1) [OF a(2,3)] operand_in_max(2) [OF b(2,3)] by simp_all
  have m0: "0 < max lw rw" using w by simp
  show ?thesis
  proof (cases op)
    case Add
    then show ?thesis using shape in_range_add [OF m0 m0 m] k by (simp add: binary_value_def)
  next
    case Sub
    then have "sg" using op by simp
    then have "binary_shape op a b = Typed (max lw rw + 1) True" "in_range (max lw rw + 1) True (x - y)"
      using Sub shape in_range_diff [OF m0 m0, of x y] m by simp_all
    then show ?thesis using Sub k by (auto simp: binary_value_def)
  next
    case Mul
    then show ?thesis using shape product_in_range [OF a(2) b(2) typed] w k by (simp add: binary_value_def)
  next
    case Div
    then have "\<not> sg" using op by simp
    then have "in_range lw False x" "in_range rw False y" using a(2) b(2) operand_unsigned by blast+
    then have "in_range lw False k" using Div in_range_sdiv [of lw x y] k
      by (simp add: binary_value_def in_range_def split: if_splits)
    moreover have "binary_shape op a b = Typed lw False" using \<open>\<not> sg\<close> Div shape by simp
    ultimately show ?thesis using w by blast
  next
    case Mod
    then have "in_range lw sg x" using a(2) op(2) operand_unsigned [OF a(2)] by (cases "ls = None") (auto simp: operand_holds_def)
    then show ?thesis using Mod shape in_range_smod [of lw sg x y] w k by (auto simp: binary_value_def split: if_splits)
  next
    case BitAnd
    obtain w' where w': "binary_width BinOp.BitAnd lw ls rw rs = Some w'" by simp
    then have "0 < w'" using w by (auto split: if_splits)
    then show ?thesis using BitAnd shape [OF w'] mask_in_range [OF a(2) b(2) m w'] k by (simp add: binary_value_def)
  next
    case BitOr
    then show ?thesis using shape in_range_bitwise(2) [OF m] m0 k by (simp add: binary_value_def)
  next
    case BitXor
    then show ?thesis using shape in_range_bitwise(3) [OF m] m0 k by (simp add: binary_value_def)
  qed (use op in simp_all)
qed

section \<open>Widths of expressions\<close>

text \<open>Every value read from the program lies in its declared type.\<close>

definition well_valued :: "(Expr \<Rightarrow> IrType option) \<Rightarrow> (Expr \<Rightarrow> int) \<Rightarrow> bool" where
  "well_valued leaf env \<longleftrightarrow> (\<forall>e w sg. shape_of_type (leaf e) = Typed w sg \<longrightarrow> in_range w sg (env e))"

definition width_holds :: "ArchShape \<Rightarrow> int \<Rightarrow> bool" where
  "width_holds s k = (case s of Typed w sg \<Rightarrow> 0 < w \<and> in_range w sg k | _ \<Rightarrow> False)"

lemma width_holds_Typed [simp]: "width_holds (Typed w sg) k \<longleftrightarrow> 0 < w \<and> in_range w sg k"
  by (simp add: width_holds_def)

lemma width_holds_iff: "width_holds s k \<longleftrightarrow> (\<exists>w sg. s = Typed w sg \<and> 0 < w \<and> in_range w sg k)"
  by (cases s) (simp_all add: width_holds_def)

lemma leaf_width: "leaf_judged (shape_of_type (leaf e)) \<Longrightarrow> well_valued leaf env \<Longrightarrow> width_holds (shape_of_type (leaf e)) (env e)"
  by (cases "shape_of_type (leaf e)") (auto simp: leaf_judged_def well_valued_def width_holds_def)

lemma lower_wide_literal_bits_val: "lower_wide_literal_bits ws = max (bit_len (mag_val ws)) 1"
  unfolding wide_literal_bits_val [symmetric] wide_literal_bits_def lower_wide_literal_bits_def ..

lemma max_bit_len_holds: "0 < max (bit_len n) 1" "int n < 2 ^ max (bit_len n) 1"
proof -
  have "n < 2 ^ max (bit_len n) 1" by (rule order_less_le_trans [OF less_pow_bit_len]) (simp add: power_increasing)
  then show "0 < max (bit_len n) 1" "int n < 2 ^ max (bit_len n) 1" by simp_all
qed

lemma plain_literal_shape:
  assumes "plain_literal e = Some k"
  shows "\<exists>l. arch_shape leaf e = Lit l \<and> 0 < l \<and> 0 \<le> k \<and> k < 2 ^ l \<and> exact_value env c e = Some k"
proof -
  have bits: "uint v < 2 ^ value_bits v" "0 < value_bits v" for v :: u64
    using max_bit_len_holds [of "unat v"] unfolding value_bits_def by simp_all
  have wide: "int (mag_val ws) < 2 ^ lower_wide_literal_bits ws" "0 < lower_wide_literal_bits ws" for ws
    using max_bit_len_holds [of "mag_val ws"] unfolding lower_wide_literal_bits_val by simp_all
  show ?thesis using assms
    by (cases e rule: plain_literal.cases) (use bits wide in \<open>auto simp: literal_shape_def\<close>)
qed

lemma typed_operand: "width_holds s x \<Longrightarrow> \<exists>w sg. s = Typed w sg \<and> operand s = Some (w, Some sg) \<and> operand_holds sg w (Some sg) x"
  by (auto simp: width_holds_iff operand_holds_def)

lemma binary_typed_typed:
  assumes "width_holds a x" "width_holds b y" "shape_sign a = shape_sign b" "widening_shape op a" "binary_value op x y = Some k"
  shows "width_holds (binary_shape op a b) k"
proof -
  obtain lw sg rw sg' where "a = Typed lw sg" "b = Typed rw sg'" using assms(1,2) by (auto simp: width_holds_iff)
  with assms show ?thesis using binary_in_range [of a lw "Some sg" sg x rw b "Some sg" y op k]
    by (auto simp: operand_holds_def widening_shape_def width_holds_iff)
qed

lemma binary_typed_literal:
  assumes "width_holds a x" "0 < l" "0 \<le> y" "y < 2 ^ l" "in_range w sg y" "a = Typed w sg" "widening op sg"
    "binary_value op x y = Some k"
  shows "width_holds (binary_shape op a (Lit l)) k"
  using assms binary_in_range [of a w "Some sg" sg x l "Lit l" None y op k]
  by (auto simp: operand_holds_def width_holds_iff)

lemma binary_literal_typed:
  assumes "width_holds b y" "0 < l" "0 \<le> x" "x < 2 ^ l" "in_range w sg x" "b = Typed w sg" "widening op sg"
    "op \<in> {BinOp.Div, BinOp.Mod} \<Longrightarrow> \<not> sg" "binary_value op x y = Some k"
  shows "width_holds (binary_shape op (Lit l) b) k"
  using assms binary_in_range [of "Lit l" l None sg x w b "Some sg" y op k]
  by (auto simp: operand_holds_def width_holds_iff)

lemma shr_width:
  assumes "width_holds a x" "operand b \<noteq> None" "binary_value BinOp.Shr x y = Some k"
  shows "width_holds (binary_shape BinOp.Shr a b) k"
  using assms in_range_shr by (auto simp: width_holds_iff binary_shape_def binary_value_def split: if_splits)

lemma ternary_width:
  shows "width_holds a k \<Longrightarrow> leaf_judged b \<Longrightarrow> shape_sign a = shape_sign b \<Longrightarrow> width_holds (ternary_shape a b) k"
    "width_holds a k \<Longrightarrow> leaf_judged b \<Longrightarrow> shape_sign a = shape_sign b \<Longrightarrow> width_holds (ternary_shape b a) k"
    "width_holds a k \<Longrightarrow> width_holds (ternary_shape a (Lit l)) k"
    "width_holds a k \<Longrightarrow> width_holds (ternary_shape (Lit l) a) k"
  by (auto simp: width_holds_iff leaf_judged_def ternary_shape_def less_max_iff_disj intro: in_range_mono [rotated] split: ArchShape.splits)

lemma binary_positive:
  assumes "operand a = Some (lw, ls)" "operand b = Some (rw, rs)" "0 < lw" "0 < rw" "ls \<noteq> None \<or> rs \<noteq> None" "widening op sg"
  shows "leaf_judged (binary_shape op a b)"
  using assms by (cases op) (auto simp: binary_shape_def leaf_judged_def split: option.splits)

lemma literal_operand:
  assumes "fits_peer e s"
  shows "\<exists>l k. arch_shape leaf e = Lit l \<and> 0 < l \<and> 0 \<le> k \<and> k < 2 ^ l \<and> exact_value env c e = Some k \<and> (\<exists>w sg. s = Typed w sg \<and> in_range w sg k)"
proof -
  obtain k w sg where k: "plain_literal e = Some k" "s = Typed w sg" "in_range w sg k"
    using assms by (cases s) (auto simp: fits_peer_def split: option.splits)
  then show ?thesis using plain_literal_shape [OF k(1), of leaf env c] by auto
qed

lemma judged_operand: "leaf_judged s \<Longrightarrow> \<exists>w sg. s = Typed w sg \<and> 0 < w"
  by (cases s) (simp_all add: leaf_judged_def)

lemma widening_value_op: "widening op sg \<Longrightarrow> is_value_op op"
  by (cases op) (simp_all add: is_value_op_def)

lemma judged_binary:
  assumes "judged leaf (Binary op a b)"
  obtains (shift) "op = BinOp.Shr" "judged leaf a" "operand (arch_shape leaf b) \<noteq> None"
  | (typed) "op \<noteq> BinOp.Shr" "judged leaf a" "judged leaf b" "shape_sign (arch_shape leaf a) = shape_sign (arch_shape leaf b)"
      "widening_shape op (arch_shape leaf a)"
  | (right) "op \<noteq> BinOp.Shr" "judged leaf a" "fits_peer b (arch_shape leaf a)" "widening_shape op (arch_shape leaf a)"
  | (left) "op \<noteq> BinOp.Shr" "judged leaf b" "fits_peer a (arch_shape leaf b)" "widening_shape op (arch_shape leaf b)"
      "op \<in> {BinOp.Div, BinOp.Mod} \<Longrightarrow> shape_sign (arch_shape leaf b) = Some False"
  using assms unfolding judged.simps by (metis (full_types))

lemma judged_ternary:
  assumes "judged leaf (Ternary c t f)"
  obtains (typed) "judged leaf t" "judged leaf f" "shape_sign (arch_shape leaf t) = shape_sign (arch_shape leaf f)"
  | (right) "judged leaf t" "fits_peer f (arch_shape leaf t)"
  | (left) "judged leaf f" "fits_peer t (arch_shape leaf f)"
  using assms unfolding judged.simps by (metis (full_types))

lemma binary_leaf_judged:
  assumes "leaf_judged a" "operand b = Some (rw, rs)" "0 < rw" "widening_shape op a"
  shows "leaf_judged (binary_shape op a b)"
  using assms judged_operand [OF assms(1)] binary_positive [of a _ _ b rw rs op] by (auto simp: widening_shape_def)

lemma binary_leaf_judged':
  assumes "leaf_judged b" "0 < l" "widening_shape op b"
  shows "leaf_judged (binary_shape op (Lit l) b)"
  using assms judged_operand [OF assms(1)] binary_positive [of "Lit l" l None b _ _ op] by (auto simp: widening_shape_def)

lemma widening_shape_value_op: "widening_shape op s \<Longrightarrow> is_value_op op"
  by (auto simp: widening_shape_def intro: widening_value_op split: ArchShape.splits)

lemma ternary_leaf_judged:
  "leaf_judged a \<Longrightarrow> leaf_judged b \<Longrightarrow> leaf_judged (ternary_shape a b)"
  "leaf_judged a \<Longrightarrow> leaf_judged (ternary_shape a (Lit l))" "leaf_judged a \<Longrightarrow> leaf_judged (ternary_shape (Lit l) a)"
  by (cases a; cases b; simp add: leaf_judged_def ternary_shape_def)+

lemma judged_positive: "judged leaf e \<Longrightarrow> leaf_judged (arch_shape leaf e)"
proof (induction e rule: judged.induct)
  case (1 leaf v ty)
  then show ?case by (cases "(v, ty)" rule: lit_literal.cases) (simp_all add: literal_shape_def)
next
  case (4 leaf op a b)
  show ?case using 4(6)
  proof (cases rule: judged_binary)
    case shift
    then show ?thesis using 4(1) judged_operand [of "arch_shape leaf a"]
      by (auto simp: binary_shape_def leaf_judged_def is_value_op_def)
  next
    case typed
    then have "leaf_judged (arch_shape leaf a)" "leaf_judged (arch_shape leaf b)" using 4 by blast+
    moreover obtain w sg where "arch_shape leaf b = Typed w sg" "0 < w" using calculation(2) judged_operand by blast
    ultimately show ?thesis using typed(5) binary_leaf_judged [of "arch_shape leaf a" "arch_shape leaf b" w "Some sg" op] widening_shape_value_op
      by simp
  next
    case right
    obtain l where "arch_shape leaf b = Lit l" "0 < l" using literal_operand [OF right(3)] by blast
    moreover have "leaf_judged (arch_shape leaf a)" using right 4 by blast
    ultimately show ?thesis using right(4) binary_leaf_judged [of "arch_shape leaf a" "Lit l" l None op] widening_shape_value_op by simp
  next
    case left
    obtain l where "arch_shape leaf a = Lit l" "0 < l" using literal_operand [OF left(3)] by blast
    moreover have "leaf_judged (arch_shape leaf b)" using left 4 by blast
    ultimately show ?thesis using left(4) binary_leaf_judged' [of "arch_shape leaf b" l op] widening_shape_value_op by simp
  qed
next
  case (5 leaf c t f)
  show ?case using 5(5)
  proof (cases rule: judged_ternary)
    case typed
    then show ?thesis using 5(1,2) ternary_leaf_judged(1) by simp
  next
    case right
    obtain l where "arch_shape leaf f = Lit l" using literal_operand [OF right(2)] by blast
    then show ?thesis using 5 right(1) ternary_leaf_judged(2) by simp
  next
    case left
    obtain l where "arch_shape leaf t = Lit l" using literal_operand [OF left(2)] by blast
    then show ?thesis using 5 left(1) ternary_leaf_judged(3) by simp
  qed
qed (simp_all add: literal_shape_def)

lemma judged_width_holds:
  "judged leaf e \<Longrightarrow> well_valued leaf env \<Longrightarrow> exact_value env c e = Some k \<Longrightarrow> width_holds (arch_shape leaf e) k"
proof (induction e arbitrary: k rule: judged.induct)
  case (1 leaf v ty)
  then show ?case using leaf_width [of leaf "Literal v ty" env]
    by (cases "(v, ty)" rule: lit_literal.cases) (simp_all add: literal_shape_def)
next
  case (4 leaf op a b)
  show ?case using 4(6)
  proof (cases rule: judged_binary)
    case shift
    then obtain x y where v: "exact_value env c a = Some x" "binary_value BinOp.Shr x y = Some k"
      using 4(8) by (auto simp: is_value_op_def Option.bind_eq_Some_conv)
    then show ?thesis using shift 4(1,7) shr_width by (simp add: is_value_op_def)
  next
    case typed
    note op = widening_shape_value_op [OF typed(5)]
    obtain x y where v: "exact_value env c a = Some x" "exact_value env c b = Some y" "binary_value op x y = Some k"
      using 4(8) op by (auto simp: Option.bind_eq_Some_conv)
    then have "width_holds (arch_shape leaf a) x" "width_holds (arch_shape leaf b) y" using typed 4 by blast+
    then show ?thesis using binary_typed_typed [OF _ _ typed(4,5) v(3)] op by simp
  next
    case right
    note op = widening_shape_value_op [OF right(4)]
    obtain l y w sg where b: "arch_shape leaf b = Lit l" "0 < l" "0 \<le> y" "y < 2 ^ l" "exact_value env c b = Some y"
        "arch_shape leaf a = Typed w sg" "in_range w sg y"
      using literal_operand [OF right(3), of leaf env c] by blast
    then obtain x where v: "exact_value env c a = Some x" "binary_value op x y = Some k"
      using 4(8) op by (auto simp: Option.bind_eq_Some_conv)
    then have "width_holds (arch_shape leaf a) x" using right 4 by blast
    then show ?thesis using binary_typed_literal [OF _ b(2-4,7,6) _ v(2)] right(4) b op by (simp add: widening_shape_def)
  next
    case left
    note op = widening_shape_value_op [OF left(4)]
    obtain l x w sg where a: "arch_shape leaf a = Lit l" "0 < l" "0 \<le> x" "x < 2 ^ l" "exact_value env c a = Some x"
        "arch_shape leaf b = Typed w sg" "in_range w sg x"
      using literal_operand [OF left(3), of leaf env c] by blast
    then obtain y where v: "exact_value env c b = Some y" "binary_value op x y = Some k"
      using 4(8) op by (auto simp: Option.bind_eq_Some_conv)
    then have "width_holds (arch_shape leaf b) y" using left 4 by blast
    then show ?thesis using binary_literal_typed [OF _ a(2-4,7,6) _ _ v(2)] left(4,5) a op by (simp add: widening_shape_def)
  qed
next
  case (5 leaf q t f)
  have k: "exact_value env c t = Some k \<and> c q \<or> exact_value env c f = Some k \<and> \<not> c q" using 5(7) by (simp split: if_splits)
  show ?case using 5(5)
  proof (cases rule: judged_ternary)
    case typed
    then show ?thesis using 5 k ternary_width(1,2) judged_positive by (metis arch_shape.simps(5))
  next
    case right
    have "width_holds (arch_shape leaf t) k"
      using 5 k right(1) literal_operand [OF right(2), of leaf env c] judged_operand [OF judged_positive [OF right(1)]]
      by fastforce
    then show ?thesis using literal_operand [OF right(2), of leaf env c] ternary_width(3) by fastforce
  next
    case left
    have "width_holds (arch_shape leaf f) k"
      using 5 k left(1) literal_operand [OF left(2), of leaf env c] judged_operand [OF judged_positive [OF left(1)]]
      by fastforce
    then show ?thesis using literal_operand [OF left(2), of leaf env c] ternary_width(4) by fastforce
  qed
qed (auto intro: leaf_width)

lemma checked_width: "check_arch_result_width leaf e d what = Ok () \<Longrightarrow> composed e \<Longrightarrow> arch_shape leaf e = Typed w sg \<Longrightarrow> w \<le> d"
  by (simp add: check_arch_result_width_def arch_result_width_def Let_def split: if_splits)

section \<open>Properties\<close>

text \<open>
  C40. The static width of an expression is wide enough, and the narrowing check built on it loses no value, for the expressions
  that \<open>judged\<close> admits: leaves of a declared type of positive width; non-negative plain literals that fit the
  operand they stand beside; sums, products and bitwise operations; differences of signed operands only; quotients of unsigned
  operands only; remainders, of which, as of quotients, a literal may be the left operand only beside an unsigned value; right shifts by a declared
  or literal amount; selections.  Two declared operands have the same sign.  Left out are negations, complements,
  left shifts, unsigned differences, signed quotients, negative literals, literals wider than their peer, comparisons and Booleans; a
  literal modulo a signed value and a negative mask are in fact inferred too narrow.  When every leaf lies in its declared type and the
  expression has an exact value, the value lies in the range of the inferred width and sign; and a destination that the
  check accepts for a composed expression, of that sign, holds it.
\<close>

theorem arch_width_holds:
  assumes "judged leaf e" "well_valued leaf env" "exact_value env c e = Some k"
  shows "\<exists>w sg. arch_shape leaf e = Typed w sg \<and> in_range w sg k \<and>
    (check_arch_result_width leaf e d what = Ok () \<and> composed e \<longrightarrow> in_range d sg k)"
  using judged_width_holds [OF assms] in_range_mono checked_width unfolding width_holds_iff by metis

definition width_leaf :: "Expr \<Rightarrow> IrType option" where
  "width_leaf e = (if e = CycleCount then Some (SInt (Some 8)) else Some (UInt (Some 8)))"

definition width_sum :: Expr where
  "width_sum = Binary BinOp.Add (Binary BinOp.Mul ErrorCount (Literal 3 Unknown)) ErrorCount"

theorem arch_width_holds_witness:
  "arch_shape width_leaf width_sum = Typed 11 False \<and> exact_value (\<lambda>_. 100) (\<lambda>_. True) width_sum = Some 400 \<and>
   in_range 11 False 400 \<and> check_arch_result_width width_leaf width_sum 11 ''x'' = Ok () \<and>
   check_arch_result_width width_leaf width_sum 8 ''x'' \<noteq> Ok ()"
proof -
  have e: "arch_shape width_leaf width_sum = Typed 11 False" "exact_value (\<lambda>_. 100) (\<lambda>_. True) width_sum = Some 400"
    "judged width_leaf width_sum" by code_simp+
  have "well_valued width_leaf (\<lambda>_. 100)" by (auto simp: well_valued_def width_leaf_def in_range_def)
  from arch_width_holds [OF e(3) this e(2), of 11 "''x''"] e(1) have "in_range 11 False 400" by auto
  then show ?thesis using e(1,2) by (simp add: check_arch_result_width_def arch_result_width_def width_sum_def Let_def)
qed

text \<open>
  Two shapes are too narrow.  The remainder of a literal by a signed value takes the bits of the literal as a signed width, and
  the conjunction with a negative literal takes it for an unsigned mask.
\<close>

theorem literal_remainder_too_narrow:
  "let e = Binary BinOp.Mod (Literal 5 Unknown) CycleCount in
   arch_shape width_leaf e = Typed 3 True \<and> exact_value (\<lambda>_. 7) (\<lambda>_. True) e = Some 5 \<and> \<not> in_range 3 True 5"
  by code_simp

theorem negative_mask_too_narrow:
  "let e = Binary BinOp.BitAnd CycleCount (Literal (- 2) (SInt None)) in
   arch_shape width_leaf e = Typed 2 False \<and> exact_value (\<lambda>_. 5) (\<lambda>_. True) e = Some 4 \<and> \<not> in_range 2 False 4"
  by code_simp

end
