(* ===== verification/Regblock.thy ===== *)
theory Regblock
  imports Verify_Types
begin

text \<open>
  Register blocks (\<^verbatim>\<open>src/ir/lower/regblock.rs\<close>): a declaration becomes a table of registers with bit fields and a mirror
  record, and reads and writes of registers and fields become statements on the mirror and calls of the helper.

  The surface expressions of a declaration are folded by the constant folder; the record \<open>folder\<close> holds its two entry points
  and the test for a boolean literal, and \<open>'e\<close> is the type of the expressions.  Of the schemas of helpers, and of named types,
  only the members that this code reads are kept, and the ids in a context are in range.
\<close>

unbundle bit_operations_syntax

section \<open>Declarations\<close>

datatype AstRegAccess = AstRw | AstRo | AstWo

datatype BuiltinTy =
    BUInt | BSInt | BBits | BUIntCap | BSIntCap | BBool | BBoolLower | BBit | BInt | BTime | BProp | BPseq | BSeverity | BLogger
  | BString | BVec | BEvent | BEventComb | BBuffer | BStream | BState | BQueue | BTSeq | BClock | BReset

datatype 'e TypeExpr =
    TNamed "'e TypeArg list"
  | TBuiltin BuiltinTy "'e TypeArg list"
and 'e TypeArg =
    ArgExpr 'e
  | ArgType "'e TypeExpr"
  | ArgNamed string 'e

record 'e FieldDecl =
  fd_name :: string
  fd_ty :: "'e TypeExpr"
  fd_bit_pos :: nat
  fd_reset :: "'e option"
  fd_access :: AstRegAccess

record 'e RegisterDecl =
  rd_name :: string
  rd_offset :: 'e
  rd_width :: "nat option"
  rd_reset :: "'e option"
  rd_access :: AstRegAccess
  rd_fields :: "'e FieldDecl list"

record 'e RegblockDecl =
  bd_name :: string
  default_width :: "nat option"
  bd_registers :: "'e RegisterDecl list"

section \<open>Schemas\<close>

datatype RegAccess = Rw | Ro | Wo

definition writes_to_bus :: "RegAccess \<Rightarrow> bool" where
  "writes_to_bus a \<longleftrightarrow> a = Rw \<or> a = Wo"

definition reads_from_bus :: "RegAccess \<Rightarrow> bool" where
  "reads_from_bus a \<longleftrightarrow> a = Rw \<or> a = Ro"

record RegFieldSchema =
  rf_name :: string
  bit_pos :: nat
  bit_width :: nat
  rf_signed :: bool
  rf_access :: RegAccess

record RegRegisterSchema =
  rr_name :: string
  rr_offset :: u64
  rr_width :: nat
  rr_access :: RegAccess
  rr_fields :: "RegFieldSchema list"

record RegblockSchema =
  rb_name :: string
  rb_record :: RecordId
  registers :: "RegRegisterSchema list"

record RecordFieldSchema =
  sf_name :: string
  sf_ty :: IrType
  vec_len :: "nat option"
  sf_default :: "ScalarDefault option"
  non_random :: bool
  attr_src :: "string list"

record RecordSchema =
  rs_name :: string
  rs_fields :: "RecordFieldSchema list"
  keeps :: "string list"

section \<open>Errors and constant folding\<close>

datatype V1Status = Rejects | EmitsUncompilable | SilentlyMisLowers | ReachabilityDependent | WorksButRetired | Unreliable

datatype LowerError =
    Unsupported string string
  | NotImplemented string string V1Status
  | Invalid string

record 'e folder =
  bool_literal :: "'e \<Rightarrow> bool option"
  fold_addr_const :: "'e \<Rightarrow> string \<Rightarrow> (LowerError, u64) result"
  fold_signed_const :: "'e \<Rightarrow> string \<Rightarrow> (LowerError, int) result"

definition ticked :: "string \<Rightarrow> string" where
  "ticked s = [CHR 0x60] @ s @ [CHR 0x60]"

fun show_hex_upper :: "nat \<Rightarrow> string" where
  "show_hex_upper n =
     (let d = (\<lambda>k. if k < 10 then char_of (48 + k) else char_of (55 + k)) in
      if n < 16 then [d n] else show_hex_upper (n div 16) @ [d (n mod 16)])"

declare show_hex_upper.simps [simp del]

fun show_hex :: "nat \<Rightarrow> string" where
  "show_hex n =
     (let d = (\<lambda>k. if k < 10 then char_of (48 + k) else char_of (87 + k)) in
      if n < 16 then [d n] else show_hex (n div 16) @ [d (n mod 16)])"

declare show_hex.simps [simp del]

section \<open>Lowering a declaration\<close>

fun lower_access :: "AstRegAccess \<Rightarrow> RegAccess" where
  "lower_access AstRw = Rw"
| "lower_access AstRo = Ro"
| "lower_access AstWo = Wo"

definition field_mask :: "nat \<Rightarrow> u64" where
  "field_mask width = (if width = 0 then 0 else if width \<le> 63 then push_bit width 1 - 1 else - 1)"

fun field_is_signed :: "'e TypeExpr \<Rightarrow> bool" where
  "field_is_signed (TBuiltin name _) = (name \<in> {BSInt, BSIntCap})"
| "field_is_signed (TNamed _) = False"

definition field_bit_width :: "'e folder \<Rightarrow> 'e TypeExpr \<Rightarrow> string \<Rightarrow> (LowerError, nat) result" where
  "field_bit_width cs t what =
     (case t of
        TNamed _ \<Rightarrow> Ok 1
      | TBuiltin name args \<Rightarrow>
          if name \<in> {BBit, BBool, BBoolLower} then Ok 1
          else if name \<in> {BUInt, BSInt, BUIntCap, BSIntCap, BBits} then
            (case args of
               [ArgExpr e] \<Rightarrow> try_bind (fold_addr_const cs e what) (\<lambda>w.
                 if unat w < 2 ^ 32 then Ok (unat w)
                 else Err (Invalid (''the '' @ what @ '' is '' @ show_nat (unat w) @
                   '', which exceeds every register width (at most 64)'')))
             | _ \<Rightarrow> Err (Invalid (''the '' @ what @ '' must be a single constant width argument, as in '' @ ticked ''uint<8>'')))
          else Ok 1)"

text \<open>The pattern of a signed reset value, and the message for one out of range.\<close>

definition signed_reset :: "string \<Rightarrow> string \<Rightarrow> string \<Rightarrow> nat \<Rightarrow> int \<Rightarrow> (LowerError, u64) result" where
  "signed_reset bname rname fname width v =
     (let lo = - (2 ^ (width - 1)); hi = 2 ^ (width - 1) - 1 in
      if v < lo \<or> hi < v then
        let hint = (if hi < v \<and> v < 2 ^ width
              then ''; to store the bit pattern 0x'' @ show_hex_upper (nat v) @ '', write '' @ show_int (v - 2 ^ width) else [])
        in Err (Invalid (''the reset value on regblock '' @ ticked bname @ '' register '' @ ticked rname @ '' field '' @ ticked fname @
             '' is '' @ show_int v @ '', which is outside the range of its signed '' @ show_nat width @ ''-bit type ['' @ show_int lo @
             '', '' @ show_int hi @ '']'' @ hint))
      else Ok (word_of_int v AND field_mask width))"

definition field_limit :: "nat \<Rightarrow> u64" where
  "field_limit width = (if width = 64 then - 1 else push_bit width 1 - 1)"

definition field_reset :: "'e folder \<Rightarrow> string \<Rightarrow> string \<Rightarrow> 'e FieldDecl \<Rightarrow> nat \<Rightarrow> (LowerError, u64 option) result" where
  "field_reset cs bname rname fld width =
     (let fname = fd_name fld;
          what = ''reset value on regblock '' @ ticked bname @ '' register '' @ ticked rname @ '' field '' @ ticked fname;
          sg = field_is_signed (fd_ty fld)
      in case fd_reset fld of
          None \<Rightarrow> Ok None
        | Some rv \<Rightarrow>
            try_bind
              (if sg then try_bind (fold_signed_const cs rv what) (signed_reset bname rname fname width)
               else case bool_literal cs rv of
                   Some b \<Rightarrow> Ok (of_bool b)
                 | None \<Rightarrow> fold_addr_const cs rv what)
              (\<lambda>r. if field_limit width < r
                 then Err (Invalid (''the '' @ what @ '' is '' @ show_nat (unat r) @ '', which does not fit its '' @ show_nat width @
                   ''-bit width (max '' @ show_nat (unat (field_limit width)) @ '')''))
                 else Ok (Some r)))"

definition lower_field :: "'e folder \<Rightarrow> string \<Rightarrow> string \<Rightarrow> nat \<Rightarrow> string list \<Rightarrow> 'e FieldDecl \<Rightarrow>
    (LowerError, RegFieldSchema \<times> (nat \<times> nat \<times> u64) list) result" where
  "lower_field cs bname rname width seen fld =
     (let fname = fd_name fld;
          here = ''regblock '' @ ticked bname @ '' register '' @ ticked rname
      in if fname \<in> set seen then Err (Invalid (here @ '' declares field '' @ ticked fname @ '' more than once''))
         else try_bind (field_bit_width cs (fd_ty fld) (''width of '' @ here @ '' field '' @ ticked fname)) (\<lambda>w.
           if w = 0 then Err (Invalid (here @ '' field '' @ ticked fname @ '' has zero width: a field must hold at least one bit''))
           else if width < fd_bit_pos fld + w then
             Err (Invalid (here @ '' field '' @ ticked fname @ '' (['' @ show_nat (fd_bit_pos fld) @ ''+:'' @ show_nat w @
               '']) exceeds the register width '' @ show_nat width))
           else try_bind (field_reset cs bname rname fld w) (\<lambda>r.
             Ok (\<lparr>rf_name = fname, bit_pos = fd_bit_pos fld, bit_width = w, rf_signed = field_is_signed (fd_ty fld),
                  rf_access = lower_access (fd_access fld)\<rparr>,
                 case r of None \<Rightarrow> [] | Some v \<Rightarrow> [(fd_bit_pos fld, w, v)]))))"

fun lower_fields :: "'e folder \<Rightarrow> string \<Rightarrow> string \<Rightarrow> nat \<Rightarrow> 'e FieldDecl list \<Rightarrow> RegFieldSchema list \<Rightarrow> (nat \<times> nat \<times> u64) list \<Rightarrow>
    (LowerError, RegFieldSchema list \<times> (nat \<times> nat \<times> u64) list) result" where
  "lower_fields cs bname rname width [] acc overlays = Ok (acc, overlays)"
| "lower_fields cs bname rname width (fld # rest) acc overlays =
     try_bind (lower_field cs bname rname width (map rf_name acc) fld) (\<lambda>(f, o').
       lower_fields cs bname rname width rest (acc @ [f]) (overlays @ o'))"

definition overlay_reset :: "u64 \<Rightarrow> nat \<times> nat \<times> u64 \<Rightarrow> u64" where
  "overlay_reset d p = (case p of (pos, width, r) \<Rightarrow>
     let m = push_bit pos (field_limit width) in (d AND NOT m) OR (push_bit pos r AND m))"

definition register_reset :: "'e folder \<Rightarrow> string \<Rightarrow> 'e RegisterDecl \<Rightarrow> nat \<Rightarrow> (LowerError, u64 option) result" where
  "register_reset cs bname reg width =
     (let what = ''reset value on regblock '' @ ticked bname @ '' register '' @ ticked (rd_name reg) in
      case rd_reset reg of
        None \<Rightarrow> Ok None
      | Some rv \<Rightarrow>
          try_bind (case bool_literal cs rv of Some b \<Rightarrow> Ok (of_bool b) | None \<Rightarrow> fold_addr_const cs rv what)
            (\<lambda>r. if width < 64 \<and> push_bit width 1 \<le> r
               then Err (Invalid (''the '' @ what @ '' is '' @ show_nat (unat r) @ '', which does not fit its '' @ show_nat width @
                 ''-bit width (max '' @ show_nat (unat (push_bit width 1 - 1 :: u64)) @ '')''))
               else Ok (Some r)))"

definition lower_register :: "'e folder \<Rightarrow> 'e RegblockDecl \<Rightarrow> string list \<Rightarrow> 'e RegisterDecl \<Rightarrow>
    (LowerError, RecordFieldSchema \<times> RegRegisterSchema) result" where
  "lower_register cs r seen reg =
     (let bname = bd_name r; rname = rd_name reg;
          width = (case rd_width reg of Some w \<Rightarrow> w | None \<Rightarrow> (case default_width r of Some w \<Rightarrow> w | None \<Rightarrow> 32))
      in if rname \<in> set seen then Err (Invalid (''regblock '' @ ticked bname @ '' declares register '' @ ticked rname @ '' more than once''))
         else if width = 0 \<or> 64 < width then
           let source = (if rd_width reg \<noteq> None then ''register '' @ ticked rname
                         else ''default width (register '' @ ticked rname @ '' declares none)'')
           in Err (Invalid (''regblock '' @ ticked bname @ '' '' @ source @ '' has width '' @ show_nat width @
                '': the value model is 64-bit, so register widths must be 1..=64''))
         else try_bind (lower_fields cs bname rname width (rd_fields reg) [] []) (\<lambda>(flds, overlays).
           try_bind (fold_addr_const cs (rd_offset reg)
             (ticked ''@ <addr>'' @ '' offset on regblock '' @ ticked bname @ '' register '' @ ticked rname)) (\<lambda>offset.
           try_bind (register_reset cs bname reg width) (\<lambda>reset.
             let mirror_default = foldl overlay_reset (case reset of Some v \<Rightarrow> v | None \<Rightarrow> 0) overlays
             in Ok (\<lparr>sf_name = rname, sf_ty = UInt (Some width), vec_len = None,
                     sf_default = (if reset \<noteq> None \<or> overlays \<noteq> [] then Some (Narrow mirror_default) else None),
                     non_random = False, attr_src = []\<rparr>,
                    \<lparr>rr_name = rname, rr_offset = offset, rr_width = width, rr_access = lower_access (rd_access reg),
                     rr_fields = flds\<rparr>)))))"

fun lower_registers :: "'e folder \<Rightarrow> 'e RegblockDecl \<Rightarrow> 'e RegisterDecl list \<Rightarrow> RecordFieldSchema list \<Rightarrow> RegRegisterSchema list \<Rightarrow>
    (LowerError, RecordFieldSchema list \<times> RegRegisterSchema list) result" where
  "lower_registers cs r [] flds regs = Ok (flds, regs)"
| "lower_registers cs r (reg # rest) flds regs =
     try_bind (lower_register cs r (map rr_name regs) reg) (\<lambda>(f, s).
       lower_registers cs r rest (flds @ [f]) (regs @ [s]))"

definition lower_regblock :: "'e folder \<Rightarrow> 'e RegblockDecl \<Rightarrow> RecordId \<Rightarrow> (LowerError, RecordSchema \<times> RegblockSchema) result" where
  "lower_regblock cs r record_id =
     try_bind (lower_registers cs r (bd_registers r) [] []) (\<lambda>(flds, regs).
       if regs = [] then Err (Invalid (''regblock '' @ ticked (bd_name r) @ '' declares no registers''))
       else Ok (\<lparr>rs_name = bd_name r, rs_fields = flds, keeps = []\<rparr>,
                \<lparr>rb_name = bd_name r, rb_record = record_id, registers = regs\<rparr>))"

section \<open>Access expressions\<close>

definition field_value_type :: "RegFieldSchema \<Rightarrow> IrType" where
  "field_value_type fld = (if rf_signed fld then SInt (Some (bit_width fld)) else UInt (Some (bit_width fld)))"

definition lit :: "u64 \<Rightarrow> Expr" where
  "lit v = Literal v Unknown"

definition mirror_field_expr :: "LocalId \<Rightarrow> string \<Rightarrow> Expr" where
  "mirror_field_expr mirror fld = RecordField mirror fld [] [] None"

definition as_register_value :: "Expr \<Rightarrow> nat \<Rightarrow> Expr" where
  "as_register_value v width = WidthCast Zext width None v"

definition field_extract_expr :: "Expr \<Rightarrow> RegFieldSchema \<Rightarrow> Expr" where
  "field_extract_expr word fld =
     (let bits = Binary BinOp.BitAnd (Binary BinOp.Shr word (lit (of_nat (bit_pos fld)))) (lit (field_mask (bit_width fld)))
      in if \<not> rf_signed fld then bits
         else let v = (if bit_width fld < 64 then WidthCast Sext 64 (Some (bit_width fld)) bits else bits)
              in WidthCast Sext (bit_width fld) (Some (bit_width fld)) v)"

definition reg_read_expr :: "LocalId \<Rightarrow> string \<Rightarrow> RegRegisterSchema \<Rightarrow> Expr" where
  "reg_read_expr mirror helper_ty reg = RegRead mirror helper_ty (rr_name reg) (rr_offset reg) (reads_from_bus (rr_access reg))"

definition field_read_expr :: "LocalId \<Rightarrow> string \<Rightarrow> RegRegisterSchema \<Rightarrow> RegFieldSchema \<Rightarrow> Expr" where
  "field_read_expr mirror helper_ty reg fld =
     field_extract_expr
       (if reads_from_bus (rf_access fld) then RegRead mirror helper_ty (rr_name reg) (rr_offset reg) True
        else mirror_field_expr mirror (rr_name reg)) fld"

definition field_insert_expr :: "LocalId \<Rightarrow> RegRegisterSchema \<Rightarrow> RegFieldSchema \<Rightarrow> Expr \<Rightarrow> Expr" where
  "field_insert_expr mirror reg fld v =
     (let m = field_mask (bit_width fld); pos = of_nat (bit_pos fld);
          cleared = Binary BinOp.BitAnd (mirror_field_expr mirror (rr_name reg)) (Unary UnOp.BitNot (lit (push_bit (bit_pos fld) m)));
          inserted = Binary BinOp.Shl (Binary BinOp.BitAnd v (lit m)) (lit pos)
      in Binary BinOp.BitOr cleared inserted)"

definition register_value_expr :: "RegRegisterSchema \<Rightarrow> Expr \<Rightarrow> Expr" where
  "register_value_expr reg v =
     (case v of
        Literal x Unknown \<Rightarrow> lit (x AND field_mask (rr_width reg))
      | _ \<Rightarrow> as_register_value (if 64 \<le> rr_width reg then v else Binary BinOp.BitAnd v (lit (field_mask (rr_width reg)))) (rr_width reg))"

section \<open>Calls of the helper\<close>

record TransactorMethodSchema =
  tm_name :: string
  tm_function :: FunctionId
  tm_param_names :: "string list"
  tm_param_tys :: "IrType list"
  tm_ret_ty :: "IrType option"

record TransactorSchema =
  ts_name :: string
  ts_methods :: "TransactorMethodSchema list"

record BusMethod =
  bm_name :: string
  bm_args :: "(string \<times> IrType) list"
  bm_ret :: "IrType option"

record BusDecl =
  bus_name :: string
  bus_methods :: "BusMethod list"

text \<open>The part of the lowering context that resolves a helper; the types of a bus method are already IR types, and \<open>debug_type\<close>
  is the derived printer of types.\<close>

record HelperCtx =
  transactor_fields :: "string \<Rightarrow> TransactorId option"
  transactors :: "TransactorSchema list"
  bus_bindings :: "string \<Rightarrow> BusDecl option"
  bus_origins :: "string \<Rightarrow> PortOrigin option"
  testbench_method_owner :: "TestbenchTypeId option"
  debug_type :: "IrType \<Rightarrow> string"

fun scalar_type_name :: "(IrType \<Rightarrow> string) \<Rightarrow> IrType \<Rightarrow> string" where
  "scalar_type_name dbg (UInt (Some w)) = ''uint<'' @ show_nat w @ ''>''"
| "scalar_type_name dbg (SInt (Some w)) = ''sint<'' @ show_nat w @ ''>''"
| "scalar_type_name dbg (UInt None) = ''uint''"
| "scalar_type_name dbg (SInt None) = ''sint''"
| "scalar_type_name dbg Bool = ''bool''"
| "scalar_type_name dbg IrType.String = ''String''"
| "scalar_type_name dbg other = dbg other"

definition helper_arg :: "RegRegisterSchema \<Rightarrow> nat \<Rightarrow> IrType \<times> string \<times> string" where
  "helper_arg reg index =
     (if index = 0 then
        (UInt (Some (max (bit_len (unat (rr_offset reg))) 1)), ''its offset 0x'' @ show_hex (unat (rr_offset reg)),
         ''Widen the helper's address parameter, or move the register to an offset that fits it.'')
      else (UInt (Some (rr_width reg)), ''its value'',
         ''Declare the helper's data parameter as an unsigned type at least as wide as the register, or narrow the register's ''
           @ ticked ''width'' @ ''.''))"

fun check_args_from :: "HelperCtx \<Rightarrow> string \<Rightarrow> string \<Rightarrow> string list \<Rightarrow> RegRegisterSchema \<Rightarrow> nat \<Rightarrow> IrType list \<Rightarrow> (LowerError, unit) result" where
  "check_args_from ctx helper meth names reg index [] = Ok ()"
| "check_args_from ctx helper meth names reg index (expected # rest) =
     (case helper_arg reg index of (actual, role, hint) \<Rightarrow>
        if assign_compatible expected actual then check_args_from ctx helper meth names reg (Suc index) rest
        else let pname = (if index < length names then names ! index else ''?'')
             in Err (Invalid (''register '' @ ticked (rr_name reg) @ '' cannot use regblock '' @ ticked ''via'' @ '' '' @ helper @ '' ''
               @ ticked meth @ '': it declares parameter '' @ show_nat (index + 1) @ '' '' @ ticked pname @ '' as ''
               @ scalar_type_name (debug_type ctx) expected @ '', but the frontdoor passes '' @ role @ '' as a ''
               @ scalar_type_name (debug_type ctx) actual @ ''. '' @ hint)))"

definition check_regblock_helper_args :: "HelperCtx \<Rightarrow> string \<Rightarrow> string \<Rightarrow> string list \<Rightarrow> IrType list \<Rightarrow> nat \<Rightarrow> RegRegisterSchema \<Rightarrow>
    (LowerError, unit) result" where
  "check_regblock_helper_args ctx helper meth names tys arity reg = check_args_from ctx helper meth names reg 0 (take arity tys)"

definition transactor_call :: "HelperCtx \<Rightarrow> TransactorId \<Rightarrow> string \<Rightarrow> string \<Rightarrow> Expr list \<Rightarrow> RegRegisterSchema \<Rightarrow> (LowerError, Expr) result" where
  "transactor_call ctx xid helper meth args reg =
     (let schema = transactors ctx ! xid in
      case find (\<lambda>m. tm_name m = meth) (ts_methods schema) of
        None \<Rightarrow> Err (Invalid (''regblock '' @ ticked ''via'' @ '' helper '' @ ticked (ts_name schema) @ '' has no '' @ ticked meth @ '' method''))
      | Some m \<Rightarrow>
          if length (tm_param_names m) \<noteq> length args then
            Err (Invalid (''regblock '' @ ticked ''via'' @ '' helper '' @ ticked (ts_name schema) @ '' method '' @ ticked meth @ '' takes '' @
              show_nat (length (tm_param_names m)) @ '' argument(s), the frontdoor passes '' @ show_nat (length args)))
          else try_bind (check_regblock_helper_args ctx (''helper '' @ ticked (ts_name schema) @ '' method'') meth (tm_param_names m)
                 (tm_param_tys m) (length args) reg)
            (\<lambda>_. Ok (Call (TransactorMethod helper meth (Callable xid (tm_function m))) args)))"

definition bus_call :: "HelperCtx \<Rightarrow> BusDecl \<Rightarrow> string \<Rightarrow> string \<Rightarrow> Expr list \<Rightarrow> RegRegisterSchema \<Rightarrow> (LowerError, Expr) result" where
  "bus_call ctx bus helper meth args reg =
     (case find (\<lambda>m. bm_name m = meth) (bus_methods bus) of
        None \<Rightarrow> Err (Invalid (''regblock '' @ ticked ''via'' @ '' bus '' @ ticked (bus_name bus) @ '' has no tlm_method '' @ ticked meth))
      | Some m \<Rightarrow>
          if length (bm_args m) \<noteq> length args then
            Err (Invalid (''regblock '' @ ticked ''via'' @ '' bus '' @ ticked (bus_name bus) @ '' tlm_method '' @ ticked meth @ '' takes '' @
              show_nat (length (bm_args m)) @ '' argument(s), the frontdoor passes '' @ show_nat (length args)))
          else try_bind (check_regblock_helper_args ctx (''bus '' @ ticked (bus_name bus) @ '' tlm_method'') meth (map fst (bm_args m))
                 (map snd (bm_args m)) (length args) reg)
            (\<lambda>_. try_bind
              (case (case bus_origins ctx helper of Some og \<Rightarrow> og | None \<Rightarrow> BoundBusPort) of
                 BusBinding b fld \<Rightarrow> Ok (case testbench_method_owner ctx of
                     Some tb \<Rightarrow> TestbenchBusField tb fld (bus_name bus)
                   | None \<Rightarrow> ConcreteBusBinding b fld)
               | BoundBusPort \<Rightarrow> Ok BoundBus
               | Dut \<Rightarrow> Err (Invalid (''regblock '' @ ticked ''via'' @ '' bus '' @ ticked helper @ '' lost its typed binding provenance'')))
              (\<lambda>target. Ok (Call (TransactorMethod helper meth target) args))))"

definition regblock_call :: "HelperCtx \<Rightarrow> string \<Rightarrow> string \<Rightarrow> Expr list \<Rightarrow> RegRegisterSchema \<Rightarrow> (LowerError, Expr) result" where
  "regblock_call ctx helper meth args reg =
     (case transactor_fields ctx helper of
        Some xid \<Rightarrow> transactor_call ctx xid helper meth args reg
      | None \<Rightarrow>
          (case bus_bindings ctx helper of
             None \<Rightarrow> Err (Invalid (''regblock '' @ ticked ''via'' @ '' helper '' @ ticked helper @
               '' is neither an active transactor field nor a bus binding''))
           | Some bus \<Rightarrow> bus_call ctx bus helper meth args reg))"

definition transactor_call_ret_ty :: "HelperCtx \<Rightarrow> string \<Rightarrow> string \<Rightarrow> IrType option" where
  "transactor_call_ret_ty ctx helper meth =
     (case transactor_fields ctx helper of
        Some xid \<Rightarrow> Option.bind (find (\<lambda>m. tm_name m = meth) (ts_methods (transactors ctx ! xid))) tm_ret_ty
      | None \<Rightarrow> Option.bind (bus_bindings ctx helper) (\<lambda>bus.
          Option.bind (find (\<lambda>m. bm_name m = meth) (bus_methods bus)) bm_ret))"

section \<open>Building statements\<close>

text \<open>What the function builder keeps of the current block, the locals and the names in use.\<close>

record Builder =
  fb_stmts :: "Stmt list"
  fb_locals :: "TypedLocal list"
  temp_counter :: nat
  local_names :: "string list"

definition temp_name :: "nat \<Rightarrow> string" where
  "temp_name n = ''__t'' @ show_nat n"

function free_temp :: "string list \<Rightarrow> nat \<Rightarrow> nat" where
  "free_temp names n = (if temp_name n \<in> set names then free_temp names (Suc n) else n)"
  by auto

lemma temp_name_inject [simp]: "temp_name m = temp_name n \<longleftrightarrow> m = n"
  by (simp add: temp_name_def)

termination free_temp
proof (relation "measure (\<lambda>(names, n). card {m. n \<le> m \<and> temp_name m \<in> set names})")
  fix names n
  let ?S = "\<lambda>n. {m. n \<le> m \<and> temp_name m \<in> set names}"
  assume n: "temp_name n \<in> set names"
  have "finite (?S n)"
    by (rule finite_subset [OF _ finite_vimageI [of "set names" temp_name]]) (auto simp: inj_def)
  moreover have "?S (Suc n) = ?S n - {n}" by auto
  ultimately show "((names, Suc n), names, n) \<in> measure (\<lambda>(names, n). card {m. n \<le> m \<and> temp_name m \<in> set names})"
    using n card_Diff1_less [of "?S n" n] by simp
qed simp

declare free_temp.simps [simp del]

definition fresh_temp :: "Builder \<Rightarrow> LocalId \<times> Builder" where
  "fresh_temp b =
     (let n = free_temp (local_names b) (temp_counter b)
      in (length (fb_locals b),
          b\<lparr>fb_locals := fb_locals b @ [\<lparr>local_name = temp_name n, local_ty = Unknown\<rparr>], temp_counter := Suc n,
            local_names := temp_name n # local_names b\<rparr>))"

definition push_stmt :: "Stmt \<Rightarrow> Builder \<Rightarrow> Builder" where
  "push_stmt s b = b\<lparr>fb_stmts := fb_stmts b @ [s]\<rparr>"

definition set_local_type :: "LocalId \<Rightarrow> IrType \<Rightarrow> Builder \<Rightarrow> Builder" where
  "set_local_type l ty b = b\<lparr>fb_locals := (fb_locals b)[l := (fb_locals b ! l)\<lparr>local_ty := ty\<rparr>]\<rparr>"

fun is_bus_edge :: "Expr \<Rightarrow> bool" where
  "is_bus_edge (Call (TransactorMethod _ _ target) _) = (case target of Callable _ _ \<Rightarrow> False | _ \<Rightarrow> True)"
| "is_bus_edge _ = False"

definition push_regblock_frontdoor_call :: "LocalId option \<Rightarrow> Expr \<Rightarrow> Builder \<Rightarrow> Builder" where
  "push_regblock_frontdoor_call dest call b =
     (if is_bus_edge call then
        (case dest of
           Some d \<Rightarrow> push_stmt (Assign d call) b
         | None \<Rightarrow> (case fresh_temp b of (d, b') \<Rightarrow> push_stmt (Assign d call) b'))
      else push_stmt (TransactorCall dest call) b)"

definition mirror_write :: "LocalId \<Rightarrow> string \<Rightarrow> Expr \<Rightarrow> Stmt" where
  "mirror_write mirror fld v = RecordFieldWrite mirror fld [] [] None v"

fun is_atom :: "Expr \<Rightarrow> bool" where
  "is_atom (Local _) = True"
| "is_atom (Literal _ _) = True"
| "is_atom _ = False"

text \<open>The value to write is given as lowered; \<^verbatim>\<open>lower_expr_no_ports\<close> comes before these operations, and so
  does \<^verbatim>\<open>reject_record_into_scalar\<close>, which refuses a record for the value.\<close>

definition lower_reg_write :: "HelperCtx \<Rightarrow> LocalId \<Rightarrow> string \<Rightarrow> RegRegisterSchema \<Rightarrow> Expr \<Rightarrow> Builder \<Rightarrow> (LowerError, Builder) result" where
  "lower_reg_write ctx mirror helper reg v b =
     (let v = register_value_expr reg v;
          writes_bus = writes_to_bus (rr_access reg);
          (v, b) = (if writes_bus \<and> \<not> is_atom v
            then (case fresh_temp b of (t, b) \<Rightarrow> (Expr.Local t, push_stmt (Assign t v) (set_local_type t (UInt (Some (rr_width reg))) b)))
            else (v, b));
          b = push_stmt (mirror_write mirror (rr_name reg) v) b
      in if writes_bus
         then try_bind (regblock_call ctx helper ''write'' [lit (rr_offset reg), v] reg) (\<lambda>call.
           Ok (push_regblock_frontdoor_call None call b))
         else Ok b)"

definition lower_field_write :: "HelperCtx \<Rightarrow> LocalId \<Rightarrow> string \<Rightarrow> RegRegisterSchema \<Rightarrow> RegFieldSchema \<Rightarrow> Expr \<Rightarrow> Builder \<Rightarrow>
    (LowerError, Builder) result" where
  "lower_field_write ctx mirror helper reg fld v b =
     (let b = push_stmt (mirror_write mirror (rr_name reg) (field_insert_expr mirror reg fld v)) b
      in if writes_to_bus (rf_access fld)
         then try_bind (regblock_call ctx helper ''write'' [lit (rr_offset reg), mirror_field_expr mirror (rr_name reg)] reg) (\<lambda>call.
           Ok (push_regblock_frontdoor_call None call b))
         else Ok b)"

definition register_read_value :: "HelperCtx \<Rightarrow> string \<Rightarrow> Expr \<Rightarrow> RegRegisterSchema \<Rightarrow> Builder \<Rightarrow> LocalId \<times> Builder" where
  "register_read_value ctx helper call reg b =
     (let register_ty = UInt (Some (rr_width reg));
          ret = transactor_call_ret_ty ctx helper ''read'';
          (raw, b) = fresh_temp b;
          b = (case ret of Some ty \<Rightarrow> set_local_type raw ty b | None \<Rightarrow> b);
          b = push_regblock_frontdoor_call (Some raw) call b
      in if ret = Some register_ty then (raw, b)
         else let masked = (if 64 \<le> rr_width reg then Expr.Local raw
                            else Binary BinOp.BitAnd (Expr.Local raw) (lit (field_mask (rr_width reg))));
                  (v, b) = fresh_temp b;
                  b = set_local_type v register_ty b
              in (v, push_stmt (Assign v (as_register_value masked (rr_width reg))) b))"

definition regblock_helper_type :: "HelperCtx \<Rightarrow> string \<Rightarrow> string \<Rightarrow> nat \<Rightarrow> RegRegisterSchema \<Rightarrow> (LowerError, string) result" where
  "regblock_helper_type ctx helper meth arity reg =
     (case transactor_fields ctx helper of
        None \<Rightarrow> Err (Invalid (''regblock '' @ ticked ''via'' @ '' helper '' @ ticked helper @ '' is not an active transactor field''))
      | Some xid \<Rightarrow>
          let schema = transactors ctx ! xid in
          (case find (\<lambda>m. tm_name m = meth) (ts_methods schema) of
             None \<Rightarrow> Err (Invalid (''regblock '' @ ticked ''via'' @ '' helper '' @ ticked (ts_name schema) @ '' has no '' @ ticked meth @ '' method''))
           | Some m \<Rightarrow>
               if length (tm_param_names m) \<noteq> arity then
                 Err (Invalid (''regblock '' @ ticked ''via'' @ '' helper '' @ ticked (ts_name schema) @ '' method '' @ ticked meth @ '' takes '' @
                   show_nat (length (tm_param_names m)) @ '' argument(s), the frontdoor passes '' @ show_nat arity))
               else try_bind (check_regblock_helper_args ctx (''helper '' @ ticked (ts_name schema) @ '' method'') meth (tm_param_names m)
                      (tm_param_tys m) arity reg) (\<lambda>_. Ok (ts_name schema))))"

definition lower_reg_read_value :: "HelperCtx \<Rightarrow> LocalId \<Rightarrow> string \<Rightarrow> RegRegisterSchema \<Rightarrow> Builder \<Rightarrow> (LowerError, Expr \<times> Builder) result" where
  "lower_reg_read_value ctx mirror helper reg b =
     (if \<not> reads_from_bus (rr_access reg) then Ok (mirror_field_expr mirror (rr_name reg), b)
      else if bus_bindings ctx helper \<noteq> None then
        try_bind (regblock_call ctx helper ''read'' [lit (rr_offset reg)] reg) (\<lambda>call.
          let (v, b) = register_read_value ctx helper call reg b
          in Ok (Expr.Local v, push_stmt (mirror_write mirror (rr_name reg) (Expr.Local v)) b))
      else try_bind (regblock_helper_type ctx helper ''read'' 1 reg) (\<lambda>ty. Ok (reg_read_expr mirror ty reg, b)))"

fun bitbash_patterns :: "HelperCtx \<Rightarrow> string \<Rightarrow> RegRegisterSchema \<Rightarrow> (string \<times> u64) list \<Rightarrow> Builder \<Rightarrow> (LowerError, Builder) result" where
  "bitbash_patterns ctx helper reg [] b = Ok b"
| "bitbash_patterns ctx helper reg ((label, pat) # rest) b =
     try_bind (regblock_call ctx helper ''write'' [lit (rr_offset reg), lit pat] reg) (\<lambda>wcall.
       let b = push_regblock_frontdoor_call None wcall b in
       try_bind (regblock_call ctx helper ''read'' [lit (rr_offset reg)] reg) (\<lambda>rcall.
         let (got, b) = fresh_temp b;
             b = (case transactor_call_ret_ty ctx helper ''read'' of Some ty \<Rightarrow> set_local_type got ty b | None \<Rightarrow> b);
             b = push_regblock_frontdoor_call (Some got) rcall b;
             on_fail = \<lparr>fmt = ''bitbash '' @ rr_name reg @ '' '' @ label @ '': wrote 0x%llx, got 0x%llx'',
               fmt_args = [\<lparr>fa_expr = lit pat, wide_hex = None\<rparr>, \<lparr>fa_expr = Expr.Local got, wide_hex = None\<rparr>]\<rparr>
         in bitbash_patterns ctx helper reg rest
              (push_stmt (AssertCheck (Binary BinOp.Eq (Expr.Local got) (lit pat)) on_fail) b)))"

fun lower_bitbash :: "HelperCtx \<Rightarrow> string \<Rightarrow> RegRegisterSchema list \<Rightarrow> Builder \<Rightarrow> (LowerError, Builder) result" where
  "lower_bitbash ctx helper [] b = Ok b"
| "lower_bitbash ctx helper (reg # rest) b =
     (if \<not> writes_to_bus (rr_access reg) \<or> \<not> reads_from_bus (rr_access reg) then lower_bitbash ctx helper rest b
      else let m = (if 64 \<le> rr_width reg then - 1 else push_bit (rr_width reg) 1 - 1)
           in try_bind (bitbash_patterns ctx helper reg [(''ones'', m), (''zero'', 0)] b) (lower_bitbash ctx helper rest))"

definition lower_reset_all :: "LocalId \<Rightarrow> RecordSchema \<Rightarrow> Builder \<Rightarrow> Builder" where
  "lower_reset_all mirror rec b =
     foldl (\<lambda>b (fld, v). push_stmt (mirror_write mirror fld (lit v)) b) b
       (map (\<lambda>f. (sf_name f, case sf_default f of None \<Rightarrow> 0 | Some d \<Rightarrow> ScalarDefault_low_u64 d)) (rs_fields rec))"

section \<open>Layout\<close>

definition field_fits :: "nat \<Rightarrow> RegFieldSchema \<Rightarrow> bool" where
  "field_fits width f \<longleftrightarrow> 0 < bit_width f \<and> bit_pos f + bit_width f \<le> width"

definition wf_register :: "RegRegisterSchema \<Rightarrow> bool" where
  "wf_register reg \<longleftrightarrow> 0 < rr_width reg \<and> rr_width reg \<le> 64 \<and> distinct (map rf_name (rr_fields reg)) \<and>
     list_all (field_fits (rr_width reg)) (rr_fields reg)"

text \<open>The word fits in \<open>n\<close> bits.\<close>

definition word_fits :: "nat \<Rightarrow> u64 \<Rightarrow> bool" where
  "word_fits n v \<longleftrightarrow> unat v < 2 ^ n"

definition mirrors :: "RecordFieldSchema \<Rightarrow> RegRegisterSchema \<Rightarrow> bool" where
  "mirrors f reg \<longleftrightarrow> sf_name f = rr_name reg \<and> sf_ty f = UInt (Some (rr_width reg)) \<and> vec_len f = None \<and>
     (case sf_default f of None \<Rightarrow> True | Some (Narrow v) \<Rightarrow> word_fits (rr_width reg) v | Some (Wide _) \<Rightarrow> False)"

lemma word_fits_iff: "word_fits n v \<longleftrightarrow> take_bit n v = v"
  unfolding word_fits_def by (metis take_bit_nat_eq_self_iff unsigned_take_bit_eq word_unat_eq_iff)

lemma word_fits_bits: "word_fits n v \<longleftrightarrow> (\<forall>i < 64. n \<le> i \<longrightarrow> \<not> bit v i)"
  unfolding word_fits_iff bit_eq_iff by (auto simp: bit_take_bit_iff)

lemma field_limit_mask: "w \<le> 64 \<Longrightarrow> field_limit w = mask w"
  by (cases "w = 64") (simp_all add: field_limit_def mask_eq_exp_minus_1)

lemma field_mask_mask: "w \<le> 64 \<Longrightarrow> field_mask w = mask w"
  by (cases "w = 64"; cases "w = 0") (simp_all add: field_mask_def mask_eq_exp_minus_1)

lemma limit_word_fits: "w \<le> 64 \<Longrightarrow> r \<le> field_limit w \<longleftrightarrow> word_fits w r"
proof -
  assume w: "w \<le> 64"
  have "unat (of_nat (mask w) :: u64) = mask w" using w by (simp add: unsigned_of_nat take_bit_of_mask min_absorb2)
  then have "unat (mask w :: u64) = mask w" by (simp only: of_nat_mask_eq)
  moreover have "0 < (2 :: nat) ^ w" by simp
  ultimately show ?thesis using w unfolding field_limit_mask [OF w] word_le_nat_alt word_fits_def mask_eq_exp_minus_1 by linarith
qed

lemma overlay_bit:
  assumes "pos + w \<le> 64" "word_fits w r" "i < 64"
  shows "bit (overlay_reset d (pos, w, r)) i \<longleftrightarrow> (if pos \<le> i \<and> i < pos + w then bit r (i - pos) else bit d i)"
proof -
  have "field_limit w = mask w" using assms(1) by (intro field_limit_mask) simp
  then show ?thesis using assms
    by (auto simp: overlay_reset_def Let_def bit_simps)
qed

text \<open>A declared field, its schema and its reset.\<close>

definition field_lowered :: "'e folder \<Rightarrow> string \<Rightarrow> string \<Rightarrow> nat \<Rightarrow> 'e FieldDecl \<Rightarrow> RegFieldSchema \<times> u64 option \<Rightarrow> bool" where
  "field_lowered cs bname rname width fld p \<longleftrightarrow> (case p of (f, r) \<Rightarrow>
     rf_name f = fd_name fld \<and> bit_pos f = fd_bit_pos fld \<and> rf_signed f = field_is_signed (fd_ty fld) \<and>
     rf_access f = lower_access (fd_access fld) \<and> field_fits width f \<and>
     field_reset cs bname rname fld (bit_width f) = Ok r \<and> (\<forall>v. r = Some v \<longrightarrow> word_fits (bit_width f) v))"

definition reset_overlay :: "RegFieldSchema \<times> u64 option \<Rightarrow> (nat \<times> nat \<times> u64) list" where
  "reset_overlay p = (case p of (f, None) \<Rightarrow> [] | (f, Some v) \<Rightarrow> [(bit_pos f, bit_width f, v)])"

lemma reset_overlay_simps [simp]:
  "reset_overlay (f, None) = []" "reset_overlay (f, Some v) = [(bit_pos f, bit_width f, v)]"
  by (simp_all add: reset_overlay_def)

lemma field_reset_fits:
  assumes "field_reset cs bname rname fld w = Ok (Some v)" "w \<le> 64" shows "word_fits w v"
  using assms by (auto simp: field_reset_def Let_def result_simps limit_word_fits [symmetric] split: option.splits if_splits)

lemma lower_field_Ok:
  assumes "lower_field cs bname rname width seen fld = Ok (f, ov)" "width \<le> 64"
  shows "\<exists>r. field_lowered cs bname rname width fld (f, r) \<and> ov = reset_overlay (f, r) \<and> rf_name f \<notin> set seen"
proof -
  obtain w r where "fd_name fld \<notin> set seen" "w \<noteq> 0" "\<not> width < fd_bit_pos fld + w" "field_reset cs bname rname fld w = Ok r"
    and f: "f = \<lparr>rf_name = fd_name fld, bit_pos = fd_bit_pos fld, bit_width = w, rf_signed = field_is_signed (fd_ty fld),
      rf_access = lower_access (fd_access fld)\<rparr>" "ov = (case r of None \<Rightarrow> [] | Some v \<Rightarrow> [(fd_bit_pos fld, w, v)])"
    using assms(1) unfolding lower_field_def Let_def by (auto simp only: result_simps if_False split: if_splits)
  then show ?thesis using field_reset_fits [of cs bname rname fld w] assms(2)
    by (intro exI [of _ r]) (auto simp: field_lowered_def field_fits_def split: option.split)
qed

lemma lower_fields_Ok:
  "lower_fields cs bname rname width decls acc overlays = Ok (flds, ov) \<Longrightarrow> width \<le> 64 \<Longrightarrow> distinct (map rf_name acc) \<Longrightarrow>
   \<exists>ps. list_all2 (field_lowered cs bname rname width) decls ps \<and> flds = acc @ map fst ps \<and>
     ov = overlays @ concat (map reset_overlay ps) \<and> distinct (map rf_name flds)"
proof (induction decls arbitrary: acc overlays)
  case (Cons fld rest)
  from Cons(2) obtain f o' where f: "lower_field cs bname rname width (map rf_name acc) fld = Ok (f, o')"
    "lower_fields cs bname rname width rest (acc @ [f]) (overlays @ o') = Ok (flds, ov)" by (auto simp: result_simps)
  obtain r where r: "field_lowered cs bname rname width fld (f, r)" "o' = reset_overlay (f, r)" "rf_name f \<notin> rf_name ` set acc"
    using lower_field_Ok [OF f(1) Cons(3)] by auto
  obtain ps where ps: "list_all2 (field_lowered cs bname rname width) rest ps" "flds = (acc @ [f]) @ map fst ps"
    "ov = (overlays @ o') @ concat (map reset_overlay ps)" "distinct (map rf_name flds)"
    using Cons(1) [OF f(2) Cons(3)] Cons(4) r(3) by auto
  then show ?case using r by (intro exI [of _ "(f, r) # ps"]) simp
qed auto

definition fields_apart :: "RegFieldSchema \<Rightarrow> RegFieldSchema \<Rightarrow> bool" where
  "fields_apart f g \<longleftrightarrow> bit_pos f + bit_width f \<le> bit_pos g \<or> bit_pos g + bit_width g \<le> bit_pos f"

definition fields_disjoint :: "RegFieldSchema list \<Rightarrow> bool" where
  "fields_disjoint = sorted_wrt fields_apart"

definition in_field :: "RegFieldSchema \<Rightarrow> nat \<Rightarrow> bool" where
  "in_field f i \<longleftrightarrow> bit_pos f \<le> i \<and> i < bit_pos f + bit_width f"

abbreviation overlays_of :: "(RegFieldSchema \<times> u64 option) list \<Rightarrow> (nat \<times> nat \<times> u64) list" where
  "overlays_of ps \<equiv> concat (map reset_overlay ps)"

definition resets_fit :: "nat \<Rightarrow> (RegFieldSchema \<times> u64 option) list \<Rightarrow> bool" where
  "resets_fit width ps \<longleftrightarrow> (\<forall>(f, r) \<in> set ps. field_fits width f \<and> (\<forall>v. r = Some v \<longrightarrow> word_fits (bit_width f) v))"

lemma resets_fit_simps [simp]:
  "resets_fit width []"
  "resets_fit width (p # ps) \<longleftrightarrow> field_fits width (fst p) \<and> (\<forall>v. snd p = Some v \<longrightarrow> word_fits (bit_width (fst p)) v) \<and> resets_fit width ps"
  by (auto simp: resets_fit_def)

lemma overlays_outside:
  "resets_fit width ps \<Longrightarrow> width \<le> 64 \<Longrightarrow> i < 64 \<Longrightarrow> \<forall>(f, r) \<in> set ps. r \<noteq> None \<longrightarrow> \<not> in_field f i \<Longrightarrow>
   bit (foldl overlay_reset d (overlays_of ps)) i = bit d i"
proof (induction ps arbitrary: d)
  case (Cons p ps)
  obtain f r where p: "p = (f, r)" by (cases p)
  have "bit (foldl overlay_reset d (reset_overlay p)) i = bit d i"
    using Cons(2-5) overlay_bit [of "bit_pos f" "bit_width f" _ i d]
    by (cases r) (auto simp: p field_fits_def in_field_def)
  then show ?case using Cons by (simp add: p)
qed simp

lemma overlays_inside:
  "resets_fit width ps \<Longrightarrow> width \<le> 64 \<Longrightarrow> fields_disjoint (map fst ps) \<Longrightarrow> (f, Some v) \<in> set ps \<Longrightarrow> in_field f i \<Longrightarrow>
   bit (foldl overlay_reset d (overlays_of ps)) i = bit v (i - bit_pos f)"
proof (induction ps arbitrary: d)
  case (Cons p ps)
  show ?case
  proof (cases "(f, Some v) = p")
    case True
    have i: "i < 64" using Cons(2,3,6) True by (auto simp: field_fits_def in_field_def)
    have "\<forall>(g, r) \<in> set ps. r \<noteq> None \<longrightarrow> \<not> in_field g i"
      using Cons(4,6) True by (fastforce simp: fields_disjoint_def fields_apart_def in_field_def)
    then have "bit (foldl overlay_reset (overlay_reset d (bit_pos f, bit_width f, v)) (overlays_of ps)) i =
        bit (overlay_reset d (bit_pos f, bit_width f, v)) i"
      using Cons(2,3) i overlays_outside [of width ps i] by simp
    then show ?thesis using Cons(2,3,6) True i overlay_bit [of "bit_pos f" "bit_width f" v i d]
      by (auto simp: field_fits_def in_field_def)
  next
    case False
    then show ?thesis using Cons by (auto simp: fields_disjoint_def)
  qed
qed simp

lemma overlays_fit:
  assumes "resets_fit width ps" "width \<le> 64" "word_fits width d"
  shows "word_fits width (foldl overlay_reset d (overlays_of ps))"
proof -
  have "\<not> bit (foldl overlay_reset d (overlays_of ps)) i" if "i < 64" "width \<le> i" for i
  proof -
    have "\<forall>(f, r) \<in> set ps. r \<noteq> None \<longrightarrow> \<not> in_field f i"
      using assms(1) that by (fastforce simp: resets_fit_def field_fits_def in_field_def)
    then show ?thesis using overlays_outside [OF assms(1,2) that(1)] assms(3) that by (simp add: word_fits_bits)
  qed
  then show ?thesis by (simp add: word_fits_bits)
qed

text \<open>A declared register, its mirror field and its schema.\<close>

definition declared_width :: "'e RegblockDecl \<Rightarrow> 'e RegisterDecl \<Rightarrow> nat" where
  "declared_width r reg = (case rd_width reg of Some w \<Rightarrow> w | None \<Rightarrow> (case default_width r of Some w \<Rightarrow> w | None \<Rightarrow> 32))"

definition register_lowered :: "'e folder \<Rightarrow> 'e RegblockDecl \<Rightarrow> 'e RegisterDecl \<Rightarrow> RecordFieldSchema \<times> RegRegisterSchema \<Rightarrow> bool" where
  "register_lowered cs r reg q \<longleftrightarrow> (case q of (m, s) \<Rightarrow> rr_name s = rd_name reg \<and> rr_width s = declared_width r reg \<and>
     rr_access s = lower_access (rd_access reg) \<and> wf_register s \<and> mirrors m s \<and>
     (\<exists>ps reset. list_all2 (field_lowered cs (bd_name r) (rd_name reg) (rr_width s)) (rd_fields reg) ps \<and> rr_fields s = map fst ps \<and>
       register_reset cs (bd_name r) reg (rr_width s) = Ok reset \<and>
       sf_default m = (if reset = None \<and> overlays_of ps = [] then None
         else Some (Narrow (foldl overlay_reset (case reset of Some v \<Rightarrow> v | None \<Rightarrow> 0) (overlays_of ps))))))"

lemma register_reset_fits:
  assumes "register_reset cs bname reg w = Ok (Some v)" "w \<le> 64" shows "word_fits w v"
proof (cases "w = 64")
  case True
  then show ?thesis by (simp add: word_fits_bits)
next
  case False
  then have "\<not> push_bit w 1 \<le> v" using assms by (auto simp: register_reset_def Let_def result_simps split: option.splits if_splits)
  moreover have "(2 :: nat) ^ w < 2 ^ 64" using False assms(2) by (intro power_strict_increasing) simp_all
  then have "unat (of_nat (2 ^ w) :: u64) = 2 ^ w" by (simp only: unsigned_of_nat take_bit_nat_def) simp
  ultimately show ?thesis by (simp add: word_fits_def word_le_nat_alt not_le)
qed

lemma resets_fit_lowered: "list_all2 (field_lowered cs bname rname width) decls ps \<Longrightarrow> resets_fit width ps"
  by (induction rule: list_all2_induct) (auto simp: field_lowered_def)

lemma lower_register_Ok:
  assumes "lower_register cs r seen reg = Ok q"
  shows "register_lowered cs r reg q \<and> rr_name (snd q) \<notin> set seen"
proof -
  let ?w = "declared_width r reg"
  have g: "rd_name reg \<notin> set seen" "\<not> (?w = 0 \<or> 64 < ?w)"
    using assms unfolding lower_register_def Let_def declared_width_def [symmetric] by (auto split: if_splits)
  obtain flds overlays offset reset where ok: "rd_name reg \<notin> set seen" "\<not> (?w = 0 \<or> 64 < ?w)"
      "lower_fields cs (bd_name r) (rd_name reg) ?w (rd_fields reg) [] [] = Ok (flds, overlays)"
      "register_reset cs (bd_name r) reg ?w = Ok reset"
    and q: "q = (\<lparr>sf_name = rd_name reg, sf_ty = UInt (Some ?w), vec_len = None,
        sf_default = (if reset \<noteq> None \<or> overlays \<noteq> []
          then Some (Narrow (foldl overlay_reset (case reset of Some v \<Rightarrow> v | None \<Rightarrow> 0) overlays)) else None),
        non_random = False, attr_src = []\<rparr>,
      \<lparr>rr_name = rd_name reg, rr_offset = offset, rr_width = ?w, rr_access = lower_access (rd_access reg), rr_fields = flds\<rparr>)"
    using assms g unfolding lower_register_def Let_def declared_width_def [symmetric]
    by (simp only: if_False try_eq_Inr_iff split_paired_Ex prod.case sum.inject) blast
  then obtain ps where ps: "list_all2 (field_lowered cs (bd_name r) (rd_name reg) ?w) (rd_fields reg) ps"
      "flds = map fst ps" "overlays = overlays_of ps" "distinct (map rf_name flds)"
    using lower_fields_Ok [OF ok(3)] by auto
  have fit: "resets_fit ?w ps" using ps(1) by (rule resets_fit_lowered)
  have "word_fits ?w (case reset of Some v \<Rightarrow> v | None \<Rightarrow> 0)"
    using register_reset_fits [of cs "bd_name r" reg ?w] ok(2,4) by (cases reset) (auto simp: word_fits_def not_less)
  then have "word_fits ?w (foldl overlay_reset (case reset of Some v \<Rightarrow> v | None \<Rightarrow> 0) overlays)"
    unfolding ps(3) using fit ok(2) by (intro overlays_fit) simp_all
  moreover have "list_all (field_fits ?w) flds" using fit by (auto simp: ps(2) resets_fit_def list_all_iff)
  ultimately show ?thesis using ok ps unfolding q register_lowered_def
    by (auto simp: wf_register_def mirrors_def intro!: exI [of _ ps] exI [of _ reset])
qed

lemma lower_registers_Ok:
  "lower_registers cs r decls ms ss = Ok (ms', ss') \<Longrightarrow> distinct (map rr_name ss) \<Longrightarrow>
   \<exists>qs. list_all2 (register_lowered cs r) decls qs \<and> ms' = ms @ map fst qs \<and> ss' = ss @ map snd qs \<and> distinct (map rr_name ss')"
proof (induction decls arbitrary: ms ss)
  case (Cons reg rest)
  from Cons(2) obtain q where q: "lower_register cs r (map rr_name ss) reg = Ok q"
    "lower_registers cs r rest (ms @ [fst q]) (ss @ [snd q]) = Ok (ms', ss')" by (auto simp: result_simps)
  note one = lower_register_Ok [OF q(1)]
  then obtain qs where "list_all2 (register_lowered cs r) rest qs" "ms' = (ms @ [fst q]) @ map fst qs"
    "ss' = (ss @ [snd q]) @ map snd qs" "distinct (map rr_name ss')"
    using Cons(1) [OF q(2)] Cons(3) by auto
  then show ?case using one by (intro exI [of _ "q # qs"]) simp
qed auto

lemma lower_regblock_Ok:
  assumes "lower_regblock cs r rid = Ok (rec, schema)"
  shows "\<exists>qs. list_all2 (register_lowered cs r) (bd_registers r) qs \<and> rs_fields rec = map fst qs \<and> registers schema = map snd qs \<and>
    distinct (map rr_name (registers schema)) \<and> registers schema \<noteq> []"
  using assms lower_registers_Ok [of cs r "bd_registers r" "[]" "[]"]
  by (auto simp: lower_regblock_def result_simps split: if_splits)

section \<open>The machine\<close>

text \<open>
  The meaning of the emitted statements: mirror cells and locals are 64-bit words, and a device store \<open>store a v\<close> of a word \<open>v\<close>
  written at address \<open>a\<close>.  A signed extension to at most 64 bits takes the low bits of its source width.
\<close>

record machine =
  cells :: "LocalId \<Rightarrow> string \<Rightarrow> u64"
  vars :: "LocalId \<Rightarrow> u64"
  device :: "u64 \<Rightarrow> u64"

fun word_eval :: "machine \<Rightarrow> Expr \<Rightarrow> u64 option" where
  "word_eval m (Literal v Unknown) = Some v"
| "word_eval m (Expr.Local l) = Some (vars m l)"
| "word_eval m (RecordField l f [] [] None) = Some (cells m l f)"
| "word_eval m (RegRead l _ f a reads) = Some (if reads then device m a else cells m l f)"
| "word_eval m (Unary UnOp.BitNot a) = map_option (\<lambda>x. NOT x) (word_eval m a)"
| "word_eval m (Binary op a b) =
     (case (word_eval m a, word_eval m b) of
        (Some x, Some y) \<Rightarrow>
          (case op of
             BinOp.BitAnd \<Rightarrow> Some (x AND y)
           | BinOp.BitOr \<Rightarrow> Some (x OR y)
           | BinOp.Shl \<Rightarrow> if unat y < 64 then Some (push_bit (unat y) x) else None
           | BinOp.Shr \<Rightarrow> if unat y < 64 then Some (drop_bit (unat y) x) else None
           | BinOp.Eq \<Rightarrow> Some (of_bool (x = y))
           | _ \<Rightarrow> None)
      | _ \<Rightarrow> None)"
| "word_eval m (WidthCast Zext w None a) = word_eval m a"
| "word_eval m (WidthCast Sext w (Some sw) a) =
     (if w \<le> 64 \<and> 0 < sw then map_option (\<lambda>x. if sw \<le> w then signed_take_bit (sw - 1) x else x) (word_eval m a) else None)"
| "word_eval m _ = None"

definition set_var :: "LocalId \<Rightarrow> u64 \<Rightarrow> machine \<Rightarrow> machine" where
  "set_var l v m = m\<lparr>vars := (vars m)(l := v)\<rparr>"

definition set_cell :: "LocalId \<Rightarrow> string \<Rightarrow> u64 \<Rightarrow> machine \<Rightarrow> machine" where
  "set_cell l f v m = m\<lparr>cells := (cells m)(l := (cells m l)(f := v))\<rparr>"

fun exec_call :: "(u64 \<Rightarrow> u64 \<Rightarrow> u64) \<Rightarrow> LocalId option \<Rightarrow> string \<Rightarrow> Expr list \<Rightarrow> machine \<Rightarrow> machine option" where
  "exec_call store dest meth [a, d] m =
     (if meth = ''write'' then do { a \<leftarrow> word_eval m a; d \<leftarrow> word_eval m d; Some (m\<lparr>device := (device m)(a := store a d)\<rparr>) } else None)"
| "exec_call store dest meth [a] m =
     (if meth = ''read'' then do { a \<leftarrow> word_eval m a; Some (case dest of Some l \<Rightarrow> set_var l (device m a) m | None \<Rightarrow> m) } else None)"
| "exec_call store dest meth _ m = None"

text \<open>A failed assertion stops the run.\<close>

fun helper_call :: "Expr \<Rightarrow> (string \<times> Expr list) option" where
  "helper_call (Call (TransactorMethod _ meth _) args) = Some (meth, args)"
| "helper_call _ = None"

definition exec_stmt :: "(u64 \<Rightarrow> u64 \<Rightarrow> u64) \<Rightarrow> Stmt \<Rightarrow> machine \<Rightarrow> machine option" where
  "exec_stmt store s m =
     (case s of
        Assign l e \<Rightarrow> (case helper_call e of
            Some (meth, args) \<Rightarrow> exec_call store (Some l) meth args m
          | None \<Rightarrow> map_option (\<lambda>v. set_var l v m) (word_eval m e))
      | TransactorCall dest e \<Rightarrow> Option.bind (helper_call e) (\<lambda>(meth, args). exec_call store dest meth args m)
      | RecordFieldWrite l f path mids idx e \<Rightarrow>
          if path = [] \<and> mids = [] \<and> idx = None then map_option (\<lambda>v. set_cell l f v m) (word_eval m e) else None
      | AssertCheck e _ \<Rightarrow> Option.bind (word_eval m e) (\<lambda>v. if v \<noteq> 0 then Some m else None)
      | _ \<Rightarrow> None)"

fun exec_stmts :: "(u64 \<Rightarrow> u64 \<Rightarrow> u64) \<Rightarrow> Stmt list \<Rightarrow> machine \<Rightarrow> machine option" where
  "exec_stmts store [] m = Some m"
| "exec_stmts store (s # ss) m = Option.bind (exec_stmt store s m) (exec_stmts store ss)"

text \<open>The value of a field in a register word, as an integer and as the word that carries it.\<close>

definition field_carried :: "RegFieldSchema \<Rightarrow> u64 \<Rightarrow> u64" where
  "field_carried f x =
     (let bits = take_bit (bit_width f) x in if rf_signed f then signed_take_bit (bit_width f - 1) bits else bits)"

definition field_word :: "RegFieldSchema \<Rightarrow> u64 \<Rightarrow> u64" where
  "field_word f word = field_carried f (drop_bit (bit_pos f) word)"

definition field_int :: "RegFieldSchema \<Rightarrow> u64 \<Rightarrow> int" where
  "field_int f word = (if rf_signed f then sint (field_word f word) else uint (field_word f word))"

definition insert_field :: "RegFieldSchema \<Rightarrow> u64 \<Rightarrow> u64 \<Rightarrow> u64" where
  "insert_field f x word = (word AND NOT (push_bit (bit_pos f) (mask (bit_width f)))) OR push_bit (bit_pos f) (take_bit (bit_width f) x)"

lemma exec_stmts_append: "exec_stmts store (xs @ ys) m = Option.bind (exec_stmts store xs m) (exec_stmts store ys)"
  by (induction xs arbitrary: m) (auto split: bind_split)

lemma word_eval_lit [simp]: "word_eval m (lit v) = Some v"
  by (simp add: lit_def)

lemma word_eval_cell [simp]: "word_eval m (mirror_field_expr l f) = Some (cells m l f)"
  by (simp add: mirror_field_expr_def)

lemma and_mask_take_bit: "x AND mask n = take_bit n (x :: u64)"
  by (simp add: take_bit_eq_mask)

lemma field_extract_eval:
  assumes "field_fits width f" "width \<le> 64" "word_eval m e = Some word"
  shows "word_eval m (field_extract_expr e f) = Some (field_word f word)"
proof -
  have f: "bit_pos f < 64" "0 < bit_width f" "bit_width f \<le> 64" using assms(1,2) by (auto simp: field_fits_def)
  have pos: "unat (of_nat (bit_pos f) :: u64) = bit_pos f" using f(1) by (simp add: unsigned_of_nat take_bit_nat_def)
  have idem: "signed_take_bit (bit_width f - 1) (signed_take_bit (bit_width f - 1) x) = signed_take_bit (bit_width f - 1) x" for x :: u64
    by simp
  show ?thesis using f assms(3)
    by (simp add: field_extract_expr_def Let_def pos field_mask_mask and_mask_take_bit field_word_def field_carried_def idem)
qed

lemma insert_field_bit:
  assumes "field_fits width f" "width \<le> 64" "i < 64"
  shows "bit (insert_field f x word) i \<longleftrightarrow> (if in_field f i then bit x (i - bit_pos f) else bit word i)"
  using assms by (auto simp: insert_field_def in_field_def field_fits_def bit_simps)

lemma insert_field_same:
  assumes "field_fits width f" "width \<le> 64"
  shows "field_word f (insert_field f x word) = field_carried f x"
proof -
  have "take_bit (bit_width f) (drop_bit (bit_pos f) (insert_field f x word)) = take_bit (bit_width f) x"
    using assms insert_field_bit [OF assms]
    by (intro bit_word_eqI) (auto simp: bit_take_bit_iff bit_drop_bit_eq in_field_def field_fits_def)
  then show ?thesis by (simp add: field_word_def field_carried_def)
qed

lemma insert_field_other:
  assumes "field_fits width f" "field_fits width g" "width \<le> 64" "fields_apart f g"
  shows "field_word g (insert_field f x word) = field_word g word"
proof -
  have "take_bit (bit_width g) (drop_bit (bit_pos g) (insert_field f x word)) = take_bit (bit_width g) (drop_bit (bit_pos g) word)"
    using assms insert_field_bit [OF assms(1,3)]
    by (intro bit_word_eqI) (auto simp: bit_take_bit_iff bit_drop_bit_eq in_field_def field_fits_def fields_apart_def)
  then show ?thesis by (simp add: field_word_def field_carried_def)
qed

lemma insert_field_fits:
  assumes "field_fits width f" "width \<le> 64" "word_fits width word" shows "word_fits width (insert_field f x word)"
  using assms insert_field_bit [OF assms(1,2)] by (auto simp: word_fits_bits in_field_def field_fits_def)

lemma carried_integer:
  assumes "0 < bit_width f" "bit_width f \<le> 64" "in_range (bit_width f) (rf_signed f) k"
  shows "(if rf_signed f then sint (field_carried f (word_of_int k)) else uint (field_carried f (word_of_int k))) = k"
proof (cases "rf_signed f")
  case True
  have k: "signed_take_bit (bit_width f - 1) k = k"
    using assms(3) True unfolding in_range_def by (simp only: if_True signed_take_bit_int_eq_self_iff)
  have "sint (field_carried f (word_of_int k)) = signed_take_bit (bit_width f - 1) k"
    using True assms(1,2) by (intro bit_eqI) (auto simp: field_carried_def Let_def bit_simps min_def)
  then show ?thesis using True k by simp
next
  case False
  have k: "take_bit (bit_width f) k = k" using assms(3) False unfolding in_range_def by (simp add: take_bit_int_eq_self_iff)
  have "uint (field_carried f (word_of_int k)) = take_bit (bit_width f) k"
    using False assms(1,2) by (intro bit_eqI) (auto simp: field_carried_def Let_def bit_simps)
  then show ?thesis using False k by simp
qed

section \<open>Emitted statements\<close>

lemma regblock_call_form: "regblock_call ctx h meth args reg = Ok c \<Longrightarrow> helper_call c = Some (meth, args)"
  by (auto simp: regblock_call_def transactor_call_def bus_call_def Let_def result_simps
      split: option.splits if_splits PortOrigin.splits)

lemma exec_write_dest: "exec_call store d ''write'' args m = exec_call store d' ''write'' args m"
  by (cases "(store, d, ''write'', args, m)" rule: exec_call.cases) auto

lemma push_call_exec:
  assumes "helper_call c = Some (meth, args)" "dest \<noteq> None \<or> meth = ''write''"
  shows "\<exists>s. fb_stmts (push_regblock_frontdoor_call dest c b) = fb_stmts b @ [s] \<and>
    (\<forall>m. exec_stmt store s m = exec_call store dest meth args m)"
  using assms exec_write_dest
  by (auto simp: push_regblock_frontdoor_call_def push_stmt_def fresh_temp_def Let_def exec_stmt_def split: option.splits)

lemma exec_mirror_write [simp]: "exec_stmt store (mirror_write l f e) m = map_option (\<lambda>v. set_cell l f v m) (word_eval m e)"
  by (simp add: exec_stmt_def mirror_write_def)

lemma push_stmt_stmts [simp]: "fb_stmts (push_stmt s b) = fb_stmts b @ [s]"
  by (simp add: push_stmt_def)

lemma set_cell_simps [simp]:
  "cells (set_cell l f v m) l' f' = (if l' = l \<and> f' = f then v else cells m l' f')"
  "vars (set_cell l f v m) = vars m" "device (set_cell l f v m) = device m"
  by (simp_all add: set_cell_def)

lemma set_var_simps [simp]:
  "vars (set_var l v m) = (vars m)(l := v)" "cells (set_var l v m) = cells m" "device (set_var l v m) = device m"
  by (simp_all add: set_var_def)

lemma field_insert_eval:
  assumes "field_fits width f" "width \<le> 64" "word_eval m v = Some x"
  shows "word_eval m (field_insert_expr mirror reg f v) = Some (insert_field f x (cells m mirror (rr_name reg)))"
proof -
  have f: "bit_pos f < 64" "bit_width f \<le> 64" using assms(1,2) by (auto simp: field_fits_def)
  have pos: "unat (of_nat (bit_pos f) :: u64) = bit_pos f" using f(1) by (simp add: unsigned_of_nat take_bit_nat_def)
  show ?thesis using f assms(3)
    by (simp add: field_insert_expr_def Let_def pos field_mask_mask and_mask_take_bit insert_field_def)
qed

lemma field_write_exec:
  assumes "lower_field_write ctx mirror helper reg f v b = Ok b'" "field_fits (rr_width reg) f" "rr_width reg \<le> 64"
    and "word_eval m v = Some x"
  shows "\<exists>ss. fb_stmts b' = fb_stmts b @ ss \<and>
    exec_stmts store ss m = Some (let w = insert_field f x (cells m mirror (rr_name reg)); m' = set_cell mirror (rr_name reg) w m
      in if writes_to_bus (rf_access f) then m'\<lparr>device := (device m)(rr_offset reg := store (rr_offset reg) w)\<rparr> else m')"
proof (cases "writes_to_bus (rf_access f)")
  case False
  then show ?thesis using assms(1) field_insert_eval [OF assms(2-4)]
    by (auto simp: lower_field_write_def Let_def)
next
  case True
  then obtain c where c: "regblock_call ctx helper ''write'' [lit (rr_offset reg), mirror_field_expr mirror (rr_name reg)] reg = Ok c"
    and b': "b' = push_regblock_frontdoor_call None c (push_stmt (mirror_write mirror (rr_name reg) (field_insert_expr mirror reg f v)) b)"
    using assms(1) by (auto simp: lower_field_write_def Let_def result_simps)
  obtain s where "fb_stmts b' = fb_stmts b @ [mirror_write mirror (rr_name reg) (field_insert_expr mirror reg f v), s]"
    "\<And>m. exec_stmt store s m = exec_call store None ''write'' [lit (rr_offset reg), mirror_field_expr mirror (rr_name reg)] m"
    using push_call_exec [OF regblock_call_form [OF c], of None "push_stmt (mirror_write mirror (rr_name reg) (field_insert_expr mirror reg f v)) b" store]
    by (auto simp: b')
  then show ?thesis using True field_insert_eval [OF assms(2-4)] by (auto simp: Let_def)
qed

lemma register_value_eval:
  assumes "word_eval m v = Some x" "rr_width reg \<le> 64"
  shows "word_eval m (register_value_expr reg v) = Some (take_bit (rr_width reg) x)"
proof -
  let ?w = "rr_width reg"
  have full: "64 \<le> ?w \<Longrightarrow> take_bit ?w x = x" by (simp add: bit_eq_iff bit_take_bit_iff)
  have "word_eval m (as_register_value (if 64 \<le> ?w then v else Binary BinOp.BitAnd v (lit (field_mask ?w))) ?w) = Some (take_bit ?w x)"
    using assms full by (simp add: as_register_value_def field_mask_mask and_mask_take_bit)
  moreover have "word_eval m (lit (y AND field_mask ?w)) = Some (take_bit ?w y)" for y
    using assms(2) by (simp add: field_mask_mask and_mask_take_bit)
  ultimately show ?thesis using assms(1) by (auto simp: register_value_expr_def split: Expr.split IrType.split)
qed

text \<open>The machine after a write of the word \<open>w\<close> to a register.\<close>

definition after_write :: "(u64 \<Rightarrow> u64 \<Rightarrow> u64) \<Rightarrow> LocalId \<Rightarrow> RegRegisterSchema \<Rightarrow> u64 \<Rightarrow> machine \<Rightarrow> machine \<Rightarrow> bool" where
  "after_write store mirror reg w m m' \<longleftrightarrow>
     (\<forall>l f. cells m' l f = (if l = mirror \<and> f = rr_name reg then w else cells m l f)) \<and>
     device m' = (if writes_to_bus (rr_access reg) then (device m)(rr_offset reg := store (rr_offset reg) w) else device m)"

lemma helper_call_not_value: "is_atom v \<Longrightarrow> helper_call v = None" "helper_call (register_value_expr reg v) = None"
  by (cases v; simp) (auto simp: register_value_expr_def lit_def as_register_value_def split: Expr.split IrType.split)

lemma reg_write_exec:
  assumes "lower_reg_write ctx mirror helper reg v b = Ok b'" "rr_width reg \<le> 64" "word_eval m v = Some x"
  shows "\<exists>ss m'. fb_stmts b' = fb_stmts b @ ss \<and> exec_stmts store ss m = Some m' \<and>
    after_write store mirror reg (take_bit (rr_width reg) x) m m'"
proof -
  let ?e = "register_value_expr reg v" and ?x = "take_bit (rr_width reg) x"
  note ev = register_value_eval [OF assms(3,2)]
  obtain a ss0 m0 b0 where a: "fb_stmts b0 = fb_stmts b @ ss0 @ [mirror_write mirror (rr_name reg) a]" "word_eval m0 a = Some ?x"
      "writes_to_bus (rr_access reg) \<Longrightarrow> word_eval (set_cell mirror (rr_name reg) ?x m0) a = Some ?x"
      "exec_stmts store ss0 m = Some m0" "cells m0 = cells m" "device m0 = device m"
    and b': "(if writes_to_bus (rr_access reg)
      then try_bind (regblock_call ctx helper ''write'' [lit (rr_offset reg), a] reg) (\<lambda>c. Ok (push_regblock_frontdoor_call None c b0))
      else Ok b0) = Ok b'"
  proof (cases "writes_to_bus (rr_access reg) \<and> \<not> is_atom ?e")
    case True
    obtain t b1 where t: "fresh_temp b = (t, b1)" by (cases "fresh_temp b")
    then have "fb_stmts b1 = fb_stmts b" by (auto simp: fresh_temp_def Let_def)
    then show ?thesis using True assms(1) ev t helper_call_not_value(2) [of reg v]
      by (intro that [of "push_stmt (mirror_write mirror (rr_name reg) (Expr.Local t))
            (push_stmt (Assign t ?e) (set_local_type t (UInt (Some (rr_width reg))) b1))" "[Assign t ?e]" "Expr.Local t" "set_var t ?x m"])
        (simp_all add: lower_reg_write_def Let_def exec_stmt_def set_local_type_def)
  next
    case False
    then have "writes_to_bus (rr_access reg) \<Longrightarrow> \<exists>y. ?e = lit y"
      by (auto simp: register_value_expr_def as_register_value_def split: Expr.split IrType.split)
    then show ?thesis using False assms(1) ev
      by (intro that [of "push_stmt (mirror_write mirror (rr_name reg) ?e) b" "[]" ?e m])
        (auto simp: lower_reg_write_def Let_def split: if_splits)
  qed
  show ?thesis
  proof (cases "writes_to_bus (rr_access reg)")
    case False
    then show ?thesis using a b' by (auto simp: exec_stmts_append after_write_def)
  next
    case True
    then obtain c where c: "regblock_call ctx helper ''write'' [lit (rr_offset reg), a] reg = Ok c"
      "b' = push_regblock_frontdoor_call None c b0" using b' by (auto simp: result_simps)
    obtain s where "fb_stmts b' = fb_stmts b0 @ [s]"
      "\<And>m. exec_stmt store s m = exec_call store None ''write'' [lit (rr_offset reg), a] m"
      using push_call_exec [OF regblock_call_form [OF c(1)], of None b0 store] c(2) by auto
    then show ?thesis using True a by (auto simp: exec_stmts_append after_write_def)
  qed
qed

lemma fresh_temp_stmts: "fresh_temp b = (t, b') \<Longrightarrow> fb_stmts b' = fb_stmts b"
  by (auto simp: fresh_temp_def Let_def)

lemma set_local_type_stmts [simp]: "fb_stmts (set_local_type l ty b) = fb_stmts b"
  by (simp add: set_local_type_def)

text \<open>A call of the helper's read into a fresh local.\<close>

lemma push_read_exec:
  assumes "regblock_call ctx helper ''read'' [lit (rr_offset reg)] reg = Ok c"
  shows "\<exists>s. fb_stmts (push_regblock_frontdoor_call (Some t) c b) = fb_stmts b @ [s] \<and>
    (\<forall>m. exec_stmt store s m = Some (set_var t (device m (rr_offset reg)) m))"
  using push_call_exec [OF regblock_call_form [OF assms], of "Some t" b store] by auto

lemma masked_eval:
  assumes "word_fits w x" "word_eval m e = Some x" "w \<le> 64"
  shows "word_eval m (as_register_value (if 64 \<le> w then e else Binary BinOp.BitAnd e (lit (field_mask w))) w) = Some x"
  using assms by (simp add: as_register_value_def field_mask_mask and_mask_take_bit word_fits_iff)

lemma register_read_exec:
  assumes "regblock_call ctx helper ''read'' [lit (rr_offset reg)] reg = Ok c" "register_read_value ctx helper c reg b = (l, b')"
    and "rr_width reg \<le> 64" "word_fits (rr_width reg) (device m (rr_offset reg))"
  shows "\<exists>ss m'. fb_stmts b' = fb_stmts b @ ss \<and> exec_stmts store ss m = Some m' \<and> vars m' l = device m (rr_offset reg) \<and>
    cells m' = cells m \<and> device m' = device m"
proof -
  let ?ret = "transactor_call_ret_ty ctx helper ''read''" and ?ty = "UInt (Some (rr_width reg))" and ?x = "device m (rr_offset reg)"
  obtain raw b0 where raw: "fresh_temp b = (raw, b0)" by (cases "fresh_temp b")
  let ?b1 = "case ?ret of Some ty \<Rightarrow> set_local_type raw ty b0 | None \<Rightarrow> b0"
  let ?b2 = "push_regblock_frontdoor_call (Some raw) c ?b1"
  have "fb_stmts ?b1 = fb_stmts b" using fresh_temp_stmts [OF raw] by (simp split: option.split)
  then obtain s where s: "fb_stmts ?b2 = fb_stmts b @ [s]" "\<And>m. exec_stmt store s m = Some (set_var raw (device m (rr_offset reg)) m)"
    using push_read_exec [OF assms(1), of raw ?b1 store] by auto
  show ?thesis
  proof (cases "?ret = Some ?ty")
    case True
    then have "l = raw" "b' = ?b2" using assms(2) raw by (auto simp: register_read_value_def)
    then show ?thesis using s by auto
  next
    case False
    obtain t b3 where t: "fresh_temp ?b2 = (t, b3)" by (cases "fresh_temp ?b2")
    let ?e = "as_register_value (if 64 \<le> rr_width reg then Expr.Local raw
      else Binary BinOp.BitAnd (Expr.Local raw) (lit (field_mask (rr_width reg)))) (rr_width reg)"
    have l: "l = t" "b' = push_stmt (Assign t ?e) (set_local_type t ?ty b3)"
      using False assms(2) raw t by (auto simp: register_read_value_def Let_def)
    have "word_eval (set_var raw ?x m) ?e = Some ?x" using assms(3,4) by (intro masked_eval) simp_all
    moreover have "helper_call ?e = None" by (simp add: as_register_value_def)
    ultimately show ?thesis using s l fresh_temp_stmts [OF t]
      by (intro exI [of _ "[s, Assign t ?e]"]) (simp add: exec_stmt_def)
  qed
qed

lemma reg_read_exec:
  assumes "lower_reg_read_value ctx mirror helper reg b = Ok (e, b')" "rr_width reg \<le> 64"
    and "reads_from_bus (rr_access reg) \<Longrightarrow> word_fits (rr_width reg) (device m (rr_offset reg))"
  shows "\<exists>ss m'. fb_stmts b' = fb_stmts b @ ss \<and> exec_stmts store ss m = Some m' \<and> device m' = device m \<and>
    word_eval m' e = Some (if reads_from_bus (rr_access reg) then device m (rr_offset reg) else cells m mirror (rr_name reg))"
proof (cases "reads_from_bus (rr_access reg) \<and> bus_bindings ctx helper \<noteq> None")
  case True
  obtain c where c0: "regblock_call ctx helper ''read'' [lit (rr_offset reg)] reg = Ok c"
    using assms(1) True by (auto simp: lower_reg_read_value_def result_simps)
  obtain l b1 where c1: "register_read_value ctx helper c reg b = (l, b1)" by (cases "register_read_value ctx helper c reg b")
  have c: "regblock_call ctx helper ''read'' [lit (rr_offset reg)] reg = Ok c" "register_read_value ctx helper c reg b = (l, b1)"
      "e = Expr.Local l" "b' = push_stmt (mirror_write mirror (rr_name reg) (Expr.Local l)) b1"
    using assms(1) True c0 c1 by (auto simp: lower_reg_read_value_def)
  obtain ss m' where "fb_stmts b1 = fb_stmts b @ ss" "exec_stmts store ss m = Some m'" "vars m' l = device m (rr_offset reg)" "device m' = device m"
    using register_read_exec [OF c(1,2) assms(2)] assms(3) True by blast
  then show ?thesis using True c(3,4)
    by (intro exI [of _ "ss @ [mirror_write mirror (rr_name reg) (Expr.Local l)]"]) (simp add: exec_stmts_append)
next
  case False
  then show ?thesis using assms(1)
    by (auto simp: lower_reg_read_value_def reg_read_expr_def result_simps split: if_splits)
qed

section \<open>Walking all registers\<close>

definition rw_register :: "RegRegisterSchema \<Rightarrow> bool" where
  "rw_register reg \<longleftrightarrow> writes_to_bus (rr_access reg) \<and> reads_from_bus (rr_access reg)"

lemma bitbash_patterns_exec:
  "bitbash_patterns ctx helper reg pats b = Ok b' \<Longrightarrow>
   \<exists>ss. fb_stmts b' = fb_stmts b @ ss \<and>
     (\<forall>m. (exec_stmts store ss m \<noteq> None) = (\<forall>(label, pat) \<in> set pats. store (rr_offset reg) pat = pat))"
proof (induction pats arbitrary: b)
  case (Cons p pats)
  obtain label pat where p: "p = (label, pat)" by (cases p)
  let ?ret = "transactor_call_ret_ty ctx helper ''read''"
  from Cons(2) obtain w r where w: "regblock_call ctx helper ''write'' [lit (rr_offset reg), lit pat] reg = Ok w"
      and r: "regblock_call ctx helper ''read'' [lit (rr_offset reg)] reg = Ok r"
    by (auto simp: p Let_def result_simps)
  let ?b1 = "push_regblock_frontdoor_call None w b"
  obtain got b2 where got: "fresh_temp ?b1 = (got, b2)" by (cases "fresh_temp ?b1")
  let ?b3 = "case ?ret of Some ty \<Rightarrow> set_local_type got ty b2 | None \<Rightarrow> b2"
  let ?b4 = "push_regblock_frontdoor_call (Some got) r ?b3"
  obtain on_fail where rest: "bitbash_patterns ctx helper reg pats (push_stmt (AssertCheck (Binary BinOp.Eq (Expr.Local got) (lit pat)) on_fail) ?b4) = Ok b'"
    using Cons(2) w r got by (auto simp: p Let_def)
  obtain s1 where s1: "fb_stmts ?b1 = fb_stmts b @ [s1]"
      "\<And>m. exec_stmt store s1 m = Some (m\<lparr>device := (device m)(rr_offset reg := store (rr_offset reg) pat)\<rparr>)"
    using push_call_exec [OF regblock_call_form [OF w], of None b store] by auto
  have b3: "fb_stmts ?b3 = fb_stmts b @ [s1]" using fresh_temp_stmts [OF got] s1(1) by (simp split: option.split)
  obtain s2 where s2: "fb_stmts ?b4 = fb_stmts b @ [s1, s2]" "\<And>m. exec_stmt store s2 m = Some (set_var got (device m (rr_offset reg)) m)"
    using push_read_exec [OF r, of got ?b3 store] b3 by auto
  obtain ss where ss: "fb_stmts b' = fb_stmts b @ [s1, s2, AssertCheck (Binary BinOp.Eq (Expr.Local got) (lit pat)) on_fail] @ ss"
      "\<And>m. (exec_stmts store ss m \<noteq> None) = (\<forall>(label, pat) \<in> set pats. store (rr_offset reg) pat = pat)"
    using Cons(1) [OF rest] s2(1) by auto
  show ?case using s1(2) s2(2) ss
    by (intro exI [of _ "[s1, s2, AssertCheck (Binary BinOp.Eq (Expr.Local got) (lit pat)) on_fail] @ ss"]) (auto simp: p exec_stmt_def)
qed simp

lemma bitbash_exec:
  "lower_bitbash ctx helper regs b = Ok b' \<Longrightarrow> \<forall>reg \<in> set regs. rr_width reg \<le> 64 \<Longrightarrow>
   \<exists>ss. fb_stmts b' = fb_stmts b @ ss \<and>
     (\<forall>m. (exec_stmts store ss m \<noteq> None) =
       (\<forall>reg \<in> set regs. rw_register reg \<longrightarrow> store (rr_offset reg) (mask (rr_width reg)) = mask (rr_width reg) \<and> store (rr_offset reg) 0 = 0))"
proof (induction regs arbitrary: b)
  case (Cons reg regs)
  show ?case
  proof (cases "rw_register reg")
    case False
    then show ?thesis using Cons by (auto simp: rw_register_def)
  next
    case True
    let ?m = "if 64 \<le> rr_width reg then - 1 else push_bit (rr_width reg) 1 - 1 :: u64"
    have m: "?m = mask (rr_width reg)" using Cons(3) by (cases "rr_width reg = 64") (auto simp: mask_eq_exp_minus_1)
    obtain b1 where b1: "bitbash_patterns ctx helper reg [(''ones'', ?m), (''zero'', 0)] b = Ok b1" "lower_bitbash ctx helper regs b1 = Ok b'"
      using Cons(2) True by (auto simp: rw_register_def Let_def result_simps)
    obtain s1 where s1: "fb_stmts b1 = fb_stmts b @ s1" "\<And>m. (exec_stmts store s1 m \<noteq> None) =
        (store (rr_offset reg) (mask (rr_width reg)) = mask (rr_width reg) \<and> store (rr_offset reg) 0 = 0)"
      using bitbash_patterns_exec [OF b1(1), of store] unfolding m by auto
    obtain s2 where s2: "fb_stmts b' = fb_stmts b1 @ s2" "\<And>m. (exec_stmts store s2 m \<noteq> None) =
        (\<forall>reg \<in> set regs. rw_register reg \<longrightarrow> store (rr_offset reg) (mask (rr_width reg)) = mask (rr_width reg) \<and> store (rr_offset reg) 0 = 0)"
      using Cons(1) [OF b1(2)] Cons(3) by auto
    have "(exec_stmts store (s1 @ s2) m \<noteq> None) = (exec_stmts store s1 m \<noteq> None \<and>
        (\<forall>reg \<in> set regs. rw_register reg \<longrightarrow> store (rr_offset reg) (mask (rr_width reg)) = mask (rr_width reg) \<and> store (rr_offset reg) 0 = 0))" for m
      using s2(2) by (cases "exec_stmts store s1 m") (auto simp: exec_stmts_append)
    then show ?thesis using s1 s2(1) True by (intro exI [of _ "s1 @ s2"]) simp
  qed
qed simp

section \<open>Resets\<close>

definition default_word :: "RecordFieldSchema \<Rightarrow> u64" where
  "default_word f = (case sf_default f of None \<Rightarrow> 0 | Some d \<Rightarrow> ScalarDefault_low_u64 d)"

lemma reset_all_stmts:
  "fb_stmts (lower_reset_all mirror rec b) = fb_stmts b @ map (\<lambda>f. mirror_write mirror (sf_name f) (lit (default_word f))) (rs_fields rec)"
proof -
  have "fb_stmts (foldl (\<lambda>b (fld, v). push_stmt (mirror_write mirror fld (lit v)) b) b xs) =
      fb_stmts b @ map (\<lambda>(fld, v). mirror_write mirror fld (lit v)) xs" for xs b
    by (induction xs arbitrary: b) auto
  then show ?thesis by (simp add: lower_reset_all_def default_word_def)
qed

lemma reset_writes_exec:
  "\<exists>m'. exec_stmts store (map (\<lambda>f. mirror_write mirror (sf_name f) (lit (default_word f))) fs) m = Some m' \<and>
     (\<forall>g. g \<notin> sf_name ` set fs \<longrightarrow> cells m' mirror g = cells m mirror g) \<and>
     (distinct (map sf_name fs) \<longrightarrow> (\<forall>f \<in> set fs. cells m' mirror (sf_name f) = default_word f))"
proof (induction fs arbitrary: m)
  case (Cons f fs)
  from Cons [of "set_cell mirror (sf_name f) (default_word f) m"] show ?case by auto
qed simp

lemma resets_read_back:
  assumes "register_lowered cs r reg (m, s)" "fields_disjoint (rr_fields s)" "j < length (rd_fields reg)"
    and "field_reset cs (bd_name r) (rd_name reg) (rd_fields reg ! j) (bit_width (rr_fields s ! j)) = Ok (Some v)"
  shows "field_word (rr_fields s ! j) (default_word m) = field_carried (rr_fields s ! j) v"
proof -
  let ?f = "rr_fields s ! j"
  obtain ps reset where ps: "list_all2 (field_lowered cs (bd_name r) (rd_name reg) (rr_width s)) (rd_fields reg) ps"
      "rr_fields s = map fst ps" "rr_width s \<le> 64"
    and d: "sf_default m = (if reset = None \<and> overlays_of ps = [] then None
         else Some (Narrow (foldl overlay_reset (case reset of Some v \<Rightarrow> v | None \<Rightarrow> 0) (overlays_of ps))))"
    using assms(1) by (auto simp: register_lowered_def wf_register_def)
  have j: "j < length ps" using assms(3) ps(1) by (simp add: list_all2_lengthD)
  have low: "field_lowered cs (bd_name r) (rd_name reg) (rr_width s) (rd_fields reg ! j) (ps ! j)"
    using ps(1) assms(3) by (rule list_all2_nthD)
  then have pj: "ps ! j = (?f, Some v)" "field_fits (rr_width s) ?f"
    using assms(4) j by (auto simp: field_lowered_def ps(2))
  then have mem: "(?f, Some v) \<in> set ps" using j by (metis nth_mem)
  have "default_word m = foldl overlay_reset (case reset of Some v \<Rightarrow> v | None \<Rightarrow> 0) (overlays_of ps)"
    using d mem by (auto simp: default_word_def ScalarDefault_low_u64_def)
  then have "bit (default_word m) i = bit v (i - bit_pos ?f)" if "in_field ?f i" for i
    using overlays_inside [OF resets_fit_lowered [OF ps(1)] ps(3) _ mem that] assms(2) by (simp add: ps(2))
  then have "take_bit (bit_width ?f) (drop_bit (bit_pos ?f) (default_word m)) = take_bit (bit_width ?f) v"
    by (intro bit_word_eqI) (auto simp: bit_take_bit_iff bit_drop_bit_eq in_field_def)
  then show ?thesis by (simp add: field_word_def field_carried_def)
qed

lemma signed_reset_value:
  assumes "signed_reset bname rname fname w k = Ok v" "0 < w" "w \<le> 64"
  shows "in_range w True k \<and> sint (signed_take_bit (w - 1) (take_bit w v)) = k"
proof -
  have k: "in_range w True k" "v = word_of_int k AND mask w"
    using assms by (auto simp: signed_reset_def Let_def in_range_def field_mask_mask split: if_splits)
  have "sint (signed_take_bit (w - 1) (take_bit w v)) = signed_take_bit (w - 1) k"
    using assms(2,3) by (intro bit_eqI) (auto simp: k(2) bit_simps min_def)
  then show ?thesis using k(1) unfolding in_range_def by (simp only: if_True signed_take_bit_int_eq_self_iff)
qed

section \<open>Properties\<close>

text \<open>
  C18. A lowered register block is well formed: its registers are the declared ones in order, with distinct names and widths from 1 to
  64; the fields of a register have distinct names and lie inside it; and the mirror record has one cell per register, of
  the register's width, whose default fits.
\<close>

theorem regblock_layout:
  assumes "lower_regblock cs r rid = Ok (rec, schema)"
  shows "registers schema \<noteq> [] \<and> map rr_name (registers schema) = map rd_name (bd_registers r) \<and>
    distinct (map rr_name (registers schema)) \<and> list_all wf_register (registers schema) \<and>
    list_all2 mirrors (rs_fields rec) (registers schema)"
proof -
  obtain qs where qs: "list_all2 (register_lowered cs r) (bd_registers r) qs" "rs_fields rec = map fst qs" "registers schema = map snd qs"
      "distinct (map rr_name (registers schema))" "registers schema \<noteq> []"
    using lower_regblock_Ok [OF assms] by blast
  from qs(1) have "map rr_name (map snd qs) = map rd_name (bd_registers r) \<and> list_all wf_register (map snd qs) \<and>
      list_all2 mirrors (map fst qs) (map snd qs)"
    by (induction rule: list_all2_induct) (auto simp: register_lowered_def)
  then show ?thesis using qs by simp
qed

text \<open>
  C19. Resets read back. After the mirror of a lowered block is reset, reading a field with a declared reset, in a register
  whose fields do not overlap, gives that reset value, extended by sign for a signed field.
\<close>

theorem regblock_resets:
  assumes "lower_regblock cs r rid = Ok (rec, schema)" "k < length (bd_registers r)" "s = registers schema ! k"
    and "fields_disjoint (rr_fields s)" "j < length (rd_fields (bd_registers r ! k))" "f = rr_fields s ! j"
    and "field_reset cs (bd_name r) (rd_name (bd_registers r ! k)) (rd_fields (bd_registers r ! k) ! j) (bit_width f) = Ok (Some v)"
  shows "\<exists>ss m'. fb_stmts (lower_reset_all mirror rec b) = fb_stmts b @ ss \<and> exec_stmts store ss m = Some m' \<and>
    word_eval m' (field_extract_expr (mirror_field_expr mirror (rr_name s)) f) = Some (field_carried f v)"
proof -
  obtain qs where qs: "list_all2 (register_lowered cs r) (bd_registers r) qs" "rs_fields rec = map fst qs" "registers schema = map snd qs"
      "distinct (map rr_name (registers schema))"
    using lower_regblock_Ok [OF assms(1)] by blast
  have k: "k < length qs" using assms(2) qs(1) by (simp add: list_all2_lengthD)
  have low: "register_lowered cs r (bd_registers r ! k) (fst (qs ! k), s)"
    using list_all2_nthD [OF qs(1) assms(2)] k by (simp add: assms(3) qs(3))
  have names: "map sf_name (rs_fields rec) = map rr_name (registers schema)"
    using qs(1) unfolding qs(2,3) by (induction rule: list_all2_induct) (auto simp: register_lowered_def mirrors_def)
  obtain m' where m': "exec_stmts store (map (\<lambda>f. mirror_write mirror (sf_name f) (lit (default_word f))) (rs_fields rec)) m = Some m'"
      "\<forall>f \<in> set (rs_fields rec). cells m' mirror (sf_name f) = default_word f"
    using reset_writes_exec [of store mirror "rs_fields rec" m] qs(4) unfolding names by blast
  have "fst (qs ! k) \<in> set (rs_fields rec)" using k by (simp add: qs(2))
  moreover have "sf_name (fst (qs ! k)) = rr_name s" using low by (simp add: register_lowered_def mirrors_def)
  ultimately have "cells m' mirror (rr_name s) = default_word (fst (qs ! k))" using m'(2) by metis
  moreover have "field_word f (default_word (fst (qs ! k))) = field_carried f v"
    using resets_read_back [OF low assms(4,5)] assms(6,7) by simp
  moreover have "field_fits (rr_width s) f" "rr_width s \<le> 64"
    using low assms(5,6) by (auto simp: register_lowered_def wf_register_def list_all_length list_all2_lengthD)
  ultimately show ?thesis using m'(1) field_extract_eval [of "rr_width s" f m' _ "cells m' mirror (rr_name s)"]
    by (auto simp: reset_all_stmts)
qed

text \<open>
  C17. A field write reads back and disturbs nothing else. The statements of a field write run; reading the field from the mirror
  then gives the written integer when it is a value of the field's type; a field apart from it reads as before, the
  mirror word still fits the register, no other cell changes, and the device gets the whole new word exactly when the field
  is writable on the bus.
\<close>

theorem field_write_reads_back:
  assumes "lower_field_write ctx mirror helper reg f v b = Ok b'" "wf_register reg" "f \<in> set (rr_fields reg)"
    and "word_eval m v = Some (word_of_int k)" "in_range (bit_width f) (rf_signed f) k"
  shows "\<exists>ss m' w. fb_stmts b' = fb_stmts b @ ss \<and> exec_stmts store ss m = Some m' \<and> w = cells m' mirror (rr_name reg) \<and>
    word_eval m' (field_extract_expr (mirror_field_expr mirror (rr_name reg)) f) = Some (field_word f w) \<and> field_int f w = k \<and>
    (\<forall>g \<in> set (rr_fields reg). fields_apart f g \<longrightarrow> field_int g w = field_int g (cells m mirror (rr_name reg))) \<and>
    (word_fits (rr_width reg) (cells m mirror (rr_name reg)) \<longrightarrow> word_fits (rr_width reg) w) \<and>
    (\<forall>l n. (l, n) \<noteq> (mirror, rr_name reg) \<longrightarrow> cells m' l n = cells m l n) \<and>
    device m' = (if writes_to_bus (rf_access f) then (device m)(rr_offset reg := store (rr_offset reg) w) else device m)"
proof -
  let ?old = "cells m mirror (rr_name reg)"
  let ?w = "insert_field f (word_of_int k) ?old"
  have reg: "rr_width reg \<le> 64" "\<And>g. g \<in> set (rr_fields reg) \<Longrightarrow> field_fits (rr_width reg) g"
    using assms(2) by (auto simp: wf_register_def list_all_iff)
  note f = reg(2) [OF assms(3)]
  have int: "field_int f ?w = k"
    unfolding field_int_def insert_field_same [OF f reg(1)]
    using f reg(1) assms(5) by (intro carried_integer) (simp_all add: field_fits_def)
  have other: "field_int g ?w = field_int g ?old" if "g \<in> set (rr_fields reg)" "fields_apart f g" for g
    using insert_field_other [OF f reg(2) reg(1)] that by (simp add: field_int_def)
  obtain ss m' where run: "fb_stmts b' = fb_stmts b @ ss" "exec_stmts store ss m = Some m'"
      "\<And>l n. cells m' l n = (if l = mirror \<and> n = rr_name reg then ?w else cells m l n)"
      "device m' = (if writes_to_bus (rf_access f) then (device m)(rr_offset reg := store (rr_offset reg) ?w) else device m)"
    using field_write_exec [OF assms(1) f reg(1) assms(4), of store] by (auto simp: Let_def split: if_splits)
  have "word_eval m' (field_extract_expr (mirror_field_expr mirror (rr_name reg)) f) = Some (field_word f ?w)"
    using field_extract_eval [OF f reg(1)] run(3) by simp
  then show ?thesis using run int other insert_field_fits [OF f reg(1)]
    by (intro exI [of _ ss] exI [of _ m'] exI [of _ ?w]) auto
qed

text \<open>A register write followed by a read, on a device that keeps the written word.\<close>

theorem register_write_reads_back:
  assumes "lower_reg_write ctx mirror helper reg v b = Ok b1" "lower_reg_read_value ctx mirror helper reg b1 = Ok (e, b2)"
    and "rr_width reg \<le> 64" "rr_access reg \<noteq> Ro" "word_eval m v = Some x"
    and "store (rr_offset reg) (take_bit (rr_width reg) x) = take_bit (rr_width reg) x"
  shows "\<exists>ss m'. fb_stmts b2 = fb_stmts b @ ss \<and> exec_stmts store ss m = Some m' \<and> word_eval m' e = Some (take_bit (rr_width reg) x)"
proof -
  let ?x = "take_bit (rr_width reg) x"
  obtain s1 m1 where w: "fb_stmts b1 = fb_stmts b @ s1" "exec_stmts store s1 m = Some m1" "after_write store mirror reg ?x m m1"
    using reg_write_exec [OF assms(1,3,5)] by blast
  have "writes_to_bus (rr_access reg)" using assms(4) by (cases "rr_access reg") (simp_all add: writes_to_bus_def)
  then have d: "device m1 (rr_offset reg) = ?x" "cells m1 mirror (rr_name reg) = ?x" using w(3) assms(6) by (simp_all add: after_write_def)
  then have "word_fits (rr_width reg) (device m1 (rr_offset reg))" by (simp add: word_fits_iff)
  then obtain s2 m2 where "fb_stmts b2 = fb_stmts b1 @ s2" "exec_stmts store s2 m1 = Some m2" "word_eval m2 e = Some ?x"
    using reg_read_exec [OF assms(2,3), of m1 store] d by auto
  then show ?thesis using w by (intro exI [of _ "s1 @ s2"]) (simp add: exec_stmts_append)
qed

text \<open>
  C22. The walk over all registers finds what it looks for: its statements run without a failed assertion exactly when the device keeps
  all ones of the register's width, and zero, at every register that is read and written on the bus.
\<close>

theorem bitbash_exact:
  assumes "lower_bitbash ctx helper (registers schema) b = Ok b'" "list_all wf_register (registers schema)"
  shows "\<exists>ss. fb_stmts b' = fb_stmts b @ ss \<and>
    (\<forall>m. (exec_stmts store ss m \<noteq> None) = (\<forall>reg \<in> set (registers schema). rr_access reg = Rw \<longrightarrow>
      store (rr_offset reg) (mask (rr_width reg)) = mask (rr_width reg) \<and> store (rr_offset reg) 0 = 0))"
proof -
  have "rw_register reg \<longleftrightarrow> rr_access reg = Rw" for reg
    by (cases "rr_access reg") (simp_all add: rw_register_def writes_to_bus_def reads_from_bus_def)
  then show ?thesis using bitbash_exec [OF assms(1), of store] assms(2) by (simp add: list_all_iff wf_register_def)
qed

section \<open>Examples\<close>

definition int_folder :: "int folder" where
  "int_folder = \<lparr>bool_literal = (\<lambda>_. None), fold_addr_const = (\<lambda>e _. if 0 \<le> e then Ok (word_of_int e) else Err (Invalid [])),
     fold_signed_const = (\<lambda>e _. Ok e)\<rparr>"

definition example_block :: "int RegblockDecl" where
  "example_block = \<lparr>bd_name = ''B'', default_width = Some 16,
     bd_registers = [\<lparr>rd_name = ''C'', rd_offset = 16, rd_width = None, rd_reset = None, rd_access = AstRw,
       rd_fields = [\<lparr>fd_name = ''E'', fd_ty = TBuiltin BBit [], fd_bit_pos = 0, fd_reset = Some 1, fd_access = AstRw\<rparr>,
         \<lparr>fd_name = ''L'', fd_ty = TBuiltin BSInt [ArgExpr 4], fd_bit_pos = 4, fd_reset = Some (- 3), fd_access = AstRw\<rparr>]\<rparr>]\<rparr>"

definition example_E :: RegFieldSchema where
  "example_E = \<lparr>rf_name = ''E'', bit_pos = 0, bit_width = 1, rf_signed = False, rf_access = Rw\<rparr>"

definition example_L :: RegFieldSchema where
  "example_L = \<lparr>rf_name = ''L'', bit_pos = 4, bit_width = 4, rf_signed = True, rf_access = Rw\<rparr>"

definition example_C :: RegRegisterSchema where
  "example_C = \<lparr>rr_name = ''C'', rr_offset = 16, rr_width = 16, rr_access = Rw, rr_fields = [example_E, example_L]\<rparr>"

definition example_rec :: RecordSchema where
  "example_rec = \<lparr>rs_name = ''B'', rs_fields = [\<lparr>sf_name = ''C'', sf_ty = UInt (Some 16), vec_len = None,
     sf_default = Some (Narrow 209), non_random = False, attr_src = []\<rparr>], keeps = []\<rparr>"

definition example_schema :: RegblockSchema where
  "example_schema = \<lparr>rb_name = ''B'', rb_record = 0, registers = [example_C]\<rparr>"

lemma example_lowered: "lower_regblock int_folder example_block 0 = Ok (example_rec, example_schema)"
  by (simp add: lower_regblock_def lower_register_def lower_field_def field_bit_width_def field_reset_def signed_reset_def
      register_reset_def overlay_reset_def field_limit_def field_mask_def Let_def int_folder_def example_block_def example_rec_def
      example_schema_def example_C_def example_E_def example_L_def)

definition example_ctx :: HelperCtx where
  "example_ctx = \<lparr>transactor_fields = (\<lambda>h. if h = ''h'' then Some 0 else None),
     transactors = [\<lparr>ts_name = ''H'', ts_methods =
       [\<lparr>tm_name = ''write'', tm_function = 0, tm_param_names = [''addr'', ''data''], tm_param_tys = [UInt (Some 32), UInt (Some 32)], tm_ret_ty = None\<rparr>,
        \<lparr>tm_name = ''read'', tm_function = 1, tm_param_names = [''addr''], tm_param_tys = [UInt (Some 32)], tm_ret_ty = Some (UInt (Some 32))\<rparr>]\<rparr>],
     bus_bindings = (\<lambda>_. None), bus_origins = (\<lambda>_. None), testbench_method_owner = None, debug_type = (\<lambda>_. [])\<rparr>"

definition example_builder :: Builder where
  "example_builder = \<lparr>fb_stmts = [], fb_locals = [], temp_counter = 0, local_names = []\<rparr>"

definition zero_machine :: machine where
  "zero_machine = \<lparr>cells = (\<lambda>_ _. 0), vars = (\<lambda>_. 0), device = (\<lambda>_. 0)\<rparr>"

lemma example_wf: "wf_register example_C" "example_E \<in> set (rr_fields example_C)" "example_L \<in> set (rr_fields example_C)"
    "fields_apart example_L example_E" "fields_disjoint (rr_fields example_C)"
  by (simp_all add: wf_register_def field_fits_def example_C_def example_E_def example_L_def fields_apart_def fields_disjoint_def)

lemma example_call:
  "regblock_call example_ctx ''h'' ''write'' [x, y] example_C = Ok (Call (TransactorMethod ''h'' ''write'' (Callable 0 0)) [x, y])"
  "regblock_call example_ctx ''h'' ''read'' [x] example_C = Ok (Call (TransactorMethod ''h'' ''read'' (Callable 0 1)) [x])"
  by (simp_all add: regblock_call_def transactor_call_def check_regblock_helper_args_def helper_arg_def example_ctx_def example_C_def
      assign_compatible_def bit_len.simps Let_def)

lemma example_access: "writes_to_bus (rf_access example_L)" "writes_to_bus (rr_access example_C)" "reads_from_bus (rr_access example_C)"
  by (simp_all add: writes_to_bus_def reads_from_bus_def example_L_def example_C_def)

theorem regblock_layout_witness:
  "lower_regblock int_folder example_block 0 = Ok (example_rec, example_schema) \<and> list_all wf_register (registers example_schema) \<and>
   list_all2 mirrors (rs_fields example_rec) (registers example_schema)"
  using regblock_layout [OF example_lowered] example_lowered by blast

theorem regblock_resets_witness:
  "\<exists>ss m'. fb_stmts (lower_reset_all 0 example_rec example_builder) = ss \<and> exec_stmts (\<lambda>_ v. v) ss zero_machine = Some m' \<and>
     word_eval m' (field_extract_expr (mirror_field_expr 0 ''C'') example_L) = Some (- 3)"
proof -
  have "field_reset int_folder ''B'' ''C'' (rd_fields (bd_registers example_block ! 0) ! 1) 4 = Ok (Some 13)"
    by (simp add: field_reset_def signed_reset_def field_limit_def field_mask_def Let_def int_folder_def example_block_def)
  moreover have "field_carried example_L 13 = - 3" by (simp add: field_carried_def example_L_def)
  ultimately show ?thesis
    using regblock_resets [OF example_lowered, of 0 example_C 1 example_L 13 0 example_builder "\<lambda>_ v. v" zero_machine] example_wf(5)
    by (simp add: example_block_def example_schema_def example_C_def example_builder_def example_L_def)
qed

theorem field_write_reads_back_witness:
  "\<exists>b' ss m'. lower_field_write example_ctx 0 ''h'' example_C example_L (lit (- 5)) example_builder = Ok b' \<and> fb_stmts b' = ss \<and>
     exec_stmts (\<lambda>_ v. v) ss zero_machine = Some m' \<and> field_int example_L (cells m' 0 ''C'') = - 5 \<and>
     field_int example_E (cells m' 0 ''C'') = 0 \<and> device m' 16 = cells m' 0 ''C''"
proof -
  obtain b' where b': "lower_field_write example_ctx 0 ''h'' example_C example_L (lit (- 5)) example_builder = Ok b'"
    by (simp add: lower_field_write_def example_call example_access Let_def)
  have "word_eval zero_machine (lit (- 5)) = Some (word_of_int (- 5))" "in_range (bit_width example_L) (rf_signed example_L) (- 5)"
    "field_int example_E 0 = 0" "cells zero_machine 0 ''C'' = 0"
    by (simp_all add: in_range_def example_L_def example_E_def field_int_def field_word_def field_carried_def zero_machine_def)
  then show ?thesis using field_write_reads_back [OF b' example_wf(1,3), of zero_machine "- 5" "\<lambda>_ v. v"] example_wf(2,4) example_access b'
    by (force simp: example_builder_def example_C_def)
qed

theorem bitbash_exact_witness:
  "\<exists>b' ss. lower_bitbash example_ctx ''h'' (registers example_schema) example_builder = Ok b' \<and> fb_stmts b' = ss \<and>
     exec_stmts (\<lambda>_ v. v) ss zero_machine \<noteq> None"
proof -
  obtain b' where b': "lower_bitbash example_ctx ''h'' (registers example_schema) example_builder = Ok b'"
    by (simp add: example_schema_def example_call [simplified] example_access Let_def case_prod_unfold)
  have "list_all wf_register (registers example_schema)" using example_wf(1) by (simp add: example_schema_def)
  from bitbash_exact [OF b' this, of "\<lambda>_ v. v"] b' show ?thesis by (auto simp: example_builder_def)
qed

end
