(* ===== verification/Addrmap.thy ===== *)
theory Addrmap
  imports Regblock
begin

text \<open>
  Address maps (\<^verbatim>\<open>src/ir/lower/addrmap.rs\<close>): the instances of register blocks in a chip, each at its own base address.  A binding
  is resolved once, into shifted register tables and mirror locals; an alias shares the mirror of its target.
  A name is looked up in two tables, the records and the registers of a block, which the caller builds from the same blocks.
\<close>

section \<open>Data\<close>

record 'e InstanceDecl =
  in_name :: string
  regblock_ty :: string
  base_addr :: 'e
  in_size :: "'e option"
  alias_of :: "string option"

record AddrmapInstanceCtx =
  ai_name :: string
  mirror_key :: string
  ai_registers :: "RegRegisterSchema list"

record AddrmapBindingCtx =
  helper_field :: string
  ac_instances :: "AddrmapInstanceCtx list"
  mirror_inits :: "(string \<times> RecordId) list"

type_synonym bases = "string \<rightharpoonup> u64 \<times> u64 option \<times> string"

definition instance_mirror_key :: "string \<Rightarrow> string \<Rightarrow> string" where
  "instance_mirror_key chip inst =
     ''__addrmap_'' @ show_nat (length chip) @ ''_'' @ chip @ ''_'' @ show_nat (length inst) @ ''_'' @ inst"

definition checked_add :: "u64 \<Rightarrow> u64 \<Rightarrow> u64 option" where
  "checked_add a b = (if unat a + unat b < 2 ^ 64 then Some (a + b) else None)"

section \<open>Resolving a binding\<close>

definition resolve_instance :: "'e folder \<Rightarrow> string \<Rightarrow> (string \<rightharpoonup> RegRegisterSchema list) \<Rightarrow> bases \<Rightarrow> 'e InstanceDecl \<Rightarrow>
    (LowerError, u64 \<times> u64 option \<times> string) result" where
  "resolve_instance cs chip regs seen inst =
     (let here = ''addrmap '' @ ticked chip @ '' instance '' @ ticked (in_name inst)
      in if seen (in_name inst) \<noteq> None then
           Err (Invalid (''addrmap '' @ ticked chip @ '' declares instance '' @ ticked (in_name inst) @ '' more than once''))
         else try_bind (fold_addr_const cs (base_addr inst) (ticked ''@ <base>'' @ '' on '' @ here)) (\<lambda>base.
           try_bind (case in_size inst of None \<Rightarrow> Ok None
               | Some e \<Rightarrow> try_bind (fold_addr_const cs e (ticked ''size'' @ '' on '' @ here)) (\<lambda>s. Ok (Some s))) (\<lambda>size.
             if regs (regblock_ty inst) = None then
               Err (Invalid (here @ '' references unknown regblock '' @ ticked (regblock_ty inst)))
             else Ok (base, size, regblock_ty inst))))"

fun resolve_bases :: "'e folder \<Rightarrow> string \<Rightarrow> (string \<rightharpoonup> RegRegisterSchema list) \<Rightarrow> 'e InstanceDecl list \<Rightarrow> bases \<Rightarrow> (LowerError, bases) result" where
  "resolve_bases cs chip regs [] seen = Ok seen"
| "resolve_bases cs chip regs (inst # rest) seen =
     try_bind (resolve_instance cs chip regs seen inst) (\<lambda>b. resolve_bases cs chip regs rest (seen(in_name inst \<mapsto> b)))"

definition check_alias :: "string \<Rightarrow> bases \<Rightarrow> 'e InstanceDecl list \<Rightarrow> 'e InstanceDecl \<Rightarrow> (LowerError, unit) result" where
  "check_alias chip bs order inst =
     (case alias_of inst of
        None \<Rightarrow> Ok ()
      | Some t \<Rightarrow>
          let here = ''addrmap '' @ ticked chip @ '': instance '' @ ticked (in_name inst) in
          (case bs t of
             None \<Rightarrow> Err (Invalid (here @ '' aliases '' @ ticked t @ '', but no such instance exists''))
           | Some (_, _, tty) \<Rightarrow>
               let target = the (find (\<lambda>i. in_name i = t) order) in
               if alias_of target \<noteq> None then
                 Err (Invalid (here @ '' aliases '' @ ticked t @ '', which is itself an alias '' @ [CHR 0xE2, CHR 0x80, CHR 0x94] @
                   '' chained aliases are not supported''))
               else if tty \<noteq> regblock_ty inst then
                 Err (Invalid (here @ '' (type '' @ ticked (regblock_ty inst) @ '') aliases '' @ ticked t @ '' (type '' @ ticked tty @ '') '' @
                   [CHR 0xE2, CHR 0x80, CHR 0x94] @ '' an alias must share the target's regblock type''))
               else Ok ()))"

fun try_each :: "('a \<Rightarrow> ('e, unit) result) \<Rightarrow> 'a list \<Rightarrow> ('e, unit) result" where
  "try_each f [] = Ok ()"
| "try_each f (x # xs) = try_bind (f x) (\<lambda>_. try_each f xs)"

definition alias_related :: "'e InstanceDecl \<Rightarrow> 'e InstanceDecl \<Rightarrow> bool" where
  "alias_related a b \<longleftrightarrow> alias_of a = Some (in_name b) \<or> alias_of b = Some (in_name a) \<or> alias_of a \<noteq> None \<and> alias_of a = alias_of b"

definition window_end :: "string \<Rightarrow> 'e InstanceDecl \<Rightarrow> u64 \<Rightarrow> u64 \<Rightarrow> (LowerError, u64) result" where
  "window_end chip inst base sz =
     (case checked_add base sz of
        Some e \<Rightarrow> Ok e
      | None \<Rightarrow> Err (Invalid (''addrmap '' @ ticked chip @ '': instance '' @ ticked (in_name inst) @ '' window 0x'' @ show_hex (unat base) @
          '' + 0x'' @ show_hex (unat sz) @ '' overflows a 64-bit address'')))"

definition check_overlap :: "string \<Rightarrow> bases \<Rightarrow> 'e InstanceDecl \<Rightarrow> 'e InstanceDecl \<Rightarrow> (LowerError, unit) result" where
  "check_overlap chip bs a b =
     (if alias_related a b then Ok ()
      else case (the (bs (in_name a)), the (bs (in_name b))) of
          ((abase, Some asz, _), (bbase, Some bsz, _)) \<Rightarrow>
            try_bind (window_end chip a abase asz) (\<lambda>aend. try_bind (window_end chip b bbase bsz) (\<lambda>bend.
              if abase < bend \<and> bbase < aend then
                let window = (\<lambda>i lo hi. ticked (in_name i) @ '' (0x'' @ show_hex (unat lo) @ ''..0x'' @ show_hex (unat hi) @ '')'')
                in Err (Invalid (''addrmap '' @ ticked chip @ '': instance windows '' @ window a abase aend @ '' and '' @ window b bbase bend @ '' overlap''))
              else Ok ()))
        | _ \<Rightarrow> Ok ())"

fun check_overlaps :: "string \<Rightarrow> bases \<Rightarrow> 'e InstanceDecl list \<Rightarrow> (LowerError, unit) result" where
  "check_overlaps chip bs [] = Ok ()"
| "check_overlaps chip bs (a # rest) = try_bind (try_each (check_overlap chip bs a) rest) (\<lambda>_. check_overlaps chip bs rest)"

definition shift_register :: "string \<Rightarrow> 'e InstanceDecl \<Rightarrow> u64 \<Rightarrow> RegRegisterSchema \<Rightarrow> (LowerError, RegRegisterSchema) result" where
  "shift_register chip inst base r =
     (case checked_add base (rr_offset r) of
        Some a \<Rightarrow> Ok (r\<lparr>rr_offset := a\<rparr>)
      | None \<Rightarrow> Err (Invalid (''addrmap '' @ ticked chip @ '': instance '' @ ticked (in_name inst) @ '' base 0x'' @ show_hex (unat base) @
          '' + register '' @ ticked (rr_name r) @ '' offset 0x'' @ show_hex (unat (rr_offset r)) @ '' overflows a 64-bit address'')))"

text \<open>
  The code indexes both tables by the type (an absent key is a panic).  The first pass accepts an instance only when its type has a
  register table; that it then has a record (\<^verbatim>\<open>record_of[ty]\<close>) rests on the caller, who fills both tables from the same blocks, and
  \<open>the\<close> stands for the value at a key that is present.
\<close>

definition instance_ctx :: "string \<Rightarrow> (string \<rightharpoonup> RecordId) \<Rightarrow> (string \<rightharpoonup> RegRegisterSchema list) \<Rightarrow> bases \<Rightarrow> 'e InstanceDecl \<Rightarrow>
    (LowerError, AddrmapInstanceCtx \<times> (string \<times> RecordId) list) result" where
  "instance_ctx chip record_of regs bs inst =
     (case the (bs (in_name inst)) of (base, _, ty) \<Rightarrow>
        try_bind (try_map (shift_register chip inst base) (the (regs ty))) (\<lambda>rs.
          let (key, inits) = (case alias_of inst of
                Some t \<Rightarrow> (instance_mirror_key chip t, [])
              | None \<Rightarrow> (let key = instance_mirror_key chip (in_name inst) in (key, [(key, the (record_of ty))])))
          in Ok (\<lparr>ai_name = in_name inst, mirror_key = key, ai_registers = rs\<rparr>, inits)))"

definition build_binding_ctx :: "'e folder \<Rightarrow> string \<Rightarrow> 'e InstanceDecl list \<Rightarrow> string \<Rightarrow> (string \<rightharpoonup> RecordId) \<Rightarrow>
    (string \<rightharpoonup> RegRegisterSchema list) \<Rightarrow> (LowerError, AddrmapBindingCtx) result" where
  "build_binding_ctx cs chip decls helper record_of regs =
     try_bind (resolve_bases cs chip regs decls Map.empty) (\<lambda>bs.
     try_bind (try_each (check_alias chip bs decls) decls) (\<lambda>_.
     try_bind (check_overlaps chip bs decls) (\<lambda>_.
     try_bind (try_map (instance_ctx chip record_of regs bs) decls) (\<lambda>cs.
       Ok \<lparr>helper_field = helper, ac_instances = map fst cs, mirror_inits = concat (map snd cs)\<rparr>))))"

section \<open>Lookup of an access path\<close>

definition as_addrmap_register :: "(string \<rightharpoonup> AddrmapBindingCtx) \<Rightarrow> string \<Rightarrow> string \<Rightarrow> string \<Rightarrow> (string \<times> string \<times> RegRegisterSchema) option" where
  "as_addrmap_register bindings chip inst reg = do {
     actx \<leftarrow> bindings chip;
     i \<leftarrow> find (\<lambda>i. ai_name i = inst) (ac_instances actx);
     r \<leftarrow> find (\<lambda>r. rr_name r = reg) (ai_registers i);
     Some (mirror_key i, helper_field actx, r) }"

definition as_addrmap_subfield :: "(string \<rightharpoonup> AddrmapBindingCtx) \<Rightarrow> string \<Rightarrow> string \<Rightarrow> string \<Rightarrow> string \<Rightarrow>
    (string \<times> string \<times> RegRegisterSchema \<times> RegFieldSchema) option" where
  "as_addrmap_subfield bindings chip inst reg fld = do {
     actx \<leftarrow> bindings chip;
     i \<leftarrow> find (\<lambda>i. ai_name i = inst) (ac_instances actx);
     r \<leftarrow> find (\<lambda>r. rr_name r = reg) (ai_registers i);
     f \<leftarrow> find (\<lambda>f. rf_name f = fld) (rr_fields r);
     Some (mirror_key i, helper_field actx, r, f) }"

section \<open>What is accepted\<close>

abbreviation resolved :: "'e folder \<Rightarrow> string \<Rightarrow> (string \<rightharpoonup> RegRegisterSchema list) \<Rightarrow> 'e InstanceDecl \<Rightarrow>
    (LowerError, u64 \<times> u64 option \<times> string) result" where
  "resolved cs chip regs inst \<equiv> resolve_instance cs chip regs Map.empty inst"

definition place :: "'e folder \<Rightarrow> string \<Rightarrow> (string \<rightharpoonup> RegRegisterSchema list) \<Rightarrow> 'e InstanceDecl \<Rightarrow> u64 \<times> u64 option \<times> string" where
  "place cs chip regs inst = (case resolved cs chip regs inst of Inr b \<Rightarrow> b | Inl _ \<Rightarrow> (0, None, []))"

fun windows_apart :: "u64 \<times> u64 option \<times> string \<Rightarrow> u64 \<times> u64 option \<times> string \<Rightarrow> bool" where
  "windows_apart (abase, Some asz, _) (bbase, Some bsz, _) =
     (unat abase + unat asz < 2 ^ 64 \<and> unat bbase + unat bsz < 2 ^ 64 \<and>
      (unat abase + unat asz \<le> unat bbase \<or> unat bbase + unat bsz \<le> unat abase))"
| "windows_apart _ _ = True"

definition aliases_ok :: "'e InstanceDecl list \<Rightarrow> bool" where
  "aliases_ok decls \<longleftrightarrow> list_all (\<lambda>i. alias_of i = None \<or>
     list_ex (\<lambda>j. alias_of i = Some (in_name j) \<and> alias_of j = None \<and> regblock_ty j = regblock_ty i) decls) decls"

definition addresses_fit :: "u64 \<Rightarrow> RegRegisterSchema list \<Rightarrow> bool" where
  "addresses_fit base rs \<longleftrightarrow> list_all (\<lambda>r. unat base + unat (rr_offset r) < 2 ^ 64) rs"

definition addrmap_ok :: "'e folder \<Rightarrow> string \<Rightarrow> (string \<rightharpoonup> RegRegisterSchema list) \<Rightarrow> 'e InstanceDecl list \<Rightarrow> bool" where
  "addrmap_ok cs chip regs decls \<longleftrightarrow>
     distinct (map in_name decls) \<and> list_all (\<lambda>i. \<not> isl (resolved cs chip regs i)) decls \<and> aliases_ok decls \<and>
     sorted_wrt (\<lambda>a b. alias_related a b \<or> windows_apart (place cs chip regs a) (place cs chip regs b)) decls \<and>
     list_all (\<lambda>i. addresses_fit (fst (place cs chip regs i)) (the (regs (regblock_ty i)))) decls"

lemma checked_add_Some: "checked_add a b = Some c \<longleftrightarrow> unat a + unat b < 2 ^ 64 \<and> c = a + b"
  by (auto simp: checked_add_def)

lemma checked_add_unat: "unat a + unat b < 2 ^ 64 \<Longrightarrow> unat (a + b :: u64) = unat a + unat b"
  by (simp add: unat_word_ariths)

lemma try_each_Ok: "try_each f xs = Inr u \<longleftrightarrow> (\<forall>x \<in> set xs. f x = Inr ())"
  by (induction xs) (auto simp: result_simps)

lemma check_overlaps_Ok: "check_overlaps chip bs xs = Inr u \<longleftrightarrow> sorted_wrt (\<lambda>a b. check_overlap chip bs a b = Inr ()) xs"
  by (induction xs) (auto simp: result_simps try_each_Ok)

lemma resolve_seen: "seen (in_name inst) = None \<Longrightarrow> resolve_instance cs chip regs seen inst = resolved cs chip regs inst"
  by (simp add: resolve_instance_def)

lemma resolve_duplicate: "resolve_instance cs chip regs seen inst = Inr b \<Longrightarrow> seen (in_name inst) = None"
  by (rule ccontr) (simp add: resolve_instance_def Let_def)

lemma resolved_ty: "resolved cs chip regs inst = Inr (b, s, ty) \<Longrightarrow> ty = regblock_ty inst"
  by (auto simp: resolve_instance_def Let_def result_simps split: option.splits if_splits)

lemma resolved_place: "resolved cs chip regs inst = Inr b \<Longrightarrow> place cs chip regs inst = b"
  by (simp add: place_def)

lemma resolve_bases_Ok:
  "(\<exists>bs. resolve_bases cs chip regs decls seen = Inr bs) \<longleftrightarrow>
     distinct (map in_name decls) \<and> (\<forall>i \<in> set decls. seen (in_name i) = None) \<and> (\<forall>i \<in> set decls. \<not> isl (resolved cs chip regs i))"
proof (induction decls arbitrary: seen)
  case (Cons i decls)
  show ?case
  proof (cases "seen (in_name i) = None \<and> \<not> isl (resolved cs chip regs i)")
    case True
    then obtain b where "resolve_instance cs chip regs seen i = Inr b" using resolve_seen by (metis isl_def sum.exhaust)
    moreover have "(\<forall>j \<in> set decls. (seen(in_name i \<mapsto> b)) (in_name j) = None) \<longleftrightarrow>
        in_name i \<notin> in_name ` set decls \<and> (\<forall>j \<in> set decls. seen (in_name j) = None)"
      unfolding fun_upd_apply by (metis (no_types, lifting) imageE image_eqI option.distinct(1))
    ultimately show ?thesis using True Cons [of "seen(in_name i \<mapsto> b)"] by (simp del: fun_upd_apply) blast
  next
    case False
    then have "\<nexists>b. resolve_instance cs chip regs seen i = Inr b"
      using resolve_duplicate resolve_seen by (metis (no_types, lifting) sum.disc(2))
    then show ?thesis using False by (auto simp: result_simps)
  qed
qed simp

lemma resolve_bases_value:
  "resolve_bases cs chip regs decls seen = Inr bs \<Longrightarrow>
   bs n = (case find (\<lambda>i. in_name i = n) decls of Some i \<Rightarrow> Some (place cs chip regs i) | None \<Rightarrow> seen n)"
proof (induction decls arbitrary: seen)
  case (Cons i decls)
  from Cons(2) obtain b where b: "resolve_instance cs chip regs seen i = Inr b" "resolve_bases cs chip regs decls (seen(in_name i \<mapsto> b)) = Inr bs"
    by (auto simp: result_simps)
  from b(1) have seen: "seen (in_name i) = None" by (rule resolve_duplicate)
  then have p: "place cs chip regs i = b" using b(1) by (intro resolved_place) (simp only: resolve_seen [of seen i, OF seen, symmetric])
  have "\<exists>bs. resolve_bases cs chip regs (i # decls) seen = Inr bs" using Cons(2) by blast
  then have "distinct (map in_name (i # decls))" unfolding resolve_bases_Ok by (rule conjunct1)
  then have "find (\<lambda>j. in_name j = in_name i) decls = None"
    unfolding find_None_iff by (metis distinct.simps(2) image_eqI list.set_map list.simps(9))
  with Cons(1) [OF b(2)] p show ?case by (cases "in_name i = n") (auto split: option.split)
qed simp

lemma find_named: "distinct (map in_name decls) \<Longrightarrow> i \<in> set decls \<Longrightarrow> find (\<lambda>j. in_name j = in_name i) decls = Some i"
  by (induction decls) auto

lemma find_name_None: "find (\<lambda>j. in_name j = n) decls = None \<longleftrightarrow> n \<notin> in_name ` set decls"
  by (auto simp: find_None_iff)

text \<open>The table of bases of a list of instances.\<close>

definition based :: "'e folder \<Rightarrow> string \<Rightarrow> (string \<rightharpoonup> RegRegisterSchema list) \<Rightarrow> 'e InstanceDecl list \<Rightarrow> bases \<Rightarrow> bool" where
  "based cs chip regs decls bs \<longleftrightarrow> distinct (map in_name decls) \<and> (\<forall>i \<in> set decls. \<not> isl (resolved cs chip regs i)) \<and>
     (\<forall>i \<in> set decls. bs (in_name i) = Some (place cs chip regs i)) \<and> (\<forall>n. n \<notin> in_name ` set decls \<longrightarrow> bs n = None)"

lemma resolve_bases_based:
  assumes "resolve_bases cs chip regs decls Map.empty = Inr bs" shows "based cs chip regs decls bs"
proof -
  have "\<exists>bs. resolve_bases cs chip regs decls Map.empty = Inr bs" using assms by blast
  then have ok: "distinct (map in_name decls)" "\<forall>i \<in> set decls. \<not> isl (resolved cs chip regs i)"
    unfolding resolve_bases_Ok by simp_all
  note v = resolve_bases_value [OF assms]
  have "bs (in_name i) = Some (place cs chip regs i)" if "i \<in> set decls" for i
    using v [of "in_name i"] find_named [OF ok(1) that] by simp
  moreover have "bs n = None" if "n \<notin> in_name ` set decls" for n
  proof -
    have "find (\<lambda>j. in_name j = n) decls = None" using that by (simp only: find_name_None simp_thms)
    then show ?thesis using v [of n] by simp
  qed
  ultimately show ?thesis using ok by (simp add: based_def)
qed

lemma place_ty: "\<not> isl (resolved cs chip regs i) \<Longrightarrow> snd (snd (place cs chip regs i)) = regblock_ty i"
  using resolved_ty [of cs chip regs i] by (cases "resolved cs chip regs i") (auto simp: place_def)

lemma check_alias_Ok:
  assumes "based cs chip regs decls bs"
  shows "check_alias chip bs decls i = Inr () \<longleftrightarrow> alias_of i = None \<or>
    (\<exists>j \<in> set decls. alias_of i = Some (in_name j) \<and> alias_of j = None \<and> regblock_ty j = regblock_ty i)"
proof (cases "alias_of i")
  case (Some t)
  show ?thesis
  proof (cases "t \<in> in_name ` set decls")
    case True
    then obtain j where j: "j \<in> set decls" "t = in_name j" by blast
    have d: "distinct (map in_name decls)" and res: "\<not> isl (resolved cs chip regs j)" and at: "bs t = Some (place cs chip regs j)"
      using assms j by (simp_all add: based_def)
    have uniq: "k = j" if "k \<in> set decls" "in_name k = t" for k
      using d that j inj_onD [of in_name "set decls" k j] by (simp add: distinct_map)
    obtain b z ty where p: "place cs chip regs j = (b, z, ty)" by (cases "place cs chip regs j")
    then have "ty = regblock_ty j" using place_ty [OF res] by simp
    then have "check_alias chip bs decls i = Inr () \<longleftrightarrow> alias_of j = None \<and> regblock_ty j = regblock_ty i"
      using find_named [OF d j(1)] at p j(2) Some by (simp add: check_alias_def Let_def)
    then show ?thesis using Some j uniq by (metis option.distinct(1) option.inject)
  next
    case False
    then have "bs t = None" using assms by (simp add: based_def)
    then show ?thesis using Some False by (auto simp: check_alias_def Let_def)
  qed
qed (simp add: check_alias_def)

lemma window_end_Ok: "window_end chip i b z = Inr e \<longleftrightarrow> unat b + unat z < 2 ^ 64 \<and> e = b + z"
  using checked_add_Some [of b z] by (cases "checked_add b z") (auto simp: window_end_def)

lemma check_overlap_Ok:
  assumes "bs (in_name a) = Some p" "bs (in_name b) = Some q"
  shows "check_overlap chip bs a b = Inr () \<longleftrightarrow> alias_related a b \<or> windows_apart p q"
proof (cases "(p, q)" rule: windows_apart.cases)
  case (1 abase asz ta bbase bsz tb)
  have "(abase < bbase + bsz \<and> bbase < abase + asz) = (\<not> (unat abase + unat asz \<le> unat bbase \<or> unat bbase + unat bsz \<le> unat abase))"
    if "unat abase + unat asz < 2 ^ 64" "unat bbase + unat bsz < 2 ^ 64"
    using checked_add_unat [OF that(1)] checked_add_unat [OF that(2)] by (auto simp: word_less_nat_alt)
  then show ?thesis using 1 assms by (auto simp: check_overlap_def result_simps window_end_Ok Let_def)
qed (use assms in \<open>auto simp: check_overlap_def split: prod.split option.split\<close>)

lemma shift_register_Ok:
  "shift_register chip i base r = Inr r' \<longleftrightarrow> unat base + unat (rr_offset r) < 2 ^ 64 \<and> r' = r\<lparr>rr_offset := base + rr_offset r\<rparr>"
  by (auto simp: shift_register_def checked_add_def)

lemma shift_registers_Ok:
  "try_map (shift_register chip i base) rs = Inr rs' \<longleftrightarrow>
   addresses_fit base rs \<and> rs' = map (\<lambda>r. r\<lparr>rr_offset := base + rr_offset r\<rparr>) rs"
  by (induction rs arbitrary: rs') (auto simp: result_simps shift_register_Ok addresses_fit_def)

text \<open>The context of an accepted instance.\<close>

definition target_name :: "'e InstanceDecl \<Rightarrow> string" where
  "target_name i = (case alias_of i of Some t \<Rightarrow> t | None \<Rightarrow> in_name i)"

definition placed_instance :: "string \<Rightarrow> (string \<rightharpoonup> RecordId) \<Rightarrow> (string \<rightharpoonup> RegRegisterSchema list) \<Rightarrow> u64 \<Rightarrow> 'e InstanceDecl \<Rightarrow>
    AddrmapInstanceCtx \<times> (string \<times> RecordId) list" where
  "placed_instance chip record_of regs base i =
     (\<lparr>ai_name = in_name i, mirror_key = instance_mirror_key chip (target_name i),
        ai_registers = map (\<lambda>r. r\<lparr>rr_offset := base + rr_offset r\<rparr>) (the (regs (regblock_ty i)))\<rparr>,
      if alias_of i = None then [(instance_mirror_key chip (in_name i), the (record_of (regblock_ty i)))] else [])"

lemma instance_ctx_Ok:
  assumes "bs (in_name i) = Some (place cs chip regs i)" "\<not> isl (resolved cs chip regs i)"
  shows "instance_ctx chip record_of regs bs i = Inr c \<longleftrightarrow>
    addresses_fit (fst (place cs chip regs i)) (the (regs (regblock_ty i))) \<and>
    c = placed_instance chip record_of regs (fst (place cs chip regs i)) i"
proof -
  obtain b z ty where p: "place cs chip regs i = (b, z, ty)" by (cases "place cs chip regs i")
  then have "ty = regblock_ty i" using place_ty [OF assms(2)] by simp
  then show ?thesis using assms(1) p
    by (cases "alias_of i") (auto simp: instance_ctx_def result_simps shift_registers_Ok placed_instance_def target_name_def Let_def)
qed

lemma try_map_determined:
  "(\<And>x c. x \<in> set xs \<Longrightarrow> f x = Inr c \<longleftrightarrow> P x \<and> c = g x) \<Longrightarrow> try_map f xs = Inr ys \<longleftrightarrow> list_all P xs \<and> ys = map g xs"
  by (induction xs arbitrary: ys) (auto simp: result_simps)

lemma build_Ok:
  "build_binding_ctx cs chip decls helper record_of regs = Inr ctx \<longleftrightarrow>
   addrmap_ok cs chip regs decls \<and>
   ctx = (let cis = map (\<lambda>i. placed_instance chip record_of regs (fst (place cs chip regs i)) i) decls
     in \<lparr>helper_field = helper, ac_instances = map fst cis, mirror_inits = concat (map snd cis)\<rparr>)"
proof (cases "\<exists>bs. resolve_bases cs chip regs decls Map.empty = Inr bs")
  case False
  then have "\<not> addrmap_ok cs chip regs decls" unfolding resolve_bases_Ok by (auto simp: addrmap_ok_def list_all_iff)
  then show ?thesis using False by (auto simp: build_binding_ctx_def result_simps)
next
  case True
  then obtain bs where bs: "resolve_bases cs chip regs decls Map.empty = Inr bs" by blast
  note based = resolve_bases_based [OF bs]
  then have at: "\<And>i. i \<in> set decls \<Longrightarrow> bs (in_name i) = Some (place cs chip regs i)"
      "\<And>i. i \<in> set decls \<Longrightarrow> \<not> isl (resolved cs chip regs i)" by (simp_all add: based_def)
  have aliases: "try_each (check_alias chip bs decls) decls = Inr u \<longleftrightarrow> aliases_ok decls" for u
    unfolding try_each_Ok check_alias_Ok [OF based] aliases_ok_def list_all_iff list_ex_iff ..
  have pair: "check_overlap chip bs a b = Inr () \<longleftrightarrow> alias_related a b \<or> windows_apart (place cs chip regs a) (place cs chip regs b)"
    if "a \<in> set decls" "b \<in> set decls" for a b
    using that by (intro check_overlap_Ok at(1))
  have overlap: "check_overlaps chip bs decls = Inr u \<longleftrightarrow>
      sorted_wrt (\<lambda>a b. alias_related a b \<or> windows_apart (place cs chip regs a) (place cs chip regs b)) decls" for u
    unfolding check_overlaps_Ok by (auto simp: sorted_wrt_iff_nth_less pair)
  have inst: "try_map (instance_ctx chip record_of regs bs) decls = Inr cis \<longleftrightarrow>
      list_all (\<lambda>i. addresses_fit (fst (place cs chip regs i)) (the (regs (regblock_ty i)))) decls \<and>
      cis = map (\<lambda>i. placed_instance chip record_of regs (fst (place cs chip regs i)) i) decls" for cis
    by (rule try_map_determined) (rule instance_ctx_Ok [of bs _ cs chip regs]; intro at; assumption)
  show ?thesis using based bs
    by (auto simp: build_binding_ctx_def result_simps aliases overlap inst addrmap_ok_def based_def list_all_iff Let_def)
qed

section \<open>Mirrors\<close>

lemma instance_mirror_key_inj: "instance_mirror_key c i = instance_mirror_key c' i' \<longleftrightarrow> c = c' \<and> i = i'"
proof
  assume "instance_mirror_key c i = instance_mirror_key c' i'"
  then have e: "show_nat (length c) @ CHR ''_'' # c @ (CHR ''_'' # show_nat (length i) @ CHR ''_'' # i) =
      show_nat (length c') @ CHR ''_'' # c' @ (CHR ''_'' # show_nat (length i') @ CHR ''_'' # i')"
    by (simp add: instance_mirror_key_def)
  from length_prefixed_inj [OF e] have "c = c'" and "show_nat (length i) @ CHR ''_'' # i @ [] = show_nat (length i') @ CHR ''_'' # i' @ []"
    by simp_all
  with length_prefixed_inj [OF this(2)] show "c = c' \<and> i = i'" by simp
qed simp

lemma aliases_target:
  assumes "aliases_ok decls" "i \<in> set decls"
  shows "\<exists>j \<in> set decls. target_name i = in_name j \<and> alias_of j = None \<and> regblock_ty j = regblock_ty i"
proof (cases "alias_of i")
  case (Some t)
  then obtain j where "j \<in> set decls" "alias_of i = Some (in_name j)" "alias_of j = None" "regblock_ty j = regblock_ty i"
    using assms unfolding aliases_ok_def list_all_iff list_ex_iff by force
  then show ?thesis by (auto simp: target_name_def)
qed (use assms(2) in \<open>auto simp: target_name_def\<close>)

lemma same_target:
  assumes "distinct (map in_name decls)" "aliases_ok decls" "i \<in> set decls" "j \<in> set decls"
  shows "target_name i = target_name j \<longleftrightarrow> i = j \<or> alias_related i j"
proof -
  have uniq: "a = b" if "a \<in> set decls" "b \<in> set decls" "in_name a = in_name b" for a b
    using assms(1) that by (simp add: distinct_map inj_on_def)
  have chain: "alias_of b = None" if ab: "a \<in> set decls" "b \<in> set decls" "alias_of a = Some (in_name b)" for a b
  proof -
    obtain c where "c \<in> set decls" "target_name a = in_name c" "alias_of c = None" using aliases_target [OF assms(2) ab(1)] by blast
    then show ?thesis using uniq [of b c] ab by (simp add: target_name_def)
  qed
  consider "alias_of i = None" "alias_of j = None" | "alias_of i \<noteq> None" "alias_of j = None" | "alias_of j \<noteq> None" "alias_of i = None"
    | s t where "alias_of i = Some s" "alias_of j = Some t" by fastforce
  then show ?thesis
  proof cases
    case 1
    then show ?thesis using uniq [OF assms(3,4)] by (auto simp: target_name_def alias_related_def)
  next
    case 4
    then have "s \<noteq> in_name j" "t \<noteq> in_name i" using chain [OF assms(3,4)] chain [OF assms(4,3)] by auto
    then show ?thesis using 4 by (auto simp: target_name_def alias_related_def)
  qed (auto simp: target_name_def alias_related_def)
qed

lemma inits_keys:
  "map fst (concat (map (\<lambda>i. snd (placed_instance chip record_of regs (base i) i)) decls)) =
   map (\<lambda>i. instance_mirror_key chip (in_name i)) (filter (\<lambda>i. alias_of i = None) decls)"
  by (induction decls) (simp_all add: placed_instance_def)

section \<open>Properties\<close>


text \<open>
  C21. An access path of an accepted map resolves to its register: the lookup returns the register of that name with the fields of its
  block, at the base plus the offset, computed without wrap-around, and a mirror that the map initialises once, with the
  record of its block.  Two instances share a mirror exactly when one is an alias of the other or both of a third.
\<close>

theorem addrmap_resolves:
  assumes "build_binding_ctx cs chip decls helper record_of regs = Ok ctx" "i \<in> set decls"
    and "regs (regblock_ty i) = Some rs" "distinct (map rr_name rs)" "r \<in> set rs"
  shows "\<exists>key a. as_addrmap_register [chip \<mapsto> ctx] chip (in_name i) (rr_name r) = Some (key, helper, r\<lparr>rr_offset := a\<rparr>) \<and>
    unat a = unat (fst (place cs chip regs i)) + unat (rr_offset r) \<and>
    (key, the (record_of (regblock_ty i))) \<in> set (mirror_inits ctx) \<and> distinct (map fst (mirror_inits ctx)) \<and>
    (\<forall>j \<in> set decls. instance_mirror_key chip (target_name j) = key \<longleftrightarrow> j = i \<or> alias_related j i)"
proof -
  let ?base = "\<lambda>i. fst (place cs chip regs i)"
  have ok: "distinct (map in_name decls)" "aliases_ok decls"
      "addresses_fit (?base i) (the (regs (regblock_ty i)))"
    and ctx: "ac_instances ctx = map (\<lambda>i. fst (placed_instance chip record_of regs (?base i) i)) decls" "helper_field ctx = helper"
      "mirror_inits ctx = concat (map (\<lambda>i. snd (placed_instance chip record_of regs (?base i) i)) decls)"
    using assms(1,2) unfolding build_Ok by (auto simp: addrmap_ok_def list_all_iff Let_def comp_def)
  have name: "ai_name (fst (placed_instance chip record_of regs b k)) = in_name k" for b k by (simp add: placed_instance_def)
  have "find (\<lambda>c. ai_name c = in_name i) (ac_instances ctx) = Some (fst (placed_instance chip record_of regs (?base i) i))"
    using ok(1) assms(2) unfolding ctx(1) by (induction decls) (auto simp: name)
  moreover have "find (\<lambda>c. rr_name c = rr_name r) (map (\<lambda>r. r\<lparr>rr_offset := b + rr_offset r\<rparr>) rs) = Some (r\<lparr>rr_offset := b + rr_offset r\<rparr>)" for b
    using assms(4,5) by (induction rs) auto
  ultimately have look: "as_addrmap_register [chip \<mapsto> ctx] chip (in_name i) (rr_name r) =
      Some (instance_mirror_key chip (target_name i), helper, r\<lparr>rr_offset := ?base i + rr_offset r\<rparr>)"
    by (simp add: as_addrmap_register_def placed_instance_def assms(3) ctx(2))
  have "unat (?base i + rr_offset r) = unat (?base i) + unat (rr_offset r)"
    using ok(3) assms(3,5) by (intro checked_add_unat) (simp add: addresses_fit_def list_all_iff)
  moreover obtain j where "j \<in> set decls" "target_name i = in_name j" "alias_of j = None" "regblock_ty j = regblock_ty i"
    using aliases_target [OF ok(2) assms(2)] by blast
  then have "(instance_mirror_key chip (target_name i), the (record_of (regblock_ty i))) \<in> set (mirror_inits ctx)"
    unfolding ctx(3) by (force simp: placed_instance_def)
  moreover have "distinct (map fst (mirror_inits ctx))"
    using ok(1) unfolding ctx(3) inits_keys by (induction decls) (auto simp: instance_mirror_key_inj)
  moreover have "instance_mirror_key chip (target_name j) = instance_mirror_key chip (target_name i) \<longleftrightarrow> j = i \<or> alias_related j i"
    if "j \<in> set decls" for j
    using same_target [OF ok(1,2) that assms(2)] by (simp add: instance_mirror_key_inj)
  ultimately show ?thesis using look by blast
qed

definition example_insts :: "int InstanceDecl list" where
  "example_insts = [\<lparr>in_name = ''a'', regblock_ty = ''B'', base_addr = 4096, in_size = Some 256, alias_of = None\<rparr>,
     \<lparr>in_name = ''b'', regblock_ty = ''B'', base_addr = 8192, in_size = Some 256, alias_of = Some ''a''\<rparr>,
     \<lparr>in_name = ''c'', regblock_ty = ''B'', base_addr = 12288, in_size = Some 256, alias_of = None\<rparr>]"

lemma example_place:
  "place int_folder ''t'' [''B'' \<mapsto> [example_C]] (example_insts ! 0) = (4096, Some 256, ''B'')"
  "place int_folder ''t'' [''B'' \<mapsto> [example_C]] (example_insts ! 1) = (8192, Some 256, ''B'')"
  "place int_folder ''t'' [''B'' \<mapsto> [example_C]] (example_insts ! 2) = (12288, Some 256, ''B'')"
  by (simp_all add: place_def resolve_instance_def int_folder_def example_insts_def)

lemma example_addrmap_ok: "addrmap_ok int_folder ''t'' [''B'' \<mapsto> [example_C]] example_insts"
  using example_place
  by (simp add: addrmap_ok_def aliases_ok_def addresses_fit_def alias_related_def resolve_instance_def int_folder_def example_insts_def example_C_def)

theorem addrmap_resolves_witness:
  "\<exists>ctx key a. build_binding_ctx int_folder ''t'' example_insts ''h'' [''B'' \<mapsto> 0] [''B'' \<mapsto> [example_C]] = Ok ctx \<and>
     as_addrmap_register [''t'' \<mapsto> ctx] ''t'' ''b'' ''C'' = Some (key, ''h'', example_C\<lparr>rr_offset := a\<rparr>) \<and> unat a = 8208 \<and>
     (key, 0) \<in> set (mirror_inits ctx) \<and> instance_mirror_key ''t'' ''a'' = key \<and> instance_mirror_key ''t'' ''c'' \<noteq> key"
proof -
  let ?regs = "[''B'' \<mapsto> [example_C]]"
  obtain ctx where ctx: "build_binding_ctx int_folder ''t'' example_insts ''h'' [''B'' \<mapsto> 0] ?regs = Ok ctx"
    using example_addrmap_ok unfolding build_Ok by blast
  have i: "example_insts ! 0 \<in> set example_insts" "example_insts ! 1 \<in> set example_insts" "example_insts ! 2 \<in> set example_insts"
    by (simp_all add: example_insts_def)
  have facts: "in_name (example_insts ! 1) = ''b''" "regblock_ty (example_insts ! 1) = ''B''" "target_name (example_insts ! 0) = ''a''"
      "target_name (example_insts ! 2) = ''c''" "alias_related (example_insts ! 0) (example_insts ! 1)"
      "\<not> alias_related (example_insts ! 2) (example_insts ! 1)" "example_insts ! 2 \<noteq> example_insts ! 1"
    by (simp_all add: example_insts_def target_name_def alias_related_def)
  have "?regs (regblock_ty (example_insts ! 1)) = Some [example_C]" "distinct (map rr_name [example_C])" "example_C \<in> set [example_C]"
    using facts(2) by simp_all
  from addrmap_resolves [OF ctx i(2) this] obtain key a where r:
      "as_addrmap_register [''t'' \<mapsto> ctx] ''t'' (in_name (example_insts ! 1)) (rr_name example_C) = Some (key, ''h'', example_C\<lparr>rr_offset := a\<rparr>)"
      "unat a = unat (fst (place int_folder ''t'' ?regs (example_insts ! 1))) + unat (rr_offset example_C)"
      "(key, the ([''B'' \<mapsto> 0] (regblock_ty (example_insts ! 1)))) \<in> set (mirror_inits ctx)"
      "\<And>j. j \<in> set example_insts \<Longrightarrow> instance_mirror_key ''t'' (target_name j) = key \<longleftrightarrow> j = example_insts ! 1 \<or> alias_related j (example_insts ! 1)"
    by blast
  have C: "rr_name example_C = ''C''" "unat (rr_offset example_C) = 16" by (simp_all add: example_C_def)
  have "unat a = 8208" using r(2) unfolding example_place(2) C(2) by simp
  moreover have "instance_mirror_key ''t'' ''a'' = key" "instance_mirror_key ''t'' ''c'' \<noteq> key"
    using r(4) [OF i(1)] r(4) [OF i(3)] facts(3-7) by simp_all
  moreover have "(key, 0) \<in> set (mirror_inits ctx)" using r(3) unfolding facts(2) by simp
  ultimately show ?thesis using ctx r(1) unfolding facts(1) C(1) by blast
qed

text \<open>A window that ends at the top of the address space is taken for an overflow, beside another sized window.\<close>

theorem top_window_rejected:
  "\<not> isl (check_overlap ''t'' [''a'' \<mapsto> (0, Some 16, ''B''), ''c'' \<mapsto> (32, Some 16, ''B'')] (example_insts ! 0) (example_insts ! 2)) \<and>
   isl (check_overlap ''t'' [''a'' \<mapsto> (- 16, Some 16, ''B''), ''c'' \<mapsto> (32, Some 16, ''B'')] (example_insts ! 0) (example_insts ! 2))"
  by (simp add: check_overlap_def alias_related_def example_insts_def window_end_def checked_add_def)

end
