(* ===== verification/Rust_Text.thy ===== *)
theory Rust_Text
  imports Harc_Prelude
begin

text \<open>
  Rust's \<^verbatim>\<open>str\<close> as the list of its UTF-8 bytes, and the parts of the standard library the tools use on text:
  validity and encoding of UTF-8, lines, trimming, words, and the parsing of unsigned numbers.
\<close>

section \<open>UTF-8\<close>

abbreviation (input) byte :: "char \<Rightarrow> nat" where
  "byte c \<equiv> of_char c"

definition is_cont :: "char \<Rightarrow> bool" where
  "is_cont c \<longleftrightarrow> 128 \<le> byte c \<and> byte c \<le> 191"

text \<open>The length of the well-formed scalar at the head of some bytes, \<open>0\<close> when there is none.\<close>

fun utf8_head :: "string \<Rightarrow> nat" where
  "utf8_head [] = 0"
| "utf8_head (b # r) =
     (if byte b < 128 then 1
      else if 194 \<le> byte b \<and> byte b \<le> 223 then
        (case r of c1 # _ \<Rightarrow> if is_cont c1 then 2 else 0 | _ \<Rightarrow> 0)
      else if 224 \<le> byte b \<and> byte b \<le> 239 then
        (case r of c1 # c2 # _ \<Rightarrow>
           if is_cont c1 \<and> is_cont c2 \<and> (byte b = 224 \<longrightarrow> 160 \<le> byte c1) \<and> (byte b = 237 \<longrightarrow> byte c1 \<le> 159)
           then 3 else 0
         | _ \<Rightarrow> 0)
      else if 240 \<le> byte b \<and> byte b \<le> 244 then
        (case r of c1 # c2 # c3 # _ \<Rightarrow>
           if is_cont c1 \<and> is_cont c2 \<and> is_cont c3 \<and> (byte b = 240 \<longrightarrow> 144 \<le> byte c1) \<and>
              (byte b = 244 \<longrightarrow> byte c1 \<le> 143)
           then 4 else 0
         | _ \<Rightarrow> 0)
      else 0)"

function utf8_valid :: "string \<Rightarrow> bool" where
  "utf8_valid s = (if s = [] then True else if utf8_head s = 0 then False else utf8_valid (drop (utf8_head s) s))"
  by pat_completeness auto

lemma utf8_head_le: "utf8_head s \<le> length s"
  by (cases s rule: utf8_head.cases) (auto split: list.splits)

termination utf8_valid
  by (relation "measure length") auto

declare utf8_valid.simps [simp del]

lemma utf8_head_take: "0 < utf8_head s \<Longrightarrow> utf8_head (take (utf8_head s) s) = utf8_head s"
  by (cases s rule: utf8_head.cases) (auto split: list.splits if_splits)

lemma utf8_head_ge_128: "x \<in> set (take (utf8_head s) s) \<Longrightarrow> 128 \<le> byte (hd s) \<Longrightarrow> 128 \<le> byte x"
  by (cases s rule: utf8_head.cases) (auto simp: is_cont_def split: list.splits if_splits)

lemma utf8_valid_ascii: "(\<forall>c \<in> set s. byte c < 128) \<Longrightarrow> utf8_valid s"
proof (induction s)
  case (Cons c s)
  then show ?case by (subst utf8_valid.simps) simp
qed (simp add: utf8_valid.simps)

lemma utf8_valid_scalar: "0 < utf8_head s \<Longrightarrow> utf8_head s = length s \<Longrightarrow> utf8_valid s"
  by (subst utf8_valid.simps) (simp add: utf8_valid.simps [of "[]"])

text \<open>The encoding of a scalar value.\<close>

definition utf8_encode :: "nat \<Rightarrow> string" where
  "utf8_encode cp =
     (if cp < 128 then [char_of cp]
      else if cp < 2048 then [char_of (192 + cp div 64), char_of (128 + cp mod 64)]
      else if cp < 65536 then
        [char_of (224 + cp div 4096), char_of (128 + cp div 64 mod 64), char_of (128 + cp mod 64)]
      else
        [char_of (240 + cp div 262144), char_of (128 + cp div 4096 mod 64), char_of (128 + cp div 64 mod 64),
         char_of (128 + cp mod 64)])"

section \<open>Lines, blanks and words\<close>

definition LF :: char where
  "LF = CHR 0x0A"

definition strip_cr :: "string \<Rightarrow> string" where
  "strip_cr l = (if l \<noteq> [] \<and> last l = CHR 0x0D then butlast l else l)"

text \<open>\<^verbatim>\<open>str::lines\<close>: a line ends at a line feed, with a carriage return before it or not.\<close>

function lines :: "string \<Rightarrow> string list" where
  "lines s =
     (if s = [] then []
      else case dropWhile (\<lambda>c. c \<noteq> LF) s of
          [] \<Rightarrow> [s]
        | _ # rest \<Rightarrow> strip_cr (takeWhile (\<lambda>c. c \<noteq> LF) s) # lines rest)"
  by pat_completeness auto

termination lines
proof (relation "measure length")
  fix s x rest assume "dropWhile (\<lambda>c. c \<noteq> LF) s = x # rest"
  then have "length (x # rest) \<le> length s" by (metis length_dropWhile_le)
  then show "(rest, s) \<in> measure length" by simp
qed simp

declare lines.simps [simp del]

text \<open>The text of some lines, each ended by a line feed.\<close>

definition unlines :: "string list \<Rightarrow> string" where
  "unlines ls = concat (map (\<lambda>l. l @ [LF]) ls)"

lemma lines_line: "LF \<notin> set l \<Longrightarrow> lines (l @ LF # r) = strip_cr l # lines r"
proof -
  assume l: "LF \<notin> set l"
  have "dropWhile (\<lambda>c. c \<noteq> LF) (l @ LF # r) = LF # r" "takeWhile (\<lambda>c. c \<noteq> LF) (l @ LF # r) = l"
    using l by (induction l) auto
  then show ?thesis by (subst lines.simps) simp
qed

lemma lines_unlines: "(\<forall>l \<in> set ls. LF \<notin> set l) \<Longrightarrow> lines (unlines ls) = map strip_cr ls"
  by (induction ls) (simp_all add: unlines_def lines_line, simp add: lines.simps)

lemma lines_no_LF: "l \<in> set (lines s) \<Longrightarrow> LF \<notin> set l"
proof (induction s rule: lines.induct)
  case (1 s)
  show ?case
  proof (cases "dropWhile (\<lambda>c. c \<noteq> LF) s")
    case Nil
    then have "LF \<notin> set s" by (auto simp: dropWhile_eq_Nil_conv)
    moreover have "lines s = (if s = [] then [] else [s])" by (subst lines.simps) (simp add: Nil)
    ultimately show ?thesis using "1.prems" by (simp split: if_splits)
  next
    case (Cons c rest)
    have "LF \<notin> set (strip_cr (takeWhile (\<lambda>c. c \<noteq> LF) s))"
      by (auto simp: strip_cr_def dest: in_set_butlastD set_takeWhileD)
    moreover have "s \<noteq> []" using Cons by auto
    ultimately show ?thesis
      using "1.prems" "1.IH" [OF _ Cons] Cons by (subst (asm) lines.simps) auto
  qed
qed

text \<open>The encodings of the characters with the property \<^verbatim>\<open>White_Space\<close>.\<close>

definition ws_scalars :: "string list" where
  "ws_scalars = map utf8_encode
     ([9, 10, 11, 12, 13, 32, 133, 160, 5760] @ [8192..<8203] @ [8232, 8233, 8239, 8287, 12288])"

definition ws_head :: "string \<Rightarrow> nat" where
  "ws_head s = (case find (\<lambda>w. take (length w) s = w) ws_scalars of None \<Rightarrow> 0 | Some w \<Rightarrow> length w)"

definition ws_last :: "string \<Rightarrow> nat" where
  "ws_last s = (case find (\<lambda>w. length w \<le> length s \<and> drop (length s - length w) s = w) ws_scalars of
       None \<Rightarrow> 0 | Some w \<Rightarrow> length w)"

function trim_start :: "string \<Rightarrow> string" where
  "trim_start s = (if s = [] \<or> ws_head s = 0 then s else trim_start (drop (ws_head s) s))"
  by pat_completeness auto

termination trim_start
  by (relation "measure length") auto

function trim_end :: "string \<Rightarrow> string" where
  "trim_end s = (if s = [] \<or> ws_last s = 0 then s else trim_end (take (length s - ws_last s) s))"
  by pat_completeness auto

termination trim_end
  by (relation "measure length") auto

declare trim_start.simps [simp del]
declare trim_end.simps [simp del]

definition str_trim :: "string \<Rightarrow> string" where
  "str_trim s = trim_end (trim_start s)"

lemma ws_scalars_eq: "ws_scalars = map utf8_encode
  [9, 10, 11, 12, 13, 32, 133, 160, 5760, 8192, 8193, 8194, 8195, 8196, 8197, 8198, 8199, 8200, 8201, 8202,
   8232, 8233, 8239, 8287, 12288]"
  unfolding ws_scalars_def by (simp add: upt_rec)

lemma ws_scalars_bytes [code]: "ws_scalars = [
  [CHR 0x09], [CHR 0x0A], [CHR 0x0B], [CHR 0x0C], [CHR 0x0D], [CHR 0x20], [CHR 0xC2, CHR 0x85], 
  [CHR 0xC2, CHR 0xA0], [CHR 0xE1, CHR 0x9A, CHR 0x80], [CHR 0xE2, CHR 0x80, CHR 0x80], 
  [CHR 0xE2, CHR 0x80, CHR 0x81], [CHR 0xE2, CHR 0x80, CHR 0x82], [CHR 0xE2, CHR 0x80, CHR 0x83], 
  [CHR 0xE2, CHR 0x80, CHR 0x84], [CHR 0xE2, CHR 0x80, CHR 0x85], [CHR 0xE2, CHR 0x80, CHR 0x86], 
  [CHR 0xE2, CHR 0x80, CHR 0x87], [CHR 0xE2, CHR 0x80, CHR 0x88], [CHR 0xE2, CHR 0x80, CHR 0x89], 
  [CHR 0xE2, CHR 0x80, CHR 0x8A], [CHR 0xE2, CHR 0x80, CHR 0xA8], [CHR 0xE2, CHR 0x80, CHR 0xA9], 
  [CHR 0xE2, CHR 0x80, CHR 0xAF], [CHR 0xE2, CHR 0x81, CHR 0x9F], [CHR 0xE3, CHR 0x80, CHR 0x80]]"
  unfolding ws_scalars_eq by (simp add: utf8_encode_def char_of_def bit_0)

lemma ws_scalar_bytes:
  assumes "w \<in> set ws_scalars"
  shows "w \<noteq> []" "byte (hd w) \<in> {9..13} \<union> {32} \<union> {194..227}" "byte (last w) \<in> {9..13} \<union> {32} \<union> {128..191}"
    "last w = CHR 0x0D \<longrightarrow> w = [CHR 0x0D]"
proof -
  have "list_all (\<lambda>w. w \<noteq> [] \<and> byte (hd w) \<in> {9..13} \<union> {32} \<union> {194..227} \<and>
      byte (last w) \<in> {9..13} \<union> {32} \<union> {128..191} \<and> (last w = CHR 0x0D \<longrightarrow> w = [CHR 0x0D])) ws_scalars"
    unfolding ws_scalars_bytes by simp
  with assms show "w \<noteq> []" "byte (hd w) \<in> {9..13} \<union> {32} \<union> {194..227}" "byte (last w) \<in> {9..13} \<union> {32} \<union> {128..191}"
    "last w = CHR 0x0D \<longrightarrow> w = [CHR 0x0D]"
    unfolding list_all_iff by blast+
qed


lemma find_eq_None: "(\<forall>w \<in> set ws. \<not> P w) \<Longrightarrow> find P ws = None"
  by (simp add: find_None_iff)

lemma ws_head_plain: "byte c \<notin> {9..13} \<union> {32} \<union> {194..227} \<Longrightarrow> ws_head (c # s) = 0"
proof -
  assume c: "byte c \<notin> {9..13} \<union> {32} \<union> {194..227}"
  have "\<not> take (length w) (c # s) = w" if "w \<in> set ws_scalars" for w
    using ws_scalar_bytes(1,2) [OF that] c by (cases w) auto
  then show ?thesis by (simp add: ws_head_def find_eq_None)
qed

lemma ws_last_plain: "byte c \<notin> {9..13} \<union> {32} \<union> {128..191} \<Longrightarrow> ws_last (s @ [c]) = 0"
proof -
  assume c: "byte c \<notin> {9..13} \<union> {32} \<union> {128..191}"
  have "\<not> (length w \<le> length (s @ [c]) \<and> drop (length (s @ [c]) - length w) (s @ [c]) = w)" if "w \<in> set ws_scalars" for w
  proof
    assume "length w \<le> length (s @ [c]) \<and> drop (length (s @ [c]) - length w) (s @ [c]) = w"
    then have "last w = c" using ws_scalar_bytes(1) [OF that]
      by (metis append_is_Nil_conv drop_eq_Nil last_drop last_snoc not_Cons_self2 not_le)
    then show False using ws_scalar_bytes(3) [OF that] c by simp
  qed
  then have "find (\<lambda>w. length w \<le> length (s @ [c]) \<and> drop (length (s @ [c]) - length w) (s @ [c]) = w) ws_scalars = None"
    by (intro find_eq_None ballI)
  then show ?thesis by (simp only: ws_last_def option.case)
qed

lemma trim_start_plain: "byte c \<notin> {9..13} \<union> {32} \<union> {194..227} \<Longrightarrow> trim_start (c # s) = c # s"
  by (subst trim_start.simps) (simp add: ws_head_plain)

lemma trim_end_plain: "byte c \<notin> {9..13} \<union> {32} \<union> {128..191} \<Longrightarrow> trim_end (s @ [c]) = s @ [c]"
  by (subst trim_end.simps) (simp add: ws_last_plain)

lemma trim_end_prefix: "\<exists>n. trim_end s = take n s"
proof (induction s rule: trim_end.induct)
  case (1 s)
  show ?case
  proof (cases "s = [] \<or> ws_last s = 0")
    case True
    then have "trim_end s = take (length s) s" by (subst trim_end.simps) simp
    then show ?thesis ..
  next
    case False
    then obtain n where "trim_end (take (length s - ws_last s) s) = take n (take (length s - ws_last s) s)"
      using "1.IH" [OF False] by (elim exE)
    then have "trim_end s = take (min n (length s - ws_last s)) s" using False by (subst trim_end.simps) simp
    then show ?thesis ..
  qed
qed

text \<open>A carriage return at the end of a line does not change what trimming leaves.\<close>

lemma ws_last_cr: "ws_last (s @ [CHR 0x0D]) = 1"
proof -
  let ?P = "\<lambda>w. length w \<le> length (s @ [CHR 0x0D]) \<and> drop (length (s @ [CHR 0x0D]) - length w) (s @ [CHR 0x0D]) = w"
  have only: "w = [CHR 0x0D]" if "w \<in> set ws_scalars" "?P w" for w
  proof -
    have "last w = CHR 0x0D" using ws_scalar_bytes(1) [OF that(1)] that(2)
      by (metis append_is_Nil_conv drop_eq_Nil last_drop last_snoc not_Cons_self2 not_le)
    then show ?thesis using ws_scalar_bytes(4) [OF that(1)] by blast
  qed
  have "[CHR 0x0D] \<in> set ws_scalars" "?P [CHR 0x0D]" by (simp_all add: ws_scalars_bytes)
  then have "find ?P ws_scalars \<noteq> None" unfolding find_None_iff by blast
  then obtain w where w: "find ?P ws_scalars = Some w" by blast
  then have "w \<in> set ws_scalars" "?P w" by (auto simp: find_Some_iff)
  from only [OF this] w show ?thesis by (simp only: ws_last_def option.case) simp
qed

lemma trim_end_cr: "trim_end (s @ [CHR 0x0D]) = trim_end s"
  by (subst trim_end.simps) (simp add: ws_last_cr)

lemma ws_head_cr: "s \<noteq> [] \<Longrightarrow> ws_head (s @ [CHR 0x0D]) = ws_head s"
proof -
  assume s: "s \<noteq> []"
  have "take (length w) (s @ [CHR 0x0D]) = w \<longleftrightarrow> take (length w) s = w" if "w \<in> set ws_scalars" for w
  proof (cases "length w \<le> length s")
    case False
    have "w \<noteq> s @ [CHR 0x0D]" using ws_scalar_bytes(4) [OF that] s by auto
    with False show ?thesis by auto
  qed simp
  then have "find (\<lambda>w. take (length w) (s @ [CHR 0x0D]) = w) ws_scalars = find (\<lambda>w. take (length w) s = w) ws_scalars"
    by (intro find_cong) auto
  then show ?thesis by (simp only: ws_head_def)
qed

lemma ws_head_le: "ws_head s \<le> length s"
proof (cases "find (\<lambda>w. take (length w) s = w) ws_scalars")
  case (Some w)
  then have "take (length w) s = w" by (auto simp: find_Some_iff)
  then have "length w \<le> length s" by (metis length_take min.cobounded1)
  then show ?thesis by (simp add: ws_head_def Some)
qed (simp add: ws_head_def)

lemma ws_head_only_cr: "ws_head [CHR 0x0D] = 1"
  by (simp add: ws_head_def ws_scalars_bytes)

lemma trim_start_cr: "trim_start (s @ [CHR 0x0D]) = (if trim_start s = [] then [] else trim_start s @ [CHR 0x0D])"
proof (induction s rule: trim_start.induct)
  case (1 s)
  have nil: "trim_start [] = []" by (simp add: trim_start.simps)
  consider "s = []" | "s \<noteq> []" "ws_head s = 0" | "s \<noteq> []" "ws_head s \<noteq> 0" by blast
  then show ?case
  proof cases
    case 1
    then show ?thesis using nil ws_head_only_cr by (subst trim_start.simps) simp
  next
    case 2
    then show ?thesis using ws_head_cr [of s] by (simp add: trim_start.simps [of s] trim_start.simps [of "s @ _"])
  next
    case 3
    then have "trim_start (s @ [CHR 0x0D]) = trim_start (drop (ws_head s) s @ [CHR 0x0D])"
      using ws_head_cr [of s] ws_head_le [of s] by (subst trim_start.simps) simp
    moreover have "trim_start s = trim_start (drop (ws_head s) s)" using 3 by (subst trim_start.simps) simp
    ultimately show ?thesis using "1.IH" 3 by simp
  qed
qed

lemma str_trim_strip_cr [simp]: "str_trim (strip_cr l) = str_trim l"
proof (cases "l \<noteq> [] \<and> last l = CHR 0x0D")
  case True
  then obtain k where k: "l = k @ [CHR 0x0D]" by (metis append_butlast_last_id)
  then have "str_trim l = str_trim k" by (simp add: str_trim_def trim_start_cr trim_end_cr)
  with k True show ?thesis by (simp add: strip_cr_def)
qed (auto simp: strip_cr_def)

text \<open>\<^verbatim>\<open>str::split_whitespace\<close>; \<open>word\<close> is the word read so far.\<close>

function words_from :: "string \<Rightarrow> string \<Rightarrow> string list" where
  "words_from word s =
     (if s = [] then (if word = [] then [] else [word])
      else if ws_head s = 0 then words_from (word @ [hd s]) (tl s)
      else (if word = [] then [] else [word]) @ words_from [] (drop (ws_head s) s))"
  by pat_completeness auto

termination words_from
  by (relation "measure (\<lambda>(_, s). length s)") auto

declare words_from.simps [simp del]

definition split_whitespace :: "string \<Rightarrow> string list" where
  "split_whitespace s = words_from [] s"

section \<open>Unsigned numbers\<close>

text \<open>\<^verbatim>\<open>s.parse::<uN>().ok()\<close>: an optional plus sign, at least one digit, and no overflow.\<close>

definition strip_plus :: "string \<Rightarrow> string" where
  "strip_plus s = (case s of c # r \<Rightarrow> if c = CHR ''+'' then r else s | [] \<Rightarrow> s)"

definition parse_uint :: "nat \<Rightarrow> string \<Rightarrow> nat option" where
  "parse_uint bits s =
     (let ds = strip_plus s in
      if ds \<noteq> [] \<and> list_all is_ascii_digit ds \<and> read_nat ds < 2 ^ bits then Some (read_nat ds) else None)"

text \<open>Evaluation compares as integers, so that the bound is not counted out.\<close>

lemma parse_uint_code [code]: "parse_uint bits s =
     (let ds = strip_plus s in
      if ds \<noteq> [] \<and> list_all is_ascii_digit ds \<and> int (read_nat ds) < 2 ^ bits then Some (read_nat ds) else None)"
proof -
  have "int n < 2 ^ bits \<longleftrightarrow> n < 2 ^ bits" for n by (metis of_nat_less_iff of_nat_numeral of_nat_power)
  then show ?thesis by (simp only: parse_uint_def Let_def)
qed

lemma parse_show_nat [simp]: "parse_uint bits (show_nat n) = (if n < 2 ^ bits then Some n else None)"
proof -
  have "list_all is_ascii_digit (show_nat n)" using show_nat_digits by (simp add: list_all_iff)
  moreover have "strip_plus (show_nat n) = show_nat n"
    using show_nat_digits [of "hd (show_nat n)" n]
    by (cases "show_nat n") (auto simp: strip_plus_def is_ascii_digit_def)
  ultimately show ?thesis by (simp add: parse_uint_def)
qed

text \<open>Hexadecimal digits, and \<^verbatim>\<open>from_str_radix(s, 16)\<close>, which accepts a plus sign too.\<close>

definition hex_value :: "char \<Rightarrow> nat option" where
  "hex_value c =
     (if is_ascii_digit c then Some (byte c - 48)
      else if 97 \<le> byte c \<and> byte c \<le> 102 then Some (byte c - 87)
      else if 65 \<le> byte c \<and> byte c \<le> 70 then Some (byte c - 55)
      else None)"

definition parse_hex :: "nat \<Rightarrow> string \<Rightarrow> nat option" where
  "parse_hex bits s =
     (let ds = strip_plus s in
      if ds \<noteq> [] \<and> list_all (\<lambda>c. hex_value c \<noteq> None) ds
      then (let n = foldl (\<lambda>acc c. 16 * acc + the (hex_value c)) 0 ds in if n < 2 ^ bits then Some n else None)
      else None)"

definition hex_char :: "nat \<Rightarrow> char" where
  "hex_char n = (if n < 10 then char_of (48 + n) else char_of (87 + n))"

text \<open>Rust's \<^verbatim>\<open>{:04x}\<close> of a number below \<open>16\<^sup>4\<close>.\<close>

definition show_hex4 :: "nat \<Rightarrow> string" where
  "show_hex4 n = [hex_char (n div 4096 mod 16), hex_char (n div 256 mod 16), hex_char (n div 16 mod 16), hex_char (n mod 16)]"

lemma hex_value_hex_char [simp]: "n < 16 \<Longrightarrow> hex_value (hex_char n) = Some n"
  by (auto simp: hex_value_def hex_char_def is_ascii_digit_def of_char_of)

lemma parse_show_hex4: "n < 65536 \<Longrightarrow> parse_hex 16 (show_hex4 n) = Some n"
proof -
  assume n: "n < 65536"
  have plus: "hex_char m \<noteq> CHR ''+''" if "m < 16" for m
  proof
    assume "hex_char m = CHR ''+''"
    then have "hex_value (CHR ''+'') = Some m" using that by (metis hex_value_hex_char)
    then show False by (simp add: hex_value_def is_ascii_digit_def)
  qed
  have "16 * (16 * (16 * (n div 4096 mod 16) + n div 256 mod 16) + n div 16 mod 16) + n mod 16 = n"
  proof -
    have "n div 256 = n div 16 div 16" "n div 4096 = n div 16 div 16 div 16" by (simp_all add: div_mult2_eq [symmetric])
    moreover have "n div 16 div 16 div 16 < 16" using n by (simp add: div_mult2_eq [symmetric])
    ultimately show ?thesis by (simp add: mult_div_mod_eq)
  qed
  with n plus show ?thesis by (simp add: parse_hex_def show_hex4_def strip_plus_def)
qed

end
