(* ===== verification/Trace_Json.thy ===== *)
theory Trace_Json
  imports Rust_Text
begin

text \<open>
  The JSON reader and the JSON string printer of the trace merger (\<^verbatim>\<open>src/trace_merge.rs\<close>).

  The reader works on the bytes of its input by index; \<^verbatim>\<open>bytes.get(i)\<close> is \<^verbatim>\<open>None\<close> past the end.  Strings are
  lists of UTF-8 bytes.  An error is its message, or the kind of the standard library error it wraps.
\<close>

datatype JsonValue = JString string | Number string | Raw

datatype json_error = Msg string | Utf8Error | ParseIntError

section \<open>Reading\<close>

definition get_byte :: "string \<Rightarrow> nat \<Rightarrow> char option" where
  "get_byte bytes i = (if i < length bytes then Some (bytes ! i) else None)"

text \<open>\<^verbatim>\<open>bytes.get(i..j)\<close>\<close>

definition get_range :: "string \<Rightarrow> nat \<Rightarrow> nat \<Rightarrow> string option" where
  "get_range bytes i j = (if i \<le> j \<and> j \<le> length bytes then Some (take (j - i) (drop i bytes)) else None)"

function skip_while :: "(char \<Rightarrow> bool) \<Rightarrow> string \<Rightarrow> nat \<Rightarrow> nat" where
  "skip_while P bytes i = (if i < length bytes \<and> P (bytes ! i) then skip_while P bytes (i + 1) else i)"
  by pat_completeness auto

termination skip_while
  by (relation "measure (\<lambda>(P, bytes, i). length bytes - i)") auto

declare skip_while.simps [simp del]

definition is_json_ws :: "char \<Rightarrow> bool" where
  "is_json_ws b \<longleftrightarrow> b \<in> {CHR '' '', CHR 0x0A, CHR 0x0D, CHR 0x09}"

definition skip_ws :: "string \<Rightarrow> nat \<Rightarrow> nat" where
  "skip_ws bytes i = skip_while is_json_ws bytes i"

definition parse_json_unicode_escape :: "string \<Rightarrow> nat \<Rightarrow> (json_error, nat \<times> nat) result" where
  "parse_json_unicode_escape bytes i =
     (case get_range bytes (i + 1) (i + 5) of
        None \<Rightarrow> Err (Msg ''short JSON unicode escape'')
      | Some hex \<Rightarrow>
          if \<not> utf8_valid hex then Err Utf8Error
          else (case parse_hex 16 hex of None \<Rightarrow> Err ParseIntError | Some unit \<Rightarrow> Ok (unit, i + 5)))"

text \<open>
  The escape whose letter is at \<open>i\<close>: the bytes to push and the index of the escape's last byte.
\<close>

definition json_escape_at :: "string \<Rightarrow> nat \<Rightarrow> (json_error, string \<times> nat) result" where
  "json_escape_at bytes i =
     (case get_byte bytes i of
        None \<Rightarrow> Err (Msg ''unterminated JSON escape'')
      | Some esc \<Rightarrow>
          if esc = CHR 0x22 then Ok ([CHR 0x22], i)
          else if esc = CHR 0x5C then Ok ([CHR 0x5C], i)
          else if esc = CHR ''/'' then Ok (''/'', i)
          else if esc = CHR ''b'' then Ok ([CHR 0x08], i)
          else if esc = CHR ''f'' then Ok ([CHR 0x0C], i)
          else if esc = CHR ''n'' then Ok ([CHR 0x0A], i)
          else if esc = CHR ''r'' then Ok ([CHR 0x0D], i)
          else if esc = CHR ''t'' then Ok ([CHR 0x09], i)
          else if esc = CHR ''u'' then
            try_bind (parse_json_unicode_escape bytes i) (\<lambda>(unit, next).
              if 0xD800 \<le> unit \<and> unit \<le> 0xDBFF then
                (if get_range bytes next (next + 2) \<noteq> Some [CHR 0x5C, CHR ''u'']
                 then Err (Msg ''JSON high surrogate is not followed by a low surrogate'')
                 else try_bind (parse_json_unicode_escape bytes (next + 1)) (\<lambda>(low, end_idx).
                   if \<not> (0xDC00 \<le> low \<and> low \<le> 0xDFFF)
                   then Err (Msg ''JSON high surrogate is not followed by a low surrogate'')
                   else Ok (utf8_encode (0x10000 + (unit - 0xD800) * 1024 + (low - 0xDC00)), end_idx - 1)))
              else if 0xDC00 \<le> unit \<and> unit \<le> 0xDFFF
              then Err (Msg ''JSON low surrogate has no high surrogate'')
              else Ok (utf8_encode unit, next - 1))
          else Err (Msg ''unsupported JSON escape''))"

text \<open>The scalar of several bytes at \<open>i\<close>.\<close>

definition json_scalar_at :: "string \<Rightarrow> nat \<Rightarrow> (json_error, string \<times> nat) result" where
  "json_scalar_at bytes i =
     (let b = byte (bytes ! i);
          width = (if 0xC2 \<le> b \<and> b \<le> 0xDF then Some 2 else if 0xE0 \<le> b \<and> b \<le> 0xEF then Some 3
                   else if 0xF0 \<le> b \<and> b \<le> 0xF4 then Some 4 else None)
      in case width of
        None \<Rightarrow> Err (Msg ''invalid UTF-8 in JSON string'')
      | Some width \<Rightarrow>
          (case get_range bytes i (i + width) of
             None \<Rightarrow> Err (Msg ''invalid UTF-8 in JSON string'')
           | Some scalar \<Rightarrow> if utf8_valid scalar then Ok (scalar, i + width - 1) else Err Utf8Error))"

lemma unicode_escape_next: "parse_json_unicode_escape bytes i = Ok (u, next) \<Longrightarrow> next = i + 5"
  by (auto simp: parse_json_unicode_escape_def split: option.splits if_splits)

lemma json_escape_at_le: "json_escape_at bytes i = Ok (out, j) \<Longrightarrow> i \<le> j"
  by (auto simp: json_escape_at_def result_simps dest!: unicode_escape_next split: option.splits if_splits)

lemma json_scalar_at_le: "json_scalar_at bytes i = Ok (out, j) \<Longrightarrow> i \<le> j"
  by (auto simp: json_scalar_at_def Let_def split: option.splits if_splits)

function json_string_loop :: "string \<Rightarrow> nat \<Rightarrow> string \<Rightarrow> (json_error, string \<times> nat) result" where
  "json_string_loop bytes i out =
     (if i \<ge> length bytes then Err (Msg ''unterminated JSON string'')
      else let b = bytes ! i in
        if b = CHR 0x22 then Ok (out, i + 1)
        else if b = CHR 0x5C then
          try_bind (json_escape_at bytes (i + 1)) (\<lambda>r. json_string_loop bytes (snd r + 1) (out @ fst r))
        else if byte b < 0x20 then Err (Msg ''unescaped JSON control character'')
        else if byte b < 128 then json_string_loop bytes (i + 1) (out @ [b])
        else try_bind (json_scalar_at bytes i) (\<lambda>r. json_string_loop bytes (snd r + 1) (out @ fst r)))"
  by pat_completeness auto

termination json_string_loop
proof (relation "measure (\<lambda>(bytes, i, out). length bytes - i)")
  fix bytes i b r
  assume "\<not> length bytes \<le> i" "json_escape_at bytes (i + 1) = Inr (r :: string \<times> nat)"
  then show "((bytes, snd r + 1, out @ fst r), bytes, i, out) \<in> measure (\<lambda>(bytes, i, out). length bytes - i)" for out
    using json_escape_at_le [of bytes "i + 1" "fst r" "snd r"] by auto
next
  fix bytes i b r
  assume "\<not> length bytes \<le> i" "json_scalar_at bytes i = Inr (r :: string \<times> nat)"
  then show "((bytes, snd r + 1, out @ fst r), bytes, i, out) \<in> measure (\<lambda>(bytes, i, out). length bytes - i)" for out
    using json_scalar_at_le [of bytes i "fst r" "snd r"] by auto
qed auto

declare json_string_loop.simps [simp del]

definition parse_json_string :: "string \<Rightarrow> nat \<Rightarrow> (json_error, string \<times> nat) result" where
  "parse_json_string bytes i =
     (if get_byte bytes i \<noteq> Some (CHR 0x22) then Err (Msg ''expected JSON string'')
      else json_string_loop bytes (i + 1) [])"

definition parse_json_number :: "string \<Rightarrow> nat \<Rightarrow> (json_error, JsonValue \<times> nat) result" where
  "parse_json_number bytes start =
     (let i = (if get_byte bytes start = Some (CHR ''-'') then start + 1 else start);
          i = skip_while is_ascii_digit bytes i
      in if get_byte bytes i \<in> {Some (CHR ''.''), Some (CHR ''e''), Some (CHR ''E'')}
         then Ok (Raw, skip_while (\<lambda>b. is_ascii_digit b \<or> b \<in> set ''.eE+-'') bytes i)
         else let s = take (i - start) (drop start bytes) in
           if \<not> utf8_valid s then Err Utf8Error
           else if s = ''-'' then Err (Msg ''expected digits after `-`'')
           else Ok (Number s, i))"

lemma skip_while_le: "i \<le> skip_while P bytes i"
  by (induction P bytes i rule: skip_while.induct) (subst skip_while.simps, auto)

lemma skip_ws_le: "i \<le> skip_ws bytes i"
  by (simp add: skip_ws_def skip_while_le)

lemma json_string_loop_step:
  assumes "json_string_loop bytes i out = Ok (s, next)"
  shows "i < length bytes \<and> (next = i + 1 \<or> (\<exists>j out'. i < j \<and> json_string_loop bytes j out' = Ok (s, next)))"
  using assms
  by (subst (asm) json_string_loop.simps)
    (auto simp: Let_def result_simps split: if_splits dest!: json_escape_at_le json_scalar_at_le
      intro: less_Suc_eq_le [THEN iffD2] lessI)

lemma json_string_loop_next: "json_string_loop bytes i out = Ok (s, next) \<Longrightarrow> i < next \<and> next \<le> length bytes"
proof (induction "length bytes - i" arbitrary: i out rule: less_induct)
  case less
  from json_string_loop_step [OF less.prems] consider "next = i + 1" "i < length bytes"
    | j out' where "i < j" "i < length bytes" "json_string_loop bytes j out' = Ok (s, next)" by auto
  then show ?case
  proof cases
    case 2
    then show ?thesis using less.hyps [OF diff_less_mono2 [OF 2(1,2)] 2(3)] by simp
  qed simp
qed

lemma parse_json_string_next: "parse_json_string bytes i = Ok (s, next) \<Longrightarrow> i < next \<and> next \<le> length bytes"
  using json_string_loop_next [of bytes "i + 1" "[]"] by (fastforce simp: parse_json_string_def split: if_splits)

text \<open>A nested object or array is skipped: brackets of its own kind are counted, strings are read over.\<close>

function skip_container_loop :: "string \<Rightarrow> char \<Rightarrow> char \<Rightarrow> nat \<Rightarrow> nat \<Rightarrow> (json_error, nat) result" where
  "skip_container_loop bytes opener closer depth i =
     (if i \<ge> length bytes then Err (Msg ''unterminated JSON container'')
      else let b = bytes ! i in
        if b = CHR 0x22 then
          try_bind (parse_json_string bytes i) (\<lambda>r. skip_container_loop bytes opener closer depth (snd r))
        else if b = opener then skip_container_loop bytes opener closer (depth + 1) (i + 1)
        else if b = closer then
          (if depth - 1 = 0 then Ok (i + 1) else skip_container_loop bytes opener closer (depth - 1) (i + 1))
        else skip_container_loop bytes opener closer depth (i + 1))"
  by pat_completeness auto

termination skip_container_loop
proof (relation "measure (\<lambda>(bytes, opener, closer, depth, i). length bytes - i)")
  fix bytes :: string and opener closer depth i b r
  assume "\<not> length bytes \<le> i" "parse_json_string bytes i = Inr (r :: string \<times> nat)"
  then show "((bytes, opener, closer, depth, snd r), bytes, opener, closer, depth, i)
      \<in> measure (\<lambda>(bytes, opener, closer, depth, i). length bytes - i)"
    using parse_json_string_next [of bytes i "fst r" "snd r"] by auto
qed auto

declare skip_container_loop.simps [simp del]

definition skip_json_container :: "string \<Rightarrow> nat \<Rightarrow> (json_error, nat) result" where
  "skip_json_container bytes i =
     (case get_byte bytes i of
        None \<Rightarrow> Err (Msg ''missing container'')
      | Some opener \<Rightarrow>
          skip_container_loop bytes opener (if opener = CHR ''{'' then CHR ''}'' else CHR '']'') 0 i)"

definition parse_json_value :: "string \<Rightarrow> nat \<Rightarrow> (json_error, JsonValue \<times> nat) result" where
  "parse_json_value bytes i =
     (case get_byte bytes i of
        None \<Rightarrow> Err (Msg ''unsupported JSON value'')
      | Some b \<Rightarrow>
          if b = CHR 0x22 then try_bind (parse_json_string bytes i) (\<lambda>(s, next). Ok (JString s, next))
          else if b = CHR ''-'' \<or> is_ascii_digit b then parse_json_number bytes i
          else if b = CHR ''{'' \<or> b = CHR ''['' then try_bind (skip_json_container bytes i) (\<lambda>next. Ok (Raw, next))
          else if b = CHR ''t'' \<and> get_range bytes i (i + 4) = Some ''true'' then Ok (Raw, i + 4)
          else if b = CHR ''f'' \<and> get_range bytes i (i + 5) = Some ''false'' then Ok (Raw, i + 5)
          else if b = CHR ''n'' \<and> get_range bytes i (i + 4) = Some ''null'' then Ok (Raw, i + 4)
          else Err (Msg ''unsupported JSON value''))"

lemma skip_container_next: "skip_container_loop bytes opener closer depth i = Ok next \<Longrightarrow> i < next"
proof (induction "length bytes - i" arbitrary: i depth rule: less_induct)
  case less
  from less.prems have "next = i + 1 \<or> (\<exists>j d. i < j \<and> i < length bytes \<and> skip_container_loop bytes opener closer d j = Ok next)"
    by (subst (asm) skip_container_loop.simps)
      (auto simp: Let_def result_simps split: if_splits dest!: parse_json_string_next intro: lessI)
  then show ?case
  proof
    assume "\<exists>j d. i < j \<and> i < length bytes \<and> skip_container_loop bytes opener closer d j = Ok next"
    then obtain j d where j: "i < j" "i < length bytes" "skip_container_loop bytes opener closer d j = Ok next" by blast
    from less.hyps [OF diff_less_mono2 [OF j(1,2)] j(3)] j(1) show ?thesis by simp
  qed simp
qed

lemma parse_json_value_next: "parse_json_value bytes i = Ok (v, next) \<Longrightarrow> i \<le> next"
  by (auto simp: parse_json_value_def parse_json_number_def skip_json_container_def Let_def result_simps
      split: option.splits if_splits dest!: skip_container_next parse_json_string_next
      intro: order_trans [OF _ skip_while_le] Suc_leD)

text \<open>The members of the object from \<open>i\<close> on, added to those read so far; a repeated key replaces.\<close>

function json_members :: "string \<Rightarrow> nat \<Rightarrow> (string \<rightharpoonup> JsonValue) \<Rightarrow> (json_error, string \<rightharpoonup> JsonValue) result" where
  "json_members bytes i out =
     (let i = skip_ws bytes i in
      if get_byte bytes i = Some (CHR ''}'') then Ok out
      else try_bind (parse_json_string bytes i) (\<lambda>k.
        let i = skip_ws bytes (snd k) in
        if get_byte bytes i \<noteq> Some (CHR '':'') then Err (Msg ''expected `:`'')
        else let i = skip_ws bytes (i + 1) in
          try_bind (parse_json_value bytes i) (\<lambda>v.
            let out = out(fst k \<mapsto> fst v); i = skip_ws bytes (snd v) in
            if get_byte bytes i = Some (CHR '','') then json_members bytes (i + 1) out
            else if get_byte bytes i = Some (CHR ''}'') then Ok out
            else Err (Msg ''expected `,` or `}`''))))"
  by pat_completeness auto

lemma members_progress:
  assumes "parse_json_string bytes (skip_ws bytes i) = Ok k"
    and "parse_json_value bytes (skip_ws bytes (skip_ws bytes (snd k) + 1)) = Ok v"
    and "get_byte bytes (skip_ws bytes (snd v)) = Some c"
  shows "i < skip_ws bytes (snd v)" "skip_ws bytes (snd v) < length bytes"
proof -
  have "i \<le> skip_ws bytes i" "skip_ws bytes i < snd k" "snd k \<le> skip_ws bytes (snd k)"
    using skip_ws_le parse_json_string_next [of bytes _ "fst k" "snd k"] assms(1) by auto
  moreover have "skip_ws bytes (snd k) < skip_ws bytes (skip_ws bytes (snd k) + 1)"
    using skip_ws_le [of "skip_ws bytes (snd k) + 1" bytes] by simp
  moreover have "skip_ws bytes (skip_ws bytes (snd k) + 1) \<le> snd v" "snd v \<le> skip_ws bytes (snd v)"
    using parse_json_value_next [of bytes _ "fst v" "snd v"] assms(2) skip_ws_le by auto
  ultimately show "i < skip_ws bytes (snd v)" by linarith
  show "skip_ws bytes (snd v) < length bytes" using assms(3) by (simp add: get_byte_def split: if_splits)
qed

termination json_members
proof (relation "measure (\<lambda>(bytes, i, out). length bytes - i)")
  fix bytes :: string and i out x k xa xb v xc xd
  assume "x = skip_ws bytes i" "parse_json_string bytes x = Inr k" "xa = skip_ws bytes (snd k)"
    "xb = skip_ws bytes (xa + 1)" "parse_json_value bytes xb = Inr v" "xd = skip_ws bytes (snd v)"
    "get_byte bytes xd = Some (CHR '','')"
  then show "((bytes, xd + 1, xc), bytes, i, out) \<in> measure (\<lambda>(bytes, i, out). length bytes - i)"
    using members_progress [of bytes i k v] by auto
qed auto

declare json_members.simps [simp del]

definition parse_json_object_top :: "string \<Rightarrow> (json_error, string \<rightharpoonup> JsonValue) result" where
  "parse_json_object_top input =
     (let i = skip_ws input 0 in
      if get_byte input i \<noteq> Some (CHR ''{'') then Err (Msg ''expected `{`'')
      else json_members input (i + 1) Map.empty)"

fun string_field :: "(string \<rightharpoonup> JsonValue) \<Rightarrow> string \<Rightarrow> string option" where
  "string_field flds key = (case flds key of
       Some (JString s) \<Rightarrow> Some s | Some (Number n) \<Rightarrow> Some n | Some Raw \<Rightarrow> None | None \<Rightarrow> None)"

definition uint_field :: "nat \<Rightarrow> (string \<rightharpoonup> JsonValue) \<Rightarrow> string \<Rightarrow> nat option" where
  "uint_field bits flds key = (case flds key of
       Some (Number n) \<Rightarrow> parse_uint bits n | Some (JString s) \<Rightarrow> parse_uint bits s | Some Raw \<Rightarrow> None | None \<Rightarrow> None)"

definition u64_field :: "(string \<rightharpoonup> JsonValue) \<Rightarrow> string \<Rightarrow> nat option" where
  "u64_field = uint_field 64"

definition u128_field :: "(string \<rightharpoonup> JsonValue) \<Rightarrow> string \<Rightarrow> nat option" where
  "u128_field = uint_field 128"

section \<open>Printing\<close>

definition json_escape_byte :: "char \<Rightarrow> string" where
  "json_escape_byte ch =
     (if ch = CHR 0x22 then [CHR 0x5C, CHR 0x22]
      else if ch = CHR 0x5C then [CHR 0x5C, CHR 0x5C]
      else if ch = CHR 0x0A then [CHR 0x5C, CHR ''n'']
      else if ch = CHR 0x0D then [CHR 0x5C, CHR ''r'']
      else if ch = CHR 0x09 then [CHR 0x5C, CHR ''t'']
      else if byte ch < 32 then [CHR 0x5C, CHR ''u''] @ show_hex4 (byte ch)
      else [ch])"

definition json_escape :: "string \<Rightarrow> string" where
  "json_escape s = concat (map json_escape_byte s)"

section \<open>Round trips\<close>

lemma drop_ConsD:
  assumes "drop i xs = x # r" shows "i < length xs" "xs ! i = x" "drop (Suc i) xs = r"
proof -
  show i: "i < length xs" using assms by (metis drop_all list.distinct(1) not_le)
  then show "xs ! i = x" "drop (Suc i) xs = r" using assms by (simp_all add: Cons_nth_drop_Suc [OF i, symmetric])
qed

lemma drop_append_len: "drop i xs = x @ r \<Longrightarrow> drop (i + length x) xs = r"
  by (metis add.commute append_eq_conv_conj drop_drop)

lemma get_range_drop:
  assumes "drop i bytes = x @ r" "x \<noteq> []" "j = i + length x" shows "get_range bytes i j = Some x"
proof -
  have "length x \<le> length bytes - i" using arg_cong [OF assms(1), of length] by simp
  moreover have "i < length bytes" using assms(1,2) by (metis append_is_Nil_conv drop_all not_le)
  ultimately show ?thesis using assms by (auto simp: get_range_def)
qed

lemma loop_quote: "drop i bytes = CHR 0x22 # r \<Longrightarrow> json_string_loop bytes i out = Ok (out, i + 1)"
  using drop_ConsD [of i bytes] by (subst json_string_loop.simps) (auto simp: Let_def not_le)

lemma loop_plain:
  "drop i bytes = c # r \<Longrightarrow> 32 \<le> byte c \<Longrightarrow> byte c < 128 \<Longrightarrow> c \<noteq> CHR 0x22 \<Longrightarrow> c \<noteq> CHR 0x5C \<Longrightarrow>
     json_string_loop bytes i out = json_string_loop bytes (i + 1) (out @ [c])"
  using drop_ConsD [of i bytes] by (subst json_string_loop.simps) (auto simp: Let_def not_le)

lemma loop_escape:
  "drop i bytes = CHR 0x5C # r \<Longrightarrow> json_escape_at bytes (i + 1) = Ok (x, j) \<Longrightarrow>
     json_string_loop bytes i out = json_string_loop bytes (j + 1) (out @ x)"
  using drop_ConsD [of i bytes] by (subst json_string_loop.simps) (auto simp: Let_def not_le)

lemma json_scalar_at_head:
  assumes d: "drop i bytes = x @ r" and x: "utf8_head x = length x" "128 \<le> byte (hd x)" "x \<noteq> []"
  shows "json_scalar_at bytes i = Ok (x, i + length x - 1)"
proof -
  obtain b y where b: "x = b # y" using x(3) by (cases x) auto
  have at: "bytes ! i = b" using drop_ConsD [of i bytes b "y @ r"] d b by auto
  have "utf8_valid x" using x by (intro utf8_valid_scalar) auto
  moreover have "get_range bytes i (i + length x) = Some x" using get_range_drop [OF d x(3) refl] .
  moreover have "length x = 2 \<and> 194 \<le> byte b \<and> byte b \<le> 223 \<or> length x = 3 \<and> 224 \<le> byte b \<and> byte b \<le> 239 \<or>
      length x = 4 \<and> 240 \<le> byte b \<and> byte b \<le> 244"
    using x(1,2) b by (auto split: if_splits list.splits)
  ultimately show ?thesis by (auto simp: json_scalar_at_def Let_def at)
qed

lemma loop_scalar:
  assumes d: "drop i bytes = x @ r" and x: "utf8_head x = length x" "128 \<le> byte (hd x)" "x \<noteq> []"
  shows "json_string_loop bytes i out = json_string_loop bytes (i + length x) (out @ x)"
proof -
  obtain b y where b: "x = b # y" using x(3) by (cases x) auto
  have at: "i < length bytes" "bytes ! i = b" using drop_ConsD [of i bytes b "y @ r"] d b by auto
  have "b \<noteq> CHR 0x22" "b \<noteq> CHR 0x5C" "\<not> byte b < 32" "\<not> byte b < 128" using x(2) b by auto
  with at b json_scalar_at_head [OF assms] show ?thesis
    by (subst json_string_loop.simps) (simp add: Let_def not_le)
qed

lemma unicode_escape_hex4:
  assumes "drop (i + 1) bytes = show_hex4 n @ r" "n < 65536"
  shows "parse_json_unicode_escape bytes i = Ok (n, i + 5)"
proof -
  have "byte (hex_char m) < 128" if "m < 16" for m using that by (auto simp: hex_char_def of_char_of)
  then have "utf8_valid (show_hex4 n)" by (intro utf8_valid_ascii) (auto simp: show_hex4_def)
  moreover have "length (show_hex4 n) = 4" "show_hex4 n \<noteq> []" by (simp_all add: show_hex4_def)
  ultimately show ?thesis
    using get_range_drop [OF assms(1), of "i + 5"] assms(2)
    by (simp add: parse_json_unicode_escape_def parse_show_hex4)
qed

lemma json_escape_byte_cases:
  obtains (simple) e where "json_escape_byte c = [CHR 0x5C, e]"
      "(e, c) \<in> {(CHR 0x22, CHR 0x22), (CHR 0x5C, CHR 0x5C), (CHR ''n'', CHR 0x0A), (CHR ''r'', CHR 0x0D), (CHR ''t'', CHR 0x09)}"
    | (hex) "json_escape_byte c = [CHR 0x5C, CHR ''u''] @ show_hex4 (byte c)"
    | (plain) "json_escape_byte c = [c]" "32 \<le> byte c" "c \<noteq> CHR 0x22" "c \<noteq> CHR 0x5C"
proof (cases "c \<in> {CHR 0x22, CHR 0x5C, CHR 0x0A, CHR 0x0D, CHR 0x09}")
  case True
  have "\<exists>e. json_escape_byte c = [CHR 0x5C, e] \<and>
      (e, c) \<in> {(CHR 0x22, CHR 0x22), (CHR 0x5C, CHR 0x5C), (CHR ''n'', CHR 0x0A), (CHR ''r'', CHR 0x0D), (CHR ''t'', CHR 0x09)}"
    using True by (elim insertE emptyE) (simp_all add: json_escape_byte_def)
  then show ?thesis using simple by blast
next
  case False
  then show ?thesis using hex plain by (cases "byte c < 32") (simp_all add: json_escape_byte_def)
qed

lemma loop_escape_byte:
  assumes d: "drop i bytes = json_escape_byte c @ r" and c: "byte c < 128"
  shows "json_string_loop bytes i out = json_string_loop bytes (i + length (json_escape_byte c)) (out @ [c])"
proof -
  show ?thesis
  proof (cases rule: json_escape_byte_cases [of c])
    case (simple e)
    have "drop i bytes = CHR 0x5C # e # r" using d simple(1) by simp
    note e = drop_ConsD(1,2) [OF drop_ConsD(3) [OF this]]
    then have "json_escape_at bytes (i + 1) = Ok ([c], i + 1)"
      using simple(2) by (elim insertE emptyE) (simp_all add: json_escape_at_def get_byte_def)
    from loop_escape [OF _ this] simple d show ?thesis by simp
  next
    case hex
    then have d2: "drop (i + 2) bytes = show_hex4 (byte c) @ r" "drop (i + 1) bytes = CHR ''u'' # show_hex4 (byte c) @ r"
      using drop_ConsD(3) [of i bytes] drop_ConsD(3) [of "Suc i" bytes] d by (auto simp: numeral_2_eq_2)
    have "parse_json_unicode_escape bytes (i + 1) = Ok (byte c, i + 6)"
      using unicode_escape_hex4 [of "i + 1" bytes "byte c" r] d2(1) c by simp
    then have "json_escape_at bytes (i + 1) = Ok ([c], i + 5)"
      using drop_ConsD(1,2) [OF d2(2)] c by (simp add: json_escape_at_def get_byte_def utf8_encode_def)
    moreover have "length (json_escape_byte c) = 6" by (simp add: hex show_hex4_def)
    ultimately show ?thesis using loop_escape [of i bytes "CHR ''u'' # show_hex4 (byte c) @ r"] hex d by (simp add: add.commute)
  next
    case plain
    then show ?thesis using loop_plain [of i bytes c r] d c by simp
  qed
qed

lemma json_escape_append: "json_escape (x @ y) = json_escape x @ json_escape y"
  by (simp add: json_escape_def)

lemma json_escape_high: "(\<forall>c \<in> set x. 128 \<le> byte c) \<Longrightarrow> json_escape x = x"
  by (induction x) (auto simp: json_escape_def json_escape_byte_def)

lemma json_string_loop_escape:
  "utf8_valid s \<Longrightarrow> drop i bytes = json_escape s @ CHR 0x22 # r \<Longrightarrow>
     json_string_loop bytes i out = Ok (out @ s, i + length (json_escape s) + 1)"
proof (induction s arbitrary: i out rule: utf8_valid.induct)
  case (1 s)
  show ?case
  proof (cases "s = []")
    case True
    then show ?thesis using "1.prems"(2) by (simp add: loop_quote json_escape_def)
  next
    case False
    let ?x = "take (utf8_head s) s" and ?y = "drop (utf8_head s) s"
    have h: "utf8_head s \<noteq> 0" "utf8_valid ?y" using "1.prems"(1) False by (auto simp: utf8_valid.simps [of s] split: if_splits)
    note IH = "1.IH" [OF False h]
    have esc: "json_escape s = json_escape ?x @ json_escape ?y" by (simp flip: json_escape_append)
    have d: "drop i bytes = json_escape ?x @ json_escape ?y @ CHR 0x22 # r" using "1.prems"(2) esc by simp
    have "json_string_loop bytes i out = json_string_loop bytes (i + length (json_escape ?x)) (out @ ?x)"
    proof (cases "byte (hd s) < 128")
      case True
      then have "?x = [hd s]" using False by (cases s) auto
      then show ?thesis using loop_escape_byte [of i bytes "hd s"] d True by (simp add: json_escape_def)
    next
      case high: False
      then have "json_escape ?x = ?x" using utf8_head_ge_128 [of _ s] by (intro json_escape_high) auto
      moreover have "utf8_head ?x = length ?x" using utf8_head_take [of s] utf8_head_le [of s] h(1) by simp
      moreover have "hd ?x = hd s" "?x \<noteq> []" using h(1) False by auto
      ultimately show ?thesis using loop_scalar [of i bytes ?x] d high by simp
    qed
    also have "\<dots> = Ok ((out @ ?x) @ ?y, i + length (json_escape ?x) + length (json_escape ?y) + 1)"
      by (rule IH) (use drop_append_len [OF d] in simp)
    finally show ?thesis by (simp add: esc)
  qed
qed

lemma parse_escaped_string:
  assumes "utf8_valid s" "drop i bytes = CHR 0x22 # json_escape s @ CHR 0x22 # r"
  shows "parse_json_string bytes i = Ok (s, i + length (json_escape s) + 2)"
  using json_string_loop_escape [OF assms(1), of "Suc i" bytes r "[]"] drop_ConsD [OF assms(2)]
  by (simp add: parse_json_string_def get_byte_def)

end
