(* ===== verification/Trace_Merge.thy ===== *)
theory Trace_Merge
  imports Trace_Json Btree_Map "HOL-Library.List_Lexorder" "HOL-Library.Char_ord" "HOL-Library.Product_Lexorder"
    "HOL-Library.Sublist"
begin

text \<open>
  The trace merger (\<^verbatim>\<open>src/trace_merge.rs\<close>): the events of a semantic trace are read from JSON lines, strings are
  interned into numbered tables, and the events are written as extra signal lanes into a waveform file.

  The code appends to one string, a whole line at a time; here each emitter returns the lines it appends and
  \<open>unlines\<close> ends each with a line feed.  Machine integers read from the trace are naturals below \<open>2\<^sup>6\<^sup>4\<close> or
  \<open>2\<^sup>1\<^sup>2\<^sup>8\<close> because \<open>parse_uint\<close> rejects larger ones.
\<close>

section \<open>Data\<close>

record SemanticEvent =
  ev_typ :: string
  ev_seq :: nat
  ev_cycle :: nat
  ev_vcd_time :: nat
  ev_clock :: string
  ev_clock_cycle :: nat
  ev_component :: string
  ev_bus :: string
  ev_method :: string
  ev_phase :: string
  ev_direction :: string
  ev_tag :: "nat option"
  ev_label :: string

record SignalIds =
  si_valid :: string
  si_event_type :: string
  si_seq :: string
  si_cycle :: string
  si_clock_id :: string
  si_clock_cycle :: string
  si_component_id :: string
  si_bus_id :: string
  si_method_id :: string
  si_phase_id :: string
  si_direction_id :: string
  si_tag_valid :: string
  si_tag :: string
  si_label_id :: string

type_synonym IdTable = "(string \<times> nat) list"

record StringTables =
  st_event_type :: IdTable
  st_clock :: IdTable
  st_component :: IdTable
  st_bus :: IdTable
  st_method :: IdTable
  st_phase :: IdTable
  st_direction :: IdTable
  st_label :: IdTable

definition default_tables :: StringTables where
  "default_tables = \<lparr>st_event_type = [], st_clock = [], st_component = [], st_bus = [], st_method = [], st_phase = [],
     st_direction = [], st_label = []\<rparr>"

text \<open>The number of a string: \<open>0\<close> for the empty one, the next free number for a new one, as a \<^verbatim>\<open>u32\<close>.\<close>

definition table_id :: "string \<Rightarrow> IdTable \<Rightarrow> nat \<times> IdTable" where
  "table_id value ids =
     (if value = [] then (0, ids)
      else case map_of ids value of
          Some ident \<Rightarrow> (ident, ids)
        | None \<Rightarrow> let ident = (length ids + 1) mod 2 ^ 32 in (ident, bt_insert value ident ids))"

section \<open>Reading the trace\<close>

definition event_label ::
  "string \<Rightarrow> string \<Rightarrow> string \<Rightarrow> string \<Rightarrow> string \<Rightarrow> string \<Rightarrow> nat option \<Rightarrow> string option \<Rightarrow> string option \<Rightarrow> string" where
  "event_label typ component bus meth phase direction tag severity message =
     (if typ = ''tlm_call'' then
        direction @ '':'' @ phase
        @ (if component \<noteq> [] then '' '' @ component else [])
        @ (if bus \<noteq> [] \<or> meth \<noteq> [] then '' '' @ (if bus \<noteq> [] then bus @ ''.'' else []) @ meth else [])
        @ (case tag of Some tag \<Rightarrow> '' tag='' @ show_nat tag | None \<Rightarrow> [])
      else if typ = ''log'' \<or> typ = ''assertion_failure'' then
        (let sev = (case severity of Some s \<Rightarrow> s | None \<Rightarrow> []);
             msg = (case message of Some m \<Rightarrow> m | None \<Rightarrow> [])
         in if sev = [] then typ @ '': '' @ msg else typ @ '':'' @ sev @ '': '' @ msg)
      else typ)"

definition opt_unwrap_or :: "'a option \<Rightarrow> 'a \<Rightarrow> 'a" where
  "opt_unwrap_or x d = (case x of Some y \<Rightarrow> y | None \<Rightarrow> d)"

text \<open>One line of the trace: no event, or the event to push; \<open>n\<close> is the number of events read before it.\<close>

definition parse_trace_line :: "nat \<Rightarrow> string \<Rightarrow> (json_error, SemanticEvent option) result" where
  "parse_trace_line n line =
     (let trimmed = str_trim line in
      if trimmed = [] then Ok None
      else try_bind (parse_json_object_top trimmed) (\<lambda>flds.
        let typ = opt_unwrap_or (string_field flds ''type'') [] in
        if typ = [] \<or> typ = ''meta'' then Ok None
        else case u128_field flds ''vcd_time'' of
            None \<Rightarrow> Ok None
          | Some vcd_time \<Rightarrow>
              let cycle = opt_unwrap_or (u64_field flds ''cycle'') 0;
                  component = opt_unwrap_or (string_field flds ''component'') [];
                  bus = opt_unwrap_or (string_field flds ''bus'') [];
                  meth = opt_unwrap_or (string_field flds ''method'') [];
                  phase = opt_unwrap_or (string_field flds ''phase'') [];
                  direction = opt_unwrap_or (string_field flds ''direction'') [];
                  tag = u64_field flds ''tag''
              in Ok (Some \<lparr>ev_typ = typ,
                   ev_seq = opt_unwrap_or (u64_field flds ''seq'') n,
                   ev_cycle = cycle,
                   ev_vcd_time = vcd_time,
                   ev_clock = opt_unwrap_or (string_field flds ''clock'') [],
                   ev_clock_cycle = opt_unwrap_or (u64_field flds ''clock_cycle'') cycle,
                   ev_component = component, ev_bus = bus, ev_method = meth, ev_phase = phase,
                   ev_direction = direction, ev_tag = tag,
                   ev_label = event_label typ component bus meth phase direction tag
                     (string_field flds ''severity'') (string_field flds ''message'')\<rparr>)))"

text \<open>The error carries the number of the line, counted from one.\<close>

fun parse_trace_lines :: "nat \<Rightarrow> string list \<Rightarrow> SemanticEvent list \<Rightarrow> (nat \<times> json_error, SemanticEvent list) result" where
  "parse_trace_lines idx [] out = Ok out"
| "parse_trace_lines idx (line # ls) out =
     (case parse_trace_line (length out) line of
        Inl e \<Rightarrow> Err (idx + 1, e)
      | Inr None \<Rightarrow> parse_trace_lines (idx + 1) ls out
      | Inr (Some e) \<Rightarrow> parse_trace_lines (idx + 1) ls (out @ [e]))"

definition event_key :: "SemanticEvent \<Rightarrow> nat \<times> nat" where
  "event_key e = (ev_vcd_time e, ev_seq e)"

definition parse_trace_events :: "string \<Rightarrow> (nat \<times> json_error, SemanticEvent list) result" where
  "parse_trace_events trace_text = try_bind (parse_trace_lines 0 (lines trace_text) []) (\<lambda>out. Ok (sort_key event_key out))"

section \<open>Identifiers of the waveform\<close>

text \<open>The identifier codes declared by the \<^verbatim>\<open>$var\<close> lines; the hash set is the list of its members.\<close>

definition collect_vcd_ids :: "string list \<Rightarrow> string list" where
  "collect_vcd_ids ls = List.map_filter (\<lambda>line.
     let parts = split_whitespace line in
     if length parts \<ge> 5 \<and> parts ! 0 = ''$var'' then Some (parts ! 3) else None) ls"

record VcdIdGen =
  used :: "string list"
  next_id :: nat

definition harc_id :: "nat \<Rightarrow> string" where
  "harc_id n = ''HARC'' @ show_nat n"

function vcd_id_next :: "VcdIdGen \<Rightarrow> string \<times> VcdIdGen" where
  "vcd_id_next g =
     (let ident = harc_id (next_id g); g = g\<lparr>next_id := next_id g + 1\<rparr> in
      if ident \<in> set (used g) then vcd_id_next g else (ident, g\<lparr>used := ident # used g\<rparr>))"
  by pat_completeness auto

lemma harc_id_inject [simp]: "harc_id m = harc_id n \<longleftrightarrow> m = n"
  by (simp add: harc_id_def)

definition used_ahead :: "VcdIdGen \<Rightarrow> nat set" where
  "used_ahead g = {n. next_id g \<le> n \<and> harc_id n \<in> set (used g)}"

lemma finite_used_ahead: "finite (used_ahead g)"
  unfolding used_ahead_def by (rule finite_subset [OF _ finite_vimageI [of "set (used g)" harc_id]]) (auto simp: inj_def)

termination vcd_id_next
proof (relation "measure (\<lambda>g. card (used_ahead g))")
  fix g :: VcdIdGen and ident g'
  assume "ident = harc_id (next_id g)" "g' = g\<lparr>next_id := next_id g + 1\<rparr>" "ident \<in> set (used g')"
  then have "next_id g \<in> used_ahead g - used_ahead g'" "used_ahead g' \<subseteq> used_ahead g" by (auto simp: used_ahead_def)
  then have "used_ahead g' \<subset> used_ahead g" by blast
  then show "(g', g) \<in> measure (\<lambda>g. card (used_ahead g))" by (simp add: psubset_card_mono finite_used_ahead)
qed simp

declare vcd_id_next.simps [simp del]

text \<open>The fields are initialised in the order they are written.\<close>

definition next_signal_ids :: "VcdIdGen \<Rightarrow> SignalIds \<times> VcdIdGen" where
  "next_signal_ids g =
     (let (a_valid, g) = vcd_id_next g; (a_event_type, g) = vcd_id_next g; (a_seq, g) = vcd_id_next g;
          (a_cycle, g) = vcd_id_next g; (a_clock_id, g) = vcd_id_next g; (a_clock_cycle, g) = vcd_id_next g;
          (a_component_id, g) = vcd_id_next g; (a_bus_id, g) = vcd_id_next g; (a_method_id, g) = vcd_id_next g;
          (a_phase_id, g) = vcd_id_next g; (a_direction_id, g) = vcd_id_next g; (a_tag_valid, g) = vcd_id_next g;
          (a_tag, g) = vcd_id_next g; (a_label_id, g) = vcd_id_next g
      in (\<lparr>si_valid = a_valid, si_event_type = a_event_type, si_seq = a_seq, si_cycle = a_cycle,
           si_clock_id = a_clock_id, si_clock_cycle = a_clock_cycle, si_component_id = a_component_id,
           si_bus_id = a_bus_id, si_method_id = a_method_id, si_phase_id = a_phase_id,
           si_direction_id = a_direction_id, si_tag_valid = a_tag_valid, si_tag = a_tag, si_label_id = a_label_id\<rparr>, g))"

fun signal_ids_for :: "nat \<Rightarrow> VcdIdGen \<Rightarrow> SignalIds list" where
  "signal_ids_for 0 g = []"
| "signal_ids_for (Suc n) g = (let (ids, g) = next_signal_ids g in ids # signal_ids_for n g)"

section \<open>Emission\<close>

definition vcd_comment_escape :: "string \<Rightarrow> string" where
  "vcd_comment_escape s =
     concat (map (\<lambda>c. if c = CHR 0x0D then [CHR 0x5C, CHR ''r''] else [c])
       (concat (map (\<lambda>c. if c = LF then [CHR 0x5C, CHR ''n''] else [c]) s)))"

definition emit_int :: "string \<Rightarrow> nat \<Rightarrow> nat \<Rightarrow> string list" where
  "emit_int ident value width =
     [''b'' @ map (\<lambda>bit. if (value div 2 ^ bit) mod 2 \<noteq> 0 then CHR ''1'' else CHR ''0'') (rev [0..<width]) @ '' '' @ ident]"

definition emit_valid_zero :: "SignalIds list \<Rightarrow> string list" where
  "emit_valid_zero signal_ids = concat (map (\<lambda>ids. [''0'' @ si_valid ids, ''0'' @ si_tag_valid ids]) signal_ids)"

definition intern_event :: "StringTables \<Rightarrow> SemanticEvent \<Rightarrow> StringTables" where
  "intern_event maps event =
     maps\<lparr>st_event_type := snd (table_id (ev_typ event) (st_event_type maps)),
          st_clock := snd (table_id (ev_clock event) (st_clock maps)),
          st_component := snd (table_id (ev_component event) (st_component maps)),
          st_bus := snd (table_id (ev_bus event) (st_bus maps)),
          st_method := snd (table_id (ev_method event) (st_method maps)),
          st_phase := snd (table_id (ev_phase event) (st_phase maps)),
          st_direction := snd (table_id (ev_direction event) (st_direction maps)),
          st_label := snd (table_id (ev_label event) (st_label maps))\<rparr>"

text \<open>The changes of one event on its lane; each lookup may extend its table.\<close>

definition emit_event :: "SignalIds \<Rightarrow> SemanticEvent \<Rightarrow> StringTables \<Rightarrow> string list \<times> StringTables" where
  "emit_event ids event maps =
     (let tag_valid = (ev_tag event \<noteq> None);
          (n_type, m_type) = table_id (ev_typ event) (st_event_type maps);
          (n_clock, m_clock) = table_id (ev_clock event) (st_clock maps);
          (n_component, m_component) = table_id (ev_component event) (st_component maps);
          (n_bus, m_bus) = table_id (ev_bus event) (st_bus maps);
          (n_method, m_method) = table_id (ev_method event) (st_method maps);
          (n_phase, m_phase) = table_id (ev_phase event) (st_phase maps);
          (n_direction, m_direction) = table_id (ev_direction event) (st_direction maps);
          (n_label, m_label) = table_id (ev_label event) (st_label maps)
      in (emit_int (si_event_type ids) n_type 32 @ emit_int (si_seq ids) (ev_seq event) 64
          @ emit_int (si_cycle ids) (ev_cycle event) 64 @ emit_int (si_clock_id ids) n_clock 32
          @ emit_int (si_clock_cycle ids) (ev_clock_cycle event) 64 @ emit_int (si_component_id ids) n_component 32
          @ emit_int (si_bus_id ids) n_bus 32 @ emit_int (si_method_id ids) n_method 32
          @ emit_int (si_phase_id ids) n_phase 32 @ emit_int (si_direction_id ids) n_direction 32
          @ emit_int (si_tag ids) (opt_unwrap_or (ev_tag event) 0) 64 @ emit_int (si_label_id ids) n_label 32
          @ [(if tag_valid then ''1'' else ''0'') @ si_tag_valid ids, ''1'' @ si_valid ids],
          \<lparr>st_event_type = m_type, st_clock = m_clock, st_component = m_component, st_bus = m_bus,
           st_method = m_method, st_phase = m_phase, st_direction = m_direction, st_label = m_label\<rparr>))"

text \<open>\<^verbatim>\<open>signal_ids[lane]\<close> panics past the end: the lanes run out.\<close>

fun emit_lanes :: "SignalIds list \<Rightarrow> SemanticEvent list \<Rightarrow> StringTables \<Rightarrow> (string list \<times> StringTables) option" where
  "emit_lanes signal_ids [] maps = Some ([], maps)"
| "emit_lanes [] (event # events) maps = None"
| "emit_lanes (ids # signal_ids) (event # events) maps =
     (let (ls, maps) = emit_event ids event maps in
      map_option (\<lambda>(ls', maps). (ls @ ls', maps)) (emit_lanes signal_ids events maps))"

definition emit_events_at_time ::
  "SignalIds list \<Rightarrow> SemanticEvent list \<Rightarrow> StringTables \<Rightarrow> (string list \<times> StringTables) option" where
  "emit_events_at_time signal_ids events maps =
     map_option (\<lambda>(ls, maps). (emit_valid_zero signal_ids @ ls, maps)) (emit_lanes signal_ids events maps)"

definition emit_map_comments :: "string \<Rightarrow> IdTable \<Rightarrow> string list" where
  "emit_map_comments name table =
     map (\<lambda>(value, ident). ''$comment HARC_TRACE_MAP '' @ name @ '' '' @ show_nat ident @ '' '' @ vcd_comment_escape value @ '' $end'')
       table"

definition var_line :: "string \<Rightarrow> nat \<Rightarrow> string \<Rightarrow> nat \<Rightarrow> string \<Rightarrow> string" where
  "var_line kind width ident lane name =
     ''$var '' @ kind @ '' '' @ show_nat width @ '' '' @ ident @ '' event'' @ show_nat lane @ ''_'' @ name @ '' $end''"

definition lane_vars :: "nat \<Rightarrow> SignalIds \<Rightarrow> string list" where
  "lane_vars lane ids =
     [var_line ''wire'' 1 (si_valid ids) lane ''valid'',
      var_line ''integer'' 32 (si_event_type ids) lane ''type'',
      var_line ''integer'' 64 (si_seq ids) lane ''seq'',
      var_line ''integer'' 64 (si_cycle ids) lane ''cycle'',
      var_line ''integer'' 32 (si_clock_id ids) lane ''clock_id'',
      var_line ''integer'' 64 (si_clock_cycle ids) lane ''clock_cycle'',
      var_line ''integer'' 32 (si_component_id ids) lane ''component_id'',
      var_line ''integer'' 32 (si_bus_id ids) lane ''bus_id'',
      var_line ''integer'' 32 (si_method_id ids) lane ''method_id'',
      var_line ''integer'' 32 (si_phase_id ids) lane ''phase_id'',
      var_line ''integer'' 32 (si_direction_id ids) lane ''direction_id'',
      var_line ''wire'' 1 (si_tag_valid ids) lane ''tag_valid'',
      var_line ''integer'' 64 (si_tag ids) lane ''tag'',
      var_line ''integer'' 32 (si_label_id ids) lane ''label_id'']"

definition emit_semantic_header :: "SignalIds list \<Rightarrow> StringTables \<Rightarrow> string list" where
  "emit_semantic_header signal_ids maps =
     [''$scope module harc_semantic $end'',
      ''$comment HARC semantic trace lanes; string ID mappings follow as HARC_TRACE_MAP comments. $end'']
     @ emit_map_comments ''event_type'' (st_event_type maps)
     @ emit_map_comments ''clock'' (st_clock maps)
     @ emit_map_comments ''component'' (st_component maps)
     @ emit_map_comments ''bus'' (st_bus maps)
     @ emit_map_comments ''method'' (st_method maps)
     @ emit_map_comments ''phase'' (st_phase maps)
     @ emit_map_comments ''direction'' (st_direction maps)
     @ emit_map_comments ''label'' (st_label maps)
     @ concat (map (\<lambda>(lane, ids). lane_vars lane ids) (enumerate 0 signal_ids))
     @ [''$upscope $end'']"

section \<open>Merging\<close>

definition parse_vcd_time_line :: "string \<Rightarrow> nat option" where
  "parse_vcd_time_line line = (case line of c # rest \<Rightarrow> if c = CHR ''#'' then parse_uint 128 rest else None | [] \<Rightarrow> None)"

definition line_time :: "string \<Rightarrow> nat option" where
  "line_time line = parse_vcd_time_line (str_trim line)"

definition time_line :: "nat \<Rightarrow> string" where
  "time_line t = ''#'' @ show_nat t"

definition is_enddefinitions :: "string \<Rightarrow> bool" where
  "is_enddefinitions line \<longleftrightarrow> str_trim line = ''$enddefinitions $end''"

definition group_by_time :: "SemanticEvent list \<Rightarrow> (nat \<times> SemanticEvent list) list" where
  "group_by_time events =
     fold (\<lambda>e m. bt_insert (ev_vcd_time e) (opt_unwrap_or (map_of m (ev_vcd_time e)) [] @ [e]) m) events []"

definition lane_count :: "(nat \<times> SemanticEvent list) list \<Rightarrow> nat" where
  "lane_count by_time = fold max (map (\<lambda>(t, es). length es) by_time) 1"

datatype merge_error = NoEnddefinitions | TimeBackwards nat | LanePanic

text \<open>
  The state of the walk over the body: what is written, whether a lane may be valid, the event times not yet
  written with their events, and the tables.
\<close>

record merge_state =
  ms_out :: "string list"
  ms_active :: bool
  ms_pending :: "(nat \<times> SemanticEvent list) list"
  ms_maps :: StringTables

definition push_events :: "SignalIds list \<Rightarrow> string list \<Rightarrow> merge_state \<Rightarrow> merge_state option" where
  "push_events signal_ids stamp st =
     (case ms_pending st of
        [] \<Rightarrow> None
      | (t, es) # rest \<Rightarrow>
          map_option (\<lambda>(ls, maps). \<lparr>ms_out = ms_out st @ stamp @ ls, ms_active = True, ms_pending = rest, ms_maps = maps\<rparr>)
            (emit_events_at_time signal_ids es (ms_maps st)))"

function drain_before :: "SignalIds list \<Rightarrow> nat \<Rightarrow> merge_state \<Rightarrow> merge_state option" where
  "drain_before signal_ids time st =
     (case ms_pending st of
        [] \<Rightarrow> Some st
      | (t, es) # rest \<Rightarrow>
          if t < time
          then (case push_events signal_ids [time_line t] st of None \<Rightarrow> None | Some st \<Rightarrow> drain_before signal_ids time st)
          else Some st)"
  by pat_completeness auto

termination drain_before
  by (relation "measure (\<lambda>(_, _, st). length (ms_pending st))") (auto simp: push_events_def)

declare drain_before.simps [simp del]

definition merge_line :: "SignalIds list \<Rightarrow> string \<Rightarrow> merge_state \<Rightarrow> merge_state option" where
  "merge_line signal_ids line st =
     (case line_time line of
        None \<Rightarrow> Some (st\<lparr>ms_out := ms_out st @ [line]\<rparr>)
      | Some time \<Rightarrow>
          (case drain_before signal_ids time st of
             None \<Rightarrow> None
           | Some st \<Rightarrow>
               if ms_pending st \<noteq> [] \<and> fst (hd (ms_pending st)) = time then push_events signal_ids [line] st
               else if ms_active st
               then Some (st\<lparr>ms_out := ms_out st @ [line] @ emit_valid_zero signal_ids, ms_active := False\<rparr>)
               else Some (st\<lparr>ms_out := ms_out st @ [line]\<rparr>)))"

fun merge_body :: "SignalIds list \<Rightarrow> string list \<Rightarrow> merge_state \<Rightarrow> merge_state option" where
  "merge_body signal_ids [] st = Some st"
| "merge_body signal_ids (line # ls) st =
     (case merge_line signal_ids line st of None \<Rightarrow> None | Some st \<Rightarrow> merge_body signal_ids ls st)"

text \<open>The event times after the last time of the file; the result carries the last time written.\<close>

function merge_tail :: "SignalIds list \<Rightarrow> nat \<Rightarrow> merge_state \<Rightarrow> (merge_error, nat \<times> merge_state) result" where
  "merge_tail signal_ids last_time st =
     (case ms_pending st of
        [] \<Rightarrow> Ok (last_time, st)
      | (event_time, es) # rest \<Rightarrow>
          if event_time < last_time then Err (TimeBackwards event_time)
          else (case push_events signal_ids [time_line event_time] st of
              None \<Rightarrow> Err LanePanic
            | Some st \<Rightarrow> merge_tail signal_ids event_time st))"
  by pat_completeness auto

termination merge_tail
  by (relation "measure (\<lambda>(_, _, st). length (ms_pending st))") (auto simp: push_events_def)

declare merge_tail.simps [simp del]

definition times_of :: "string list \<Rightarrow> nat list" where
  "times_of ls = List.map_filter line_time ls"

definition saturating_succ :: "nat \<Rightarrow> nat" where
  "saturating_succ t = min (2 ^ 128 - 1) (t + 1)"

text \<open>The lines of the merged file for a header, the end of the definitions and a body.\<close>

definition merge_parts ::
  "string list \<Rightarrow> string \<Rightarrow> string list \<Rightarrow> SemanticEvent list \<Rightarrow> (merge_error, string list \<times> StringTables) result" where
  "merge_parts hdr enddefs body events =
     (let by_time = group_by_time events;
          signal_ids = signal_ids_for (lane_count by_time) \<lparr>used = collect_vcd_ids (hdr @ [enddefs]), next_id = 0\<rparr>;
          maps = fold (\<lambda>e m. intern_event m e) events default_tables;
          out = hdr @ emit_semantic_header signal_ids maps @ [enddefs]
      in case merge_body signal_ids body \<lparr>ms_out = out, ms_active = False, ms_pending = by_time, ms_maps = maps\<rparr> of
          None \<Rightarrow> Err LanePanic
        | Some st \<Rightarrow>
            try_bind (merge_tail signal_ids (fold max (times_of (hdr @ enddefs # body)) 0) st) (\<lambda>(last_time, st).
              Ok (ms_out st @ (if ms_active st then [time_line (saturating_succ last_time)] @ emit_valid_zero signal_ids else []),
                  ms_maps st)))"

definition merge_trace_into_vcd :: "string \<Rightarrow> SemanticEvent list \<Rightarrow> (merge_error, string \<times> StringTables) result" where
  "merge_trace_into_vcd vcd_text events =
     (let ls = lines vcd_text; hdr = takeWhile (\<lambda>l. \<not> is_enddefinitions l) ls in
      case dropWhile (\<lambda>l. \<not> is_enddefinitions l) ls of
        [] \<Rightarrow> Err NoEnddefinitions
      | enddefs # body \<Rightarrow>
          try_bind (merge_parts hdr enddefs body events) (\<lambda>(out, maps). Ok (unlines out, maps)))"

section \<open>The table file\<close>

definition json_entries :: "IdTable \<Rightarrow> string" where
  "json_entries table = join '','' (map (\<lambda>(value, ident).
     [LF] @ ''    '' @ [CHR 0x22] @ show_nat ident @ [CHR 0x22] @ '': '' @ [CHR 0x22] @ json_escape value @ [CHR 0x22]) table)"

definition render_json_table :: "string \<Rightarrow> IdTable \<Rightarrow> bool \<Rightarrow> string" where
  "render_json_table name table first =
     (if first then [] else '','' @ [LF])
     @ ''  '' @ [CHR 0x22] @ json_escape name @ [CHR 0x22] @ '': {''
     @ json_entries table @ (if table \<noteq> [] then [LF] @ ''  '' else []) @ ''}''"

definition render_map_json :: "StringTables \<Rightarrow> string" where
  "render_map_json maps =
     ''{'' @ [LF]
     @ render_json_table ''event_type'' (st_event_type maps) True
     @ render_json_table ''clock'' (st_clock maps) False
     @ render_json_table ''component'' (st_component maps) False
     @ render_json_table ''bus'' (st_bus maps) False
     @ render_json_table ''method'' (st_method maps) False
     @ render_json_table ''phase'' (st_phase maps) False
     @ render_json_table ''direction'' (st_direction maps) False
     @ render_json_table ''label'' (st_label maps) False
     @ [LF] @ ''}'' @ [LF]"

text \<open>The text part of the command: the two outputs for the two inputs.\<close>

datatype trace_error = TraceLine nat json_error | Merge merge_error

definition cmd_trace_merge :: "string \<Rightarrow> string \<Rightarrow> (trace_error, string \<times> string) result" where
  "cmd_trace_merge vcd_text trace_text =
     (case parse_trace_events trace_text of
        Inl (n, e) \<Rightarrow> Err (TraceLine n e)
      | Inr events \<Rightarrow>
          (case merge_trace_into_vcd vcd_text events of
             Inl e \<Rightarrow> Err (Merge e)
           | Inr (merged, maps) \<Rightarrow> Ok (merged, render_map_json maps)))"

end
