(* ===== verification/Trace_Walk.thy ===== *)
theory Trace_Walk
  imports Trace_Merge
begin

text \<open>
  Facts about the trace merger: fresh identifiers, interned strings, the lines an emission writes, and the walk over the
  body of the waveform that puts the events between its time lines.
\<close>

section \<open>Fresh identifiers\<close>

text \<open>A supply of names: each draw returns a name not used before and marks it used.\<close>

locale fresh_supply =
  fixes draw :: "'g \<Rightarrow> 'n \<times> 'g" and taken :: "'g \<Rightarrow> 'n set"
  assumes draw_fresh: "draw g = (x, g') \<Longrightarrow> x \<notin> taken g"
    and draw_taken: "draw g = (x, g') \<Longrightarrow> taken g' = insert x (taken g)"
begin

fun draws :: "nat \<Rightarrow> 'g \<Rightarrow> 'n list \<times> 'g" where
  "draws 0 g = ([], g)"
| "draws (Suc n) g = (let (x, g) = draw g; (xs, g) = draws n g in (x # xs, g))"

lemma draws_fresh: "draws n g = (xs, g') \<Longrightarrow> distinct xs \<and> set xs \<inter> taken g = {} \<and> taken g' = set xs \<union> taken g"
proof (induction n arbitrary: g xs)
  case (Suc n)
  then obtain x h ys where d: "draw g = (x, h)" "draws n h = (ys, g')" "xs = x # ys"
    by (auto split: prod.splits)
  show ?case using Suc.IH [OF d(2)] draw_fresh [OF d(1)] draw_taken [OF d(1)] d(3) by auto
qed simp

lemma draws_append:
  "draws (m + n) g = (let (xs, g) = draws m g; (ys, g) = draws n g in (xs @ ys, g))"
  by (induction m arbitrary: g) (auto split: prod.splits)

end

lemma vcd_id_next_harc: "vcd_id_next g = (i, g') \<Longrightarrow>
  (\<exists>n. i = harc_id n) \<and> i \<notin> set (used g) \<and> set (used g') = insert i (set (used g))"
proof (induction g rule: vcd_id_next.induct)
  case (1 g)
  from "1.prems" show ?case
    using "1.IH" [OF refl refl] by (subst (asm) vcd_id_next.simps) (auto simp: Let_def split: if_splits)
qed

interpretation vcd: fresh_supply vcd_id_next "\<lambda>g. set (used g)"
  by unfold_locales (auto dest: vcd_id_next_harc)

definition signal_id_list :: "SignalIds \<Rightarrow> string list" where
  "signal_id_list ids =
     [si_valid ids, si_event_type ids, si_seq ids, si_cycle ids, si_clock_id ids, si_clock_cycle ids, si_component_id ids,
      si_bus_id ids, si_method_id ids, si_phase_id ids, si_direction_id ids, si_tag_valid ids, si_tag ids, si_label_id ids]"

lemma next_signal_ids_draws:
  "next_signal_ids g = (ids, g') \<Longrightarrow> vcd.draws 14 g = (signal_id_list ids, g')"
  by (auto simp: next_signal_ids_def signal_id_list_def eval_nat_numeral Let_def split: prod.splits)

lemma signal_ids_for_draws:
  "\<exists>g'. vcd.draws (14 * n) g = (concat (map signal_id_list (signal_ids_for n g)), g')"
proof (induction n arbitrary: g)
  case (Suc n)
  obtain ids h where h: "next_signal_ids g = (ids, h)" by fastforce
  obtain g' where "vcd.draws (14 * n) h = (concat (map signal_id_list (signal_ids_for n h)), g')" using Suc.IH by blast
  with h next_signal_ids_draws [OF h] show ?case using vcd.draws_append [of 14 "14 * n" g] by simp
qed simp

lemma signal_ids_fresh:
  "distinct (concat (map signal_id_list (signal_ids_for n g))) \<and>
   set (concat (map signal_id_list (signal_ids_for n g))) \<inter> set (used g) = {}"
  using signal_ids_for_draws [of n g] vcd.draws_fresh by blast

lemma draws_harc: "vcd.draws n g = (xs, g') \<Longrightarrow> x \<in> set xs \<Longrightarrow> \<exists>k. x = harc_id k"
proof (induction n arbitrary: g xs)
  case (Suc n)
  then obtain y h ys where d: "vcd_id_next g = (y, h)" "vcd.draws n h = (ys, g')" "xs = y # ys"
    by (auto split: prod.splits)
  show ?case using Suc.IH [OF d(2)] Suc.prems(2) vcd_id_next_harc [OF d(1)] d(3) by auto
qed simp

lemma signal_ids_harc:
  "ids \<in> set (signal_ids_for n g) \<Longrightarrow> i \<in> set (signal_id_list ids) \<Longrightarrow> \<exists>k. i = harc_id k"
  using signal_ids_for_draws [of n g] draws_harc by fastforce

lemma length_signal_ids [simp]: "length (signal_ids_for n g) = n"
  by (induction n arbitrary: g) (auto split: prod.splits)

section \<open>Interned strings\<close>

text \<open>A table numbers its strings \<open>1, 2, \<dots>\<close> without the empty string.\<close>

definition table_ok :: "IdTable \<Rightarrow> bool" where
  "table_ok t \<longleftrightarrow> bt_ordered t \<and> [] \<notin> fst ` set t \<and> distinct (map snd t) \<and> set (map snd t) = {1..length t}"

definition knows :: "IdTable \<Rightarrow> string \<Rightarrow> bool" where
  "knows t v \<longleftrightarrow> v = [] \<or> v \<in> fst ` set t"

definition number_of :: "IdTable \<Rightarrow> string \<Rightarrow> nat" where
  "number_of t v = (if v = [] then 0 else opt_unwrap_or (map_of t v) 0)"

lemma length_bt_insert: "map_of m k = None \<Longrightarrow> length (bt_insert k v m) = length m + 1"
  by (induction k v m rule: bt_insert.induct) (auto split: if_splits)

lemma set_bt_insert_new: "map_of m k = None \<Longrightarrow> set (bt_insert k v m) = insert (k, v) (set m)"
  by (induction k v m rule: bt_insert.induct) (auto split: if_splits)

lemma table_ok_Nil [simp]: "table_ok []"
  by (simp add: table_ok_def bt_ordered_def)

lemma table_id_known [simp]: "knows t v \<Longrightarrow> table_id v t = (number_of t v, t)"
  by (auto simp: table_id_def knows_def number_of_def opt_unwrap_or_def split: option.splits dest: weak_map_of_SomeI)

lemma knows_table_id: "knows (snd (table_id v t)) v"
  using set_bt_insert [of v _ t]
  by (auto simp: table_id_def knows_def Let_def split: option.splits dest: map_of_SomeD intro: rev_image_eqI)

lemma knows_mono: "knows t w \<Longrightarrow> knows (snd (table_id v t)) w"
  using set_bt_insert [of v _ t] by (auto simp: table_id_def knows_def Let_def split: option.splits)

lemma table_id_length: "length (snd (table_id v t)) \<le> length t + 1"
  by (auto simp: table_id_def Let_def length_bt_insert split: option.splits)

lemma table_ok_table_id: "table_ok t \<Longrightarrow> length t + 1 < 2 ^ 32 \<Longrightarrow> table_ok (snd (table_id v t))"
proof (cases "v \<noteq> [] \<and> map_of t v = None")
  case True
  assume t: "table_ok t" "length t + 1 < 2 ^ 32"
  let ?n = "length t + 1"
  have id: "table_id v t = (?n, bt_insert v ?n t)" using True t(2) by (simp add: table_id_def Let_def)
  have "set (map snd (bt_insert v ?n t)) = insert ?n {1..length t}"
    using t(1) set_bt_insert_new [of t v ?n] True by (simp add: table_ok_def)
  moreover have "distinct (map snd (bt_insert v ?n t))"
    using t(1) True length_bt_insert [of t v ?n] calculation
    by (intro card_distinct) (simp add: table_ok_def)
  ultimately show ?thesis
    using t(1) True set_bt_insert [of v ?n t] bt_ordered_insert [of t v ?n] length_bt_insert [of t v ?n]
    by (auto simp: id table_ok_def atLeastAtMostSuc_conv)
next
  case False
  then show "table_ok t \<Longrightarrow> ?thesis" by (auto simp: table_id_def split: option.splits)
qed

text \<open>Within a table the numbers tell the strings apart.\<close>

lemma number_of_inj: "table_ok t \<Longrightarrow> knows t v \<Longrightarrow> knows t w \<Longrightarrow> number_of t v = number_of t w \<Longrightarrow> v = w"
proof -
  assume t: "table_ok t" and k: "knows t v" "knows t w" "number_of t v = number_of t w"
  have pos: "number_of t u \<noteq> 0 \<and> (u, number_of t u) \<in> set t" if u: "knows t u" "u \<noteq> []" for u
  proof -
    obtain n where n: "map_of t u = Some n" using u by (cases "map_of t u") (simp_all add: knows_def map_of_eq_None_iff)
    then have "(u, n) \<in> set t" by (rule map_of_SomeD)
    then show ?thesis using t n u(2) by (force simp: number_of_def opt_unwrap_or_def table_ok_def)
  qed
  show "v = w"
  proof (cases "v = [] \<or> w = []")
    case True
    then show ?thesis using pos [of v] pos [of w] k by (auto simp: number_of_def split: if_splits)
  next
    case False
    then have "(v, number_of t v) \<in> set t" "(w, number_of t v) \<in> set t" using pos [of v] pos [of w] k by auto
    then show ?thesis using t by (metis distinct_map fst_conv inj_on_def snd_conv table_ok_def)
  qed
qed

section \<open>What an emission writes\<close>

definition event_strings :: "SemanticEvent \<Rightarrow> string list" where
  "event_strings e = [ev_typ e, ev_clock e, ev_component e, ev_bus e, ev_method e, ev_phase e, ev_direction e, ev_label e]"

definition all_tables :: "StringTables \<Rightarrow> IdTable list" where
  "all_tables m = [st_event_type m, st_clock m, st_component m, st_bus m, st_method m, st_phase m, st_direction m, st_label m]"

definition knows_event :: "StringTables \<Rightarrow> SemanticEvent \<Rightarrow> bool" where
  "knows_event m e \<longleftrightarrow> list_all2 knows (all_tables m) (event_strings e)"

lemmas table_defs = event_strings_def all_tables_def knows_event_def

lemma all_tables_intern: "all_tables (intern_event m e) = map2 (\<lambda>t v. snd (table_id v t)) (all_tables m) (event_strings e)"
  by (simp add: all_tables_def intern_event_def event_strings_def)

lemma knows_event_intern: "knows_event (intern_event m e) e"
  by (simp add: table_defs intern_event_def knows_table_id)

lemma knows_event_mono: "knows_event m e \<Longrightarrow> knows_event (intern_event m e') e"
  by (simp add: table_defs intern_event_def knows_mono)

definition intern_all :: "SemanticEvent list \<Rightarrow> StringTables \<Rightarrow> StringTables" where
  "intern_all es m = fold (\<lambda>e m. intern_event m e) es m"

lemma intern_all_simps [simp]: "intern_all [] m = m" "intern_all (e # es) m = intern_all es (intern_event m e)"
  by (simp_all add: intern_all_def)

lemma knows_event_intern_all: "knows_event m e \<or> e \<in> set es \<Longrightarrow> knows_event (intern_all es m) e"
  by (induction es arbitrary: m) (auto simp: knows_event_intern knows_event_mono)

lemma intern_all_ok:
  "(\<forall>t \<in> set (all_tables m). table_ok t \<and> length t + length es < 2 ^ 32) \<Longrightarrow>
   (\<forall>t \<in> set (all_tables (intern_all es m)). table_ok t \<and> length t < 2 ^ 32)"
proof (induction es arbitrary: m)
  case (Cons e es)
  have "\<forall>t \<in> set (all_tables (intern_event m e)). table_ok t \<and> length t + length es < 2 ^ 32"
  proof
    fix t assume "t \<in> set (all_tables (intern_event m e))"
    then obtain u v where u: "u \<in> set (all_tables m)" "t = snd (table_id v u)"
      unfolding all_tables_intern by (auto dest: set_zip_leftD)
    then show "table_ok t \<and> length t + length es < 2 ^ 32"
      using Cons.prems table_ok_table_id [of u v] table_id_length [of v u] by force
  qed
  then show ?case using Cons.IH by simp
qed simp

lemma emit_event_maps: "knows_event m e \<Longrightarrow> snd (emit_event ids e m) = m"
  by (simp add: emit_event_def table_defs)

definition event_lines :: "StringTables \<Rightarrow> SignalIds \<Rightarrow> SemanticEvent \<Rightarrow> string list" where
  "event_lines m ids e = fst (emit_event ids e m)"

definition block_lines :: "StringTables \<Rightarrow> SignalIds list \<Rightarrow> SemanticEvent list \<Rightarrow> string list" where
  "block_lines m signal_ids es = emit_valid_zero signal_ids @ concat (map2 (event_lines m) signal_ids es)"

text \<open>An event's lines are thirteen integers and bits on its lane's identifiers.\<close>

lemma event_lines_eq:
  "event_lines m ids e =
     emit_int (si_event_type ids) (fst (table_id (ev_typ e) (st_event_type m))) 32 @ emit_int (si_seq ids) (ev_seq e) 64
     @ emit_int (si_cycle ids) (ev_cycle e) 64 @ emit_int (si_clock_id ids) (fst (table_id (ev_clock e) (st_clock m))) 32
     @ emit_int (si_clock_cycle ids) (ev_clock_cycle e) 64
     @ emit_int (si_component_id ids) (fst (table_id (ev_component e) (st_component m))) 32
     @ emit_int (si_bus_id ids) (fst (table_id (ev_bus e) (st_bus m))) 32
     @ emit_int (si_method_id ids) (fst (table_id (ev_method e) (st_method m))) 32
     @ emit_int (si_phase_id ids) (fst (table_id (ev_phase e) (st_phase m))) 32
     @ emit_int (si_direction_id ids) (fst (table_id (ev_direction e) (st_direction m))) 32
     @ emit_int (si_tag ids) (opt_unwrap_or (ev_tag e) 0) 64
     @ emit_int (si_label_id ids) (fst (table_id (ev_label e) (st_label m))) 32
     @ [(if ev_tag e \<noteq> None then ''1'' else ''0'') @ si_tag_valid ids, ''1'' @ si_valid ids]"
  unfolding event_lines_def emit_event_def Let_def case_prod_beta fst_conv by (rule refl)

lemma emit_lanes_known:
  "length es \<le> length signal_ids \<Longrightarrow> (\<forall>e \<in> set es. knows_event m e) \<Longrightarrow>
   emit_lanes signal_ids es m = Some (concat (map2 (event_lines m) signal_ids es), m)"
proof (induction signal_ids es m rule: emit_lanes.induct)
  case (3 ids signal_ids event events maps)
  then show ?case using emit_event_maps [of maps event ids] by (auto simp: event_lines_def split: prod.splits)
qed auto

lemma emit_events_known:
  "length es \<le> length signal_ids \<Longrightarrow> (\<forall>e \<in> set es. knows_event m e) \<Longrightarrow>
   emit_events_at_time signal_ids es m = Some (block_lines m signal_ids es, m)"
  by (simp add: emit_events_at_time_def emit_lanes_known block_lines_def)

text \<open>None of the lines it writes is a timestamp or holds a line feed.\<close>

lemma line_time_plain:
  "c \<in> {CHR ''$'', CHR ''b'', CHR ''0'', CHR ''1''} \<Longrightarrow> line_time (c # s) = None"
proof -
  assume c: "c \<in> {CHR ''$'', CHR ''b'', CHR ''0'', CHR ''1''}"
  then have "str_trim (c # s) = trim_end (c # s)" by (auto simp: str_trim_def trim_start_plain)
  moreover obtain n where "trim_end (c # s) = take n (c # s)" using trim_end_prefix by blast
  ultimately show ?thesis using c by (cases n) (auto simp: line_time_def parse_vcd_time_line_def)
qed

lemma line_time_strip_cr [simp]: "line_time (strip_cr l) = line_time l"
  by (simp add: line_time_def)

lemma line_time_time_line: "t < 2 ^ 128 \<Longrightarrow> line_time (time_line t) = Some t"
proof -
  assume t: "t < 2 ^ 128"
  obtain ds d where ds: "show_nat t = ds @ [d]" by (metis append_butlast_last_id show_nat_not_Nil)
  then have d: "is_ascii_digit d" using show_nat_digits [of d t] by simp
  have "str_trim (time_line t) = time_line t"
    using trim_end_plain [of d "CHR ''#'' # ds"] d
    by (simp add: time_line_def str_trim_def trim_start_plain ds is_ascii_digit_def)
  then show ?thesis using t by (simp add: line_time_def parse_vcd_time_line_def time_line_def)
qed

lemma times_of_append [simp]: "times_of (a @ b) = times_of a @ times_of b"
  by (simp add: times_of_def List.map_filter_def)

lemma times_of_Nil [simp]: "times_of [] = []"
  by (simp add: times_of_def List.map_filter_simps)

lemma times_of_Cons [simp]: "times_of (l # ls) = (case line_time l of None \<Rightarrow> times_of ls | Some t \<Rightarrow> t # times_of ls)"
  by (simp add: times_of_def List.map_filter_simps split: option.split)

lemma times_of_concat: "times_of (concat lss) = concat (map times_of lss)"
  by (induction lss) simp_all

lemma times_of_none: "(\<forall>l \<in> set ls. line_time l = None) \<Longrightarrow> times_of ls = []"
  by (induction ls) auto

lemma times_of_strip_cr: "times_of (map strip_cr ls) = times_of ls"
  by (induction ls) (auto split: option.splits)

lemma valid_zero_times [simp]: "times_of (emit_valid_zero signal_ids) = []"
  by (rule times_of_none) (auto simp: emit_valid_zero_def line_time_plain)

lemma emit_int_times: "times_of (emit_int i v w) = []"
  by (simp add: emit_int_def line_time_plain)

lemma event_lines_times: "times_of (event_lines m ids e) = []"
  by (simp add: event_lines_eq emit_int_times line_time_plain)

lemma block_lines_times [simp]: "times_of (block_lines m signal_ids es) = []"
  by (auto simp: block_lines_def event_lines_times times_of_concat)

lemma header_times [simp]: "times_of (emit_semantic_header signal_ids m) = []"
  by (rule times_of_none)
    (auto simp: emit_semantic_header_def emit_map_comments_def lane_vars_def var_line_def line_time_plain)


definition clean :: "string list \<Rightarrow> bool" where
  "clean ls \<longleftrightarrow> (\<forall>l \<in> set ls. LF \<notin> set l)"

lemma clean_simps [simp]:
  "clean []" "clean (l # ls) \<longleftrightarrow> LF \<notin> set l \<and> clean ls" "clean (a @ b) \<longleftrightarrow> clean a \<and> clean b"
  "clean (concat lss) \<longleftrightarrow> list_all clean lss"
  by (auto simp: clean_def list_all_iff)

lemma LF_eq_Char [simp]:
  "LF = Char b0 b1 b2 b3 b4 b5 b6 b7 \<longleftrightarrow> \<not> b0 \<and> b1 \<and> \<not> b2 \<and> b3 \<and> \<not> b4 \<and> \<not> b5 \<and> \<not> b6 \<and> \<not> b7"
  by (auto simp: LF_def)

lemma LF_show_nat [simp]: "LF \<notin> set (show_nat n)"
  using show_nat_digits [of LF n] by (auto simp: LF_def is_ascii_digit_def)

lemma LF_harc_id [simp]: "LF \<notin> set (harc_id n)"
  by (simp add: harc_id_def)

definition clean_ids :: "SignalIds list \<Rightarrow> bool" where
  "clean_ids signal_ids \<longleftrightarrow> list_all (\<lambda>ids. clean (signal_id_list ids)) signal_ids"

lemma clean_signal_ids: "clean_ids (signal_ids_for n g)"
  using signal_ids_harc [of _ n g] unfolding clean_ids_def list_all_iff clean_def by fastforce

lemma clean_valid_zero: "clean_ids signal_ids \<Longrightarrow> clean (emit_valid_zero signal_ids)"
  by (auto simp: clean_ids_def emit_valid_zero_def list_all_iff signal_id_list_def)

lemma clean_emit_int: "LF \<notin> set i \<Longrightarrow> clean (emit_int i v w)"
  by (auto simp: emit_int_def)

lemma clean_event_lines: "clean (signal_id_list ids) \<Longrightarrow> clean (event_lines m ids e)"
  by (simp add: event_lines_eq clean_emit_int signal_id_list_def)

lemma clean_block_lines: "clean_ids signal_ids \<Longrightarrow> clean (block_lines m signal_ids es)"
  using clean_event_lines
  by (auto simp: block_lines_def clean_valid_zero list_all_iff clean_ids_def dest!: set_zip_leftD)

lemma LF_vcd_comment_escape: "LF \<notin> set (vcd_comment_escape s)"
  by (auto simp: vcd_comment_escape_def)

lemma clean_map_comments: "LF \<notin> set name \<Longrightarrow> clean (emit_map_comments name t)"
  by (auto simp: emit_map_comments_def clean_def LF_vcd_comment_escape)

lemma clean_lane_vars: "clean (signal_id_list ids) \<Longrightarrow> clean (lane_vars k ids)"
  by (simp add: lane_vars_def var_line_def signal_id_list_def)

lemma clean_header: "clean_ids signal_ids \<Longrightarrow> clean (emit_semantic_header signal_ids m)"
proof -
  assume "clean_ids signal_ids"
  then have "list_all clean (map (\<lambda>(lane, ids). lane_vars lane ids) (enumerate 0 signal_ids))"
    by (auto simp: list_all_iff clean_ids_def clean_lane_vars dest!: in_set_enumerate_eq [THEN iffD1])
  then show ?thesis by (simp add: emit_semantic_header_def clean_map_comments)
qed

lemma clean_time_line: "LF \<notin> set (time_line t)"
  by (simp add: time_line_def)

section \<open>The walk over the body\<close>

definition pending_ok :: "StringTables \<Rightarrow> SignalIds list \<Rightarrow> (nat \<times> SemanticEvent list) list \<Rightarrow> bool" where
  "pending_ok m signal_ids pending \<longleftrightarrow> sorted_wrt (<) (map fst pending) \<and>
     (\<forall>(t, es) \<in> set pending. length es \<le> length signal_ids \<and> list_all (knows_event m) es \<and> t < 2 ^ 128)"

definition stamped :: "StringTables \<Rightarrow> SignalIds list \<Rightarrow> nat \<times> SemanticEvent list \<Rightarrow> string list" where
  "stamped m signal_ids p = time_line (fst p) # block_lines m signal_ids (snd p)"

lemma pending_ok_simps [simp]:
  "pending_ok m signal_ids []"
  "pending_ok m signal_ids ((t, es) # rest) \<longleftrightarrow> pending_ok m signal_ids rest \<and> (\<forall>p \<in> set rest. t < fst p) \<and>
     length es \<le> length signal_ids \<and> list_all (knows_event m) es \<and> t < 2 ^ 128"
  by (auto simp: pending_ok_def)

lemma pending_ok_filter: "pending_ok m signal_ids ps \<Longrightarrow> pending_ok m signal_ids (filter P ps)"
  by (induction ps) auto

lemma push_events_known:
  "ms_pending st = (t, es) # rest \<Longrightarrow> pending_ok (ms_maps st) signal_ids (ms_pending st) \<Longrightarrow>
   push_events signal_ids stamp st =
     Some (st\<lparr>ms_out := ms_out st @ stamp @ block_lines (ms_maps st) signal_ids es, ms_active := True, ms_pending := rest\<rparr>)"
  by (simp add: push_events_def emit_events_known list_all_iff)

lemma drain_before_known:
  assumes "pending_ok (ms_maps st) signal_ids (ms_pending st)"
  shows "\<exists>a. drain_before signal_ids time st =
    Some (st\<lparr>ms_out := ms_out st @ concat (map (stamped (ms_maps st) signal_ids) (filter (\<lambda>p. fst p < time) (ms_pending st))),
             ms_active := a, ms_pending := filter (\<lambda>p. time \<le> fst p) (ms_pending st)\<rparr>)"
  using assms
proof (induction "ms_pending st" arbitrary: st)
  case Nil
  then show ?case by (subst drain_before.simps) (auto intro!: exI [of _ "ms_active st"])
next
  case (Cons p ps)
  obtain t es where p: "p = (t, es)" by fastforce
  note pend = Cons.hyps(2) [symmetric, unfolded p]
  show ?case
  proof (cases "t < time")
    case True
    let ?st = "st\<lparr>ms_out := ms_out st @ [time_line t] @ block_lines (ms_maps st) signal_ids es, ms_active := True, ms_pending := ps\<rparr>"
    have "drain_before signal_ids time st = drain_before signal_ids time ?st"
      using True push_events_known [OF pend Cons.prems] by (subst drain_before.simps) (simp add: pend)
    moreover have "pending_ok (ms_maps ?st) signal_ids (ms_pending ?st)" using Cons.prems pend by simp
    note Cons.hyps(1) [of ?st, OF _ this]
    ultimately show ?thesis using True pend by (simp add: stamped_def)
  next
    case False
    then have "filter (\<lambda>p. fst p < time) (ms_pending st) = []" "filter (\<lambda>p. time \<le> fst p) (ms_pending st) = ms_pending st"
      using Cons.prems pend by (auto simp: filter_empty_conv filter_id_conv)
    with False pend show ?thesis by (subst drain_before.simps) (auto intro!: exI [of _ "ms_active st"])
  qed
qed

text \<open>What one line of the body becomes.\<close>

lemma merge_line_known:
  assumes ok: "pending_ok (ms_maps st) signal_ids (ms_pending st)" and time: "line_time line = Some t"
    and ids: "clean_ids signal_ids"
  shows "\<exists>a x. merge_line signal_ids line st =
      Some (st\<lparr>ms_out := ms_out st @ concat (map (stamped (ms_maps st) signal_ids) (filter (\<lambda>p. fst p < t) (ms_pending st))) @ line # x,
               ms_active := a, ms_pending := filter (\<lambda>p. t < fst p) (ms_pending st)\<rparr>) \<and>
    times_of x = [] \<and> clean x \<and>
    (\<forall>es. (t, es) \<in> set (ms_pending st) \<longrightarrow> x = block_lines (ms_maps st) signal_ids es)"
proof -
  let ?pend = "filter (\<lambda>p. t \<le> fst p) (ms_pending st)"
  obtain a st' where d: "drain_before signal_ids t st = Some st'" and st': "st' =
    st\<lparr>ms_out := ms_out st @ concat (map (stamped (ms_maps st) signal_ids) (filter (\<lambda>p. fst p < t) (ms_pending st))),
       ms_active := a, ms_pending := ?pend\<rparr>" using drain_before_known [OF ok, of t] by blast
  have ok': "pending_ok (ms_maps st') signal_ids (ms_pending st')" using pending_ok_filter [OF ok] by (simp add: st')
  show ?thesis
  proof (cases "\<exists>es rest. ?pend = (t, es) # rest")
    case True
    then obtain es rest where p: "?pend = (t, es) # rest" by blast
    have "(\<forall>p \<in> set rest. t < fst p)" using ok' p by (simp add: st')
    then have rest: "filter (\<lambda>p. t < fst p) ?pend = rest" by (simp add: p filter_id_conv)
    have "filter (\<lambda>p. t < fst p) (ms_pending st) = rest"
      using rest by (simp add: conj_absorb) (metis (no_types, lifting) filter_cong less_imp_le)
    moreover have "es' = es" if "(t, es') \<in> set (ms_pending st)" for es'
    proof -
      have "(t, es') \<in> set ?pend" using that by simp
      then show ?thesis using p ok' by (auto simp: st')
    qed
    moreover have "merge_line signal_ids line st = push_events signal_ids [line] st'"
      using p time d by (simp add: merge_line_def st')
    then have "merge_line signal_ids line st = Some (st'\<lparr>ms_out := ms_out st' @ [line] @ block_lines (ms_maps st) signal_ids es,
        ms_active := True, ms_pending := rest\<rparr>)"
      using push_events_known [of st' t es rest signal_ids "[line]"] p ok' by (simp add: st')
    ultimately show ?thesis
      using clean_block_lines [OF ids]
      by (intro exI [of _ True] exI [of _ "block_lines (ms_maps st) signal_ids es"] conjI) (simp_all add: st')
  next
    case False
    have no: "(t, es) \<notin> set (ms_pending st)" for es
    proof
      assume "(t, es) \<in> set (ms_pending st)"
      then have m: "(t, es) \<in> set ?pend" by simp
      then obtain k ks rest where c: "?pend = (k, ks) # rest" by (cases ?pend) auto
      then have "t \<le> k" using Cons_eq_filterD [OF c [symmetric]] by auto
      with m c ok' False show False by (auto simp: st')
    qed
    then have "\<forall>p \<in> set (ms_pending st). t \<le> fst p \<longleftrightarrow> t < fst p" by (force simp: le_less)
    then have p: "?pend = filter (\<lambda>p. t < fst p) (ms_pending st)" by (intro filter_cong) auto
    have hd: "\<not> (ms_pending st' \<noteq> [] \<and> fst (hd (ms_pending st')) = t)"
      using False by (cases ?pend) (auto simp: st')
    let ?x = "if ms_active st' then emit_valid_zero signal_ids else []"
    have "merge_line signal_ids line st = Some (st'\<lparr>ms_out := ms_out st' @ line # ?x, ms_active := False\<rparr>)"
      unfolding merge_line_def time d option.case if_not_P [OF hd] by (cases st') simp
    with no p clean_valid_zero [OF ids] show ?thesis
      by (intro exI [of _ False] exI [of _ ?x] conjI) (simp_all add: st')
  qed
qed

definition carries :: "StringTables \<Rightarrow> SignalIds list \<Rightarrow> string list \<Rightarrow> nat \<Rightarrow> SemanticEvent list \<Rightarrow> bool" where
  "carries m signal_ids ls t es \<longleftrightarrow> (\<exists>pre l post. line_time l = Some t \<and> ls = pre @ l # block_lines m signal_ids es @ post)"

lemma carries_append1: "carries m signal_ids ls t es \<Longrightarrow> carries m signal_ids (ls @ b) t es"
  unfolding carries_def by (metis append.assoc append_Cons)

lemma carries_append2: "carries m signal_ids ls t es \<Longrightarrow> carries m signal_ids (a @ ls) t es"
  unfolding carries_def by (metis append.assoc)

lemma carries_here: "line_time l = Some t \<Longrightarrow> carries m signal_ids (l # block_lines m signal_ids es @ post) t es"
  unfolding carries_def by (rule exI [of _ "[]"]) auto

definition stamps :: "StringTables \<Rightarrow> SignalIds list \<Rightarrow> (nat \<times> SemanticEvent list) list \<Rightarrow> string list" where
  "stamps m signal_ids ps = concat (map (stamped m signal_ids) ps)"

lemma stamps_times: "pending_ok m signal_ids ps \<Longrightarrow> times_of (stamps m signal_ids ps) = map fst ps"
  by (induction ps) (auto simp: stamps_def stamped_def line_time_time_line)

lemma stamps_clean: "clean_ids signal_ids \<Longrightarrow> clean (stamps m signal_ids ps)"
  by (auto simp: stamps_def stamped_def list_all_iff clean_block_lines clean_time_line)

lemma stamps_carries:
  "pending_ok m signal_ids ps \<Longrightarrow> (t, es) \<in> set ps \<Longrightarrow> carries m signal_ids (stamps m signal_ids ps) t es"
proof (induction ps)
  case (Cons p ps)
  show ?case
  proof (cases "p = (t, es)")
    case True
    then show ?thesis using Cons.prems(1) carries_here [OF line_time_time_line]
      by (auto simp: stamps_def stamped_def)
  next
    case False
    then have "carries m signal_ids (stamps m signal_ids ps) t es" using Cons by (cases p) auto
    from carries_append2 [OF this] show ?thesis by (simp add: stamps_def)
  qed
qed simp

lemma sorted_around:
  "sorted a \<Longrightarrow> sorted b \<Longrightarrow> (\<forall>u \<in> set a. u \<le> t) \<Longrightarrow> (\<forall>u \<in> set b. t \<le> u) \<Longrightarrow> sorted (a @ t # b)"
  for t :: nat
  by (auto simp: sorted_append intro: order_trans)

lemma fst_filter:
  "fst ` set (filter (\<lambda>p. fst p < t) ps) = {k \<in> fst ` set ps. k < t}"
  "fst ` set (filter (\<lambda>p. t < fst p) ps) = {k \<in> fst ` set ps. t < k}" for t :: nat
  by auto

lemma keys_split:
  "{k \<in> K. k < t} \<union> insert t (L \<union> {u \<in> {k \<in> K. t < k}. \<exists>b \<in> L. u \<le> b}) =
   insert t L \<union> {u \<in> K. \<exists>b \<in> insert t L. u \<le> b}" for t :: nat
proof (rule set_eqI)
  fix u
  consider "u < t" | "u = t" | "t < u" by linarith
  then show "u \<in> {k \<in> K. k < t} \<union> insert t (L \<union> {u \<in> {k \<in> K. t < k}. \<exists>b \<in> L. u \<le> b}) \<longleftrightarrow>
      u \<in> insert t L \<union> {u \<in> K. \<exists>b \<in> insert t L. u \<le> b}" by cases auto
qed

text \<open>The part of the file that the body of the waveform becomes.\<close>

definition body_ok ::
  "StringTables \<Rightarrow> SignalIds list \<Rightarrow> string list \<Rightarrow> (nat \<times> SemanticEvent list) list \<Rightarrow> string list \<Rightarrow> bool" where
  "body_ok m signal_ids ls pending new \<longleftrightarrow> clean new \<and> subseq ls new \<and> sorted (times_of new) \<and>
     set (times_of new) = set (times_of ls) \<union> {t \<in> fst ` set pending. \<exists>b \<in> set (times_of ls). t \<le> b} \<and>
     (\<forall>(t, es) \<in> set pending. (\<exists>b \<in> set (times_of ls). t \<le> b) \<longrightarrow> carries m signal_ids new t es)"

lemma body_ok_plain: "line_time l = None \<Longrightarrow> LF \<notin> set l \<Longrightarrow> body_ok m signal_ids ls pending new \<Longrightarrow>
    body_ok m signal_ids (l # ls) pending (l # new)"
  using carries_append2 [of m signal_ids new _ _ "[l]"] by (auto simp: body_ok_def)

lemma body_ok_time:
  assumes time: "line_time l = Some t" and l: "LF \<notin> set l" and ids: "clean_ids signal_ids"
    and ok: "pending_ok m signal_ids pending"
    and new: "body_ok m signal_ids ls (filter (\<lambda>p. t < fst p) pending) new"
    and x: "times_of x = []" "clean x" "\<And>es. (t, es) \<in> set pending \<Longrightarrow> x = block_lines m signal_ids es"
    and ge: "\<forall>b \<in> set (times_of ls). t \<le> b"
  shows "body_ok m signal_ids (l # ls) pending (stamps m signal_ids (filter (\<lambda>p. fst p < t) pending) @ l # x @ new)"
proof -
  let ?early = "filter (\<lambda>p. fst p < t) pending"
  have ok': "pending_ok m signal_ids ?early" by (rule pending_ok_filter [OF ok])
  have times: "times_of (stamps m signal_ids ?early @ l # x @ new) = map fst ?early @ t # times_of new"
    using time x(1) stamps_times [OF ok'] by simp
  have newset: "set (times_of new) = set (times_of ls) \<union> {u \<in> fst ` set (filter (\<lambda>p. t < fst p) pending). \<exists>b \<in> set (times_of ls). u \<le> b}"
    using new by (simp add: body_ok_def)
  have "sorted (map fst ?early)"
    using ok' by (auto simp: pending_ok_def intro: strict_sorted_imp_sorted)
  moreover have "\<forall>u \<in> set (times_of new). t \<le> u" using ge by (auto simp: newset)
  moreover have "sorted (times_of new)" "\<forall>u \<in> set (map fst ?early). u \<le> t" using new by (auto simp: body_ok_def)
  ultimately have sorted: "sorted (times_of (stamps m signal_ids ?early @ l # x @ new))"
    unfolding times by (intro sorted_around)
  have "subseq (l # ls) (stamps m signal_ids ?early @ l # x @ new)"
    using new by (auto simp: body_ok_def intro!: subseq_drop_many)
  moreover have "set (times_of (stamps m signal_ids ?early @ l # x @ new)) =
      set (times_of (l # ls)) \<union> {u \<in> fst ` set pending. \<exists>b \<in> set (times_of (l # ls)). u \<le> b}"
    unfolding times set_append set_map list.set fst_filter newset times_of_Cons time option.case
    by (rule keys_split)
  moreover have "carries m signal_ids (stamps m signal_ids ?early @ l # x @ new) u es"
    if u: "(u, es) \<in> set pending" "\<exists>b \<in> set (times_of (l # ls)). u \<le> b" for u es
  proof -
    have "u < t \<or> u = t \<or> t < u \<and> (\<exists>b \<in> set (times_of ls). u \<le> b)" using u(2) time by auto
    then consider "u < t" | "u = t" | "t < u" "\<exists>b \<in> set (times_of ls). u \<le> b" by blast
    then show ?thesis
    proof cases
      case 1
      then show ?thesis using stamps_carries [OF ok', of u es] u(1) by (auto intro: carries_append1)
    next
      case 2
      then show ?thesis using carries_here [OF time] x(3) [of es] u(1) by (auto intro: carries_append2)
    next
      case 3
      then have "carries m signal_ids new u es" using new u(1) by (auto simp: body_ok_def)
      then show ?thesis using carries_append2 [of m signal_ids new u es "stamps m signal_ids ?early @ l # x"] by simp
    qed
  qed
  ultimately show ?thesis
    using sorted l x(2) new stamps_clean [OF ids] by (auto simp: body_ok_def)
qed

lemma merge_body_known:
  assumes "pending_ok (ms_maps st) signal_ids (ms_pending st)" "clean_ids signal_ids" "clean ls" "sorted (times_of ls)"
  shows "\<exists>a new. merge_body signal_ids ls st =
      Some (st\<lparr>ms_out := ms_out st @ new, ms_active := a,
               ms_pending := filter (\<lambda>p. \<forall>b \<in> set (times_of ls). b < fst p) (ms_pending st)\<rparr>) \<and>
    body_ok (ms_maps st) signal_ids ls (ms_pending st) new"
  using assms
proof (induction ls arbitrary: st)
  case Nil
  then show ?case by (auto simp: body_ok_def intro!: exI [of _ "ms_active st"] exI [of _ "[]"])
next
  case (Cons l ls)
  show ?case
  proof (cases "line_time l")
    case None
    let ?st = "st\<lparr>ms_out := ms_out st @ [l]\<rparr>"
    obtain a new where "merge_body signal_ids ls ?st =
        Some (?st\<lparr>ms_out := ms_out ?st @ new, ms_active := a,
               ms_pending := filter (\<lambda>p. \<forall>b \<in> set (times_of ls). b < fst p) (ms_pending ?st)\<rparr>)"
      and new: "body_ok (ms_maps ?st) signal_ids ls (ms_pending ?st) new"
      using Cons.IH [of ?st] Cons.prems None by auto
    then have "merge_body signal_ids (l # ls) st =
        Some (st\<lparr>ms_out := ms_out st @ (l # new), ms_active := a,
               ms_pending := filter (\<lambda>p. \<forall>b \<in> set (times_of (l # ls)). b < fst p) (ms_pending st)\<rparr>)"
      using None by (simp add: merge_line_def)
    with body_ok_plain [OF None _ new] Cons.prems(3) show ?thesis by auto
  next
    case (Some t)
    obtain a x where st: "merge_line signal_ids l st =
      Some (st\<lparr>ms_out := ms_out st @ stamps (ms_maps st) signal_ids (filter (\<lambda>p. fst p < t) (ms_pending st)) @ l # x,
               ms_active := a, ms_pending := filter (\<lambda>p. t < fst p) (ms_pending st)\<rparr>)" (is "_ = Some ?st")
      and x: "times_of x = []" "clean x" "\<And>es. (t, es) \<in> set (ms_pending st) \<Longrightarrow> x = block_lines (ms_maps st) signal_ids es"
      using merge_line_known [OF Cons.prems(1) Some Cons.prems(2)] unfolding stamps_def by blast
    have "pending_ok (ms_maps ?st) signal_ids (ms_pending ?st)" using pending_ok_filter [OF Cons.prems(1)] by simp
    then obtain a' new where b: "merge_body signal_ids ls ?st =
        Some (?st\<lparr>ms_out := ms_out ?st @ new, ms_active := a',
               ms_pending := filter (\<lambda>p. \<forall>b \<in> set (times_of ls). b < fst p) (ms_pending ?st)\<rparr>)"
      and new: "body_ok (ms_maps ?st) signal_ids ls (ms_pending ?st) new"
      using Cons.IH [of ?st] Cons.prems Some by fastforce
    have ge: "\<forall>b \<in> set (times_of ls). t \<le> b" using Cons.prems(4) Some by simp
    have "merge_body signal_ids (l # ls) st =
        Some (st\<lparr>ms_out := ms_out st @ stamps (ms_maps st) signal_ids (filter (\<lambda>p. fst p < t) (ms_pending st)) @ l # x @ new,
                 ms_active := a', ms_pending := filter (\<lambda>p. \<forall>b \<in> set (times_of (l # ls)). b < fst p) (ms_pending st)\<rparr>)"
      using Some st b by (simp add: conj_commute)
    moreover note body_ok_time [OF Some _ Cons.prems(2,1) _ x ge, of new]
    ultimately show ?thesis using new Cons.prems(3) by auto
  qed
qed

lemma merge_tail_known:
  assumes "pending_ok (ms_maps st) signal_ids (ms_pending st)" "\<forall>p \<in> set (ms_pending st). last_time \<le> fst p"
  shows "\<exists>a. merge_tail signal_ids last_time st = Ok (last (last_time # map fst (ms_pending st)),
    st\<lparr>ms_out := ms_out st @ stamps (ms_maps st) signal_ids (ms_pending st), ms_active := a, ms_pending := []\<rparr>)"
  using assms
proof (induction "ms_pending st" arbitrary: st last_time)
  case Nil
  then show ?case by (subst merge_tail.simps) (auto simp: stamps_def intro!: exI [of _ "ms_active st"])
next
  case (Cons p ps)
  obtain t es where p: "p = (t, es)" by fastforce
  note pend = Cons.hyps(2) [symmetric, unfolded p]
  let ?st = "st\<lparr>ms_out := ms_out st @ [time_line t] @ block_lines (ms_maps st) signal_ids es, ms_active := True, ms_pending := ps\<rparr>"
  have "merge_tail signal_ids last_time st = merge_tail signal_ids t ?st"
    using push_events_known [OF pend Cons.prems(1)] Cons.prems(2) pend by (subst merge_tail.simps) auto
  moreover have "pending_ok (ms_maps ?st) signal_ids (ms_pending ?st)" "\<forall>p \<in> set (ms_pending ?st). t \<le> fst p"
    using Cons.prems(1) pend by (auto simp: less_imp_le)
  note Cons.hyps(1) [of ?st t, OF _ this]
  ultimately show ?case using pend by (simp add: stamps_def stamped_def)
qed

section \<open>The merged file\<close>

definition events_at :: "nat \<Rightarrow> SemanticEvent list \<Rightarrow> SemanticEvent list" where
  "events_at t events = filter (\<lambda>e. ev_vcd_time e = t) events"

lemma group_by_time_map:
  "bt_ordered (group_by_time events) \<and>
   map_of (group_by_time events) t = (if events_at t events = [] then None else Some (events_at t events))"
proof (induction events arbitrary: t rule: rev_induct)
  case Nil
  then show ?case by (simp add: group_by_time_def bt_ordered_def events_at_def)
next
  case (snoc e es)
  have "group_by_time (es @ [e]) =
      bt_insert (ev_vcd_time e) (opt_unwrap_or (map_of (group_by_time es) (ev_vcd_time e)) [] @ [e]) (group_by_time es)"
    by (simp add: group_by_time_def)
  moreover have ordered: "bt_ordered (group_by_time es)" using snoc.IH by blast
  ultimately show ?case using snoc.IH
    by (auto simp: map_of_bt_insert [OF ordered] bt_ordered_insert [OF ordered] events_at_def opt_unwrap_or_def)
qed

lemma group_by_time_iff: "(t, es) \<in> set (group_by_time events) \<longleftrightarrow> es = events_at t events \<and> es \<noteq> []"
proof -
  have "distinct (map fst (group_by_time events))"
    using group_by_time_map [of events] by (simp add: bt_ordered_def strict_sorted_iff)
  then have "(t, es) \<in> set (group_by_time events) \<longleftrightarrow> map_of (group_by_time events) t = Some es"
    using map_of_eq_Some_iff by fastforce
  then show ?thesis using group_by_time_map [of events t] by auto
qed

lemma fold_max_ge: "x \<in> insert a (set xs) \<Longrightarrow> x \<le> fold max xs a" for x :: nat
  by (metis Max.set_eq_fold Max_ge finite_set list.set(2))

lemma fold_max_le: "a \<le> k \<Longrightarrow> (\<forall>x \<in> set xs. x \<le> k) \<Longrightarrow> fold max xs a \<le> k" for k :: nat
  by (induction xs arbitrary: a) auto

lemma lane_count_ge: "(t, es) \<in> set by_time \<Longrightarrow> length es \<le> lane_count by_time"
  unfolding lane_count_def by (rule fold_max_ge) force

lemma line_time_bound: "line_time l = Some t \<Longrightarrow> t < 2 ^ 128"
  by (auto simp: line_time_def parse_vcd_time_line_def parse_uint_def Let_def split: list.splits if_splits)

lemma times_of_bound: "t \<in> set (times_of ls) \<Longrightarrow> t < 2 ^ 128"
  by (induction ls) (auto split: option.splits dest: line_time_bound)

lemma enddefinitions_time: "is_enddefinitions l \<Longrightarrow> line_time l = None"
  by (simp add: is_enddefinitions_def line_time_def parse_vcd_time_line_def)

lemma line_time_succ: "t < 2 ^ 128 \<Longrightarrow> line_time (time_line (saturating_succ t)) = Some (saturating_succ t) \<and> t \<le> saturating_succ t"
  by (simp add: saturating_succ_def line_time_time_line min_def)

lemma sorted_snoc_last: "sorted xs \<Longrightarrow> (\<forall>x \<in> set xs. x \<le> y) \<Longrightarrow> sorted (xs @ [y])" for y :: nat
  by (simp add: sorted_append)

text \<open>The lanes and the tables of a merge.\<close>

definition lanes_of :: "string list \<Rightarrow> SemanticEvent list \<Rightarrow> SignalIds list" where
  "lanes_of defs events = signal_ids_for (lane_count (group_by_time events)) \<lparr>used = collect_vcd_ids defs, next_id = 0\<rparr>"

definition tables_of :: "SemanticEvent list \<Rightarrow> StringTables" where
  "tables_of events = intern_all events default_tables"

lemma merge_pending_ok:
  assumes "\<forall>e \<in> set events. ev_vcd_time e < 2 ^ 128"
  shows "pending_ok (tables_of events) (lanes_of defs events) (group_by_time events)"
  using assms group_by_time_map [of events] lane_count_ge [of _ _ "group_by_time events"]
  by (auto simp: pending_ok_def bt_ordered_def lanes_of_def tables_of_def group_by_time_iff events_at_def
      list_all_iff filter_empty_conv intro!: knows_event_intern_all)

text \<open>The times of the body, of the events after it, and of the closing line.\<close>

lemma close_sorted:
  assumes "sorted xs" "\<forall>x \<in> set xs. x \<le> t" "t < 2 ^ 128"
  shows "sorted (xs @ times_of (if a then [time_line (saturating_succ t)] @ emit_valid_zero signal_ids else []))"
  using assms line_time_succ [OF assms(3)] by (auto intro!: sorted_snoc_last intro: order_trans)

lemma body_rest_sorted:
  assumes new: "body_ok m signal_ids body pending new" and ok: "pending_ok m signal_ids pending"
  defines "rest \<equiv> filter (\<lambda>p. \<forall>b \<in> set (times_of body). b < fst p) pending"
  shows "sorted (times_of new @ map fst rest)"
proof -
  have "pending_ok m signal_ids rest" unfolding rest_def by (rule pending_ok_filter [OF ok])
  then have "sorted (map fst rest)" by (auto simp: pending_ok_def intro: strict_sorted_imp_sorted)
  then show ?thesis using new by (fastforce simp: body_ok_def rest_def sorted_append)
qed

lemma body_rest_last:
  assumes new: "body_ok m signal_ids body pending new" and ok: "pending_ok m signal_ids pending"
  defines "rest \<equiv> filter (\<lambda>p. \<forall>b \<in> set (times_of body). b < fst p) pending"
  defines "end_time \<equiv> last (fold max (times_of body) 0 # map fst rest)"
  shows "\<forall>t \<in> set (times_of new @ map fst rest). t \<le> end_time" "end_time < 2 ^ 128"
proof -
  have sorted: "sorted (times_of new @ map fst rest)" unfolding rest_def by (rule body_rest_sorted [OF new ok])
  show "\<forall>t \<in> set (times_of new @ map fst rest). t \<le> end_time"
  proof
    fix t assume t: "t \<in> set (times_of new @ map fst rest)"
    show "t \<le> end_time"
    proof (cases "rest = []")
      case True
      then obtain b where "b \<in> set (times_of body)" "t \<le> b" using t new by (auto simp: body_ok_def)
      then show ?thesis using True fold_max_ge [of b 0 "times_of body"] by (simp add: end_time_def)
    next
      case False
      then show ?thesis
        using t sorted by (cases "map fst rest" rule: rev_cases) (auto simp: sorted_append end_time_def)
    qed
  qed
  have "fold max (times_of body) 0 < 2 ^ 128" using times_of_bound [of _ body]
    by (intro le_less_trans [OF fold_max_le [of _ "2 ^ 128 - 1"]]) force+
  then show "end_time < 2 ^ 128"
    using pending_ok_filter [OF ok] last_in_set [of "map fst rest"] by (auto simp: pending_ok_def end_time_def rest_def)
qed

lemma merged_subseq: "subseq body new \<Longrightarrow> subseq (hdr @ e # body) (hdr @ x @ e # new @ y)"
proof -
  assume "subseq body new"
  then have "subseq (hdr @ [e] @ body) (hdr @ (x @ [e]) @ (new @ y))"
    by (intro list_emb_append_mono subseq_order.order_refl subseq_drop_many subseq_rev_drop_many)
  then show ?thesis by simp
qed

lemma merge_parts_known:
  assumes clean: "clean hdr" "LF \<notin> set enddefs" "clean body"
    and times: "line_time enddefs = None" "times_of hdr = []" "sorted (times_of body)"
    and events: "\<forall>e \<in> set events. ev_vcd_time e < 2 ^ 128"
  defines "m \<equiv> tables_of events" and "ids \<equiv> lanes_of (hdr @ [enddefs]) events"
  shows "\<exists>out. merge_parts hdr enddefs body events = Ok (out, m) \<and> clean out \<and> subseq (hdr @ enddefs # body) out \<and>
    sorted (times_of out) \<and> set (times_of body) \<subseteq> set (times_of out) \<and>
    (\<forall>(t, es) \<in> set (group_by_time events). carries m ids out t es)"
proof -
  let ?by = "group_by_time events" and ?out = "hdr @ emit_semantic_header ids m @ [enddefs]"
  let ?st = "\<lparr>ms_out = ?out, ms_active = False, ms_pending = ?by, ms_maps = m\<rparr>"
  let ?rest = "filter (\<lambda>p. \<forall>b \<in> set (times_of body). b < fst p) ?by" and ?last = "fold max (times_of body) 0"
  have ids: "clean_ids ids" unfolding ids_def lanes_of_def by (rule clean_signal_ids)
  have ok: "pending_ok m ids ?by" unfolding m_def ids_def by (rule merge_pending_ok [OF events])
  obtain a new where body: "merge_body ids body ?st = Some (?st\<lparr>ms_out := ?out @ new, ms_active := a, ms_pending := ?rest\<rparr>)"
    (is "_ = Some ?st1") and new: "body_ok m ids body ?by new"
    using merge_body_known [of ?st ids body] ok ids clean(3) times(3) by auto
  have rest: "pending_ok m ids ?rest" by (rule pending_ok_filter [OF ok])
  have "?last \<le> fst p" if "p \<in> set ?rest" for p using that by (intro fold_max_le) (auto simp: less_imp_le)
  with rest have "pending_ok (ms_maps ?st1) ids (ms_pending ?st1)" "\<forall>p \<in> set (ms_pending ?st1). ?last \<le> fst p" by simp_all
  from merge_tail_known [OF this] obtain a' where tail: "merge_tail ids ?last ?st1 = Ok (last (?last # map fst (ms_pending ?st1)),
      ?st1\<lparr>ms_out := ms_out ?st1 @ stamps (ms_maps ?st1) ids (ms_pending ?st1), ms_active := a', ms_pending := []\<rparr>)" by blast
  let ?close = "if a' then [time_line (saturating_succ (last (?last # map fst ?rest)))] @ emit_valid_zero ids else []"
  let ?res = "((?out @ new) @ stamps m ids ?rest) @ ?close"
  have "times_of (hdr @ enddefs # body) = times_of body" using times by simp
  with body tail have result: "merge_parts hdr enddefs body events = Ok (?res, m)"
    unfolding merge_parts_def Let_def by (simp add: m_def ids_def lanes_of_def tables_of_def intern_all_def)
  have times_res: "times_of ?res = (times_of new @ map fst ?rest) @ times_of ?close"
    using times stamps_times [OF rest] by simp
  have "sorted (times_of ?res)"
    unfolding times_res by (intro close_sorted body_rest_sorted [OF new ok] body_rest_last [OF new ok])
  moreover have "clean ?res"
    using clean ids new stamps_clean [OF ids] clean_header [OF ids] clean_valid_zero [OF ids]
    by (simp add: body_ok_def clean_time_line)
  moreover have "subseq (hdr @ enddefs # body) ?res"
    using new merged_subseq [of body new hdr enddefs "emit_semantic_header ids m" "stamps m ids ?rest @ ?close"]
    by (simp add: body_ok_def)
  moreover have "carries m ids ?res t es" if "(t, es) \<in> set ?by" for t es
  proof (cases "\<exists>b \<in> set (times_of body). t \<le> b")
    case True
    then show ?thesis using new that by (intro carries_append1 carries_append2) (auto simp: body_ok_def)
  next
    case False
    then show ?thesis using that stamps_carries [OF rest, of t es] by (intro carries_append1 carries_append2) (auto simp: not_le)
  qed
  moreover have "set (times_of body) \<subseteq> set (times_of ?res)" using new unfolding times_res by (auto simp: body_ok_def)
  ultimately show ?thesis using result by blast
qed

end
