(* ===== verification/Trace_Readback.thy ===== *)
theory Trace_Readback
  imports Trace_Walk "HOL-Library.Multiset"
begin

text \<open>
  The outputs of the trace merger read back: the value changes of the lanes by a reader of waveforms, the table file by
  the merger's own JSON reader.  The properties of the merger are at the end.
\<close>

section \<open>Reading the lanes back\<close>

text \<open>A reader of value changes, for the specification: the identifier and the value of a change line.\<close>

definition read_bits :: "string \<Rightarrow> nat" where
  "read_bits s = foldl (\<lambda>n b. 2 * n + (if b = CHR ''1'' then 1 else 0)) 0 s"

definition read_change :: "string \<Rightarrow> (string \<times> nat) option" where
  "read_change line = (case line of
       [] \<Rightarrow> None
     | c # r \<Rightarrow>
         if c = CHR ''b'' then Some (drop 1 (dropWhile (\<lambda>b. b \<noteq> CHR '' '') r), read_bits (takeWhile (\<lambda>b. b \<noteq> CHR '' '') r))
         else if c = CHR ''0'' then Some (r, 0)
         else if c = CHR ''1'' then Some (r, 1)
         else None)"

definition changes :: "string list \<Rightarrow> (string \<times> nat) list" where
  "changes ls = List.map_filter read_change ls"

text \<open>The last change of a signal gives its value.\<close>

definition read_signal :: "string list \<Rightarrow> string \<Rightarrow> nat option" where
  "read_signal ls = map_of (rev (changes ls))"

definition name_of :: "IdTable \<Rightarrow> nat \<Rightarrow> string" where
  "name_of table n = opt_unwrap_or (map_of (map prod.swap table) n) []"

text \<open>The event a lane shows at a time.\<close>

definition read_lane :: "StringTables \<Rightarrow> nat \<Rightarrow> (string \<rightharpoonup> nat) \<Rightarrow> SignalIds \<Rightarrow> SemanticEvent option" where
  "read_lane m t v ids =
     (if v (si_valid ids) = Some 1
      then Some \<lparr>ev_typ = name_of (st_event_type m) (the (v (si_event_type ids))),
             ev_seq = the (v (si_seq ids)), ev_cycle = the (v (si_cycle ids)), ev_vcd_time = t,
             ev_clock = name_of (st_clock m) (the (v (si_clock_id ids))), ev_clock_cycle = the (v (si_clock_cycle ids)),
             ev_component = name_of (st_component m) (the (v (si_component_id ids))),
             ev_bus = name_of (st_bus m) (the (v (si_bus_id ids))),
             ev_method = name_of (st_method m) (the (v (si_method_id ids))),
             ev_phase = name_of (st_phase m) (the (v (si_phase_id ids))),
             ev_direction = name_of (st_direction m) (the (v (si_direction_id ids))),
             ev_tag = (if v (si_tag_valid ids) = Some 1 then v (si_tag ids) else None),
             ev_label = name_of (st_label m) (the (v (si_label_id ids)))\<rparr>
      else None)"

lemma changes_simps [simp]:
  "changes [] = []" "changes (a @ b) = changes a @ changes b"
  "changes (l # ls) = (case read_change l of None \<Rightarrow> changes ls | Some c \<Rightarrow> c # changes ls)"
  by (auto simp: changes_def List.map_filter_def split: option.splits)

lemma changes_concat: "changes (concat lss) = concat (map changes lss)"
  by (induction lss) auto

definition bit_chars :: "nat \<Rightarrow> nat \<Rightarrow> string" where
  "bit_chars v w = map (\<lambda>bit. if (v div 2 ^ bit) mod 2 \<noteq> 0 then CHR ''1'' else CHR ''0'') (rev [0..<w])"

lemma bit_chars_Suc: "bit_chars v (Suc w) = bit_chars (v div 2) w @ [if v mod 2 \<noteq> 0 then CHR ''1'' else CHR ''0'']"
proof -
  have "rev [0..<Suc w] = map Suc (rev [0..<w]) @ [0]"
    by (simp add: upt_conv_Cons map_Suc_upt flip: rev_map)
  then show ?thesis by (simp add: bit_chars_def div_mult2_eq del: upt_Suc)
qed

lemma read_bits_mod: "read_bits (bit_chars v w) = v mod 2 ^ w"
proof (induction w arbitrary: v)
  case (Suc w)
  have "v mod 2 ^ Suc w = 2 * (v div 2 mod 2 ^ w) + v mod 2" by (simp add: mod_mult2_eq)
  moreover have "read_bits (s @ [c]) = 2 * read_bits s + (if c = CHR ''1'' then 1 else 0)" for s c
    by (simp add: read_bits_def)
  ultimately show ?case using Suc.IH [of "v div 2"] by (auto simp: bit_chars_Suc)
qed (simp add: read_bits_def bit_chars_def)

lemma read_emit_int [simp]: "changes (emit_int i v w) = [(i, v mod 2 ^ w)]"
proof -
  have "\<forall>b \<in> set (bit_chars v w). b \<noteq> CHR '' ''" by (auto simp: bit_chars_def)
  then have "takeWhile (\<lambda>b. b \<noteq> CHR '' '') (bit_chars v w @ CHR '' '' # i) = bit_chars v w"
    "dropWhile (\<lambda>b. b \<noteq> CHR '' '') (bit_chars v w @ CHR '' '' # i) = CHR '' '' # i"
    by (simp_all add: takeWhile_append2 dropWhile_append2)
  moreover have "emit_int i v w = [CHR ''b'' # bit_chars v w @ CHR '' '' # i]" by (simp add: emit_int_def bit_chars_def)
  ultimately show ?thesis by (simp add: read_change_def read_bits_mod)
qed

lemma read_change_bit [simp]:
  "read_change (CHR ''0'' # i) = Some (i, 0)" "read_change (CHR ''1'' # i) = Some (i, 1)"
  by (simp_all add: read_change_def)

definition lane_changes :: "StringTables \<Rightarrow> SignalIds \<Rightarrow> SemanticEvent \<Rightarrow> (string \<times> nat) list" where
  "lane_changes m ids e =
     [(si_event_type ids, number_of (st_event_type m) (ev_typ e) mod 2 ^ 32), (si_seq ids, ev_seq e mod 2 ^ 64),
      (si_cycle ids, ev_cycle e mod 2 ^ 64), (si_clock_id ids, number_of (st_clock m) (ev_clock e) mod 2 ^ 32),
      (si_clock_cycle ids, ev_clock_cycle e mod 2 ^ 64),
      (si_component_id ids, number_of (st_component m) (ev_component e) mod 2 ^ 32),
      (si_bus_id ids, number_of (st_bus m) (ev_bus e) mod 2 ^ 32),
      (si_method_id ids, number_of (st_method m) (ev_method e) mod 2 ^ 32),
      (si_phase_id ids, number_of (st_phase m) (ev_phase e) mod 2 ^ 32),
      (si_direction_id ids, number_of (st_direction m) (ev_direction e) mod 2 ^ 32),
      (si_tag ids, opt_unwrap_or (ev_tag e) 0 mod 2 ^ 64), (si_label_id ids, number_of (st_label m) (ev_label e) mod 2 ^ 32),
      (si_tag_valid ids, if ev_tag e = None then 0 else 1), (si_valid ids, 1)]"

lemma changes_event: "knows_event m e \<Longrightarrow> changes (event_lines m ids e) = lane_changes m ids e"
  by (simp add: event_lines_eq table_defs lane_changes_def)

lemma lane_changes_keys: "mset (map fst (lane_changes m ids e)) = mset (signal_id_list ids)"
  by (simp add: lane_changes_def signal_id_list_def)


lemma lane_changes_set: "set (map fst (lane_changes m ids e)) = set (signal_id_list ids)"
  using lane_changes_keys by (rule mset_eq_setD)

lemma lane_keys_subset: "fst ` set (concat (map2 (lane_changes m) signal_ids es)) \<subseteq> set (concat (map signal_id_list signal_ids))"
proof
  fix i assume "i \<in> fst ` set (concat (map2 (lane_changes m) signal_ids es))"
  then obtain ids e where "(ids, e) \<in> set (zip signal_ids es)" "i \<in> set (map fst (lane_changes m ids e))" by auto
  then have "ids \<in> set signal_ids" "i \<in> set (signal_id_list ids)" by (auto dest: set_zip_leftD simp only: lane_changes_set)
  then show "i \<in> set (concat (map signal_id_list signal_ids))" by auto
qed

lemma lanes_distinct:
  "distinct (concat (map signal_id_list signal_ids)) \<Longrightarrow> distinct (map fst (concat (map2 (lane_changes m) signal_ids es)))"
proof (induction signal_ids arbitrary: es)
  case (Cons ids signal_ids)
  show ?case
  proof (cases es)
    case e: (Cons e rest)
    have "distinct (map fst (lane_changes m ids e))"
      using Cons.prems mset_eq_imp_distinct_iff [OF lane_changes_keys] by simp
    moreover have "fst ` set (lane_changes m ids e) \<inter> fst ` set (concat (map2 (lane_changes m) signal_ids rest)) = {}"
      using Cons.prems lane_changes_set [of m ids e] lane_keys_subset [of m signal_ids rest]
      by (simp only: list.map concat.simps distinct_append set_map) blast
    ultimately show ?thesis using Cons by (simp add: e)
  qed simp
qed simp

lemma map_of_rev_distinct: "distinct (map fst xs) \<Longrightarrow> map_of (rev xs) = map_of xs"
  by (rule map_of_eqI) (auto simp: rev_map [symmetric] map_of_eq_Some_iff)

lemma changes_block:
  assumes "list_all (knows_event m) es"
  shows "changes (block_lines m signal_ids es) =
    changes (emit_valid_zero signal_ids) @ concat (map2 (lane_changes m) signal_ids es)"
proof -
  have "map2 (\<lambda>ids e. changes (event_lines m ids e)) signal_ids es = map2 (lane_changes m) signal_ids es"
    using assms by (auto simp: changes_event list_all_iff dest!: set_zip_rightD)
  then show ?thesis unfolding block_lines_def changes_simps changes_concat map_map comp_def case_prod_beta
    by (simp only: append_same_eq)
qed

lemma read_block:
  assumes known: "list_all (knows_event m) es" and distinct: "distinct (concat (map signal_id_list signal_ids))"
  shows "read_signal (block_lines m signal_ids es) =
    map_of (rev (changes (emit_valid_zero signal_ids))) ++ map_of (concat (map2 (lane_changes m) signal_ids es))"
  using map_of_rev_distinct [OF lanes_distinct [OF distinct]]
  by (simp add: read_signal_def changes_block [OF known] map_of_append)

lemma read_block_lane:
  assumes known: "list_all (knows_event m) es" and distinct: "distinct (concat (map signal_id_list signal_ids))"
    and k: "k < length es" "k < length signal_ids" and iv: "(i, v) \<in> set (lane_changes m (signal_ids ! k) (es ! k))"
  shows "read_signal (block_lines m signal_ids es) i = Some v"
proof -
  have "(signal_ids ! k, es ! k) \<in> set (zip signal_ids es)" using k by (auto simp: in_set_zip)
  with iv have "(i, v) \<in> set (concat (map2 (lane_changes m) signal_ids es))" by fastforce
  then have "map_of (concat (map2 (lane_changes m) signal_ids es)) i = Some v"
    using map_of_is_SomeI [OF lanes_distinct [OF distinct]] by blast
  then show ?thesis by (simp add: read_block [OF known distinct] map_add_def)
qed

lemma changes_valid_zero: "changes (emit_valid_zero signal_ids) = concat (map (\<lambda>ids. [(si_valid ids, 0), (si_tag_valid ids, 0)]) signal_ids)"
  by (induction signal_ids) (auto simp: emit_valid_zero_def)

lemma zip_take_length: "zip (take (length ys) xs) ys = zip xs ys"
  by (induction xs ys rule: list_induct2') auto

lemma read_block_idle:
  assumes known: "list_all (knows_event m) es" and distinct: "distinct (concat (map signal_id_list signal_ids))"
    and k: "length es \<le> k" "k < length signal_ids"
  shows "read_signal (block_lines m signal_ids es) (si_valid (signal_ids ! k)) = Some 0"
proof -
  let ?i = "si_valid (signal_ids ! k)" and ?n = "length es"
  have split: "signal_ids = take ?n signal_ids @ drop ?n signal_ids" by simp
  have "signal_ids ! k = drop ?n signal_ids ! (k - ?n)" "k - ?n < length (drop ?n signal_ids)" using k by auto
  then have "signal_ids ! k \<in> set (drop ?n signal_ids)" by (metis nth_mem)
  then have i: "?i \<in> set (concat (map signal_id_list (drop ?n signal_ids)))" by (auto simp: signal_id_list_def)
  have "distinct (concat (map signal_id_list (take ?n signal_ids)) @ concat (map signal_id_list (drop ?n signal_ids)))"
    using distinct by (metis concat_append map_append split)
  with i have "?i \<notin> set (concat (map signal_id_list (take ?n signal_ids)))" by (auto simp: distinct_append)
  moreover have "map2 (lane_changes m) signal_ids es = map2 (lane_changes m) (take ?n signal_ids) es"
    by (simp only: zip_take_length)
  ultimately have "?i \<notin> fst ` set (concat (map2 (lane_changes m) signal_ids es))"
    using subsetD [OF lane_keys_subset [of m "take ?n signal_ids" es], of ?i] by metis
  then have none: "map_of (concat (map2 (lane_changes m) signal_ids es)) ?i = None"
    by (simp only: map_of_eq_None_iff not_False_eq_True)
  have "(?i, 0) \<in> set (changes (emit_valid_zero signal_ids))"
    using k(2) by (force simp: changes_valid_zero)
  moreover have "v = 0" if "(?i, v) \<in> set (rev (changes (emit_valid_zero signal_ids)))" for v
    using that by (auto simp: changes_valid_zero)
  ultimately have "map_of (rev (changes (emit_valid_zero signal_ids))) ?i = Some 0"
    by (metis map_of_SomeD set_rev weak_map_of_SomeI)
  with none show ?thesis by (simp add: read_block [OF known distinct] map_add_def)
qed


text \<open>Numbers stand for the strings they were given to.\<close>

lemma name_of_number:
  assumes "table_ok t" "knows t v" shows "name_of t (number_of t v) = v"
proof (cases "v = []")
  case True
  have "map_of (map prod.swap t) 0 = None"
    using assms(1) by (force simp: map_of_eq_None_iff table_ok_def)
  then show ?thesis using True by (simp add: name_of_def number_of_def opt_unwrap_or_def)
next
  case False
  then obtain n where n: "map_of t v = Some n" using assms(2) by (metis knows_def map_of_eq_None_iff option.exhaust)
  then have "(n, v) \<in> set (map prod.swap t)" by (force dest: map_of_SomeD)
  moreover have "distinct (map fst (map prod.swap t))" using assms(1) by (simp add: table_ok_def comp_def)
  ultimately have "map_of (map prod.swap t) n = Some v" by (metis map_of_is_SomeI)
  then show ?thesis using False n by (simp add: name_of_def number_of_def opt_unwrap_or_def)
qed

lemma number_of_le: "table_ok t \<Longrightarrow> number_of t v \<le> length t"
  by (auto simp: number_of_def opt_unwrap_or_def table_ok_def split: option.splits dest!: map_of_SomeD) force

definition u64_event :: "SemanticEvent \<Rightarrow> bool" where
  "u64_event e \<longleftrightarrow> ev_seq e < 2 ^ 64 \<and> ev_cycle e < 2 ^ 64 \<and> ev_clock_cycle e < 2 ^ 64 \<and> opt_unwrap_or (ev_tag e) 0 < 2 ^ 64 \<and>
     ev_vcd_time e < 2 ^ 128"

lemma all_tables_ok:
  assumes "length events < 2 ^ 32" "t \<in> set (all_tables (tables_of events))"
  shows "table_ok t \<and> length t < 2 ^ 32"
  using intern_all_ok [of default_tables events] assms
  by (auto simp: tables_of_def default_tables_def all_tables_def)

lemma read_lane_event:
  assumes "\<And>i n. (i, n) \<in> set (lane_changes m ids e) \<Longrightarrow> v i = Some n"
    and "knows_event m e" "u64_event e" "\<forall>t \<in> set (all_tables m). table_ok t \<and> length t < 2 ^ 32"
  shows "read_lane m (ev_vcd_time e) v ids = Some e"
proof -
  have num: "name_of t (number_of t s mod 4294967296) = s" if "t \<in> set (all_tables m)" "knows t s" for t s
    using that assms(4) name_of_number [of t s] number_of_le [of t s] by force
  have v: "v (si_valid ids) = Some 1" "v (si_seq ids) = Some (ev_seq e)" "v (si_cycle ids) = Some (ev_cycle e)"
    "v (si_clock_cycle ids) = Some (ev_clock_cycle e)" "v (si_tag ids) = Some (opt_unwrap_or (ev_tag e) 0)"
    "v (si_tag_valid ids) = Some (if ev_tag e = None then 0 else 1)"
    "v (si_event_type ids) = Some (number_of (st_event_type m) (ev_typ e) mod 2 ^ 32)"
    "v (si_clock_id ids) = Some (number_of (st_clock m) (ev_clock e) mod 2 ^ 32)"
    "v (si_component_id ids) = Some (number_of (st_component m) (ev_component e) mod 2 ^ 32)"
    "v (si_bus_id ids) = Some (number_of (st_bus m) (ev_bus e) mod 2 ^ 32)"
    "v (si_method_id ids) = Some (number_of (st_method m) (ev_method e) mod 2 ^ 32)"
    "v (si_phase_id ids) = Some (number_of (st_phase m) (ev_phase e) mod 2 ^ 32)"
    "v (si_direction_id ids) = Some (number_of (st_direction m) (ev_direction e) mod 2 ^ 32)"
    "v (si_label_id ids) = Some (number_of (st_label m) (ev_label e) mod 2 ^ 32)"
    using assms(3) by (auto simp: lane_changes_def u64_event_def intro!: assms(1))
  show ?thesis
    using assms(2) by (cases e) (auto simp: read_lane_def v num table_defs opt_unwrap_or_def)
qed

lemma map_filter_lanes:
  "length ys \<le> length xs \<Longrightarrow> (\<And>k. k < length ys \<Longrightarrow> f (xs ! k) = Some (ys ! k)) \<Longrightarrow>
   (\<And>k. length ys \<le> k \<Longrightarrow> k < length xs \<Longrightarrow> f (xs ! k) = None) \<Longrightarrow> List.map_filter f xs = ys"
proof (induction xs arbitrary: ys)
  case (Cons x xs)
  show ?case
  proof (cases ys)
    case Nil
    then have "f x = None" "\<And>k. k < length xs \<Longrightarrow> f (xs ! k) = None"
      using Cons.prems(3) [of 0] Cons.prems(3) [of "Suc _"] by auto
    then show ?thesis using Nil Cons.IH [of "[]"] by (simp add: List.map_filter_simps)
  next
    case (Cons y zs)
    then have "f x = Some y" using Cons.prems(2) [of 0] by simp
    moreover have "List.map_filter f xs = zs"
    proof (rule Cons.IH)
      show "f (xs ! k) = Some (zs ! k)" if "k < length zs" for k using Cons.prems(2) [of "Suc k"] that Cons by simp
      show "f (xs ! k) = None" if "length zs \<le> k" "k < length xs" for k using Cons.prems(3) [of "Suc k"] that Cons by simp
    qed (use Cons.prems(1) Cons in simp)
    ultimately show ?thesis using Cons by (simp add: List.map_filter_simps)
  qed
qed (simp add: List.map_filter_simps)

text \<open>
  C29. The lanes of a merged file carry the trace: a reader of the value changes after the time line of \<open>t\<close>, with the
  tables the merge returns, gets exactly the events of time \<open>t\<close> in the order of the trace, with all their fields.
\<close>

theorem lanes_read_back:
  assumes "length events < 2 ^ 32" "list_all u64_event events"
  shows "List.map_filter (read_lane (tables_of events) t
      (read_signal (block_lines (tables_of events) (lanes_of defs events) (events_at t events)))) (lanes_of defs events) =
    events_at t events"
proof (rule map_filter_lanes)
  let ?m = "tables_of events" and ?ids = "lanes_of defs events" and ?es = "events_at t events"
  have known: "list_all (knows_event ?m) ?es"
    by (auto simp: list_all_iff tables_of_def events_at_def intro!: knows_event_intern_all)
  have distinct: "distinct (concat (map signal_id_list ?ids))" unfolding lanes_of_def using signal_ids_fresh by blast
  show len: "length ?es \<le> length ?ids"
    using lane_count_ge [of t ?es "group_by_time events"] by (cases "?es = []") (auto simp: lanes_of_def group_by_time_iff)
  show "read_lane ?m t (read_signal (block_lines ?m ?ids ?es)) (?ids ! k) = Some (?es ! k)" if "k < length ?es" for k
  proof -
    have e: "?es ! k \<in> set events" "ev_vcd_time (?es ! k) = t" using nth_mem [OF that] by (auto simp: events_at_def)
    have "read_lane ?m (ev_vcd_time (?es ! k)) (read_signal (block_lines ?m ?ids ?es)) (?ids ! k) = Some (?es ! k)"
      using read_block_lane [OF known distinct that] that len known assms e(1) all_tables_ok [OF assms(1)]
      by (intro read_lane_event) (auto simp: list_all_iff list_all_length)
    then show ?thesis using e(2) by simp
  qed
  show "read_lane ?m t (read_signal (block_lines ?m ?ids ?es)) (?ids ! k) = None"
    if "length ?es \<le> k" "k < length ?ids" for k
    using read_block_idle [OF known distinct that] by (simp add: read_lane_def)
qed

section \<open>The merged text\<close>

lemma strip_harc: "strip_cr (x @ harc_id k) = x @ harc_id k"
proof -
  obtain ds d where ds: "show_nat k = ds @ [d]" by (metis append_butlast_last_id show_nat_not_Nil)
  then have "is_ascii_digit d" using show_nat_digits [of d k] by simp
  then have "d \<noteq> CHR 0x0D" by (auto simp: is_ascii_digit_def)
  then show ?thesis by (simp add: strip_cr_def harc_id_def ds)
qed

definition ends_in :: "string set \<Rightarrow> string \<Rightarrow> bool" where
  "ends_in S l \<longleftrightarrow> (\<exists>x. \<exists>i \<in> S. l = x @ i)"

lemma ends_in_simps:
  "i \<in> S \<Longrightarrow> list_all (ends_in S) (emit_int i v w)" "i \<in> S \<Longrightarrow> ends_in S (c # i)"
proof -
  show "list_all (ends_in S) (emit_int i v w)" if "i \<in> S"
    using that unfolding ends_in_def emit_int_def by (simp flip: append_assoc append_Cons) blast
  show "ends_in S (c # i)" if "i \<in> S" using that unfolding ends_in_def by (metis append_Cons append_Nil)
qed

lemma ends_in_event_lines: "list_all (ends_in (set (signal_id_list ids))) (event_lines m ids e)"
  by (simp add: event_lines_eq ends_in_simps signal_id_list_def)

lemma ends_in_block_lines:
  "list_all (ends_in (set (concat (map signal_id_list signal_ids)))) (block_lines m signal_ids es)"
proof -
  let ?S = "set (concat (map signal_id_list signal_ids))"
  have mono: "ends_in A l \<Longrightarrow> A \<subseteq> B \<Longrightarrow> ends_in B l" for A B l unfolding ends_in_def by blast
  have sub: "set (signal_id_list ids) \<subseteq> ?S" if "ids \<in> set signal_ids" for ids using that by auto
  have "ends_in ?S l" if "ids \<in> set signal_ids" "l \<in> set (event_lines m ids e)" for ids e l
    using ends_in_event_lines [of ids m e] that(2) mono [OF _ sub [OF that(1)]] by (simp only: list_all_iff)
  moreover have "ends_in ?S (''0'' @ si_valid ids) \<and> ends_in ?S (''0'' @ si_tag_valid ids)" if "ids \<in> set signal_ids" for ids
    using that by (auto simp: signal_id_list_def intro!: ends_in_simps)
  ultimately show ?thesis
    by (auto simp: block_lines_def emit_valid_zero_def list_all_iff dest!: set_zip_leftD)
qed

lemma strip_block_lines: "map strip_cr (block_lines m (lanes_of defs events) es) = block_lines m (lanes_of defs events) es"
proof (rule map_idI)
  let ?ids = "lanes_of defs events"
  fix l assume "l \<in> set (block_lines m ?ids es)"
  then have "ends_in (set (concat (map signal_id_list ?ids))) l"
    using ends_in_block_lines [of ?ids m es] by (simp only: list_all_iff)
  then obtain x i where i: "i \<in> set (concat (map signal_id_list ?ids))" "l = x @ i" unfolding ends_in_def by blast
  then obtain k where "i = harc_id k" using signal_ids_harc by (fastforce simp: lanes_of_def)
  then show "strip_cr l = l" using i(2) strip_harc by simp
qed

lemma carries_strip:
  "carries m (lanes_of defs events) ls t es \<Longrightarrow> carries m (lanes_of defs events) (map strip_cr ls) t es"
  unfolding carries_def by (auto simp: strip_block_lines) (metis line_time_strip_cr)

text \<open>
  C28. A waveform with no time line in its header and non-decreasing times in its body always merges: the result has
  every line of the waveform in order, its times do not decrease, and every event of the trace is written, with the
  other events of its time, right after a time line of its time.
\<close>

theorem merge_keeps_order:
  assumes vcd: "lines vcd = hdr @ enddefs # body" "list_all (\<lambda>l. \<not> is_enddefinitions l) hdr" "is_enddefinitions enddefs"
    and times: "times_of hdr = []" "sorted (times_of body)" and events: "list_all (\<lambda>e. ev_vcd_time e < 2 ^ 128) events"
  shows "\<exists>out. merge_trace_into_vcd vcd events = Ok (out, tables_of events) \<and>
    subseq (map strip_cr (lines vcd)) (lines out) \<and> sorted (times_of (lines out)) \<and>
    (\<forall>e \<in> set events. carries (tables_of events) (lanes_of (hdr @ [enddefs]) events) (lines out) (ev_vcd_time e)
       (events_at (ev_vcd_time e) events))"
proof -
  have clean: "clean hdr" "LF \<notin> set enddefs" "clean body"
    using lines_no_LF [of _ vcd] vcd(1) by (auto simp: clean_def)
  obtain out where out: "merge_parts hdr enddefs body events = Ok (out, tables_of events)" "clean out"
      "subseq (hdr @ enddefs # body) out" "sorted (times_of out)"
      "\<forall>(t, es) \<in> set (group_by_time events). carries (tables_of events) (lanes_of (hdr @ [enddefs]) events) out t es"
    using merge_parts_known [OF clean enddefinitions_time [OF vcd(3)] times events [unfolded list_all_iff]] by blast
  have "takeWhile (\<lambda>l. \<not> is_enddefinitions l) (lines vcd) = hdr"
    "dropWhile (\<lambda>l. \<not> is_enddefinitions l) (lines vcd) = enddefs # body"
    using vcd by (simp_all add: vcd(1) takeWhile_append2 dropWhile_append2 list_all_iff)
  then have "merge_trace_into_vcd vcd events = Ok (unlines out, tables_of events)"
    using out(1) by (simp add: merge_trace_into_vcd_def)
  moreover have ls: "lines (unlines out) = map strip_cr out" using out(2) by (intro lines_unlines) (simp add: clean_def)
  moreover have "carries (tables_of events) (lanes_of (hdr @ [enddefs]) events) (map strip_cr out) (ev_vcd_time e)
       (events_at (ev_vcd_time e) events)" if "e \<in> set events" for e
  proof -
    have "events_at (ev_vcd_time e) events \<noteq> []" using that by (auto simp: events_at_def filter_empty_conv)
    then have "(ev_vcd_time e, events_at (ev_vcd_time e) events) \<in> set (group_by_time events)" by (simp add: group_by_time_iff)
    with out(5) show ?thesis by (intro carries_strip) auto
  qed
  ultimately show ?thesis using subseq_map [OF out(3), of strip_cr] out(4) vcd(1) by (auto simp: times_of_strip_cr)
qed

section \<open>Reading the table file back\<close>

definition json_entry :: "string \<times> nat \<Rightarrow> string" where
  "json_entry p = [LF] @ ''    '' @ [CHR 0x22] @ show_nat (snd p) @ [CHR 0x22] @ '': '' @ [CHR 0x22] @ json_escape (fst p) @ [CHR 0x22]"

definition table_object :: "IdTable \<Rightarrow> string" where
  "table_object table = ''{'' @ json_entries table @ (if table \<noteq> [] then [LF] @ ''  '' else []) @ ''}''"

lemma json_entries_eq: "json_entries table = join '','' (map json_entry table)"
  unfolding json_entries_def json_entry_def case_prod_beta by (rule refl)

lemma drop_append_at: "drop i xs = x @ r \<Longrightarrow> j = i + length x \<Longrightarrow> drop j xs = r"
  using drop_append_len by blast

lemma get_byte_drop: "drop i bytes = c # r \<Longrightarrow> get_byte bytes i = Some c"
  using drop_ConsD [of i bytes c r] by (simp add: get_byte_def)

lemma skip_ws_drop:
  assumes "drop i bytes = ws @ c # r" "list_all is_json_ws ws" "\<not> is_json_ws c"
  shows "skip_ws bytes i = i + length ws"
  using assms
proof (induction ws arbitrary: i)
  case Nil
  then show ?case using drop_ConsD [of i bytes c r] by (subst skip_ws_def, subst skip_while.simps) simp
next
  case (Cons w ws)
  have d: "drop i bytes = w # ws @ c # r" using Cons.prems(1) by simp
  have "skip_ws bytes i = skip_ws bytes (Suc i)"
    using drop_ConsD(1,2) [OF d] Cons.prems(2) unfolding skip_ws_def by (subst skip_while.simps) simp
  also have "\<dots> = Suc i + length ws" using Cons.IH [OF drop_ConsD(3) [OF d]] Cons.prems by simp
  finally show ?case by simp
qed

lemma json_escape_digits: "json_escape (show_nat n) = show_nat n" and utf8_show_nat: "utf8_valid (show_nat n)"
proof -
  have "json_escape_byte c = [c]" if "is_ascii_digit c" for c
    using that by (auto simp: json_escape_byte_def is_ascii_digit_def)
  then have "json_escape s = s" if "\<forall>c \<in> set s. is_ascii_digit c" for s
    using that by (induction s) (auto simp: json_escape_def)
  then show "json_escape (show_nat n) = show_nat n" using show_nat_digits by blast
  show "utf8_valid (show_nat n)"
    using show_nat_digits [of _ n] by (intro utf8_valid_ascii) (fastforce simp: is_ascii_digit_def)
qed

text \<open>One member of the object, up to the comma or brace after it.\<close>

lemma json_members_entry:
  assumes d: "drop i bytes = json_entry (v, n) @ r" and v: "utf8_valid v"
  shows "\<exists>j. drop j bytes = r \<and> json_members bytes i out =
    (let i = skip_ws bytes j in
     if get_byte bytes i = Some (CHR '','') then json_members bytes (i + 1) (out(show_nat n \<mapsto> JString v))
     else if get_byte bytes i = Some (CHR ''}'') then Ok (out(show_nat n \<mapsto> JString v))
     else Err (Msg ''expected `,` or `}`''))"
proof -
  let ?q = "CHR 0x22"
  let ?val = "?q # json_escape v @ ?q # r" and ?i2 = "i + 5 + length (show_nat n) + 2"
  let ?i3 = "?i2 + 2" and ?j = "?i2 + 2 + length (json_escape v) + 2"
  have d0: "drop i bytes = (LF # ''    '') @ ?q # show_nat n @ ?q # '': '' @ ?val"
    using d by (simp add: json_entry_def)
  have ws: "list_all is_json_ws (LF # ''    '')" "list_all is_json_ws '' ''" "\<not> is_json_ws ?q" "\<not> is_json_ws (CHR '':'')"
    by (simp_all add: is_json_ws_def LF_def)
  have i1: "skip_ws bytes i = i + 5" using skip_ws_drop [OF d0 ws(1,3)] by simp
  have d1: "drop (i + 5) bytes = ?q # json_escape (show_nat n) @ ?q # '': '' @ ?val"
    using drop_append_at [OF d0, of "i + 5"] by (simp add: json_escape_digits)
  have key: "parse_json_string bytes (i + 5) = Ok (show_nat n, ?i2)"
    using parse_escaped_string [OF utf8_show_nat d1] by (simp add: json_escape_digits)
  have d2: "drop ?i2 bytes = CHR '':'' # '' '' @ ?val"
    by (rule drop_append_at [of "i + 5" bytes "?q # show_nat n @ [?q]"]) (simp_all add: d1 json_escape_digits)
  have d2': "drop (?i2 + 1) bytes = '' '' @ ?val" using drop_ConsD(3) [OF d2] by simp
  have d3: "drop ?i3 bytes = ?val" by (rule drop_append_at [OF d2']) simp
  have colon: "skip_ws bytes ?i2 = ?i2" "skip_ws bytes (?i2 + 1) = ?i3"
    using skip_ws_drop [of ?i2 bytes "[]"] d2 ws(4) skip_ws_drop [OF d2' ws(2,3)] by simp_all
  have val: "parse_json_value bytes ?i3 = Ok (JString v, ?j)"
    using get_byte_drop [OF d3] parse_escaped_string [OF v d3] by (simp add: parse_json_value_def)
  have "drop ?j bytes = r"
    by (rule drop_append_at [of ?i3 bytes "?q # json_escape v @ [?q]"]) (use d3 in simp, simp)
  moreover have "get_byte bytes (i + 5) = Some ?q" "get_byte bytes ?i2 = Some (CHR '':'')"
    using get_byte_drop [OF d1] get_byte_drop [OF d2] by auto
  ultimately show ?thesis
    using i1 key colon val by (intro exI [of _ ?j]) (subst json_members.simps, simp add: Let_def)
qed

lemma json_members_table:
  "drop i bytes = json_entries table @ [LF] @ ''  '' @ ''}'' @ r \<Longrightarrow> table \<noteq> [] \<Longrightarrow> list_all (utf8_valid \<circ> fst) table \<Longrightarrow>
   json_members bytes i out = Ok (out ++ map_of (rev (map (\<lambda>(v, n). (show_nat n, JString v)) table)))"
proof (induction table arbitrary: i out)
  case (Cons p table)
  obtain v n where p: "p = (v, n)" by fastforce
  let ?out = "out(show_nat n \<mapsto> JString v)"
  let ?r = "if table = [] then [LF] @ ''  '' @ ''}'' @ r else '','' @ json_entries table @ [LF] @ ''  '' @ ''}'' @ r"
  have "drop i bytes = json_entry (v, n) @ ?r"
    using Cons.prems(1) by (simp add: p json_entries_eq join_Cons)
  then obtain j where j: "drop j bytes = ?r" "json_members bytes i out =
    (let i = skip_ws bytes j in
     if get_byte bytes i = Some (CHR '','') then json_members bytes (i + 1) ?out
     else if get_byte bytes i = Some (CHR ''}'') then Ok ?out
     else Err (Msg ''expected `,` or `}`''))"
    using json_members_entry [of i bytes v n ?r out] Cons.prems(3) by (auto simp: p)
  show ?case
  proof (cases "table = []")
    case True
    then have d: "drop j bytes = (LF # ''  '') @ CHR ''}'' # r" using j(1) by simp
    have "skip_ws bytes j = j + 3" using skip_ws_drop [OF d] by (simp add: is_json_ws_def LF_def)
    moreover have "drop (j + 3) bytes = CHR ''}'' # r" by (rule drop_append_at [OF d]) simp
    then have "get_byte bytes (j + 3) = Some (CHR ''}'')" by (rule get_byte_drop)
    ultimately show ?thesis using j(2) True by (simp add: p map_add_def fun_eq_iff)
  next
    case False
    then have d: "drop j bytes = CHR '','' # json_entries table @ [LF] @ ''  '' @ ''}'' @ r" using j(1) by simp
    have "skip_ws bytes j = j" using skip_ws_drop [of j bytes "[]"] d by (simp add: is_json_ws_def)
    then have "json_members bytes i out = json_members bytes (Suc j) ?out" using j(2) get_byte_drop [OF d] by simp
    also have "\<dots> = Ok (?out ++ map_of (rev (map (\<lambda>(v, n). (show_nat n, JString v)) table)))"
      using Cons.IH [OF drop_ConsD(3) [OF d] False] Cons.prems(3) by simp
    finally show ?thesis by (simp add: p map_add_assoc)
  qed
qed simp

lemma parse_table_object:
  assumes "table_ok table" "list_all (utf8_valid \<circ> fst) table"
  shows "parse_json_object_top (table_object table) = Ok (map_of (map (\<lambda>(v, n). (show_nat n, JString v)) table))"
proof -
  have d0: "drop 0 (table_object table) = [] @ CHR ''{'' # json_entries table @ (if table \<noteq> [] then [LF] @ ''  '' else []) @ ''}''"
    by (simp add: table_object_def)
  have i: "skip_ws (table_object table) 0 = 0" "get_byte (table_object table) 0 = Some (CHR ''{'')"
    using skip_ws_drop [OF d0] get_byte_drop [of 0 "table_object table"] d0 by (simp_all add: is_json_ws_def)
  have "distinct (map fst (map (\<lambda>(v, n). (show_nat n, JString v)) table))"
    using assms(1) by (simp add: table_ok_def distinct_map comp_def case_prod_beta inj_on_def)
  note rev = map_of_rev_distinct [OF this]
  show ?thesis
  proof (cases "table = []")
    case True
    then have "json_members (table_object table) 1 Map.empty = Ok Map.empty"
      by (subst json_members.simps) (simp add: table_object_def json_entries_eq skip_ws_def skip_while.simps is_json_ws_def get_byte_def)
    then show ?thesis using i True by (simp add: parse_json_object_top_def)
  next
    case False
    have "drop 1 (table_object table) = json_entries table @ [LF] @ ''  '' @ ''}'' @ []" using False by (simp add: table_object_def)
    from json_members_table [OF this False assms(2), of Map.empty] show ?thesis
      using i rev by (simp add: parse_json_object_top_def)
  qed
qed

lemma render_json_table_object:
  "render_json_table name table first =
     (if first then [] else '','' @ [LF]) @ ''  '' @ [CHR 0x22] @ json_escape name @ [CHR 0x22] @ '': '' @ table_object table"
  by (simp add: render_json_table_def table_object_def)


section \<open>Reading the trace\<close>

lemma uint_field_bound: "uint_field bits flds key = Some n \<Longrightarrow> n < 2 ^ bits"
  by (auto simp: uint_field_def parse_uint_def Let_def split: option.splits JsonValue.splits if_splits)

lemma opt_unwrap_or_bound: "(\<And>n. x = Some n \<Longrightarrow> n < k) \<Longrightarrow> d < k \<Longrightarrow> opt_unwrap_or x d < k"
  by (simp add: opt_unwrap_or_def split: option.split)

lemma parse_trace_line_fields:
  assumes "parse_trace_line n line = Ok (Some e)"
  obtains flds where "u128_field flds ''vcd_time'' = Some (ev_vcd_time e)" "ev_cycle e = opt_unwrap_or (u64_field flds ''cycle'') 0"
    "ev_seq e = opt_unwrap_or (u64_field flds ''seq'') n"
    "ev_clock_cycle e = opt_unwrap_or (u64_field flds ''clock_cycle'') (ev_cycle e)" "ev_tag e = u64_field flds ''tag''"
proof (cases "str_trim line = []")
  case True
  then show ?thesis using assms by (simp add: parse_trace_line_def)
next
  case False
  from assms obtain flds where flds: "parse_json_object_top (str_trim line) = Ok flds"
    by (cases "parse_json_object_top (str_trim line)") (simp_all add: parse_trace_line_def Let_def False)
  note e = assms [unfolded parse_trace_line_def Let_def flds try_Inr if_not_P [OF False]]
  let ?ty = "opt_unwrap_or (string_field flds ''type'') []"
  have ty: "\<not> (?ty = [] \<or> ?ty = ''meta'')" using e by (rule contrapos_pn) (simp only: if_True simp_thms sum.inject option.distinct)
  obtain t where t: "u128_field flds ''vcd_time'' = Some t"
    using e [unfolded if_not_P [OF ty]] by (cases "u128_field flds ''vcd_time''") simp_all
  note r = e [unfolded if_not_P [OF ty] t option.case sum.inject option.inject, symmetric]
  show ?thesis using t by (intro that [of flds]) (simp_all add: r)
qed

lemma parse_trace_line_u64: "parse_trace_line n line = Ok (Some e) \<Longrightarrow> n < 2 ^ 64 \<Longrightarrow> u64_event e"
  by (erule parse_trace_line_fields)
    (simp only: u64_event_def u64_field_def u128_field_def,
     intro conjI opt_unwrap_or_bound; (erule uint_field_bound | simp)+)

lemma parse_trace_lines_u64:
  "parse_trace_lines idx ls out = Ok es \<Longrightarrow> length out + length ls < 2 ^ 64 \<Longrightarrow> list_all u64_event out \<Longrightarrow>
   list_all u64_event es \<and> length es \<le> length out + length ls"
  by (induction idx ls out rule: parse_trace_lines.induct)
    (fastforce split: sum.splits option.splits dest: parse_trace_line_u64)+


lemma parse_trace_events_ok:
  assumes "parse_trace_events trace = Ok events" "length (lines trace) < 2 ^ 64"
  shows "list_all u64_event events" "length events \<le> length (lines trace)" "sorted (map event_key events)"
proof -
  obtain es where "parse_trace_lines 0 (lines trace) [] = Ok es" "events = sort_key event_key es"
    using assms(1) by (auto simp: parse_trace_events_def result_simps)
  with parse_trace_lines_u64 [of 0 "lines trace" "[]" es] assms(2)
  show "list_all u64_event events" "length events \<le> length (lines trace)" "sorted (map event_key events)"
    by (auto simp: list_all_iff)
qed

section \<open>Properties\<close>

definition demo_event :: SemanticEvent where
  "demo_event = \<lparr>ev_typ = ''log'', ev_seq = 2, ev_cycle = 4294967296, ev_vcd_time = 5, ev_clock = ''clk'', ev_clock_cycle = 3,
     ev_component = [], ev_bus = [], ev_method = [], ev_phase = [], ev_direction = [], ev_tag = Some 1, ev_label = ''log: wide''\<rparr>"

definition demo_vcd :: string where
  "demo_vcd = unlines [''$var wire 1 ! clk $end'', ''$enddefinitions $end'', ''#0'', ''0!'', ''#7'', ''1!'']"

lemma demo_lines:
  "lines demo_vcd = [''$var wire 1 ! clk $end'', ''$enddefinitions $end'', ''#0'', ''0!'', ''#7'', ''1!'']"
  unfolding demo_vcd_def by (subst lines_unlines) (simp_all add: strip_cr_def)

lemma demo_times: "line_time ''#0'' = Some 0" "line_time ''#7'' = Some 7" "line_time ''0!'' = None" "line_time ''1!'' = None"
  "line_time ''$var wire 1 ! clk $end'' = None"
proof -
  have "show_nat 0 = ''0''" "show_nat 7 = ''7''" by code_simp+
  then show "line_time ''#0'' = Some 0" "line_time ''#7'' = Some 7"
    using line_time_time_line [of 0] line_time_time_line [of 7] by (simp_all add: time_line_def)
qed (simp_all add: line_time_plain)

lemma demo_enddefs: "is_enddefinitions ''$enddefinitions $end''" "\<not> is_enddefinitions ''$var wire 1 ! clk $end''"
proof -
  have "str_trim (CHR ''$'' # s @ ''d'') = CHR ''$'' # s @ ''d''" for s
    using trim_end_plain [of "CHR ''d''" "CHR ''$'' # s"] by (simp add: str_trim_def trim_start_plain)
  from this [of "''enddefinitions $en''"] this [of "''var wire 1 ! clk $en''"]
  show "is_enddefinitions ''$enddefinitions $end''" "\<not> is_enddefinitions ''$var wire 1 ! clk $end''"
    by (simp_all add: is_enddefinitions_def)
qed

theorem merge_keeps_order_witness:
  "\<exists>out. merge_trace_into_vcd demo_vcd [demo_event] = Ok (out, tables_of [demo_event]) \<and>
    subseq (map strip_cr (lines demo_vcd)) (lines out) \<and> sorted (times_of (lines out))"
proof -
  have "lines demo_vcd = [''$var wire 1 ! clk $end''] @ ''$enddefinitions $end'' # [''#0'', ''0!'', ''#7'', ''1!'']"
    by (simp only: demo_lines append_Cons append_Nil)
  from merge_keeps_order [OF this, of "[demo_event]"] show ?thesis
    using demo_times demo_enddefs by (auto simp: demo_event_def)
qed

theorem lanes_read_back_witness:
  "List.map_filter (read_lane (tables_of [demo_event]) 5
      (read_signal (block_lines (tables_of [demo_event]) (lanes_of [''$enddefinitions $end''] [demo_event]) [demo_event])))
      (lanes_of [''$enddefinitions $end''] [demo_event]) = [demo_event]"
  using lanes_read_back [of "[demo_event]" 5 "[''$enddefinitions $end'']"]
  by (simp add: u64_event_def demo_event_def events_at_def opt_unwrap_or_def)

lemma collect_vcd_ids_declared:
  "line \<in> set defs \<Longrightarrow> split_whitespace line = ''$var'' # kind # width # ident # name # rest \<Longrightarrow> ident \<in> set (collect_vcd_ids defs)"
  by (induction defs) (auto simp: collect_vcd_ids_def List.map_filter_simps Let_def split: option.splits)

text \<open>
  C33. The identifiers of the lanes differ from each other and from every identifier a header line declares: for a
  line whose words are the \<^verbatim>\<open>$var\<close> keyword, a type, a width, an identifier, a name and possibly more, the identifier is not
  that of a lane.  A declaration that is split over several lines is not looked at.
\<close>

theorem lane_ids_fresh:
  "distinct (concat (map signal_id_list (lanes_of defs events))) \<and>
   (\<forall>line kind width ident name rest. line \<in> set defs \<and> split_whitespace line = ''$var'' # kind # width # ident # name # rest \<longrightarrow>
      ident \<notin> set (concat (map signal_id_list (lanes_of defs events))))"
  using signal_ids_fresh [of "lane_count (group_by_time events)" "\<lparr>used = collect_vcd_ids defs, next_id = 0\<rparr>"]
    collect_vcd_ids_declared [of _ defs]
  by (fastforce simp: lanes_of_def)

theorem lane_ids_fresh_witness:
  "''HARC0'' \<notin> set (concat (map signal_id_list (lanes_of [''$var wire 1 HARC0 clk $end''] [demo_event])))"
proof -
  have "split_whitespace ''$var wire 1 HARC0 clk $end'' = [''$var'', ''wire'', ''1'', ''HARC0'', ''clk'', ''$end'']" by code_simp
  then show ?thesis using lane_ids_fresh [of "[''$var wire 1 HARC0 clk $end'']" "[demo_event]"] by auto
qed

text \<open>
  C31. Each table of the table file is a JSON object that the merger's own reader reads back as the table's numbers and
  strings, whatever bytes of UTF-8 the strings hold.
\<close>

theorem table_file_read_back:
  assumes "length events < 2 ^ 32" "table \<in> set (all_tables (tables_of events))" "list_all (utf8_valid \<circ> fst) table"
  shows "\<exists>lead obj. render_json_table name table first = lead @ obj \<and>
    parse_json_object_top obj = Ok (map_of (map (\<lambda>(v, n). (show_nat n, JString v)) table))"
  using parse_table_object [OF _ assms(3)] all_tables_ok [OF assms(1,2)] render_json_table_object [of name table first]
  by (metis append_assoc)

lemma demo_table: "st_label (tables_of [demo_event]) = [(''log: wide'', 1)]"
  by (simp add: tables_of_def intern_event_def default_tables_def table_id_def demo_event_def Let_def)

theorem table_file_read_back_witness:
  "\<exists>lead obj. render_json_table ''label'' [(''log: wide'', 1)] False = lead @ obj \<and>
    parse_json_object_top obj = Ok [show_nat 1 \<mapsto> JString ''log: wide'']"
proof -
  have "utf8_valid ''log: wide''" by (rule utf8_valid_ascii) simp
  then show ?thesis
    using table_file_read_back [of "[demo_event]" "[(''log: wide'', 1)]" "''label''" False] demo_table
    by (simp add: all_tables_def) 
qed

lemma merge_body_pending:
  "pending_ok (ms_maps st) signal_ids (ms_pending st) \<Longrightarrow> clean_ids signal_ids \<Longrightarrow>
   \<exists>st'. merge_body signal_ids ls st = Some st' \<and> ms_maps st' = ms_maps st \<and>
     ms_pending st' = filter (\<lambda>p. \<forall>b \<in> set (times_of ls). b < fst p) (ms_pending st)"
proof (induction ls arbitrary: st)
  case (Cons l ls)
  show ?case
  proof (cases "line_time l")
    case None
    then show ?thesis using Cons.IH [of "st\<lparr>ms_out := ms_out st @ [l]\<rparr>"] Cons.prems by (simp add: merge_line_def)
  next
    case (Some t)
    obtain st1 where st1: "merge_line signal_ids l st = Some st1" "ms_maps st1 = ms_maps st"
      "ms_pending st1 = filter (\<lambda>p. t < fst p) (ms_pending st)"
      using merge_line_known [OF Cons.prems(1) Some Cons.prems(2)] by (elim exE conjE) auto
    then show ?thesis
      using Cons.IH [of st1] Cons.prems(2) pending_ok_filter [OF Cons.prems(1)] Some by (auto simp: conj_commute)
  qed
qed auto

lemma merge_tail_Err:
  assumes ok: "pending_ok (ms_maps st) signal_ids (ms_pending st)"
  shows "merge_tail signal_ids last_time st = Err e \<longleftrightarrow>
    ms_pending st \<noteq> [] \<and> fst (hd (ms_pending st)) < last_time \<and> e = TimeBackwards (fst (hd (ms_pending st)))"
proof (cases "ms_pending st")
  case Nil
  then show ?thesis by (subst merge_tail.simps) simp
next
  case (Cons p ps)
  show ?thesis
  proof (cases "fst p < last_time")
    case True
    then show ?thesis using Cons by (subst merge_tail.simps) (auto split: prod.splits)
  next
    case False
    have "\<forall>q \<in> set (ms_pending st). last_time \<le> fst q"
      using ok False by (auto simp: pending_ok_def Cons)
    from merge_tail_known [OF ok this] False show ?thesis by (auto simp: Cons)
  qed
qed

text \<open>The earliest event that is later than every time of the body: the first one to be written after it.\<close>

definition first_after :: "SemanticEvent list \<Rightarrow> string list \<Rightarrow> nat \<Rightarrow> bool" where
  "first_after events body t \<longleftrightarrow>
     (let late = filter (\<lambda>u. \<forall>b \<in> set (times_of body). b < u) (map ev_vcd_time events)
      in t \<in> set late \<and> (\<forall>u \<in> set late. t \<le> u))"

lemma first_after_hd:
  defines "rest body events \<equiv> filter (\<lambda>p. \<forall>b \<in> set (times_of body). b < fst p) (group_by_time events)"
  shows "first_after events body t \<longleftrightarrow> rest body events \<noteq> [] \<and> t = fst (hd (rest body events))"
proof -
  have "u \<in> fst ` set (group_by_time events) \<longleftrightarrow> events_at u events \<noteq> []" for u
  proof -
    have "u \<in> fst ` set (group_by_time events) \<longleftrightarrow> (\<exists>es. (u, es) \<in> set (group_by_time events))" by force
    then show ?thesis unfolding group_by_time_iff by simp
  qed
  moreover have "events_at u events \<noteq> [] \<longleftrightarrow> u \<in> ev_vcd_time ` set events" for u
    by (auto simp: events_at_def filter_empty_conv)
  ultimately have "fst ` set (group_by_time events) = ev_vcd_time ` set events" by blast
  then have late: "set (filter (\<lambda>u. \<forall>b \<in> set (times_of body). b < u) (map ev_vcd_time events)) = fst ` set (rest body events)"
  proof -
    assume eq: "fst ` set (group_by_time events) = ev_vcd_time ` set events"
    have "set (filter P (map ev_vcd_time events)) = {u \<in> fst ` set (group_by_time events). P u}" for P
      unfolding eq by auto
    then show ?thesis unfolding rest_def by auto
  qed
  have "sorted (map fst (rest body events))"
    using group_by_time_map [of events] unfolding rest_def bt_ordered_def
    by (metis sorted_map_same sorted_filter strict_sorted_iff)
  then have "rest body events \<noteq> [] \<Longrightarrow> \<forall>p \<in> set (rest body events). fst (hd (rest body events)) \<le> fst p"
    by (cases "rest body events") auto
  then show ?thesis
    unfolding first_after_def Let_def late by (cases "rest body events = []") (auto intro: order_antisym)
qed


lemma first_after_last:
  assumes "first_after events body t" "is_enddefinitions enddefs"
  shows "t < fold max (times_of (hdr @ enddefs # body)) 0 \<longleftrightarrow> (\<exists>h \<in> set (times_of hdr). t < h)"
proof -
  have "\<forall>b \<in> set (times_of body). b < t" using assms(1) by (auto simp: first_after_def Let_def)
  moreover have "t < fold max (times_of (hdr @ enddefs # body)) 0 \<longleftrightarrow> (\<exists>h \<in> set (times_of (hdr @ enddefs # body)). t < h)"
    using fold_max_le [of 0 t "times_of (hdr @ enddefs # body)"] fold_max_ge [of _ 0 "times_of (hdr @ enddefs # body)"]
    by (meson insertI2 le_less_trans less_le_trans linorder_not_le zero_le)
  ultimately show ?thesis using enddefinitions_time [OF assms(2)] by (auto dest: less_asym)
qed

lemma merge_Err_at:
  assumes events: "list_all (\<lambda>e. ev_vcd_time e < 2 ^ 128) events"
    and vcd: "lines vcd = hdr @ enddefs # body" "list_all (\<lambda>l. \<not> is_enddefinitions l) hdr" "is_enddefinitions enddefs"
  shows "merge_trace_into_vcd vcd events = Err err \<longleftrightarrow>
    (\<exists>t. first_after events body t \<and> (\<exists>h \<in> set (times_of hdr). t < h) \<and> err = TimeBackwards t)"
proof -
  let ?ids = "lanes_of (hdr @ [enddefs]) events" and ?last = "fold max (times_of (hdr @ enddefs # body)) 0"
  let ?st = "\<lparr>ms_out = hdr @ emit_semantic_header ?ids (tables_of events) @ [enddefs], ms_active = False,
    ms_pending = group_by_time events, ms_maps = tables_of events\<rparr>"
  let ?rest = "filter (\<lambda>p. \<forall>b \<in> set (times_of body). b < fst p) (group_by_time events)"
  have split: "takeWhile (\<lambda>l. \<not> is_enddefinitions l) (lines vcd) = hdr"
    "dropWhile (\<lambda>l. \<not> is_enddefinitions l) (lines vcd) = enddefs # body"
    using vcd by (simp_all add: list_all_iff)
  have ok: "pending_ok (tables_of events) ?ids (group_by_time events)"
    using merge_pending_ok [of events] events by (simp add: list_all_iff)
  then obtain st' where st': "merge_body ?ids body ?st = Some st'" "ms_maps st' = tables_of events" "ms_pending st' = ?rest"
    using merge_body_pending [of ?st ?ids body] by (auto simp: lanes_of_def clean_signal_ids)
  have "merge_trace_into_vcd vcd events = Err err \<longleftrightarrow> merge_tail ?ids ?last st' = Err err"
    using split st'(1)
    by (auto simp: merge_trace_into_vcd_def merge_parts_def Let_def result_simps lanes_of_def tables_of_def intern_all_def
        split: option.splits)
  also have "\<dots> \<longleftrightarrow> ?rest \<noteq> [] \<and> fst (hd ?rest) < ?last \<and> err = TimeBackwards (fst (hd ?rest))"
    using merge_tail_Err [of st' ?ids ?last err] pending_ok_filter [OF ok] by (simp add: st'(2,3))
  also have "\<dots> \<longleftrightarrow> (\<exists>t. first_after events body t \<and> t < ?last \<and> err = TimeBackwards t)"
    unfolding first_after_hd by blast
  finally show ?thesis using first_after_last [OF _ vcd(3)] by blast
qed

text \<open>
  C30. When a merge of events with \<^verbatim>\<open>u128\<close> times fails: exactly when no line of the waveform ends the definitions, or when the
  first event that is later than every time of the body is earlier than a time stamp in the definitions before it; the error names
  that event's time.  In every other case the merge returns a file: a lane never runs out.
\<close>

theorem merge_fails_exactly:
  assumes "list_all (\<lambda>e. ev_vcd_time e < 2 ^ 128) events"
  shows "merge_trace_into_vcd vcd events = Err err \<longleftrightarrow>
    err = NoEnddefinitions \<and> list_all (\<lambda>l. \<not> is_enddefinitions l) (lines vcd) \<or>
    (\<exists>hdr enddefs body t. lines vcd = hdr @ enddefs # body \<and> list_all (\<lambda>l. \<not> is_enddefinitions l) hdr \<and>
       is_enddefinitions enddefs \<and> first_after events body t \<and> (\<exists>h \<in> set (times_of hdr). t < h) \<and> err = TimeBackwards t)"
proof (cases "list_all (\<lambda>l. \<not> is_enddefinitions l) (lines vcd)")
  case True
  then have "dropWhile (\<lambda>l. \<not> is_enddefinitions l) (lines vcd) = []" by (simp add: list_all_iff)
  then have "merge_trace_into_vcd vcd events = Err NoEnddefinitions"
    unfolding merge_trace_into_vcd_def Let_def by (simp only: list.case)
  then show ?thesis using True by auto
next
  case False
  then obtain hdr enddefs body where vcd: "lines vcd = hdr @ enddefs # body" "list_all (\<lambda>l. \<not> is_enddefinitions l) hdr"
    "is_enddefinitions enddefs"
    using split_list_first_prop [of "lines vcd" is_enddefinitions] by (auto simp: list_all_iff)
  show ?thesis (is "?err \<longleftrightarrow> ?none \<or> ?late")
  proof
    assume ?err
    then have "\<exists>t. first_after events body t \<and> (\<exists>h \<in> set (times_of hdr). t < h) \<and> err = TimeBackwards t"
      unfolding merge_Err_at [OF assms vcd] .
    then show "?none \<or> ?late" using vcd by (intro disjI2 exI [of _ hdr] exI [of _ enddefs] exI [of _ body]) simp
  next
    assume "?none \<or> ?late"
    then obtain hdr' enddefs' body' t where late: "lines vcd = hdr' @ enddefs' # body'"
      "list_all (\<lambda>l. \<not> is_enddefinitions l) hdr'" "is_enddefinitions enddefs'"
      "first_after events body' t" "\<exists>h \<in> set (times_of hdr'). t < h" "err = TimeBackwards t"
      using False by (elim disjE exE conjE) simp_all
    show ?err unfolding merge_Err_at [OF assms late(1-3)] by (intro exI [of _ t] conjI late(4-6))
  qed
qed

definition backwards_vcd :: string where
  "backwards_vcd = unlines [''#9'', ''$enddefinitions $end'', ''#1'']"

lemma backwards_lines: "lines backwards_vcd = [''#9''] @ ''$enddefinitions $end'' # [''#1'']"
  unfolding backwards_vcd_def by (subst lines_unlines) (simp_all add: strip_cr_def)

theorem merge_fails_exactly_witness: "merge_trace_into_vcd backwards_vcd [demo_event] = Err (TimeBackwards 5)"
proof -
  have "show_nat 1 = ''1''" "show_nat 9 = ''9''" by code_simp+
  then have t: "line_time ''#1'' = Some 1" "line_time ''#9'' = Some 9"
    using line_time_time_line [of 1] line_time_time_line [of 9] by (simp_all add: time_line_def)
  have "\<not> is_enddefinitions ''#9''" using enddefinitions_time t(2) by fastforce
  moreover have "first_after [demo_event] [''#1''] 5" by (simp add: first_after_def demo_event_def t)
  moreover have "list_all (\<lambda>e. ev_vcd_time e < 2 ^ 128) [demo_event]" by (simp add: demo_event_def)
  note exact = merge_fails_exactly [OF this, of backwards_vcd "TimeBackwards 5"]
  ultimately show ?thesis
    unfolding exact using backwards_lines demo_enddefs(1) t(2)
    by (intro disjI2 exI [of _ "[''#9'']"] exI [of _ "''$enddefinitions $end''"] exI [of _ "[''#1'']"] exI [of _ 5]) simp
qed


section \<open>Corner cases of the text formats\<close>

text \<open>A sign is taken for a hexadecimal digit: the four characters of this escape are \<^verbatim>\<open>+041\<close>.\<close>

lemma unicode_escape_takes_sign: "parse_json_unicode_escape ''u+041'' 0 = Ok (0x41, 5)"
  by code_simp

text \<open>A comment's text may hold the end of the comment, and a line feed reads like a backslash and a letter.\<close>

lemma comment_escape_keeps_end: "vcd_comment_escape ''a $end b'' = ''a $end b''"
  by code_simp

lemma comment_escape_not_injective: "vcd_comment_escape [LF] = vcd_comment_escape [CHR 0x5C, CHR ''n'']"
  by code_simp

end
