(* ===== verification/Trace_Print.thy ===== *)
theory Trace_Print
  imports Trace_Readback
begin

text \<open>
  The trace file from the side of its producer: an independent printer of trace records as JSON lines, and the
  proof that \<^verbatim>\<open>parse_trace_events\<close> of \<^verbatim>\<open>src/trace_merge.rs\<close> reads them back.
\<close>

section \<open>Printed traces\<close>

text \<open>
  A trace as its producer writes it: one JSON object per line, with the members it has.  The records leave out what is absent; a value is a
  string or a number.
\<close>

datatype printed_value = Text string | Num nat

fun print_value :: "printed_value \<Rightarrow> string" where
  "print_value (Text s) = [CHR 0x22] @ json_escape s @ [CHR 0x22]"
| "print_value (Num n) = show_nat n"

definition print_member :: "string \<times> printed_value \<Rightarrow> string" where
  "print_member m = [CHR 0x22] @ json_escape (fst m) @ [CHR 0x22] @ '':'' @ print_value (snd m)"

definition print_object :: "(string \<times> printed_value) list \<Rightarrow> string" where
  "print_object ms = ''{'' @ join '','' (map print_member ms) @ ''}''"

record trace_record =
  tr_type :: string
  tr_seq :: "nat option"
  tr_cycle :: "nat option"
  tr_vcd_time :: "nat option"
  tr_clock :: "string option"
  tr_clock_cycle :: "nat option"
  tr_component :: "string option"
  tr_bus :: "string option"
  tr_method :: "string option"
  tr_phase :: "string option"
  tr_direction :: "string option"
  tr_tag :: "nat option"
  tr_severity :: "string option"
  tr_message :: "string option"

definition opt_member :: "string \<Rightarrow> ('a \<Rightarrow> printed_value) \<Rightarrow> 'a option \<Rightarrow> (string \<times> printed_value) list" where
  "opt_member key c x = (case x of None \<Rightarrow> [] | Some v \<Rightarrow> [(key, c v)])"

definition record_members :: "trace_record \<Rightarrow> (string \<times> printed_value) list" where
  "record_members r = [(''type'', Text (tr_type r))] @
     opt_member ''seq'' Num (tr_seq r) @ opt_member ''cycle'' Num (tr_cycle r) @
     opt_member ''vcd_time'' Num (tr_vcd_time r) @ opt_member ''clock'' Text (tr_clock r) @
     opt_member ''clock_cycle'' Num (tr_clock_cycle r) @ opt_member ''component'' Text (tr_component r) @
     opt_member ''bus'' Text (tr_bus r) @ opt_member ''method'' Text (tr_method r) @
     opt_member ''phase'' Text (tr_phase r) @ opt_member ''direction'' Text (tr_direction r) @
     opt_member ''tag'' Num (tr_tag r) @ opt_member ''severity'' Text (tr_severity r) @
     opt_member ''message'' Text (tr_message r)"

definition print_trace :: "trace_record list \<Rightarrow> string" where
  "print_trace rs = unlines (map (print_object \<circ> record_members) rs)"

text \<open>The event a record stands for; \<open>n\<close> events come before it.\<close>

definition record_event :: "nat \<Rightarrow> trace_record \<Rightarrow> SemanticEvent" where
  "record_event n r =
     (let cycle = (case tr_cycle r of Some c \<Rightarrow> c | None \<Rightarrow> 0); text = (\<lambda>x. case x of Some s \<Rightarrow> s | None \<Rightarrow> []) in
      \<lparr>ev_typ = tr_type r, ev_seq = (case tr_seq r of Some s \<Rightarrow> s | None \<Rightarrow> n), ev_cycle = cycle,
       ev_vcd_time = the (tr_vcd_time r), ev_clock = text (tr_clock r),
       ev_clock_cycle = (case tr_clock_cycle r of Some c \<Rightarrow> c | None \<Rightarrow> cycle),
       ev_component = text (tr_component r), ev_bus = text (tr_bus r), ev_method = text (tr_method r),
       ev_phase = text (tr_phase r), ev_direction = text (tr_direction r), ev_tag = tr_tag r,
       ev_label = event_label (tr_type r) (text (tr_component r)) (text (tr_bus r)) (text (tr_method r)) (text (tr_phase r))
         (text (tr_direction r)) (tr_tag r) (tr_severity r) (tr_message r)\<rparr>)"

fun record_events :: "nat \<Rightarrow> trace_record list \<Rightarrow> SemanticEvent list" where
  "record_events n [] = []"
| "record_events n (r # rs) =
     (if tr_type r = [] \<or> tr_type r = ''meta'' \<or> tr_vcd_time r = None then record_events n rs
      else record_event n r # record_events (n + 1) rs)"

text \<open>What can be printed: strings of UTF-8, and numbers of the machine type the reader uses.\<close>

definition printable :: "trace_record \<Rightarrow> bool" where
  "printable r \<longleftrightarrow> list_all (\<lambda>(k, v). case v of Text s \<Rightarrow> utf8_valid s
     | Num n \<Rightarrow> n < 2 ^ (if k = ''vcd_time'' then 128 else 64)) (record_members r)"

fun json_value :: "printed_value \<Rightarrow> JsonValue" where
  "json_value (Text s) = JString s"
| "json_value (Num n) = Number (show_nat n)"

fun utf8_printed :: "printed_value \<Rightarrow> bool" where
  "utf8_printed (Text s) = utf8_valid s"
| "utf8_printed (Num n) = True"

lemma skip_digits_drop:
  assumes "drop i bytes = ds @ c # r" "\<forall>d \<in> set ds. is_ascii_digit d" "\<not> is_ascii_digit c"
  shows "skip_while is_ascii_digit bytes i = i + length ds"
  using assms
proof (induction ds arbitrary: i)
  case Nil
  then show ?case using drop_ConsD [of i bytes c r] by (subst skip_while.simps) simp
next
  case (Cons d ds)
  have d: "drop i bytes = d # ds @ c # r" using Cons.prems(1) by simp
  have "skip_while is_ascii_digit bytes i = skip_while is_ascii_digit bytes (Suc i)"
    using drop_ConsD(1,2) [OF d] Cons.prems(2) by (subst skip_while.simps) simp
  also have "\<dots> = Suc i + length ds" using Cons.IH [OF drop_ConsD(3) [OF d]] Cons.prems by simp
  finally show ?case by simp
qed

lemma parse_printed_number:
  assumes d: "drop i bytes = show_nat n @ c # r" and c: "c \<in> {CHR '','', CHR ''}''}"
  shows "parse_json_value bytes i = Ok (Number (show_nat n), i + length (show_nat n))"
proof -
  obtain b bs where b: "show_nat n = b # bs" by (cases "show_nat n") simp_all
  then have digit: "is_ascii_digit b" using show_nat_digits [of b n] by simp
  then have plain: "b \<noteq> CHR ''-''" "b \<noteq> CHR 0x22" by (auto simp: is_ascii_digit_def)
  have at: "get_byte bytes i = Some b" using get_byte_drop [of i bytes b "bs @ c # r"] d b by simp
  have "skip_while is_ascii_digit bytes i = i + length (show_nat n)"
    using skip_digits_drop [OF d] show_nat_digits [of _ n] c by (auto simp: is_ascii_digit_def)
  moreover have "get_byte bytes (i + length (show_nat n)) = Some c"
    using get_byte_drop [OF drop_append_len [OF d]] .
  moreover have "take (length (show_nat n)) (drop i bytes) = show_nat n" using d by simp
  moreover have "show_nat n \<noteq> ''-''" using plain(1) b by auto
  ultimately have "parse_json_number bytes i = Ok (Number (show_nat n), i + length (show_nat n))"
    using at plain c utf8_show_nat by (auto simp: parse_json_number_def Let_def)
  then show ?thesis using at digit plain by (simp add: parse_json_value_def)
qed

lemma parse_printed_value:
  assumes d: "drop i bytes = print_value v @ c # r" and c: "c \<in> {CHR '','', CHR ''}''}" and v: "utf8_printed v"
  shows "parse_json_value bytes i = Ok (json_value v, i + length (print_value v))"
proof (cases v)
  case (Text s)
  then have d': "drop i bytes = CHR 0x22 # json_escape s @ CHR 0x22 # c # r" using d by simp
  show ?thesis
    using get_byte_drop [OF d'] parse_escaped_string [OF _ d'] v Text by (simp add: parse_json_value_def)
next
  case (Num n)
  then show ?thesis using parse_printed_number [of i bytes n c r] d c by simp
qed

lemma print_value_head: "\<exists>b bs. print_value v = b # bs \<and> \<not> is_json_ws b"
proof (cases v)
  case (Num n)
  obtain b bs where b: "show_nat n = b # bs" by (cases "show_nat n") simp_all
  then have "is_ascii_digit b" using show_nat_digits [of b n] by simp
  then have "\<not> is_json_ws b" by (auto simp: is_json_ws_def is_ascii_digit_def)
  then show ?thesis using Num b by simp
qed (simp add: is_json_ws_def)

lemma json_members_printed:
  assumes d: "drop i bytes = print_member (k, v) @ c # r" and c: "c \<in> {CHR '','', CHR ''}''}"
    and k: "utf8_valid k" and v: "utf8_printed v"
  shows "\<exists>j. drop j bytes = c # r \<and> json_members bytes i out =
    (if c = CHR '','' then json_members bytes (j + 1) (out(k \<mapsto> json_value v)) else Ok (out(k \<mapsto> json_value v)))"
proof -
  let ?q = "CHR 0x22" and ?i2 = "i + length (json_escape k) + 2"
  let ?j = "?i2 + 1 + length (print_value v)"
  have d1: "drop i bytes = ?q # json_escape k @ ?q # CHR '':'' # print_value v @ c # r"
    using d by (simp add: print_member_def)
  obtain b bs where b: "print_value v = b # bs" "\<not> is_json_ws b" using print_value_head by blast
  have i1: "skip_ws bytes i = i" using skip_ws_drop [of i bytes "[]"] d1 by (simp add: is_json_ws_def)
  have key: "parse_json_string bytes i = Ok (k, ?i2)" using parse_escaped_string [OF k d1] by simp
  have d2: "drop ?i2 bytes = CHR '':'' # print_value v @ c # r"
    by (rule drop_append_at [of i bytes "?q # json_escape k @ [?q]"]) (use d1 in simp_all)
  have d3: "drop (?i2 + 1) bytes = print_value v @ c # r" using drop_ConsD(3) [OF d2] by simp
  have colon: "skip_ws bytes ?i2 = ?i2" "skip_ws bytes (?i2 + 1) = ?i2 + 1"
    using skip_ws_drop [of ?i2 bytes "[]"] d2 skip_ws_drop [of "?i2 + 1" bytes "[]" b] d3 b by (simp_all add: is_json_ws_def)
  have val: "parse_json_value bytes (?i2 + 1) = Ok (json_value v, ?j)" using parse_printed_value [OF d3 c v] .
  have dj: "drop ?j bytes = c # r" by (rule drop_append_at [OF d3]) simp
  have j: "skip_ws bytes ?j = ?j" using skip_ws_drop [of ?j bytes "[]"] dj c by (auto simp: is_json_ws_def)
  have at: "get_byte bytes i = Some ?q" "get_byte bytes ?i2 = Some (CHR '':'')" "get_byte bytes ?j = Some c"
    using get_byte_drop [OF d1] get_byte_drop [OF d2] get_byte_drop [OF dj] by auto
  have "json_members bytes i out =
      (if c = CHR '','' then json_members bytes (?j + 1) (out(k \<mapsto> json_value v)) else Ok (out(k \<mapsto> json_value v)))"
    using i1 key colon val j at c by (subst json_members.simps) (auto simp: Let_def)
  with dj show ?thesis by blast
qed

lemma json_members_object:
  "drop i bytes = join '','' (map print_member ms) @ CHR ''}'' # r \<Longrightarrow> ms \<noteq> [] \<Longrightarrow>
   list_all (\<lambda>m. utf8_valid (fst m) \<and> utf8_printed (snd m)) ms \<Longrightarrow>
   json_members bytes i out = Ok (out ++ map_of (rev (map (\<lambda>(k, v). (k, json_value v)) ms)))"
proof (induction ms arbitrary: i out)
  case (Cons m ms)
  obtain k v where m: "m = (k, v)" by fastforce
  let ?out = "out(k \<mapsto> json_value v)"
  show ?case
  proof (cases "ms = []")
    case True
    then have "drop i bytes = print_member (k, v) @ CHR ''}'' # r" using Cons.prems(1) by (simp add: m join_Cons)
    from json_members_printed [OF this, of out] True Cons.prems(3) show ?thesis
      by (auto simp: m map_add_def fun_eq_iff)
  next
    case False
    then have "drop i bytes = print_member (k, v) @ CHR '','' # join '','' (map print_member ms) @ CHR ''}'' # r"
      using Cons.prems(1) by (simp add: m join_Cons)
    from json_members_printed [OF this, of out] Cons.prems(3) obtain j where
      j: "drop j bytes = CHR '','' # join '','' (map print_member ms) @ CHR ''}'' # r"
      "json_members bytes i out = json_members bytes (j + 1) ?out" by (auto simp: m)
    have "json_members bytes (j + 1) ?out = Ok (?out ++ map_of (rev (map (\<lambda>(k, v). (k, json_value v)) ms)))"
      by (rule Cons.IH) (use drop_ConsD(3) [OF j(1)] False Cons.prems(3) in simp_all)
    then show ?thesis using j(2) by (simp add: m map_add_assoc)
  qed
qed simp

lemma parse_printed_object:
  assumes "ms \<noteq> []" "distinct (map fst ms)" "list_all (\<lambda>m. utf8_valid (fst m) \<and> utf8_printed (snd m)) ms"
  shows "parse_json_object_top (print_object ms) = Ok (\<lambda>k. map_option json_value (map_of ms k))"
proof -
  have d0: "drop 0 (print_object ms) = [] @ CHR ''{'' # join '','' (map print_member ms) @ ''}''"
    by (simp add: print_object_def)
  have i: "skip_ws (print_object ms) 0 = 0" "get_byte (print_object ms) 0 = Some (CHR ''{'')"
    using skip_ws_drop [OF d0] get_byte_drop [of 0 "print_object ms"] d0 by (simp_all add: is_json_ws_def)
  have "drop 1 (print_object ms) = join '','' (map print_member ms) @ CHR ''}'' # []" by (simp add: print_object_def)
  from json_members_object [OF this assms(1,3), of Map.empty]
  have "parse_json_object_top (print_object ms) = Ok (map_of (rev (map (\<lambda>(k, v). (k, json_value v)) ms)))"
    using i by (simp add: parse_json_object_top_def)
  moreover have "distinct (map fst (map (\<lambda>(k, v). (k, json_value v)) ms))"
    using assms(2) by (simp add: comp_def case_prod_beta)
  ultimately show ?thesis by (simp add: map_of_rev_distinct map_of_map comp_def)
qed


definition record_keys :: "string list" where
  "record_keys = [''type''] @ [''seq''] @ [''cycle''] @ [''vcd_time''] @ [''clock''] @ [''clock_cycle''] @ [''component''] @
     [''bus''] @ [''method''] @ [''phase''] @ [''direction''] @ [''tag''] @ [''severity''] @ [''message'']"

lemma opt_member_key: "subseq (map fst (opt_member k c x)) [k]"
  by (cases x) (simp_all add: opt_member_def)

lemma record_members_keys: "subseq (map fst (record_members r)) record_keys"
  unfolding record_members_def record_keys_def map_append
  by (intro list_emb_append_mono opt_member_key) simp

lemma record_members_distinct: "distinct (map fst (record_members r))"
proof -
  have "distinct record_keys" by (simp add: record_keys_def)
  then show ?thesis using record_members_keys [of r] by (metis distinct_nthsI subseq_conv_nths)
qed

lemma record_members_utf8:
  assumes "printable r" shows "list_all (\<lambda>m. utf8_valid (fst m) \<and> utf8_printed (snd m)) (record_members r)"
proof -
  have "list_all (list_all (\<lambda>c. byte c < 128)) record_keys" by (simp add: record_keys_def)
  then have "utf8_valid k" if "k \<in> set record_keys" for k
    using that by (intro utf8_valid_ascii) (auto simp: list_all_iff)
  moreover have "set (map fst (record_members r)) \<subseteq> set record_keys"
    using record_members_keys [of r] by (metis set_nths_subset subseq_conv_nths)
  moreover have "utf8_printed v" if "(k, v) \<in> set (record_members r)" for k v
    using that assms by (cases v) (auto simp: printable_def list_all_iff)
  ultimately show ?thesis by (fastforce simp: list_all_iff)
qed

lemma map_of_opt_member: "map_of (opt_member k c x) k' = (if k' = k then map_option c x else None)"
  by (cases x) (simp_all add: opt_member_def)

lemma map_add_None: "(m ++ n) k = (case n k of None \<Rightarrow> m k | Some v \<Rightarrow> Some v)"
  by (simp add: map_add_def)

lemma record_lookup:
  "map_of (record_members r) ''type'' = Some (Text (tr_type r))"
  "map_of (record_members r) ''seq'' = map_option Num (tr_seq r)"
  "map_of (record_members r) ''cycle'' = map_option Num (tr_cycle r)"
  "map_of (record_members r) ''vcd_time'' = map_option Num (tr_vcd_time r)"
  "map_of (record_members r) ''clock'' = map_option Text (tr_clock r)"
  "map_of (record_members r) ''clock_cycle'' = map_option Num (tr_clock_cycle r)"
  "map_of (record_members r) ''component'' = map_option Text (tr_component r)"
  "map_of (record_members r) ''bus'' = map_option Text (tr_bus r)"
  "map_of (record_members r) ''method'' = map_option Text (tr_method r)"
  "map_of (record_members r) ''phase'' = map_option Text (tr_phase r)"
  "map_of (record_members r) ''direction'' = map_option Text (tr_direction r)"
  "map_of (record_members r) ''tag'' = map_option Num (tr_tag r)"
  "map_of (record_members r) ''severity'' = map_option Text (tr_severity r)"
  "map_of (record_members r) ''message'' = map_option Text (tr_message r)"
  by (simp_all add: record_members_def map_of_append map_add_None map_of_opt_member del: map_add_Some_iff
      split: option.split)

definition record_fields :: "trace_record \<Rightarrow> string \<rightharpoonup> JsonValue" where
  "record_fields r k = map_option json_value (map_of (record_members r) k)"

lemma record_string_field: "map_of (record_members r) k = map_option Text x \<Longrightarrow> string_field (record_fields r) k = x"
  by (cases x) (simp_all add: record_fields_def)

lemma record_uint_field:
  assumes "printable r" "map_of (record_members r) k = map_option Num x" "bits = (if k = ''vcd_time'' then 128 else 64)"
  shows "uint_field bits (record_fields r) k = x"
proof (cases x)
  case (Some n)
  then have "(k, Num n) \<in> set (record_members r)" using assms(2) by (simp add: map_of_SomeD)
  then have "n < 2 ^ bits" using assms(1,3) by (fastforce simp: printable_def list_all_iff)
  then show ?thesis using assms(2) Some by (simp add: uint_field_def record_fields_def)
qed (use assms(2) in \<open>simp add: uint_field_def record_fields_def\<close>)

lemma print_object_trim: "str_trim (print_object ms) = print_object ms"
  using trim_end_plain [of "CHR ''}''" "''{'' @ join '','' (map print_member ms)"]
  by (simp add: str_trim_def print_object_def trim_start_plain)

lemma parse_printed_line:
  assumes "printable r"
  shows "parse_trace_line n (print_object (record_members r)) =
    Ok (if tr_type r = [] \<or> tr_type r = ''meta'' \<or> tr_vcd_time r = None then None else Some (record_event n r))"
proof -
  have obj: "parse_json_object_top (print_object (record_members r)) = Ok (record_fields r)"
    using parse_printed_object [OF _ record_members_distinct record_members_utf8 [OF assms]]
    by (simp add: record_fields_def [abs_def] record_members_def)
  have ne: "print_object (record_members r) \<noteq> []" by (simp add: print_object_def)
  note strings = record_lookup(5,7-11,13,14) [THEN record_string_field]
  note nums = record_lookup(2,3,6,12) [THEN record_uint_field [OF assms], of 64]
  have ty: "string_field (record_fields r) ''type'' = Some (tr_type r)" by (simp add: record_fields_def record_lookup)
  have time: "u128_field (record_fields r) ''vcd_time'' = tr_vcd_time r"
    using record_uint_field [OF assms record_lookup(4), of 128] by (simp add: u128_field_def)
  have u64: "u64_field (record_fields r) ''seq'' = tr_seq r" "u64_field (record_fields r) ''cycle'' = tr_cycle r"
    "u64_field (record_fields r) ''clock_cycle'' = tr_clock_cycle r" "u64_field (record_fields r) ''tag'' = tr_tag r"
    using nums by (simp_all add: u64_field_def)
  show ?thesis
    by (cases "tr_vcd_time r")
      (simp_all add: parse_trace_line_def print_object_trim ne obj ty time u64 strings record_event_def opt_unwrap_or_def Let_def
        del: string_field.simps)
qed

lemma json_escape_no_LF: "LF \<notin> set (json_escape s)"
proof -
  have "LF \<noteq> hex_char m" if "m < 16" for m using that by (auto simp: hex_char_def LF_def of_char_of dest: arg_cong [of _ _ byte])
  then have "LF \<notin> set (json_escape_byte c)" for c
    by (auto simp: json_escape_byte_def show_hex4_def LF_def)
  then show ?thesis by (auto simp: json_escape_def)
qed

lemma join_no_char: "(\<forall>x \<in> set xs. c \<notin> set x) \<Longrightarrow> c \<notin> set sep \<Longrightarrow> c \<notin> set (join sep xs)"
  by (induction xs) (simp_all add: join_Cons)

lemma print_object_no_LF: "LF \<notin> set (print_object ms)"
proof -
  have quote: "LF \<noteq> CHR 0x22" "LF \<noteq> CHR '':''" by (simp_all add: LF_def)
  have "LF \<notin> set (show_nat n)" for n using show_nat_digits [of LF n] by (auto simp: LF_def is_ascii_digit_def)
  then have "LF \<notin> set (print_value v)" for v by (cases v) (simp_all add: json_escape_no_LF quote)
  then have "LF \<notin> set (print_member m)" for m by (simp add: print_member_def json_escape_no_LF quote)
  then show ?thesis using join_no_char [of "map print_member ms" LF "'',''"] by (simp add: print_object_def LF_def)
qed

lemma lines_print_trace: "lines (print_trace rs) = map (print_object \<circ> record_members) rs"
proof -
  have "strip_cr (print_object ms) = print_object ms" for ms by (simp add: strip_cr_def print_object_def)
  then show ?thesis unfolding print_trace_def by (subst lines_unlines) (simp_all add: print_object_no_LF)
qed

lemma parse_printed_lines:
  "list_all printable rs \<Longrightarrow>
   parse_trace_lines idx (map (print_object \<circ> record_members) rs) out = Ok (out @ record_events (length out) rs)"
  by (induction rs arbitrary: idx out) (simp_all add: parse_printed_line)

text \<open>
  C32. Reading a printed trace back: for records with UTF-8 strings and numbers of their machine types, printed one JSON object per
  line, the reader returns the events of the records with a time, \<^verbatim>\<open>meta\<close> records and records without a type left out, in
  the order of their times and sequence numbers (equal keys keep the order of the lines).  An absent sequence number is the
  number of events before, an absent cycle is 0, an absent clock cycle is the cycle, an absent string is empty;
  the label is the one the code derives.
\<close>

theorem printed_trace_reads_back:
  assumes "list_all printable rs"
  shows "parse_trace_events (print_trace rs) =
    Ok (sort_key (\<lambda>e. (ev_vcd_time e, ev_seq e)) (record_events 0 rs))"
  using parse_printed_lines [OF assms, of 0 "[]"]
  by (simp add: parse_trace_events_def lines_print_trace event_key_def [abs_def])

definition demo_records :: "trace_record list" where
  "demo_records =
     (let r = \<lparr>tr_type = ''meta'', tr_seq = None, tr_cycle = None, tr_vcd_time = Some 0, tr_clock = None, tr_clock_cycle = None,
        tr_component = None, tr_bus = None, tr_method = None, tr_phase = None, tr_direction = None, tr_tag = None,
        tr_severity = None, tr_message = None\<rparr>
      in [r, r\<lparr>tr_type := ''x'', tr_vcd_time := Some 9, tr_cycle := Some 4\<rparr>, r\<lparr>tr_type := ''y'', tr_vcd_time := Some 5\<rparr>])"

theorem printed_trace_reads_back_witness:
  "\<exists>es. parse_trace_events (print_trace demo_records) = Ok es \<and> map ev_typ es = [''y'', ''x''] \<and> map ev_seq es = [1, 0] \<and>
     map ev_clock_cycle es = [0, 4]"
proof -
  have "list_all printable demo_records"
    by (simp add: demo_records_def printable_def record_members_def opt_member_def utf8_valid_ascii)
  note exact = printed_trace_reads_back [OF this]
  show ?thesis
    unfolding exact
    by (simp add: demo_records_def record_event_def event_label_def Let_def)
qed

end
