(* ===== verification/Check_Backends.thy ===== *)
theory Check_Backends
  imports Trace_Json
begin

text \<open>
  The comparison of two semantic traces, \<^verbatim>\<open>harc sim --check-backends\<close> (\<^verbatim>\<open>src/check_backends.rs\<close>): the noise of a backend is
  cut out of every line, and the lines that still differ are reported.  The code works on the bytes of the lines and slices
  strings, which panics inside a character; \<open>None\<close> is that panic.
\<close>

section \<open>Slices\<close>

definition is_char_boundary :: "string \<Rightarrow> nat \<Rightarrow> bool" where
  "is_char_boundary s i \<longleftrightarrow> i = 0 \<or> i = length s \<or> (i < length s \<and> \<not> is_cont (s ! i))"

text \<open>\<^verbatim>\<open>&s[i..j]\<close>\<close>

definition str_slice :: "string \<Rightarrow> nat \<Rightarrow> nat \<Rightarrow> string option" where
  "str_slice s i j = (if i \<le> j \<and> j \<le> length s \<and> is_char_boundary s i \<and> is_char_boundary s j
     then Some (take (j - i) (drop i s)) else None)"

text \<open>\<^verbatim>\<open>str::find\<close>\<close>

fun str_find :: "string \<Rightarrow> string \<Rightarrow> nat option" where
  "str_find needle s = (if take (length needle) s = needle then Some 0
     else case s of [] \<Rightarrow> None | _ # r \<Rightarrow> map_option Suc (str_find needle r))"

declare str_find.simps [simp del]

section \<open>Fields of a line\<close>

definition key_needle :: "string \<Rightarrow> string" where
  "key_needle name = CHR 0x22 # name @ [CHR 0x22, CHR 0x3A]"

function string_end :: "string \<Rightarrow> nat \<Rightarrow> nat" where
  "string_end bytes i =
     (if i < length bytes then
        (if bytes ! i = CHR 0x5C then string_end bytes (min (i + 2) (length bytes))
         else if bytes ! i = CHR 0x22 then i + 1
         else string_end bytes (i + 1))
      else i)"
  by pat_completeness auto

termination string_end
  by (relation "measure (\<lambda>(bytes, i). length bytes - i)") auto

function container_end :: "string \<Rightarrow> char \<Rightarrow> char \<Rightarrow> nat \<Rightarrow> bool \<Rightarrow> nat \<Rightarrow> nat" where
  "container_end bytes opener closer depth in_string i =
     (if i < length bytes \<and> 0 < depth then
        (let c = bytes ! i in
         if in_string then
           (if c = CHR 0x5C then container_end bytes opener closer depth in_string (min (i + 2) (length bytes))
            else container_end bytes opener closer depth (c \<noteq> CHR 0x22) (i + 1))
         else if c = CHR 0x22 then container_end bytes opener closer depth True (i + 1)
         else if c = opener then container_end bytes opener closer (depth + 1) False (i + 1)
         else if c = closer then container_end bytes opener closer (depth - 1) False (i + 1)
         else container_end bytes opener closer depth False (i + 1))
      else i)"
  by pat_completeness auto

termination container_end
  by (relation "measure (\<lambda>(bytes, _, _, _, _, i). length bytes - i)") auto

declare string_end.simps [simp del] container_end.simps [simp del]

definition scalar_end :: "string \<Rightarrow> nat \<Rightarrow> nat" where
  "scalar_end = skip_while (\<lambda>c. c \<notin> {CHR 0x2C, CHR 0x7D})"

definition value_end :: "string \<Rightarrow> nat \<Rightarrow> nat" where
  "value_end bytes after_key =
     (case get_byte bytes after_key of
        Some c \<Rightarrow>
          if c = CHR 0x22 then string_end bytes (after_key + 1)
          else if c = CHR 0x7B \<or> c = CHR 0x5B
            then container_end bytes c (if c = CHR 0x7B then CHR 0x7D else CHR 0x5D) 1 False (after_key + 1)
          else scalar_end bytes after_key
      | None \<Rightarrow> scalar_end bytes after_key)"

definition strip_field :: "string \<Rightarrow> string \<Rightarrow> string option" where
  "strip_field line name =
     (case str_find (key_needle name) line of
        None \<Rightarrow> Some line
      | Some start \<Rightarrow>
          let after_key = start + length (key_needle name);
              new_end = skip_while (\<lambda>c. c = CHR 0x20) line (value_end line after_key);
              (new_start, new_end) =
                (if new_end < length line \<and> line ! new_end = CHR 0x2C then (start, new_end + 1)
                 else if 0 < start \<and> line ! (start - 1) = CHR 0x2C then (start - 1, new_end)
                 else (start, new_end))
          in case (str_slice line 0 new_start, str_slice line new_end (length line)) of
               (Some kept, Some rest) \<Rightarrow> Some (kept @ rest)
             | _ \<Rightarrow> None)"

text \<open>Every byte is pushed as the character of its number.\<close>

function extract_string_loop :: "string \<Rightarrow> nat \<Rightarrow> string \<Rightarrow> string option" where
  "extract_string_loop bytes i out =
     (if i < length bytes then
        (if bytes ! i = CHR 0x5C \<and> i + 1 < length bytes
         then extract_string_loop bytes (i + 2) (out @ utf8_encode (byte (bytes ! (i + 1))))
         else if bytes ! i = CHR 0x22 then Some out
         else extract_string_loop bytes (i + 1) (out @ utf8_encode (byte (bytes ! i))))
      else None)"
  by pat_completeness auto

termination extract_string_loop
  by (relation "measure (\<lambda>(bytes, i, _). length bytes - i)") auto

declare extract_string_loop.simps [simp del]

definition extract_string_field :: "string \<Rightarrow> string \<Rightarrow> string option" where
  "extract_string_field line name =
     (let needle = key_needle name @ [CHR 0x22] in
      case str_find needle line of
        None \<Rightarrow> None
      | Some start \<Rightarrow> extract_string_loop line (start + length needle) [])"

definition extract_u64_field :: "string \<Rightarrow> string \<Rightarrow> nat option option" where
  "extract_u64_field line name =
     (case str_find (key_needle name) line of
        None \<Rightarrow> Some None
      | Some found \<Rightarrow>
          let start = found + length (key_needle name) in
          if get_byte line start = Some (CHR 0x22) then Some None
          else let i = skip_while is_ascii_digit line start in
            if i = start then Some None
            else map_option (parse_uint 64) (str_slice line start i))"

section \<open>Normalization and comparison\<close>

record NormalizedLine =
  normalized :: string
  nl_cycle :: "nat option"
  nl_event_type :: string

record Divergence =
  div_line :: nat
  div_cycle :: "nat option"
  div_event_type :: string
  arch_line :: string
  sv_line :: string

definition show_Divergence :: "Divergence \<Rightarrow> string" where
  "show_Divergence d =
     (let cycle = (case div_cycle d of Some c \<Rightarrow> ''cycle '' @ show_nat c | None \<Rightarrow> ''cycle ?'')
      in ''line '' @ show_nat (div_line d) @ '' ('' @ cycle @ '', type '' @ [CHR 0x60] @ div_event_type d @ [CHR 0x60] @ ''):''
         @ [LF] @ ''      arch: '' @ arch_line d @ [LF] @ ''      sv:   '' @ sv_line d)"

definition MAX_DIVERGENCES :: nat where
  "MAX_DIVERGENCES = 10"

definition normalize_one :: "string \<Rightarrow> NormalizedLine option" where
  "normalize_one line =
     (let event_type = (case extract_string_field line ''type'' of None \<Rightarrow> [] | Some t \<Rightarrow> t) in
      Option.bind (extract_u64_field line ''cycle'') (\<lambda>cycle.
      Option.bind (strip_field line ''seq'') (\<lambda>out.
      Option.bind (strip_field out ''vcd_time'') (\<lambda>out.
      map_option (\<lambda>out. \<lparr>normalized = out, nl_cycle = cycle, nl_event_type = event_type\<rparr>)
        (if event_type = ''meta'' then Option.bind (strip_field out ''dut_backend'') (\<lambda>out. strip_field out ''tool'')
         else Some out)))))"

fun normalize_each :: "string list \<Rightarrow> NormalizedLine list option" where
  "normalize_each [] = Some []"
| "normalize_each (raw # raws) =
     (let trimmed = str_trim raw in
      if trimmed = [] then normalize_each raws
      else Option.bind (normalize_one trimmed) (\<lambda>l. map_option ((#) l) (normalize_each raws)))"

definition normalize_lines :: "string \<Rightarrow> NormalizedLine list option" where
  "normalize_lines txt = normalize_each (lines txt)"

definition pick_event_type :: "string \<Rightarrow> string \<Rightarrow> string" where
  "pick_event_type a s =
     (if a = s then a else if a = [] then s else if s = [] then a else a @ '' vs '' @ s)"

definition get_line :: "NormalizedLine list \<Rightarrow> nat \<Rightarrow> NormalizedLine option" where
  "get_line ls i = (if i < length ls then Some (ls ! i) else None)"

definition diverge :: "nat \<Rightarrow> NormalizedLine option \<Rightarrow> NormalizedLine option \<Rightarrow> Divergence list" where
  "diverge i a s =
     (case (a, s) of
        (Some al, Some sl) \<Rightarrow>
          if normalized al = normalized sl then []
          else [\<lparr>div_line = i + 1, div_cycle = (case nl_cycle al of None \<Rightarrow> nl_cycle sl | Some c \<Rightarrow> Some c),
                 div_event_type = pick_event_type (nl_event_type al) (nl_event_type sl),
                 arch_line = normalized al, sv_line = normalized sl\<rparr>]
      | (Some al, None) \<Rightarrow> [\<lparr>div_line = i + 1, div_cycle = nl_cycle al, div_event_type = nl_event_type al,
          arch_line = normalized al, sv_line = ''<missing>''\<rparr>]
      | (None, Some sl) \<Rightarrow> [\<lparr>div_line = i + 1, div_cycle = nl_cycle sl, div_event_type = nl_event_type sl,
          arch_line = ''<missing>'', sv_line = normalized sl\<rparr>]
      | (None, None) \<Rightarrow> [])"

fun diff_loop :: "NormalizedLine list \<Rightarrow> NormalizedLine list \<Rightarrow> nat list \<Rightarrow> Divergence list \<Rightarrow> Divergence list" where
  "diff_loop as ss [] out = out"
| "diff_loop as ss (i # is) out =
     (let out' = out @ diverge i (get_line as i) (get_line ss i) in
      if out' \<noteq> out \<and> MAX_DIVERGENCES \<le> length out' then out' else diff_loop as ss is out')"

definition diff_trace_strings :: "string \<Rightarrow> string \<Rightarrow> Divergence list option" where
  "diff_trace_strings arch_text sv_text =
     Option.bind (normalize_lines arch_text) (\<lambda>arch_lines.
     map_option (\<lambda>sv_lines. diff_loop arch_lines sv_lines [0..<max (length arch_lines) (length sv_lines)] [])
       (normalize_lines sv_text))"

section \<open>Character boundaries\<close>

lemma utf8_head_not_cont: "0 < utf8_head (c # r) \<Longrightarrow> \<not> is_cont c"
  by (auto simp: is_cont_def split: if_splits)

lemma utf8_head_cont: "0 < j \<Longrightarrow> j < utf8_head s \<Longrightarrow> is_cont (s ! j)"
proof (cases s)
  case (Cons b r)
  assume j: "0 < j" "j < utf8_head s"
  then have "j = 1 \<or> j = 2 \<or> j = 3" using Cons by (auto split: if_splits list.splits)
  then show ?thesis using j Cons by (auto split: if_splits list.splits simp: numeral_2_eq_2 numeral_3_eq_3)
qed simp

lemma utf8_head_append: "0 < utf8_head s \<Longrightarrow> utf8_head (s @ t) = utf8_head s"
  by (cases s) (auto split: if_splits list.splits)

lemma utf8_valid_Nil [simp]: "utf8_valid []"
  by (simp add: utf8_valid.simps)

lemma utf8_valid_head:
  "s \<noteq> [] \<Longrightarrow> utf8_valid s \<longleftrightarrow> 0 < utf8_head s \<and> utf8_valid (drop (utf8_head s) s)"
  by (subst utf8_valid.simps) simp

lemma utf8_valid_append: "utf8_valid s \<Longrightarrow> utf8_valid (s @ t) \<longleftrightarrow> utf8_valid t"
proof (induction s rule: utf8_valid.induct)
  case (1 s)
  show ?case
  proof (cases "s = []")
    case False
    then have "0 < utf8_head s" "utf8_valid (drop (utf8_head s) s)" using "1.prems" utf8_valid_head by auto
    then show ?thesis using False "1.IH" utf8_head_le [of s] by (simp add: utf8_valid_head utf8_head_append)
  qed simp
qed

lemma utf8_valid_split:
  "utf8_valid s \<Longrightarrow> is_char_boundary s i \<Longrightarrow> utf8_valid (take i s) \<and> utf8_valid (drop i s)"
proof (induction s arbitrary: i rule: utf8_valid.induct)
  case (1 s)
  show ?case
  proof (cases "s = [] \<or> i = 0")
    case False
    let ?n = "utf8_head s"
    have n: "0 < ?n" "utf8_valid (drop ?n s)" "?n \<le> length s" using False "1.prems" utf8_valid_head utf8_head_le by auto
    have "?n \<le> i"
    proof (rule ccontr)
      assume "\<not> ?n \<le> i"
      then have "is_cont (s ! i)" using False by (intro utf8_head_cont) auto
      then show False using "1.prems"(2) False n(3) \<open>\<not> ?n \<le> i\<close> by (auto simp: is_char_boundary_def)
    qed
    then have "is_char_boundary (drop ?n s) (i - ?n)" using "1.prems"(2) n(3) by (auto simp: is_char_boundary_def)
    then have "utf8_valid (take (i - ?n) (drop ?n s))" "utf8_valid (drop (i - ?n) (drop ?n s))"
      using "1.IH" False n by auto
    moreover have "utf8_valid (take ?n s)" using n by (intro utf8_valid_scalar) (simp_all add: utf8_head_take)
    moreover have "take i s = take ?n s @ take (i - ?n) (drop ?n s)" using \<open>?n \<le> i\<close> by (metis take_add le_add_diff_inverse)
    ultimately show ?thesis using \<open>?n \<le> i\<close> by (simp add: utf8_valid_append)
  qed (use "1.prems" in auto)
qed

lemma boundary_ascii: "i < length s \<Longrightarrow> byte (s ! i) < (128 :: nat) \<Longrightarrow> is_char_boundary s i"
  by (simp add: is_char_boundary_def is_cont_def)

lemma boundary_after_ascii:
  assumes "utf8_valid s" "i < length s" "byte (s ! i) < (128 :: nat)"
  shows "is_char_boundary s (Suc i)"
proof (cases "Suc i = length s")
  case False
  have "utf8_valid (drop i s)" using assms boundary_ascii utf8_valid_split by blast
  moreover have "drop i s = s ! i # drop (Suc i) s" using assms(2) by (simp add: Cons_nth_drop_Suc)
  ultimately have "utf8_valid (drop (Suc i) s)" using assms(3) utf8_valid_head [of "s ! i # drop (Suc i) s"] by simp
  then have "\<not> is_cont (s ! Suc i)"
    using False assms(2) utf8_valid_head [of "drop (Suc i) s"] utf8_head_not_cont [of "s ! Suc i" "drop (Suc (Suc i)) s"]
    by (simp add: Cons_nth_drop_Suc)
  then show ?thesis using False assms(2) by (simp add: is_char_boundary_def)
qed (simp add: is_char_boundary_def)

lemma str_slice_valid:
  assumes "utf8_valid s" "str_slice s i j = Some t" shows "utf8_valid t"
proof -
  have b: "i \<le> j" "j \<le> length s" "is_char_boundary s i" "is_char_boundary s j" and t: "t = take (j - i) (drop i s)"
    using assms(2) by (auto simp: str_slice_def split: if_splits)
  have "is_char_boundary (drop i s) (j - i)" using b by (auto simp: is_char_boundary_def)
  then show ?thesis using assms(1) b(3) t utf8_valid_split by blast
qed

text \<open>A position where a scan stops is the end of the text or follows an ASCII character.\<close>

definition scan_stop :: "string \<Rightarrow> nat \<Rightarrow> bool" where
  "scan_stop s i \<longleftrightarrow> i = length s \<or> (0 < i \<and> i < length s \<and> byte (s ! (i - 1)) < (128 :: nat))"

lemma scan_stop_boundary: "utf8_valid s \<Longrightarrow> scan_stop s i \<Longrightarrow> is_char_boundary s i"
  using boundary_after_ascii [of s "i - 1"] by (auto simp: scan_stop_def is_char_boundary_def [of s "length s"])

lemma scan_stop_Suc: "i < length s \<Longrightarrow> byte (s ! i) < (128 :: nat) \<Longrightarrow> scan_stop s (Suc i)"
  by (auto simp: scan_stop_def)

lemma string_end_stop: "i \<le> length s \<Longrightarrow> scan_stop s (string_end s i)"
proof (induction s i rule: string_end.induct)
  case (1 s i)
  show ?case
  proof (cases "i < length s")
    case True
    then show ?thesis using "1.IH" scan_stop_Suc [of i s] by (subst string_end.simps) simp
  next
    case False
    then show ?thesis using "1.prems" by (subst string_end.simps) (simp add: scan_stop_def)
  qed
qed

lemma container_end_stop:
  "i \<le> length s \<Longrightarrow> 0 < depth \<or> scan_stop s i \<Longrightarrow> byte closer < (128 :: nat) \<Longrightarrow>
     scan_stop s (container_end s opener closer depth in_string i)"
proof (induction s opener closer depth in_string i rule: container_end.induct)
  case (1 s opener closer depth in_string i)
  show ?case
  proof (cases "i < length s \<and> 0 < depth")
    case True
    then show ?thesis using "1.IH" "1.prems" scan_stop_Suc [of i s] by (subst container_end.simps) (auto simp: Let_def)
  next
    case False
    then show ?thesis using "1.prems" by (subst container_end.simps) (auto simp: scan_stop_def)
  qed
qed

lemma skip_while_stop: "i \<le> length s \<Longrightarrow> skip_while P s i \<le> length s \<and> (skip_while P s i < length s \<longrightarrow> \<not> P (s ! skip_while P s i))"
  by (induction P s i rule: skip_while.induct) (subst (1 2 3) skip_while.simps, auto)

lemma skip_ascii_boundary:
  assumes "utf8_valid s" "\<And>c. P c \<Longrightarrow> byte c < (128 :: nat)" "is_char_boundary s i"
  shows "is_char_boundary s (skip_while P s i)"
  using assms
proof (induction P s i rule: skip_while.induct)
  case (1 P s i)
  then show ?case using boundary_after_ascii [of s i] by (subst skip_while.simps) auto
qed

lemma value_end_boundary:
  assumes "utf8_valid s" "i \<le> length s" shows "is_char_boundary s (value_end s i)"
proof -
  have "is_char_boundary s (scalar_end s i)"
    using skip_while_stop [OF assms(2), of "\<lambda>c. c \<notin> {CHR 0x2C, CHR 0x7D}"]
    by (fastforce simp: scalar_end_def is_char_boundary_def is_cont_def)
  moreover have "is_char_boundary s (string_end s (i + 1))" if "i < length s"
    using that assms(1) by (intro scan_stop_boundary string_end_stop) simp_all
  moreover have "is_char_boundary s (container_end s c d 1 False (i + 1))" if "i < length s" "byte d < (128 :: nat)" for c d
    using that assms(1) by (intro scan_stop_boundary container_end_stop) simp_all
  ultimately show ?thesis by (simp add: value_end_def get_byte_def)
qed

lemma str_find_Some: "str_find needle s = Some i \<Longrightarrow> i + length needle \<le> length s \<and> take (length needle) (drop i s) = needle"
proof (induction needle s arbitrary: i rule: str_find.induct)
  case (1 needle s)
  show ?case
  proof (cases "take (length needle) s = needle")
    case True
    then have "length needle \<le> length s" by (metis length_take min.absorb_iff2 min.commute)
    then show ?thesis using True "1.prems" by (subst (asm) str_find.simps) simp
  next
    case False
    then show ?thesis using "1.prems" "1.IH" [OF False] by (subst (asm) str_find.simps) (auto split: list.splits)
  qed
qed

lemma key_found:
  assumes "str_find (key_needle name @ suf) s = Some i"
  shows "i + length (key_needle name @ suf) \<le> length s" "s ! i = CHR 0x22" "s ! (i + length (key_needle name) - 1) = CHR 0x3A"
proof -
  have found: "i + length (key_needle name @ suf) \<le> length s" "take (length (key_needle name @ suf)) (drop i s) = key_needle name @ suf"
    using str_find_Some [OF assms] by auto
  have "s ! (i + k) = (key_needle name @ suf) ! k" if "k < length (key_needle name @ suf)" for k
    using found that by (metis add_leD1 nth_drop nth_take)
  from this [of 0] this [of "length name + 2"] found(1) show "i + length (key_needle name @ suf) \<le> length s"
    "s ! i = CHR 0x22" "s ! (i + length (key_needle name) - 1) = CHR 0x3A"
    by (simp_all add: key_needle_def nth_append)
qed

lemma strip_field_returns:
  assumes "utf8_valid line" shows "\<exists>out. strip_field line name = Some out \<and> utf8_valid out"
proof (cases "str_find (key_needle name) line")
  case (Some start)
  let ?e = "skip_while (\<lambda>c. c = CHR 0x20) line (value_end line (start + length (key_needle name)))"
  have found: "start + length (key_needle name) \<le> length line" "line ! start = CHR 0x22"
    using key_found [of name "[]" line start] Some by simp_all
  then have lt: "start < length line" by (simp add: key_needle_def)
  have e: "is_char_boundary line ?e"
    using assms found(1) by (intro skip_ascii_boundary value_end_boundary) auto
  have comma: "is_char_boundary line (Suc j)" if "j < length line" "line ! j = CHR 0x2C" for j
    using that assms by (intro boundary_after_ascii) simp_all
  have s: "is_char_boundary line start" "start \<noteq> 0 \<and> line ! (start - 1) = CHR 0x2C \<longrightarrow> is_char_boundary line (start - 1)"
    using lt found(2) by (auto intro!: boundary_ascii)
  have z: "is_char_boundary line 0" "is_char_boundary line (length line)" by (simp_all add: is_char_boundary_def)
  have slices: "str_slice line 0 i = Some (take i line)" "str_slice line i (length line) = Some (drop i line)"
    if "is_char_boundary line i" for i
    using that z by (auto simp: str_slice_def is_char_boundary_def)
  have "\<exists>i j. is_char_boundary line i \<and> is_char_boundary line j \<and> strip_field line name = Some (take i line @ drop j line)"
  proof (cases "?e < length line \<and> line ! ?e = CHR 0x2C")
    case True
    then have "strip_field line name = Some (take start line @ drop (Suc ?e) line)"
      using Some slices [OF s(1)] slices [OF comma, of ?e] by (simp add: strip_field_def Let_def)
    then show ?thesis using s(1) comma True by blast
  next
    case no: False
    show ?thesis
    proof (cases "0 < start \<and> line ! (start - 1) = CHR 0x2C")
      case True
      then have b: "is_char_boundary line (start - 1)" using s(2) by simp
      then have "strip_field line name = Some (take (start - 1) line @ drop ?e line)"
        using Some True no slices(1) [OF b] slices(2) [OF e] by (auto simp: strip_field_def Let_def)
      then show ?thesis using b e by blast
    next
      case False
      then have "strip_field line name = Some (take start line @ drop ?e line)"
        using Some no slices(1) [OF s(1)] slices(2) [OF e] by (auto simp: strip_field_def Let_def)
      then show ?thesis using s(1) e by blast
    qed
  qed
  then show ?thesis using assms utf8_valid_split utf8_valid_append by blast
qed (use assms in \<open>simp add: strip_field_def\<close>)

lemma extract_u64_field_returns:
  assumes "utf8_valid line" shows "\<exists>v. extract_u64_field line name = Some v"
proof (cases "str_find (key_needle name) line")
  case (Some found)
  let ?s = "found + length (key_needle name)"
  have s: "?s \<le> length line" "line ! (?s - 1) = CHR 0x3A"
    using key_found [of name "[]" line found] Some by simp_all
  have "is_char_boundary line ?s"
    using s assms boundary_after_ascii [of line "?s - 1"] by (simp add: key_needle_def)
  moreover have "is_char_boundary line (skip_while is_ascii_digit line ?s)"
    using assms calculation by (intro skip_ascii_boundary) (auto simp: is_ascii_digit_def)
  moreover have "skip_while is_ascii_digit line ?s \<le> length line" using skip_while_stop [OF s(1)] by blast
  ultimately have "\<exists>t. str_slice line ?s (skip_while is_ascii_digit line ?s) = Some t"
    using skip_while_le by (simp add: str_slice_def)
  then show ?thesis using Some by (auto simp: extract_u64_field_def Let_def)
qed (simp add: extract_u64_field_def)

lemma normalize_one_returns:
  assumes "utf8_valid line" shows "\<exists>l. normalize_one line = Some l"
proof -
  obtain c a b d e where "extract_u64_field line ''cycle'' = Some c" "strip_field line ''seq'' = Some a"
    "strip_field a ''vcd_time'' = Some b" "strip_field b ''dut_backend'' = Some d" "strip_field d ''tool'' = Some e"
    using assms extract_u64_field_returns strip_field_returns by metis
  then show ?thesis by (auto simp: normalize_one_def Let_def)
qed

lemma find_member: "find P xs = Some x \<Longrightarrow> x \<in> set xs \<and> P x"
  by (auto simp: find_Some_iff)

text \<open>Lines and trimmed text of well-formed text are well-formed.\<close>

lemma is_char_boundary_length: "is_char_boundary s (length s)"
  by (simp add: is_char_boundary_def)

lemma strip_cr_valid: "utf8_valid l \<Longrightarrow> utf8_valid (strip_cr l)"
  using utf8_valid_split [of l "length l - 1"] boundary_ascii [of "length l - 1" l]
  by (auto simp: strip_cr_def butlast_conv_take last_conv_nth)

lemma lines_valid: "utf8_valid s \<Longrightarrow> l \<in> set (lines s) \<Longrightarrow> utf8_valid l"
proof (induction s rule: lines.induct)
  case (1 s)
  let ?i = "length (takeWhile (\<lambda>c. c \<noteq> LF) s)"
  show ?case
  proof (cases "dropWhile (\<lambda>c. c \<noteq> LF) s")
    case Nil
    have "lines s = (if s = [] then [] else [s])" by (subst lines.simps) (simp add: Nil)
    then show ?thesis using "1.prems" by (simp split: if_splits)
  next
    case (Cons c rest)
    have s: "s = takeWhile (\<lambda>c. c \<noteq> LF) s @ c # rest" using Cons takeWhile_dropWhile_id by metis
    have "c = LF" using Cons hd_dropWhile [of "\<lambda>c. c \<noteq> LF" s] by fastforce
    then have i: "?i < length s" "s ! ?i = LF"
      using Cons by (metis length_append less_add_same_cancel1 list.size(4) s add_is_0 gr0I nat.distinct(1) One_nat_def)
        (metis \<open>c = LF\<close> nth_append_length s)
    have "utf8_valid (take ?i s)" "utf8_valid (drop ?i s)"
      using i "1.prems"(1) utf8_valid_split boundary_ascii [of ?i s] by (auto simp: LF_def)
    moreover have "take ?i s = takeWhile (\<lambda>c. c \<noteq> LF) s" "drop ?i s = c # rest" using s by (metis append_eq_conv_conj)+
    ultimately have "utf8_valid (takeWhile (\<lambda>c. c \<noteq> LF) s)" "utf8_valid (c # rest)" by simp_all
    then have "utf8_valid (takeWhile (\<lambda>c. c \<noteq> LF) s)" "utf8_valid rest"
      using utf8_valid_head [of "c # rest"] \<open>c = LF\<close> by (simp_all add: LF_def)
    moreover have "s \<noteq> []" using Cons by auto
    moreover have "lines s = strip_cr (takeWhile (\<lambda>c. c \<noteq> LF) s) # lines rest"
      by (subst lines.simps) (simp add: Cons \<open>s \<noteq> []\<close>)
    ultimately show ?thesis using "1.prems" "1.IH" [OF _ Cons] strip_cr_valid by auto
  qed
qed

lemma trim_start_valid: "utf8_valid s \<Longrightarrow> utf8_valid (trim_start s)"
proof (induction s rule: trim_start.induct)
  case (1 s)
  show ?case
  proof (cases "s = [] \<or> ws_head s = 0")
    case False
    obtain w where w: "w \<in> set ws_scalars" "take (length w) s = w" "ws_head s = length w"
      using False by (auto simp: ws_head_def dest: find_member split: option.splits)
    have "list_all utf8_valid ws_scalars" by code_simp
    then have "utf8_valid w" using w(1) by (simp add: list_all_iff)
    then have "utf8_valid (drop (ws_head s) s)"
      using "1.prems" w utf8_valid_append by (metis append_take_drop_id)
    then show ?thesis using False "1.IH" by (subst trim_start.simps) simp
  next
    case True
    then show ?thesis using "1.prems" by (subst trim_start.simps) simp
  qed
qed

lemma trim_end_valid: "utf8_valid s \<Longrightarrow> utf8_valid (trim_end s)"
proof (induction s rule: trim_end.induct)
  case (1 s)
  show ?case
  proof (cases "s = [] \<or> ws_last s = 0")
    case False
    obtain w where w: "w \<in> set ws_scalars" "length w \<le> length s" "drop (length s - length w) s = w" "ws_last s = length w"
      using False by (auto simp: ws_last_def dest: find_member split: option.splits)
    have "s ! (length s - length w) = hd w" "length s - length w < length s"
      using w False hd_drop_conv_nth [of "length s - length w" s] by auto
    moreover have "\<not> is_cont (hd w)" using ws_scalar_bytes(2) [OF w(1)] by (auto simp: is_cont_def)
    ultimately have "is_char_boundary s (length s - ws_last s)" using w(4) by (simp add: is_char_boundary_def)
    then have "utf8_valid (take (length s - ws_last s) s)" using "1.prems" utf8_valid_split by blast
    then show ?thesis using False "1.IH" by (subst trim_end.simps) simp
  next
    case True
    then show ?thesis using "1.prems" by (subst trim_end.simps) simp
  qed
qed

lemma normalize_lines_returns:
  assumes "utf8_valid txt" shows "\<exists>ls. normalize_lines txt = Some ls"
proof -
  have "(\<forall>l \<in> set raws. utf8_valid l) \<Longrightarrow> \<exists>ls. normalize_each raws = Some ls" for raws
  proof (induction raws)
    case (Cons raw raws)
    then obtain ls l where "normalize_each raws = Some ls" "normalize_one (str_trim raw) = Some l"
      using normalize_one_returns trim_end_valid trim_start_valid by (metis list.set_intros(1,2) str_trim_def)
    then show ?case by (simp add: Let_def)
  qed simp
  then show ?thesis using assms lines_valid by (auto simp: normalize_lines_def)
qed

section \<open>Divergences\<close>

text \<open>All divergences in order; the code reports the first ten.\<close>

definition divergences :: "NormalizedLine list \<Rightarrow> NormalizedLine list \<Rightarrow> Divergence list" where
  "divergences as ss = concat (map (\<lambda>i. diverge i (get_line as i) (get_line ss i)) [0..<max (length as) (length ss)])"

lemma diverge_length: "length (diverge i a s) \<le> 1"
  by (auto simp: diverge_def split: option.split)

lemma diff_loop_take:
  "length out < MAX_DIVERGENCES \<Longrightarrow>
     diff_loop as ss is out = take MAX_DIVERGENCES (out @ concat (map (\<lambda>i. diverge i (get_line as i) (get_line ss i)) is))"
proof (induction "is" arbitrary: out)
  case (Cons i "is")
  let ?d = "diverge i (get_line as i) (get_line ss i)"
  show ?case
  proof (cases "length (out @ ?d) < MAX_DIVERGENCES")
    case True
    then show ?thesis using Cons.IH [of "out @ ?d"] by (simp add: Let_def)
  next
    case False
    then have "?d \<noteq> []" using Cons.prems by auto
    moreover have "length (out @ ?d) = MAX_DIVERGENCES" using False Cons.prems diverge_length [of i "get_line as i" "get_line ss i"] by simp
    ultimately show ?thesis by (simp add: Let_def)
  qed
qed simp

lemma diff_trace_strings_eq:
  assumes "normalize_lines a = Some as" "normalize_lines s = Some ss"
  shows "diff_trace_strings a s = Some (take MAX_DIVERGENCES (divergences as ss))"
  using assms by (simp add: diff_trace_strings_def diff_loop_take divergences_def MAX_DIVERGENCES_def)

lemma divergences_Nil: "divergences as ss = [] \<longleftrightarrow> map normalized as = map normalized ss"
proof -
  have "diverge i (get_line as i) (get_line ss i) = [] \<longleftrightarrow>
      map_option normalized (get_line as i) = map_option normalized (get_line ss i)" for i
    by (auto simp: diverge_def split: option.split)
  then have "divergences as ss = [] \<longleftrightarrow> (\<forall>i < max (length as) (length ss).
      map_option normalized (get_line as i) = map_option normalized (get_line ss i))"
    by (auto simp: divergences_def)
  also have "\<dots> \<longleftrightarrow> map normalized as = map normalized ss"
  proof
    assume eq: "\<forall>i < max (length as) (length ss). map_option normalized (get_line as i) = map_option normalized (get_line ss i)"
    have "length as = length ss"
    proof (rule ccontr)
      assume "length as \<noteq> length ss"
      then consider "length as < length ss" | "length ss < length as" by linarith
      then show False
        using eq [rule_format, of "length as"] eq [rule_format, of "length ss"] by cases (simp_all add: get_line_def)
    qed
    then show "map normalized as = map normalized ss"
      using eq by (auto simp: get_line_def intro!: nth_equalityI)
  next
    assume "map normalized as = map normalized ss"
    then have "length as = length ss" "i < length as \<Longrightarrow> normalized (as ! i) = normalized (ss ! i)" for i
      by (auto dest: map_eq_imp_length_eq) (metis length_map nth_map)
    then show "\<forall>i < max (length as) (length ss). map_option normalized (get_line as i) = map_option normalized (get_line ss i)"
      by (simp add: get_line_def)
  qed
  finally show ?thesis .
qed

section \<open>Flat objects\<close>

text \<open>The trace writer's events: one object per line, with quoted strings and plain scalars as values.\<close>

datatype flat_value = Quoted string | Plain string

type_synonym flat_member = "string \<times> flat_value"

fun escaped_body :: "string \<Rightarrow> bool" where
  "escaped_body [] = True"
| "escaped_body [c] = (c \<notin> {CHR 0x22, CHR 0x5C})"
| "escaped_body (c # d # r) = (if c = CHR 0x5C then escaped_body r else c \<noteq> CHR 0x22 \<and> escaped_body (d # r))"

definition key_char :: "char \<Rightarrow> bool" where
  "key_char c \<longleftrightarrow> 32 \<le> (byte c :: nat) \<and> byte c < (128 :: nat) \<and> c \<notin> {CHR 0x22, CHR 0x5C, CHR 0x3A, CHR 0x2C, CHR 0x7D}"

definition printable :: "char \<Rightarrow> bool" where
  "printable c \<longleftrightarrow> 32 \<le> (byte c :: nat)"

fun flat_value_ok :: "flat_value \<Rightarrow> bool" where
  "flat_value_ok (Quoted b) = (escaped_body b \<and> utf8_valid b \<and> list_all printable b)"
| "flat_value_ok (Plain t) = (t \<noteq> [] \<and> hd t \<notin> {CHR 0x7B, CHR 0x5B} \<and> list_all key_char t)"

fun show_value :: "flat_value \<Rightarrow> string" where
  "show_value (Quoted b) = CHR 0x22 # b @ [CHR 0x22]"
| "show_value (Plain t) = t"

definition show_member :: "flat_member \<Rightarrow> string" where
  "show_member m = key_needle (fst m) @ show_value (snd m)"

definition tail_text :: "flat_member list \<Rightarrow> string" where
  "tail_text ms = concat (map (\<lambda>m. CHR 0x2C # show_member m) ms) @ [CHR 0x7D]"

definition head_text :: "flat_member list \<Rightarrow> string" where
  "head_text ms = CHR 0x7B # concat (map (\<lambda>m. show_member m @ [CHR 0x2C]) ms)"

fun show_object :: "flat_member list \<Rightarrow> string" where
  "show_object [] = [CHR 0x7B, CHR 0x7D]"
| "show_object (m # ms) = CHR 0x7B # show_member m @ tail_text ms"

definition flat_ok :: "flat_member list \<Rightarrow> bool" where
  "flat_ok ms \<longleftrightarrow> distinct (map fst ms) \<and> list_all (\<lambda>m. list_all key_char (fst m) \<and> flat_value_ok (snd m)) ms"

lemma tail_text_simps [simp]:
  "tail_text [] = [CHR 0x7D]" "tail_text (m # ms) = CHR 0x2C # show_member m @ tail_text ms"
  by (simp_all add: tail_text_def)

lemma head_text_simps [simp]: "head_text [] = [CHR 0x7B]" "head_text (ms @ [m]) = head_text ms @ show_member m @ [CHR 0x2C]"
  by (simp_all add: head_text_def)

lemma show_object_split: "show_object (pre @ m # post) = head_text pre @ show_member m @ tail_text post"
proof (induction pre arbitrary: m post rule: rev_induct)
  case (snoc p pre)
  then show ?case by simp
qed simp

lemma show_object_head: "pre \<noteq> [] \<Longrightarrow> head_text pre = butlast (show_object pre) @ [CHR 0x2C] \<and> last (show_object pre) = CHR 0x7D"
  by (cases pre rule: rev_cases) (simp_all add: show_object_split butlast_append)

lemma tail_text_hd: "\<exists>c r. tail_text ms = c # r \<and> c \<in> {CHR 0x2C, CHR 0x7D}"
  by (cases ms) simp_all

lemma show_object_nonempty: "show_object ms \<noteq> []"
  by (cases ms) simp_all

text \<open>A text is clear of a needle when no occurrence starts in it, whatever follows.\<close>

definition clear :: "string \<Rightarrow> string \<Rightarrow> string \<Rightarrow> bool" where
  "clear needle t r \<longleftrightarrow> (\<forall>i < length t. take (length needle) (drop i (t @ r)) \<noteq> needle)"

lemma clear_Nil [simp]: "clear needle [] r"
  by (simp add: clear_def)

lemma clear_Cons: "clear needle (c # t) r \<longleftrightarrow> take (length needle) (c # t @ r) \<noteq> needle \<and> clear needle t r"
  by (auto simp: clear_def All_less_Suc2)

lemma clear_append: "clear needle (t @ u) r \<longleftrightarrow> clear needle t (u @ r) \<and> clear needle u r"
  by (induction t) (simp_all add: clear_Cons)

lemma str_find_clear: "clear needle t r \<Longrightarrow> str_find needle (t @ r) = map_option ((+) (length t)) (str_find needle r)"
proof (induction t)
  case (Cons c t)
  then have "str_find needle ((c # t) @ r) = map_option Suc (str_find needle (t @ r))"
    by (subst str_find.simps) (simp add: clear_Cons)
  then show ?case using Cons by (simp add: clear_Cons option.map_comp comp_def)
qed (cases "str_find needle r"; simp)

lemma str_find_hit: "str_find needle (needle @ r) = Some 0"
  by (subst str_find.simps) simp

lemma clear_longer: "clear needle t r \<Longrightarrow> clear (needle @ suf) t r"
proof -
  have "take (length needle) x = needle" if "take (length (needle @ suf)) x = needle @ suf" for x
    using arg_cong [OF that, of "take (length needle)"] by simp
  then show "clear needle t r \<Longrightarrow> clear (needle @ suf) t r" unfolding clear_def by blast
qed

lemma clear_key_iff:
  "clear (key_needle k) (c # t) r \<longleftrightarrow>
     \<not> (c = CHR 0x22 \<and> take (length k + 2) (t @ r) = k @ [CHR 0x22, CHR 0x3A]) \<and> clear (key_needle k) t r"
  by (auto simp: clear_Cons key_needle_def)

lemma clear_no_quote: "CHR 0x22 \<notin> set t \<Longrightarrow> clear (key_needle k) t r"
  by (induction t) (auto simp: clear_key_iff)

lemma key_not_in_body:
  "list_all key_char k \<Longrightarrow> escaped_body b \<Longrightarrow> c \<noteq> CHR 0x3A \<Longrightarrow>
     take (length k + 2) (b @ CHR 0x22 # c # r) \<noteq> k @ [CHR 0x22, CHR 0x3A]"
proof (induction k arbitrary: b)
  case Nil
  then show ?case by (cases b rule: escaped_body.cases) auto
next
  case (Cons x k)
  show ?case
  proof (cases b)
    case (Cons y b')
    then have "x = y \<Longrightarrow> escaped_body b'" using Cons.prems by (cases b') (auto simp: key_char_def split: if_splits)
    then show ?thesis using Cons Cons.IH [of b'] Cons.prems by auto
  qed (use Cons.prems in \<open>auto simp: key_char_def\<close>)
qed

lemma key_not_after:
  "list_all key_char k \<Longrightarrow> c \<in> {CHR 0x2C, CHR 0x7D, CHR 0x3A} \<Longrightarrow> take (length k + 2) (c # r) \<noteq> k @ [CHR 0x22, CHR 0x3A]"
  by (cases k) (auto simp: key_char_def)

lemma clear_body:
  assumes "list_all key_char k" "c \<in> {CHR 0x2C, CHR 0x7D}"
  shows "escaped_body b \<Longrightarrow> clear (key_needle k) (b @ [CHR 0x22]) (c # r)"
proof (induction b rule: escaped_body.induct)
  case 1
  then show ?case using assms key_not_after by (auto simp: clear_key_iff)
next
  case (2 x)
  then show ?case using assms key_not_after by (auto simp: clear_key_iff)
next
  case (3 x y b)
  show ?case
  proof (cases "x = CHR 0x5C")
    case True
    then have "escaped_body b" using 3 by simp
    then show ?thesis using 3 True assms key_not_in_body [of k b c r] by (auto simp: clear_key_iff)
  next
    case False
    then show ?thesis using 3 by (auto simp: clear_key_iff [of k x])
  qed
qed

lemma key_prefix_eq:
  "list_all key_char k \<Longrightarrow> list_all key_char k' \<Longrightarrow>
     take (length k + 2) (k' @ CHR 0x22 # CHR 0x3A # r) = k @ [CHR 0x22, CHR 0x3A] \<Longrightarrow> k = k'"
proof (induction k arbitrary: k')
  case Nil
  then show ?case by (cases k') (auto simp: key_char_def)
next
  case (Cons x k)
  then show ?case by (cases k') (auto simp: key_char_def)
qed

lemma clear_member:
  assumes "list_all key_char k" "list_all key_char (fst m)" "fst m \<noteq> k" "flat_value_ok (snd m)" "c \<in> {CHR 0x2C, CHR 0x7D}"
  shows "clear (key_needle k) (show_member m) (c # r)"
proof -
  have "CHR 0x22 \<notin> set (fst m)" using assms(2) by (auto simp: list_all_iff key_char_def)
  then have key: "clear (key_needle k) (key_needle (fst m)) s" for s
    using assms key_prefix_eq [of k "fst m" s] key_not_after [of k "CHR 0x3A" s] clear_no_quote
    by (auto simp: key_needle_def [of "fst m"] clear_key_iff clear_append)
  have "clear (key_needle k) (show_value (snd m)) (c # r)"
  proof (cases "snd m")
    case (Quoted b)
    then show ?thesis
      using assms clear_body [of k c b r] key_not_in_body [of k b c r] by (auto simp: clear_key_iff)
  next
    case (Plain t)
    then show ?thesis using assms(4) by (auto intro!: clear_no_quote simp: list_all_iff key_char_def)
  qed
  then show ?thesis using key by (simp add: show_member_def clear_append)
qed

lemma clear_head_text:
  assumes "list_all key_char k" "list_all (\<lambda>m. list_all key_char (fst m) \<and> fst m \<noteq> k \<and> flat_value_ok (snd m)) pre"
  shows "clear (key_needle k) (head_text pre) r"
proof -
  have "clear (key_needle k) (concat (map (\<lambda>m. show_member m @ [CHR 0x2C]) pre)) r"
    using assms(2) clear_member [OF assms(1)] by (induction pre) (auto simp: clear_append clear_key_iff)
  then show ?thesis by (simp add: head_text_def clear_key_iff)
qed

lemma find_member_key:
  assumes "flat_ok (pre @ (k, v) # post)"
  shows "clear (key_needle k) (head_text pre) r" "str_find (key_needle k) (show_object (pre @ (k, v) # post)) = Some (length (head_text pre))"
proof -
  have "list_all key_char k" "list_all (\<lambda>m. list_all key_char (fst m) \<and> fst m \<noteq> k \<and> flat_value_ok (snd m)) pre"
    using assms by (auto simp: flat_ok_def list_all_iff)
  then show clear: "clear (key_needle k) (head_text pre) r" for r using clear_head_text by blast
  have "str_find (key_needle k) (key_needle k @ s) = Some 0" for s by (rule str_find_hit)
  then show "str_find (key_needle k) (show_object (pre @ (k, v) # post)) = Some (length (head_text pre))"
    using str_find_clear [OF clear] by (simp add: show_object_split show_member_def)
qed

lemma absent_key_clear:
  assumes "flat_ok ms" "k \<notin> fst ` set ms" "list_all key_char k"
  shows "clear (key_needle k) (show_object ms) []"
proof (cases ms rule: rev_cases)
  case (snoc ms' m)
  have ok: "list_all (\<lambda>m. list_all key_char (fst m) \<and> fst m \<noteq> k \<and> flat_value_ok (snd m)) (ms' @ [m])"
    using assms snoc by (auto simp: flat_ok_def list_all_iff)
  then have "clear (key_needle k) (show_member m) [CHR 0x7D]" using clear_member [OF assms(3), of m "CHR 0x7D" "[]"] by simp
  then show ?thesis using clear_head_text [OF assms(3), of ms'] ok snoc
    by (simp add: show_object_split [of ms' m "[]", simplified] clear_append clear_key_iff)
qed (simp add: clear_key_iff)

lemma absent_key_not_found: "flat_ok ms \<Longrightarrow> k \<notin> fst ` set ms \<Longrightarrow> list_all key_char k \<Longrightarrow> str_find (key_needle k @ suf) (show_object ms) = None"
  using str_find_clear [OF clear_longer [OF absent_key_clear], of ms k suf]
  by (simp add: str_find.simps [of _ "[]"] key_needle_def)

text \<open>The end of a value.\<close>

lemma drop_head: "drop i s = c # r \<Longrightarrow> i < length s \<and> s ! i = c \<and> drop (Suc i) s = r"
  by (metis drop_ConsD)

lemma string_end_body: "escaped_body b \<Longrightarrow> drop i s = b @ CHR 0x22 # r \<Longrightarrow> string_end s i = i + length b + 1"
proof (induction b arbitrary: i rule: escaped_body.induct)
  case 1
  then show ?case using drop_head [of i s] by (subst string_end.simps) simp
next
  case (2 c)
  then have "i < length s \<and> s ! i = c" "drop (Suc i) s = CHR 0x22 # r" using drop_head [of i s] by auto
  moreover have "string_end s (Suc i) = Suc (Suc i)" using calculation drop_head [of "Suc i" s] by (subst string_end.simps) simp
  ultimately show ?case using 2 by (subst string_end.simps) simp
next
  case (3 c d b)
  then have i: "i < length s" "s ! i = c" "drop (Suc i) s = d # b @ CHR 0x22 # r" using drop_head [of i s] by auto
  then have j: "Suc i < length s" "drop (Suc (Suc i)) s = b @ CHR 0x22 # r" using drop_head [of "Suc i" s] by auto
  show ?case
  proof (cases "c = CHR 0x5C")
    case True
    then have "string_end s (Suc (Suc i)) = Suc (Suc i) + length b + 1" using 3 j by simp
    then show ?thesis using True i j by (subst string_end.simps) (simp add: min_absorb1)
  next
    case False
    then have "string_end s (Suc i) = Suc i + length (d # b) + 1" using 3 i by simp
    then show ?thesis using False 3 i by (subst string_end.simps) simp
  qed
qed

lemma skip_while_body: "list_all P t \<Longrightarrow> drop i s = t @ c # r \<Longrightarrow> \<not> P c \<Longrightarrow> skip_while P s i = i + length t"
proof (induction t arbitrary: i)
  case (Cons x t)
  then have "i < length s" "s ! i = x" "drop (Suc i) s = t @ c # r" using drop_head [of i s] by auto
  then show ?case using Cons by (subst skip_while.simps) simp
next
  case Nil
  then show ?case using drop_head [of i s] by (subst skip_while.simps) simp
qed

lemma value_end_flat:
  assumes "flat_value_ok v" "drop i s = show_value v @ c # r" "c \<in> {CHR 0x2C, CHR 0x7D}"
  shows "value_end s i = i + length (show_value v)"
proof (cases v)
  case (Quoted b)
  then have "i < length s" "s ! i = CHR 0x22" "drop (Suc i) s = b @ CHR 0x22 # c # r" using assms(2) drop_head [of i s] by auto
  then show ?thesis using assms(1) Quoted string_end_body [of b "Suc i" s] by (simp add: value_end_def get_byte_def)
next
  case (Plain t)
  then obtain x t' where t: "t = x # t'" using assms(1) by (cases t) auto
  then have "i < length s" "s ! i = x" using assms(2) Plain drop_head [of i s x] by auto
  moreover have "x \<notin> {CHR 0x22, CHR 0x7B, CHR 0x5B}" using assms(1) Plain t by (auto simp: key_char_def)
  moreover have "scalar_end s i = i + length t"
    unfolding scalar_end_def using assms Plain
    by (intro skip_while_body [of _ _ _ _ c r]) (auto simp: list_all_iff key_char_def)
  ultimately show ?thesis using Plain by (simp add: value_end_def get_byte_def)
qed

lemma slice_ends:
  assumes "c \<noteq> [] \<Longrightarrow> \<not> is_cont (hd c)"
  shows "str_slice (x @ c) 0 (length x) = Some x" "str_slice (x @ c) (length x) (length x + length c) = Some c"
  using assms by (cases c; simp add: str_slice_def is_char_boundary_def nth_append)+

lemma strip_member:
  assumes ok: "flat_ok (pre @ (k, v) # post)"
  shows "strip_field (show_object (pre @ (k, v) # post)) k = Some (show_object (pre @ post))"
proof -
  let ?line = "show_object (pre @ (k, v) # post)" and ?start = "length (head_text pre)"
  let ?after = "?start + length (key_needle k)"
  obtain c r where tail: "tail_text post = c # r" and c: "c \<in> {CHR 0x2C, CHR 0x7D}" using tail_text_hd by blast
  have line: "?line = head_text pre @ key_needle k @ show_value v @ c # r"
    by (simp add: show_object_split show_member_def tail)
  have v: "value_end ?line ?after = ?after + length (show_value v)"
    using ok c line by (intro value_end_flat [of _ _ _ c r]) (auto simp: flat_ok_def)
  have "drop (?after + length (show_value v)) ?line = [] @ c # r" using line by simp
  then have e: "skip_while (\<lambda>x. x = CHR 0x20) ?line (?after + length (show_value v)) = ?after + length (show_value v)"
    using c skip_while_body [of "\<lambda>x. x = CHR 0x20" "[]"] by fastforce
  have nth_e: "?line ! (?after + length (show_value v)) = c" "?after + length (show_value v) < length ?line"
    using line by (simp_all add: nth_append)
  note strip = strip_field_def [of ?line k] find_member_key(2) [OF ok] v e nth_e
  show ?thesis
  proof (cases post)
    case (Cons m post')
    then have r: "c = CHR 0x2C" "r = show_member m @ tail_text post'" using tail by auto
    have hd_r: "\<not> is_cont (hd r)" by (simp add: r show_member_def key_needle_def is_cont_def)
    have "str_slice ?line 0 ?start = Some (head_text pre)"
      unfolding line by (rule slice_ends(1)) (simp add: key_needle_def is_cont_def)
    moreover have "str_slice ?line (?after + length (show_value v) + 1) (length ?line) = Some r"
      using slice_ends(2) [of r "head_text pre @ key_needle k @ show_value v @ [c]"] hd_r by (simp add: line ac_simps)
    ultimately show ?thesis using strip r(1) Cons r(2) by (simp add: Let_def show_object_split)
  next
    case Nil
    then have r: "c = CHR 0x7D" "r = []" using tail by auto
    have after: "str_slice ?line (?after + length (show_value v)) (length ?line) = Some [CHR 0x7D]"
      using slice_ends(2) [of "[c]" "head_text pre @ key_needle k @ show_value v"] r by (simp add: line is_cont_def ac_simps)
    show ?thesis
    proof (cases "pre = []")
      case True
      have "str_slice ?line 0 ?start = Some [CHR 0x7B]"
        unfolding line using slice_ends(1) [of "key_needle k @ show_value v @ c # r" "[CHR 0x7B]"]
        by (simp add: True key_needle_def is_cont_def)
      then show ?thesis using strip after True Nil r by (simp add: Let_def line)
    next
      case False
      obtain b where h: "head_text pre = b @ [CHR 0x2C]" "show_object pre = b @ [CHR 0x7D]"
        using show_object_head [OF False] append_butlast_last_id [OF show_object_nonempty] by metis
      have "str_slice ?line 0 (?start - 1) = Some b"
        using slice_ends(1) [of "CHR 0x2C # key_needle k @ show_value v @ c # r" b] by (simp add: line h is_cont_def)
      moreover have "?line ! (?start - 1) = CHR 0x2C" "0 < ?start" by (simp_all add: line h nth_append)
      ultimately show ?thesis using strip after Nil r h by (simp add: Let_def)
    qed
  qed
qed

definition without :: "string set \<Rightarrow> flat_member list \<Rightarrow> flat_member list" where
  "without ks ms = filter (\<lambda>m. fst m \<notin> ks) ms"

lemma flat_ok_without: "flat_ok ms \<Longrightarrow> flat_ok (without ks ms)"
  by (auto simp: flat_ok_def without_def list_all_iff distinct_map_filter)

lemma strip_field_without:
  assumes "flat_ok ms" "list_all key_char k"
  shows "strip_field (show_object ms) k = Some (show_object (without {k} ms))"
proof (cases "k \<in> fst ` set ms")
  case True
  then obtain v pre post where ms: "ms = pre @ (k, v) # post" by (auto dest: split_list)
  then have "k \<notin> fst ` set pre" "k \<notin> fst ` set post" using assms(1) by (auto simp: flat_ok_def)
  then have "filter (\<lambda>m. fst m \<noteq> k) pre = pre" "filter (\<lambda>m. fst m \<noteq> k) post = post" by (auto simp: filter_id_conv)
  then show ?thesis using strip_member assms(1) ms by (simp add: without_def)
next
  case False
  then have "without {k} ms = ms" by (auto simp: without_def filter_id_conv)
  then show ?thesis using absent_key_not_found [OF assms(1) False assms(2), of "[]"] by (simp add: strip_field_def)
qed

lemma without_without: "without ks (without ls ms) = without (ls \<union> ks) ms"
  by (simp add: without_def conj_commute)

lemma show_object_valid: "flat_ok ms \<Longrightarrow> utf8_valid (show_object ms)"
proof -
  have key: "utf8_valid (key_needle k)" if "list_all key_char k" for k
    using that by (intro utf8_valid_ascii) (auto simp: key_needle_def key_char_def list_all_iff)
  have q: "utf8_valid [c]" if "byte c < (128 :: nat)" for c using that by (intro utf8_valid_ascii) simp
  have "utf8_valid (show_value v)" if "flat_value_ok v" for v
  proof (cases v)
    case (Quoted b)
    then show ?thesis using that q utf8_valid_append [OF q [of "CHR 0x22"], of "b @ [CHR 0x22]"] by (simp add: utf8_valid_append)
  next
    case (Plain t)
    then show ?thesis using that by (intro utf8_valid_ascii) (auto simp: key_char_def list_all_iff)
  qed
  then have member: "utf8_valid (show_member m)" if "list_all key_char (fst m)" "flat_value_ok (snd m)" for m
    using that key by (simp add: show_member_def utf8_valid_append)
  assume "flat_ok ms"
  then have "list_all (\<lambda>m. list_all key_char (fst m) \<and> flat_value_ok (snd m)) ms" by (simp add: flat_ok_def)
  then have "utf8_valid (tail_text ms) \<and> utf8_valid (show_object ms)"
  proof (induction ms)
    case Nil
    show ?case using utf8_valid_ascii [of "[CHR 0x7D]"] utf8_valid_ascii [of "[CHR 0x7B, CHR 0x7D]"] by simp
  next
    case (Cons m ms)
    then show ?case using member utf8_valid_append [OF q [of "CHR 0x2C"]] utf8_valid_append [OF q [of "CHR 0x7B"]]
      by (simp add: utf8_valid_append)
  qed
  then show ?thesis by blast
qed

text \<open>The type of an event, and the members that are compared.\<close>

definition event_type_ok :: "flat_member list \<Rightarrow> string \<Rightarrow> bool" where
  "event_type_ok ms t \<longleftrightarrow> map_of ms ''type'' = Some (Quoted t) \<and> list_all key_char t"

definition noise :: "string \<Rightarrow> string set" where
  "noise t = {''seq'', ''vcd_time''} \<union> (if t = ''meta'' then {''dut_backend'', ''tool''} else {})"

lemma extract_loop_plain:
  "list_all key_char t \<Longrightarrow> drop i s = t @ CHR 0x22 # r \<Longrightarrow> extract_string_loop s i out = Some (out @ t)"
proof (induction t arbitrary: i out)
  case Nil
  then show ?case using drop_head [of i s] by (subst extract_string_loop.simps) simp
next
  case (Cons c t)
  then have "i < length s" "s ! i = c" "drop (Suc i) s = t @ CHR 0x22 # r" using drop_head [of i s] by auto
  then show ?case using Cons by (subst extract_string_loop.simps) (auto simp: key_char_def utf8_encode_def)
qed

lemma extract_event_type:
  assumes "flat_ok ms" "event_type_ok ms t"
  shows "extract_string_field (show_object ms) ''type'' = Some t"
proof -
  obtain pre post where ms: "ms = pre @ (''type'', Quoted t) # post"
    using assms(2) by (auto simp: event_type_ok_def dest!: map_of_SomeD split_list)
  have clear: "clear (key_needle ''type'' @ [CHR 0x22]) (head_text pre) r" for r
    using find_member_key(1) assms(1) clear_longer unfolding ms by blast
  have line: "show_object ms = head_text pre @ (key_needle ''type'' @ [CHR 0x22]) @ t @ CHR 0x22 # tail_text post"
    by (simp add: ms show_object_split show_member_def)
  have "str_find (key_needle ''type'' @ [CHR 0x22]) (show_object ms) = Some (length (head_text pre))"
    unfolding line using str_find_clear [OF clear]
      str_find_hit [of "key_needle ''type'' @ [CHR 0x22]" "t @ CHR 0x22 # tail_text post"] by simp
  moreover have "extract_string_loop (show_object ms) (length (head_text pre) + length (key_needle ''type'' @ [CHR 0x22])) [] = Some ([] @ t)"
    by (rule extract_loop_plain [of _ _ _ "tail_text post"]) (use assms(2) in \<open>simp_all add: line event_type_ok_def\<close>)
  ultimately show ?thesis by (simp add: extract_string_field_def)
qed

lemma normalize_event:
  assumes "flat_ok ms" "event_type_ok ms t"
  shows "\<exists>l. normalize_one (show_object ms) = Some l \<and> normalized l = show_object (without (noise t) ms)"
proof -
  have keys: "list_all key_char ''seq''" "list_all key_char ''vcd_time''" "list_all key_char ''dut_backend''" "list_all key_char ''tool''"
    by (simp_all add: key_char_def)
  have strip: "strip_field (show_object (without ks ms)) k = Some (show_object (without (ks \<union> {k}) ms))" if "list_all key_char k" for ks k
    using strip_field_without [OF flat_ok_without [OF assms(1)] that] by (simp only: without_without)
  have first: "strip_field (show_object ms) ''seq'' = Some (show_object (without {''seq''} ms))"
    using strip_field_without [OF assms(1) keys(1)] .
  have rest: "strip_field (show_object (without {''seq''} ms)) ''vcd_time'' = Some (show_object (without {''seq'', ''vcd_time''} ms))"
    "strip_field (show_object (without {''seq'', ''vcd_time''} ms)) ''dut_backend'' = Some (show_object (without {''seq'', ''vcd_time'', ''dut_backend''} ms))"
    "strip_field (show_object (without {''seq'', ''vcd_time'', ''dut_backend''} ms)) ''tool'' = Some (show_object (without {''seq'', ''vcd_time'', ''dut_backend'', ''tool''} ms))"
    unfolding strip [OF keys(2)] strip [OF keys(3)] strip [OF keys(4)] by (simp_all only: insert_is_Un [symmetric] Un_insert_left Un_empty_left)
  obtain c where "extract_u64_field (show_object ms) ''cycle'' = Some c"
    using extract_u64_field_returns show_object_valid assms(1) by blast
  then show ?thesis using extract_event_type [OF assms] by (simp add: normalize_one_def first rest noise_def)
qed

lemma show_object_line:
  assumes "flat_ok ms"
  shows "LF \<notin> set (show_object ms)" "str_trim (show_object ms) = show_object ms" "strip_cr (show_object ms) = show_object ms"
    "show_object ms \<noteq> []"
proof -
  have "c \<noteq> LF" if "key_char c \<or> printable c" for c using that by (auto simp: key_char_def printable_def LF_def)
  then have key: "LF \<notin> set k" if "list_all key_char k \<or> list_all printable k" for k using that by (auto simp: list_all_iff)
  have "LF \<notin> set (show_value v)" if "flat_value_ok v" for v
    using that key by (cases v) (auto simp: LF_def)
  then have "list_all (\<lambda>m. LF \<notin> set (fst m) \<and> LF \<notin> set (show_value (snd m))) ms"
    using assms key unfolding flat_ok_def list_all_iff by simp
  then show "LF \<notin> set (show_object ms)"
    by (cases ms) (auto simp: show_member_def key_needle_def tail_text_def list_all_iff LF_def)
  have "\<exists>x. show_object ms = CHR 0x7B # x @ [CHR 0x7D]" by (cases ms) (auto simp: tail_text_def)
  then obtain x where x: "show_object ms = CHR 0x7B # x @ [CHR 0x7D]" ..
  then show "show_object ms \<noteq> []" "strip_cr (show_object ms) = show_object ms" by (simp_all add: strip_cr_def)
  have "trim_start (CHR 0x7B # x @ [CHR 0x7D]) = CHR 0x7B # x @ [CHR 0x7D]" by (rule trim_start_plain) simp
  moreover have "trim_end ((CHR 0x7B # x) @ [CHR 0x7D]) = (CHR 0x7B # x) @ [CHR 0x7D]" by (rule trim_end_plain) simp
  ultimately show "str_trim (show_object ms) = show_object ms" by (simp add: str_trim_def x)
qed

definition event_ok :: "flat_member list \<Rightarrow> bool" where
  "event_ok ms \<longleftrightarrow> flat_ok ms \<and> (case map_of ms ''type'' of Some (Quoted t) \<Rightarrow> list_all key_char t | _ \<Rightarrow> False)"

definition event_type_of :: "flat_member list \<Rightarrow> string" where
  "event_type_of ms = (case map_of ms ''type'' of Some (Quoted t) \<Rightarrow> t | _ \<Rightarrow> [])"

definition semantic :: "flat_member list \<Rightarrow> flat_member list" where
  "semantic ms = without (noise (event_type_of ms)) ms"

lemma normalize_trace:
  assumes "list_all event_ok evs"
  shows "\<exists>ls. normalize_lines (unlines (map show_object evs)) = Some ls \<and> map normalized ls = map (show_object \<circ> semantic) evs"
proof -
  have ok: "flat_ok ms \<and> event_type_ok ms (event_type_of ms)" if "event_ok ms" for ms
    using that by (auto simp: event_ok_def event_type_ok_def event_type_of_def split: option.splits flat_value.splits)
  have "lines (unlines (map show_object evs)) = map show_object evs"
    using assms ok show_object_line by (subst lines_unlines) (auto simp: list_all_iff cong: map_cong)
  moreover have "\<exists>ls. normalize_each (map show_object evs) = Some ls \<and> map normalized ls = map (show_object \<circ> semantic) evs"
    using assms
  proof (induction evs)
    case (Cons ms evs)
    then obtain ls l where "normalize_each (map show_object evs) = Some ls" "map normalized ls = map (show_object \<circ> semantic) evs"
      "normalize_one (show_object ms) = Some l" "normalized l = show_object (semantic ms)"
      using normalize_event [of ms "event_type_of ms"] ok by (auto simp: semantic_def)
    then show ?case using Cons.prems ok show_object_line [of ms] by (auto simp: Let_def)
  qed simp
  ultimately show ?thesis by (simp add: normalize_lines_def)
qed

text \<open>Different members have different texts.\<close>

lemma key_char_no_quote: "list_all key_char k \<Longrightarrow> CHR 0x22 \<notin> set k"
  by (auto simp: list_all_iff key_char_def)

lemma key_needle_eq:
  assumes "list_all key_char k" "list_all key_char k'" "key_needle k @ r = key_needle k' @ r'"
  shows "k = k' \<and> r = r'"
proof -
  have "takeWhile (\<lambda>c. c \<noteq> CHR 0x22) (x @ CHR 0x22 # y) = x" if "list_all key_char x" for x y
    using key_char_no_quote [OF that] by (induction x) auto
  from this [OF assms(1)] this [OF assms(2)] have "k = k'"
    using arg_cong [OF assms(3), of "takeWhile (\<lambda>c. c \<noteq> CHR 0x22) \<circ> tl"] by (simp add: key_needle_def)
  then show ?thesis using assms(3) by simp
qed

lemma show_value_eq:
  assumes "flat_value_ok v" "flat_value_ok v'" "show_value v @ tail_text ms = show_value v' @ tail_text ms'"
  shows "v = v' \<and> tail_text ms = tail_text ms'"
proof -
  let ?s = "show_value v @ tail_text ms"
  obtain c r c' r' where "tail_text ms = c # r" "c \<in> {CHR 0x2C, CHR 0x7D}" "tail_text ms' = c' # r'" "c' \<in> {CHR 0x2C, CHR 0x7D}"
    using tail_text_hd by metis
  then have "value_end ?s 0 = length (show_value v)" "value_end ?s 0 = length (show_value v')"
    using value_end_flat [OF assms(1), of 0 ?s c r] value_end_flat [OF assms(2), of 0 ?s c' r'] assms(3) by simp_all
  then have "show_value v = show_value v' \<and> tail_text ms = tail_text ms'" using assms(3) by (metis append_eq_append_conv)
  then show ?thesis using assms(1,2) by (cases v; cases v') (auto simp: key_char_def)
qed

lemma show_member_eq:
  assumes "list_all key_char (fst m)" "flat_value_ok (snd m)" "list_all key_char (fst m')" "flat_value_ok (snd m')"
    and "show_member m @ tail_text ms = show_member m' @ tail_text ms'"
  shows "m = m' \<and> tail_text ms = tail_text ms'"
proof -
  have "fst m = fst m' \<and> show_value (snd m) @ tail_text ms = show_value (snd m') @ tail_text ms'"
    using assms(5) key_needle_eq [OF assms(1,3)] by (simp add: show_member_def)
  then show ?thesis using show_value_eq [OF assms(2,4)] by (auto simp: prod_eq_iff)
qed

lemma show_object_inj:
  assumes "flat_ok ms" "flat_ok ms'" "show_object ms = show_object ms'" shows "ms = ms'"
proof -
  have ok: "list_all (\<lambda>m. list_all key_char (fst m) \<and> flat_value_ok (snd m)) ms"
    "list_all (\<lambda>m. list_all key_char (fst m) \<and> flat_value_ok (snd m)) ms'" using assms(1,2) by (simp_all add: flat_ok_def)
  have tail: "tail_text ns = tail_text ns' \<Longrightarrow> ns = ns'"
    if "list_all (\<lambda>m. list_all key_char (fst m) \<and> flat_value_ok (snd m)) ns"
      "list_all (\<lambda>m. list_all key_char (fst m) \<and> flat_value_ok (snd m)) ns'" for ns ns'
    using that
  proof (induction ns arbitrary: ns')
    case Nil
    then show ?case by (cases ns') simp_all
  next
    case (Cons n ns)
    then obtain m ms where "ns' = m # ms" by (cases ns') simp_all
    then show ?case using Cons show_member_eq [of n m ns ms] by simp
  qed
  show ?thesis
  proof (cases "ms = [] \<or> ms' = []")
    case True
    then show ?thesis using assms(3) by (cases ms; cases ms') (simp_all add: show_member_def key_needle_def)
  next
    case False
    then obtain m ns m' ns' where "ms = m # ns" "ms' = m' # ns'" by (meson neq_Nil_conv)
    then show ?thesis using ok assms(3) show_member_eq [of m m' ns ns'] tail [of ns ns'] by simp
  qed
qed

lemma semantic_texts_inj:
  assumes "list_all event_ok as" "list_all event_ok ss" "map (show_object \<circ> semantic) as = map (show_object \<circ> semantic) ss"
  shows "map semantic as = map semantic ss"
proof -
  have "flat_ok (semantic ms)" if "ms \<in> set as \<union> set ss" for ms
    using that assms(1,2) flat_ok_without by (auto simp: semantic_def event_ok_def list_all_iff)
  then have "inj_on show_object (semantic ` (set as \<union> set ss))" by (auto intro!: inj_onI show_object_inj)
  then have "inj_on show_object (set (map semantic as) \<union> set (map semantic ss))" by (simp add: image_Un)
  moreover have "map show_object (map semantic as) = map show_object (map semantic ss)" using assms(3) by simp
  ultimately show ?thesis using map_inj_on by blast
qed

section \<open>Properties\<close>

text \<open>
  C35. On well-formed UTF-8 the comparison returns: no slice of a line falls inside a character.  It reports the first ten
  of the lines that differ, in order, lines past the end of the shorter trace included, and reports nothing exactly
  when the normalized traces are the same.
\<close>

theorem diff_reports_first_differences:
  assumes "utf8_valid a" "utf8_valid s"
  shows "\<exists>as ss. normalize_lines a = Some as \<and> normalize_lines s = Some ss \<and>
    diff_trace_strings a s = Some (take MAX_DIVERGENCES (divergences as ss)) \<and>
    (diff_trace_strings a s = Some [] \<longleftrightarrow> map normalized as = map normalized ss)"
proof -
  obtain as ss where "normalize_lines a = Some as" "normalize_lines s = Some ss"
    using assms normalize_lines_returns by blast
  then show ?thesis using diff_trace_strings_eq divergences_Nil [of as ss] by (simp add: MAX_DIVERGENCES_def)
qed

text \<open>
  C34. Two traces of flat events compare as equal exactly when their events agree in all members but the sequence number
  and the waveform time, and in a \<^verbatim>\<open>meta\<close> event the backend and the tool, and agree in the order of members and events.
\<close>

theorem backends_agree_exactly:
  assumes "list_all event_ok as" "list_all event_ok ss"
  shows "diff_trace_strings (unlines (map show_object as)) (unlines (map show_object ss)) = Some [] \<longleftrightarrow>
    map semantic as = map semantic ss"
proof -
  obtain la ls where l: "normalize_lines (unlines (map show_object as)) = Some la" "map normalized la = map (show_object \<circ> semantic) as"
    "normalize_lines (unlines (map show_object ss)) = Some ls" "map normalized ls = map (show_object \<circ> semantic) ss"
    using normalize_trace assms by metis
  have "diff_trace_strings (unlines (map show_object as)) (unlines (map show_object ss)) = Some [] \<longleftrightarrow> divergences la ls = []"
    using diff_trace_strings_eq [OF l(1,3)] by (simp add: MAX_DIVERGENCES_def)
  also have "\<dots> \<longleftrightarrow> map (show_object \<circ> semantic) as = map (show_object \<circ> semantic) ss" using l by (simp add: divergences_Nil)
  also have "\<dots> \<longleftrightarrow> map semantic as = map semantic ss" using semantic_texts_inj [OF assms] by (metis map_map)
  finally show ?thesis .
qed

definition log_event :: "string \<Rightarrow> string \<Rightarrow> flat_member list" where
  "log_event time msg = [(''type'', Quoted ''log''), (''cycle'', Plain ''3''), (''seq'', Plain ''1''), (''vcd_time'', Plain time),
     (''message'', Quoted msg)]"

lemma log_events_ok: "list_all event_ok [log_event ''30'' ''hi'']" "list_all event_ok [log_event ''33'' ''hi'']"
  "list_all event_ok [log_event ''33'' ''bye'']"
  by code_simp+

theorem diff_reports_first_differences_witness:
  "\<exists>as ss. normalize_lines [] = Some as \<and> normalize_lines ''x'' = Some ss \<and>
    diff_trace_strings [] ''x'' = Some (take MAX_DIVERGENCES (divergences as ss))"
proof -
  have "utf8_valid []" "utf8_valid ''x''" by code_simp+
  from diff_reports_first_differences [OF this] show ?thesis by blast
qed

theorem backends_agree_exactly_witness:
  "diff_trace_strings (unlines [show_object (log_event ''30'' ''hi'')]) (unlines [show_object (log_event ''33'' ''hi'')]) = Some [] \<and>
   diff_trace_strings (unlines [show_object (log_event ''30'' ''hi'')]) (unlines [show_object (log_event ''33'' ''bye'')]) \<noteq> Some []"
proof -
  have "semantic (log_event ''30'' ''hi'') = semantic (log_event ''33'' ''hi'')"
    "semantic (log_event ''30'' ''hi'') \<noteq> semantic (log_event ''33'' ''bye'')" by code_simp+
  then show ?thesis
    using backends_agree_exactly [OF log_events_ok(1,2)] backends_agree_exactly [OF log_events_ok(1,3)] by simp
qed

text \<open>A type that is not ASCII is read as the characters of its bytes.\<close>

lemma event_type_mangled:
  "extract_string_field (show_object [(''type'', Quoted [CHR 0xC3, CHR 0xA9])]) ''type'' = Some [CHR 0xC3, CHR 0x83, CHR 0xC2, CHR 0xA9]"
  by code_simp

end
