(* ===== verification/Spec2Isabelle.thy ===== *)
theory Spec2Isabelle
  imports Numeric_Semantics Exact_Int Source_Span Z3_Semantics Ir_Visit Lower_Coroutine Placement Scalar_Evidence Ir_Verify Verify_Types Arch_Width Addrmap Trace_Print Check_Backends
begin

text \<open>
  Verification of HARC (\<^verbatim>\<open>src/\<close>), a compiler from a hardware verification language to C++ testbenches.

  \<^bold>\<open>The program.\<close>  A HARC source is parsed (\<^verbatim>\<open>parser.rs\<close>), its testbench part is lowered to a testbench IR
  (\<^verbatim>\<open>ir/lower/\<close>), the IR is verified (\<^verbatim>\<open>ir/verify.rs\<close>), passes annotate it (\<^verbatim>\<open>ir/passes/\<close>), and code generation
  (\<^verbatim>\<open>codegen/\<close>) prints C++.  The \<^verbatim>\<open>randomize\<close> constraints take a second path: a typed constraint IR
  (\<^verbatim>\<open>constraints/\<close>), a verifier for it, and a solver backend that prints SMT-LIB text for Z3 (\<^verbatim>\<open>solver/\<close>).  Constants
  are folded by a 64-bit kernel (\<^verbatim>\<open>numeric_semantics.rs\<close>) and by arbitrary-precision integers (\<^verbatim>\<open>exact_int.rs\<close>).  Two
  further commands work on the semantic trace of a run: one merges it into the waveform file (\<^verbatim>\<open>trace_merge.rs\<close>), one
  compares the traces of two simulation backends (\<^verbatim>\<open>check_backends.rs\<close>).

  \<^bold>\<open>The theories\<close>, with the code they model and what they show.

  \<^item> \<open>Harc_Prelude\<close>: machine integers, the result type of fallible code with \<open>try_bind\<close> for Rust's question mark, decimal
    numerals.  \<open>Btree_Map\<close>: ordered maps as sorted association lists, behind the locale \<open>ordered_map\<close>.  \<open>Rust_Text\<close>: the
    standard library's strings as UTF-8 bytes, lines, trimming and number parsing.
  \<^item> \<open>Numeric_Semantics\<close> (\<^verbatim>\<open>numeric_semantics.rs\<close>): \<open>fold_binary\<close> on 64-bit words is defined exactly where the integer
    result is, and returns it; the signedness policy of the solver is C++ promotion.
  \<^item> \<open>Exact_Mag\<close>, \<open>Exact_Int\<close> (\<^verbatim>\<open>exact_int.rs\<close>): the loops over 32-bit limbs and the signed layer on them.  The locale
    \<open>magnitude\<close> states what the signed layer needs of the limb loops.  Every operation is the integer operation and keeps the
    canonical form; the display loop prints the decimal numeral.  Bit counts are naturals; the operations that count bits
    have a second form, with the suffix 32, in the checked \<^verbatim>\<open>u32\<close> arithmetic of the source.  The two agree while a count
    fits 32 bits, and a division beyond that overflows.
  \<^item> \<open>Source_Span\<close> (\<^verbatim>\<open>Span\<close> of \<^verbatim>\<open>lexer.rs\<close>): saturating 32-bit offsets and the hull of two spans.
  \<^item> \<open>Typed_Constraints\<close>, \<open>Typed_Verify\<close> (\<^verbatim>\<open>constraints/typed.rs\<close>, \<^verbatim>\<open>constraints/typed_verify.rs\<close>): the verifier with its
    error list is sound and complete for declarative typing rules; the locale \<open>checks\<close> is the contract of each of its steps.
  \<^item> \<open>Z3_Lowering\<close>, \<open>Z3_Semantics\<close> (\<^verbatim>\<open>solver/mod.rs\<close>, \<^verbatim>\<open>solver/z3.rs\<close>): the printed text, and a semantics of SMT-LIB
    bit-vector terms in which it means what the constraint means.  The locale \<open>solver_backend\<close> is the boundary.
  \<^item> \<open>Ir_Types\<close>, \<open>Ir_Syntax\<close>, \<open>Ir_Visit\<close> (\<^verbatim>\<open>ir/mod.rs\<close>, \<^verbatim>\<open>ir/visit.rs\<close>): the data of the testbench IR, all expressions,
    statements and terminators, and the six families of visitors; the locale \<open>traversal\<close> states once what the shared and
    the mutable visitor of a node type owe each other.
  \<^item> \<open>Scalar_Evidence\<close> (\<^verbatim>\<open>ir/scalar.rs\<close>): what is known of a scalar without annotations; exact values are values.
  \<^item> \<open>Literal_Fit\<close> (untyped literals of \<^verbatim>\<open>ir/lower/exprs.rs\<close>): literal trees are evaluated with the exact integers.  The
    evaluation is integer arithmetic and a value written as a literal reads back, both while the bit counts fit 32 bits, and lowering and verifier agree on which
    literals fit a type.  \<open>Arch_Width\<close> (the same file): the width inferred for an expression holds its value, under stated
    restrictions on operators and signs.  \<open>Verify_Types\<close> (\<^verbatim>\<open>ir/verify.rs\<close>, \<^verbatim>\<open>ir/lower/components_impl.rs\<close>): the verifier's judgements on types;
    accepted defaults are values of their field, and accepted transfers keep values.
  \<^item> \<open>Regblock\<close> (\<^verbatim>\<open>ir/lower/regblock.rs\<close>): register blocks.  A declaration becomes tables of registers and bit fields; accesses
    become statements on a mirror record and calls of a bus helper.  A machine with 64-bit cells and a device runs these
    statements: field writes read back and disturb no other field, resets read back, and the walk over all registers
    passes exactly on a device that keeps what it is given.  \<open>Addrmap\<close> (\<^verbatim>\<open>ir/lower/addrmap.rs\<close>): instances of register blocks at
    base addresses; accepted maps have disjoint windows, and an access path resolves to the right address and mirror.
  \<^item> \<open>Bit_Set\<close>, \<open>Must_Flow\<close>, \<open>Ir_Verify\<close> (\<^verbatim>\<open>ir/verify.rs\<close>): the control-flow checks of the IR verifier.  \<open>Must_Flow\<close> is the
    theory of forward must-analysis, as a locale; the bit-vector iteration of the code is an instance.  Against reads
    and definitions stated apart from the code, the definite assignment check reports every read that some path reaches without
    a definition, outside the places it passes over (\<open>reads_checked\<close>), and nothing else, where no definition is one it
    loses at the end of a block (\<open>definitions_kept\<close>).
  \<^item> \<open>Lower_Coroutine\<close> (\<^verbatim>\<open>ir/passes/lower_coroutine.rs\<close>): the pass that turns a function with suspensions into the
    table of a state machine, against the small-step behaviour of the control-flow graph.
  \<^item> \<open>Placement\<close> (\<^verbatim>\<open>ir/passes/placement.rs\<close>): the pass that gives every block a tier and a timing class and checks it
    against a target profile.  It diagnoses a program exactly when the profile cannot execute one of its blocks, outside
    two places its scan passes over, and the table is the classification of every block, in order.
  \<^item> \<open>Trace_Json\<close>, \<open>Trace_Merge\<close>, \<open>Trace_Walk\<close>, \<open>Trace_Readback\<close> (\<^verbatim>\<open>trace_merge.rs\<close>): the JSON reader and printer, the
    merger, the facts about its walk, and its properties: order of lines and times, lanes and tables that read back,
    fresh identifiers (the locale \<open>fresh_supply\<close>), and exactly when it fails.  \<open>Trace_Print\<close>: a printer of trace records, which
    the reader of the merger reads back.
  \<^item> \<open>Check_Backends\<close> (\<^verbatim>\<open>check_backends.rs\<close>): the comparison of the traces of two backends.  It never slices inside a
    character, reports the first ten lines that differ, and finds no difference exactly when the events agree outside the
    members that are noise of a backend.
  \<^item> this theory: the verifier and the coroutine pass together.

  \<^bold>\<open>Conventions.\<close>  An operation has the name of the Rust function, with its type first where two types have a function of
  the same name; records have the fields of the structs.  A panic is \<open>None\<close> or an error value of its own; a loop that could
  run for ever is a \<open>partial_function (option)\<close>, and the theorems state that it returns.  Every other loop is a
  function with a termination proof, so no bound is assumed for it.  Hash maps are maps, and ordered maps keep their order
  where the code prints or walks them.  Lengths and indices are naturals: a list of \<open>2\<^sup>6\<^sup>4\<close> elements does not exist.

  \<^bold>\<open>Not modelled.\<close>  The command line driver, diagnostics and file access (input and output); the lexer, which a macro
  generates, the parser and the pretty printer; the lowering of surface syntax to the typed constraints and to the testbench IR, but
  for literals, expression widths, register blocks and address maps; the checks of the IR verifier over whole programs other
  than the control-flow part; the passes other than the coroutine and the placement pass; code generation, whose result is
  C++ text for a run-time library outside this repository's Rust; the developer tools other than the trace merger and the
  trace comparison.  In \<^verbatim>\<open>ir/mod.rs\<close> the schemas of components and scoreboards are left out: no modelled operation reads them.
\<close>

section \<open>From the verifier to the coroutine tables\<close>

lemma verified_in_range: "verify_control_flow prog f = Some [] \<Longrightarrow> blocks_in_range f"
  using verify_control_flow_verdict [of prog f] by (auto simp: control_flow_ok_def)

text \<open>
  C6.  A function that passes the control-flow checks of the verifier can be lowered: the coroutine pass
  either reports a real loop without a suspension, or returns a table in which every state can always go on,
  whatever the outcomes of the branch conditions.  It does not panic.
\<close>

theorem verified_function_lowers:
  assumes "verify_control_flow prog f = Some []"
  shows "(\<exists>states ts. tag_function f = Ok (states, ts) \<and>
      (\<forall>s < length states. \<forall>outcome. \<exists>t \<in> set ts. tr_from t = s \<and> follows outcome (guard t))) \<or>
    (\<exists>s \<in> resume_points f. \<exists>c. tag_function f = Err (Failed (UnsuspendedLoop (fn_id f) (fn_name f) c)) \<and>
      (zero_step f)\<^sup>*\<^sup>* s c \<and> (zero_step f)\<^sup>+\<^sup>+ c c)"
proof (cases "tag_function f")
  case (Inl e)
  then show ?thesis using tag_function_verdict [OF verified_in_range [OF assms]] by blast
next
  case (Inr r)
  then obtain states ts where "tag_function f = Ok (states, ts)" by (cases r) auto
  with coroutine_progress [OF verified_in_range [OF assms] this] show ?thesis by blast
qed

theorem verified_function_lowers_witness:
  "verify_control_flow (example_program []) example_index = Some [] \<and>
   (\<exists>states ts. tag_function example_index = Ok (states, ts) \<and> (\<exists>t \<in> set ts. tr_from t = 0 \<and> follows (\<lambda>_. True) (guard t)))"
proof -
  have ok: "verify_control_flow (example_program []) example_index = Some []"
    using record_index_unchecked by simp
  have tag: "tag_function example_index = Ok ([0], [\<lparr>tr_from = 0, guard = [], trigger = Done, tr_to = None\<rparr>])"
    by code_simp
  from verified_function_lowers [OF ok] ok tag show ?thesis by auto
qed

end
